(* ===== verification/Prelude.thy ===== *)
theory Prelude
  imports Main "HOL-Library.Word"
begin

text \<open>
  Shared groundwork of the library.  It fixes the machine integer types, the outcome of running a
  piece of kernel code (a value and a new state, a \<^verbatim>\<open>panic\<close>, an endless spin on a lock, or a
  switch to the scheduler), the combinators that sequence such code, the table scans that the
  kernel writes as \<^verbatim>\<open>for\<close> loops over fixed arrays, and the generic lemmas the components rely on.
\<close>

type_synonym byte = "8 word"
type_synonym u16 = "16 word"
type_synonym u32 = "32 word"

named_theorems kdefs "equations of the sequencing combinators"
named_theorems frame "what an operation leaves unchanged"

section \<open>Outcomes of kernel code\<close>

text \<open>
  \<open>Panic\<close> carries the string given to \<^verbatim>\<open>panic\<close>; \<open>Spin\<close> is the busy-wait loop of \<^verbatim>\<open>acquire\<close> on a lock
  that another CPU holds; \<open>Blocked\<close> is control having passed to the scheduler (\<^verbatim>\<open>sched\<close>), with the
  state at that moment; \<open>Fault\<close> is a step the C program does not define, such as following a null
  pointer.
\<close>

datatype ('s, 'a) outcome =
    Ret 'a 's
  | Panic string
  | Spin
  | Blocked 's
  | Fault

type_synonym ('s, 'a) K = "'s \<Rightarrow> ('s, 'a) outcome"

definition kret :: "'a \<Rightarrow> ('s, 'a) K" where
  "kret a s = Ret a s"

definition kpanic :: "string \<Rightarrow> ('s, 'a) K" where
  "kpanic msg s = Panic msg"

definition kfault :: "('s, 'a) K" where
  "kfault s = Fault"

definition kget :: "('s \<Rightarrow> 'a) \<Rightarrow> ('s, 'a) K" where
  "kget f s = Ret (f s) s"

definition kmod :: "('s \<Rightarrow> 's) \<Rightarrow> ('s, unit) K" where
  "kmod f s = Ret () (f s)"

definition kbind :: "('s, 'a) K \<Rightarrow> ('a \<Rightarrow> ('s, 'b) K) \<Rightarrow> ('s, 'b) K" where
  "kbind m f s =
     (case m s of
        Ret a t \<Rightarrow> f a t
      | Panic msg \<Rightarrow> Panic msg
      | Spin \<Rightarrow> Spin
      | Blocked t \<Rightarrow> Blocked t
      | Fault \<Rightarrow> Fault)"

definition kthen :: "('s, 'a) K \<Rightarrow> ('s, 'b) K \<Rightarrow> ('s, 'b) K" where
  "kthen m n = kbind m (\<lambda>_. n)"

definition kwhen :: "bool \<Rightarrow> ('s, unit) K \<Rightarrow> ('s, unit) K" where
  "kwhen b m = (if b then m else kret ())"

definition kderef :: "'p option \<Rightarrow> ('p \<Rightarrow> ('s, 'a) K) \<Rightarrow> ('s, 'a) K" where
  "kderef p f = (case p of None \<Rightarrow> kfault | Some x \<Rightarrow> f x)"

primrec kfor :: "'i list \<Rightarrow> ('i \<Rightarrow> ('s, unit) K) \<Rightarrow> ('s, unit) K" where
  "kfor [] body = kret ()"
| "kfor (i # is) body = kthen (body i) (kfor is body)"

primrec kseq :: "('s, unit) K list \<Rightarrow> ('s, unit) K" where
  "kseq [] = kret ()"
| "kseq (m # ms) = kthen m (kseq ms)"

text \<open>A loop whose body may return from the function (\<open>Some r\<close>) or go on (\<open>None\<close>).\<close>

primrec kfor_ret :: "'i list \<Rightarrow> ('i \<Rightarrow> ('s, 'r option) K) \<Rightarrow> ('s, 'r option) K" where
  "kfor_ret [] body = kret None"
| "kfor_ret (i # is) body =
     kbind (body i) (\<lambda>r. case r of None \<Rightarrow> kfor_ret is body | Some x \<Rightarrow> kret (Some x))"

primrec kreplicate :: "nat \<Rightarrow> ('s, 'a) K \<Rightarrow> ('s, 'a list) K" where
  "kreplicate 0 m = kret []"
| "kreplicate (Suc n) m = kbind m (\<lambda>x. kbind (kreplicate n m) (\<lambda>xs. kret (x # xs)))"

lemma kbind_Ret_iff:
  "kbind m f s = Ret b u \<longleftrightarrow> (\<exists>a t. m s = Ret a t \<and> f a t = Ret b u)"
  by (auto simp: kbind_def split: outcome.splits)

lemma kbind_RetE:
  assumes "kbind m f s = Ret b u"
  obtains a t where "m s = Ret a t" and "f a t = Ret b u"
  using assms by (auto simp: kbind_Ret_iff)

lemma kthen_Ret_iff:
  "kthen m n s = Ret b u \<longleftrightarrow> (\<exists>a t. m s = Ret a t \<and> n t = Ret b u)"
  by (simp add: kthen_def kbind_Ret_iff)

lemma kret_apply [simp]: "kret a s = Ret a s"
  by (simp add: kret_def)

lemma kpanic_apply [simp]: "kpanic msg s = Panic msg"
  by (simp add: kpanic_def)

lemma kfault_apply [simp]: "kfault s = Fault"
  by (simp add: kfault_def)

lemma kget_apply [simp]: "kget f s = Ret (f s) s"
  by (simp add: kget_def)

lemma kmod_apply [simp]: "kmod f s = Ret () (f s)"
  by (simp add: kmod_def)

lemma kbind_apply [kdefs]:
  "kbind m f s =
     (case m s of Ret a t \<Rightarrow> f a t | Panic msg \<Rightarrow> Panic msg | Spin \<Rightarrow> Spin | Blocked t \<Rightarrow> Blocked t
      | Fault \<Rightarrow> Fault)"
  by (simp add: kbind_def)

lemma kthen_apply [kdefs]:
  "kthen m n s =
     (case m s of Ret a t \<Rightarrow> n t | Panic msg \<Rightarrow> Panic msg | Spin \<Rightarrow> Spin | Blocked t \<Rightarrow> Blocked t
      | Fault \<Rightarrow> Fault)"
  by (simp add: kthen_def kbind_def)

lemma if_apply [kdefs]: "(if b then m else n) s = (if b then m s else n s)"
  by simp

lemma kwhen_apply [kdefs]: "kwhen b m s = (if b then m s else Ret () s)"
  by (simp add: kwhen_def)

lemma kderef_simps [simp]: "kderef None f = kfault" "kderef (Some x) f = f x"
  by (simp_all add: kderef_def)

lemma kfor_apply [kdefs]:
  "kfor (i # is) body s =
     (case body i s of Ret a t \<Rightarrow> kfor is body t | Panic msg \<Rightarrow> Panic msg | Spin \<Rightarrow> Spin | Blocked t \<Rightarrow> Blocked t
      | Fault \<Rightarrow> Fault)"
  by (simp add: kthen_apply)

lemma kfor_ret_Ret_None: "body i s = Ret None t \<Longrightarrow> kfor_ret (i # is) body s = kfor_ret is body t"
  by (simp add: kbind_apply)

lemma kfor_ret_Ret_Some: "body i s = Ret (Some x) t \<Longrightarrow> kfor_ret (i # is) body s = Ret (Some x) t"
  by (simp add: kbind_apply)

text \<open>
  A partial-correctness triple: whatever the code returns from a state satisfying \<open>P\<close> satisfies
  \<open>Q\<close>.  Panics, spins and switches are outside it; theorems that need the code to return state so
  separately.
\<close>

definition returns_in :: "('s \<Rightarrow> bool) \<Rightarrow> ('s, 'a) K \<Rightarrow> ('a \<Rightarrow> 's \<Rightarrow> bool) \<Rightarrow> bool" where
  "returns_in P m Q \<longleftrightarrow> (\<forall>s a t. P s \<longrightarrow> m s = Ret a t \<longrightarrow> Q a t)"

lemma returns_inI: "(\<And>s a t. P s \<Longrightarrow> m s = Ret a t \<Longrightarrow> Q a t) \<Longrightarrow> returns_in P m Q"
  by (auto simp: returns_in_def)

lemma returns_inD: "returns_in P m Q \<Longrightarrow> P s \<Longrightarrow> m s = Ret a t \<Longrightarrow> Q a t"
  by (auto simp: returns_in_def)

lemma returns_in_bind:
  "returns_in P m R \<Longrightarrow> (\<And>a. returns_in (R a) (f a) Q) \<Longrightarrow> returns_in P (kbind m f) Q"
  unfolding returns_in_def kbind_Ret_iff by blast

lemma returns_in_then:
  "returns_in P m (\<lambda>_. R) \<Longrightarrow> returns_in R n Q \<Longrightarrow> returns_in P (kthen m n) Q"
  unfolding returns_in_def kthen_Ret_iff by blast

lemma returns_in_kfor:
  "(\<And>i. i \<in> set is \<Longrightarrow> returns_in P (body i) (\<lambda>_. P)) \<Longrightarrow> returns_in P (kfor is body) (\<lambda>_. P)"
proof (induction "is")
  case Nil
  then show ?case by (simp add: returns_in_def)
next
  case (Cons i "is")
  then show ?case by (auto intro: returns_in_then)
qed

section \<open>Scans over fixed tables\<close>

text \<open>
  \<open>find_idx P xs\<close> is the loop \<^verbatim>\<open>for(p = tab; p < &tab[N]; p++) if(P(p)) goto found;\<close>: the index of the
  first entry satisfying \<open>P\<close>.
\<close>

primrec find_idx :: "('a \<Rightarrow> bool) \<Rightarrow> 'a list \<Rightarrow> nat option" where
  "find_idx P [] = None"
| "find_idx P (x # xs) = (if P x then Some 0 else map_option Suc (find_idx P xs))"

lemma find_idx_None_iff [simp]: "find_idx P xs = None \<longleftrightarrow> (\<forall>x\<in>set xs. \<not> P x)"
  by (induction xs) auto

lemma find_idx_SomeD:
  "find_idx P xs = Some i \<Longrightarrow> i < length xs \<and> P (xs ! i) \<and> (\<forall>j<i. \<not> P (xs ! j))"
proof (induction xs arbitrary: i)
  case Nil
  then show ?case by simp
next
  case (Cons x xs)
  show ?case
  proof (cases "P x")
    case True
    with Cons.prems show ?thesis by simp
  next
    case False
    with Cons.prems obtain k where k: "find_idx P xs = Some k" "i = Suc k" by auto
    from Cons.IH[OF k(1)] k(2) False show ?thesis by (auto simp: nth_Cons split: nat.splits)
  qed
qed

lemma find_idx_less: "find_idx P xs = Some i \<Longrightarrow> i < length xs"
  by (simp add: find_idx_SomeD)

lemma find_idx_sat: "find_idx P xs = Some i \<Longrightarrow> P (xs ! i)"
  by (simp add: find_idx_SomeD)

lemma find_idx_eqI:
  "i < length xs \<Longrightarrow> P (xs ! i) \<Longrightarrow> (\<And>j. j < i \<Longrightarrow> \<not> P (xs ! j)) \<Longrightarrow> find_idx P xs = Some i"
proof (induction xs arbitrary: i)
  case Nil
  then show ?case by simp
next
  case (Cons x xs)
  show ?case
  proof (cases i)
    case 0
    with Cons.prems show ?thesis by simp
  next
    case (Suc k)
    have "\<not> P x" using Cons.prems(3)[of 0] Suc by simp
    moreover have "find_idx P xs = Some k"
    proof (rule Cons.IH)
      show "k < length xs" "P (xs ! k)" using Cons.prems Suc by simp_all
      show "\<not> P (xs ! j)" if "j < k" for j using Cons.prems(3)[of "Suc j"] Suc that by simp
    qed
    ultimately show ?thesis using Suc by simp
  qed
qed

lemma find_idx_Some_ex: "x \<in> set xs \<Longrightarrow> P x \<Longrightarrow> \<exists>i. find_idx P xs = Some i"
  by (induction xs) auto

lemma find_idx_cong_map:
  "(\<And>i. i < length xs \<Longrightarrow> P (xs ! i) = Q (ys ! i)) \<Longrightarrow> length xs = length ys \<Longrightarrow>
   find_idx P xs = find_idx Q ys"
proof (induction xs arbitrary: ys)
  case Nil
  then show ?case by simp
next
  case (Cons x xs)
  then obtain y ys' where ys: "ys = y # ys'" by (cases ys) auto
  have "P x = Q y" using Cons.prems(1)[of 0] ys by simp
  moreover have "find_idx P xs = find_idx Q ys'"
  proof (rule Cons.IH)
    show "P (xs ! i) = Q (ys' ! i)" if "i < length xs" for i
      using Cons.prems(1)[of "Suc i"] ys that by simp
    show "length xs = length ys'" using Cons.prems(2) ys by simp
  qed
  ultimately show ?case using ys by simp
qed

section \<open>Lists used as arrays\<close>

lemma nth_list_update_if:
  "i < length xs \<Longrightarrow> (xs[i := v]) ! j = (if i = j then v else xs ! j)"
  by (simp add: nth_list_update)

lemma in_set_list_updateD: "x \<in> set (xs[i := v]) \<Longrightarrow> x = v \<or> x \<in> set xs"
  using set_update_subset_insert by fastforce

lemma ball_list_update: "(\<forall>x\<in>set xs. P x) \<Longrightarrow> P v \<Longrightarrow> (\<forall>x\<in>set (xs[i := v]). P x)"
  by (auto dest: in_set_list_updateD)

section \<open>Machine integers\<close>

lemma unat_u32_bound: "unat (x :: u32) < 4294967296"
  using unsigned_less[of x, where ?'a = nat] by simp

lemma uint_eq_sint: "0 \<le> sint (x :: u32) \<Longrightarrow> uint x = sint x"
proof -
  assume "0 \<le> sint x"
  then have nb: "\<not> bit (uint x) 31" by (simp add: sint_uint)
  have "uint x = take_bit (Suc 31) (uint x)"
    using uint_lt2p[of x] by (simp add: take_bit_int_eq_self)
  also have "\<dots> = take_bit 31 (uint x)" using nb unfolding take_bit_Suc_from_most by simp
  also have "\<dots> = sint x" using nb by (simp add: sint_uint signed_take_bit_eq_if_positive)
  finally show ?thesis .
qed

lemma sint_unat: "unat (x :: u32) < 2 ^ 31 \<Longrightarrow> sint x = int (unat x)"
proof -
  assume "unat x < 2 ^ 31"
  then have "int (unat x) < int (2 ^ 31)" by (simp only: of_nat_less_iff)
  then have "uint x < 2 ^ 31" by simp
  moreover have "0 \<le> uint x" by simp
  ultimately have "signed_take_bit 31 (uint x) = uint x" by (intro signed_take_bit_int_eq_self) linarith+
  then show ?thesis by (simp add: sint_uint)
qed

text \<open>The values that a C \<^verbatim>\<open>int\<close> has.\<close>

definition in_int :: "int \<Rightarrow> bool" where
  "in_int x \<longleftrightarrow> - 2147483648 \<le> x \<and> x \<le> 2147483647"

text \<open>The value of a C \<^verbatim>\<open>int\<close> after an operation with the mathematical result \<open>x\<close>.\<close>

definition int32 :: "int \<Rightarrow> int" where
  "int32 x = sint (of_int x :: u32)"

lemma int32_small: "in_int x \<Longrightarrow> int32 x = x"
  by (simp add: in_int_def int32_def int_word_sint)

section \<open>Critical sections\<close>

text \<open>
  What code relies on when it brackets its work by an acquire and a release: from a state that is
  \<open>ok\<close> the first returns in \<open>ent\<close> of that state, and the second, called in \<open>ent\<close> of an \<open>ok\<close> state,
  returns in \<open>fin\<close> of it, which is \<open>ok\<close> again.
\<close>

locale critical =
  fixes acq :: "('s, unit) K" and rel :: "('s, unit) K"
    and ent :: "'s \<Rightarrow> 's" and fin :: "'s \<Rightarrow> 's" and ok :: "'s \<Rightarrow> bool"
  assumes acq_ok: "ok s \<Longrightarrow> acq s = Ret () (ent s)"
    and rel_ok: "ok s \<Longrightarrow> rel (ent s) = Ret () (fin s)"
    and ok_fin: "ok s \<Longrightarrow> ok (fin s)"
begin

lemma guarded:
  assumes "ok s" "body (ent s) = Ret a (ent t)" "ok t"
  shows "kthen acq (kbind body (\<lambda>a. kthen rel (kret a))) s = Ret a (fin t)"
  using assms by (simp add: kdefs acq_ok rel_ok)

lemma guarded_ok:
  assumes "ok s" "body (ent s) = Ret a (ent t)" "ok t"
  shows "\<exists>u. kthen acq (kbind body (\<lambda>a. kthen rel (kret a))) s = Ret a u \<and> ok u"
  using assms by (simp add: kdefs acq_ok rel_ok ok_fin)

lemma empty_section: "ok s \<Longrightarrow> kthen acq rel s = Ret () (fin s)"
  by (simp add: kdefs acq_ok rel_ok)

end

end
