(* ===== verification/Spinlock.thy ===== *)
theory Spinlock
  imports Prelude
begin

text \<open>
  Spin locks and interrupt masking (\<^verbatim>\<open>spinlock.c\<close>, \<^verbatim>\<open>spinlock.h\<close>, and \<^verbatim>\<open>mycpu\<close> of \<^verbatim>\<open>proc.c\<close>).
\<close>

datatype slid = SLbuf nat | SLinode nat

datatype lockid =
    Lptable | Lbcache | Llog | Licache | Lftable | Lkmem | Lide | Lcons | Ltick
  | Lpipe nat | Lsleep slid

record spinlock =
  locked :: bool
  lk_cpu :: "nat option"

record cpu =
  apicid :: nat
  ncli :: int
  intena :: bool
  cproc :: "nat option"

record hw =
  cpus :: "cpu list"
  lapicid :: nat
  ifl :: "nat \<Rightarrow> bool"
  locks :: "lockid \<Rightarrow> spinlock"

definition freelock :: spinlock where
  "freelock = \<lparr>locked = False, lk_cpu = None\<rparr>"

definition initlock :: "lockid \<Rightarrow> (hw, unit) K" where
  "initlock lk = kmod (\<lambda>h. h\<lparr>locks := (locks h)(lk := freelock)\<rparr>)"

definition readeflags_if :: "hw \<Rightarrow> bool" where
  "readeflags_if h = ifl h (lapicid h)"

definition cli :: "(hw, unit) K" where
  "cli = kmod (\<lambda>h. h\<lparr>ifl := (ifl h)(lapicid h := False)\<rparr>)"

definition sti :: "(hw, unit) K" where
  "sti = kmod (\<lambda>h. h\<lparr>ifl := (ifl h)(lapicid h := True)\<rparr>)"

definition mycpu :: "(hw, nat) K" where
  "mycpu h =
     (if readeflags_if h then Panic (''mycpu called with interrupts enabled'' @ [CHR 0x0A])
      else case find_idx (\<lambda>c. apicid c = lapicid h) (cpus h) of
             Some i \<Rightarrow> Ret i h
           | None \<Rightarrow> Panic (''unknown apicid'' @ [CHR 0x0A]))"

definition upd_cpu :: "nat \<Rightarrow> (cpu \<Rightarrow> cpu) \<Rightarrow> hw \<Rightarrow> hw" where
  "upd_cpu i f h = h\<lparr>cpus := (cpus h)[i := f (cpus h ! i)]\<rparr>"

definition pushcli :: "(hw, unit) K" where
  "pushcli =
     kbind (kget readeflags_if) (\<lambda>eflags.
     kthen cli (
     kbind mycpu (\<lambda>c.
     kbind (kget cpus) (\<lambda>cs.
     kthen (kwhen (ncli (cs ! c) = 0) (kmod (upd_cpu c (\<lambda>x. x\<lparr>intena := eflags\<rparr>))))
       (kmod (upd_cpu c (\<lambda>x. x\<lparr>ncli := ncli x + 1\<rparr>)))))))"

definition popcli :: "(hw, unit) K" where
  "popcli =
     kbind (kget readeflags_if) (\<lambda>eflags.
     if eflags then kpanic ''popcli - interruptible''
     else
       kbind mycpu (\<lambda>c.
       kthen (kmod (upd_cpu c (\<lambda>x. x\<lparr>ncli := ncli x - 1\<rparr>)))
         (kbind (kget (\<lambda>h. cpus h ! c)) (\<lambda>x.
          if ncli x < 0 then kpanic ''popcli''
          else kwhen (ncli x = 0 \<and> intena x) sti))))"

definition holding :: "lockid \<Rightarrow> (hw, bool) K" where
  "holding lk =
     kbind (kget (\<lambda>h. locks h lk)) (\<lambda>l.
     if locked l then kbind mycpu (\<lambda>c. kret (lk_cpu l = Some c)) else kret False)"

definition xchg_locked :: "lockid \<Rightarrow> (hw, bool) K" where
  "xchg_locked lk h = Ret (locked (locks h lk)) (h\<lparr>locks := (locks h)(lk := (locks h lk)\<lparr>locked := True\<rparr>)\<rparr>)"

definition acquire :: "lockid \<Rightarrow> (hw, unit) K" where
  "acquire lk =
     kthen pushcli (
     kbind (holding lk) (\<lambda>hd.
     if hd then kpanic ''acquire''
     else kbind (xchg_locked lk) (\<lambda>old.
       if old then (\<lambda>_. Spin)
       else kbind mycpu (\<lambda>c.
         kmod (\<lambda>h. h\<lparr>locks := (locks h)(lk := (locks h lk)\<lparr>lk_cpu := Some c\<rparr>)\<rparr>)))))"

definition release :: "lockid \<Rightarrow> (hw, unit) K" where
  "release lk =
     kbind (holding lk) (\<lambda>hd.
     if \<not> hd then kpanic ''release''
     else
       kthen (kmod (\<lambda>h. h\<lparr>locks := (locks h)(lk := (locks h lk)\<lparr>lk_cpu := None\<rparr>)\<rparr>)) (
       kthen (kmod (\<lambda>h. h\<lparr>locks := (locks h)(lk := (locks h lk)\<lparr>locked := False\<rparr>)\<rparr>))
         popcli))"

section \<open>The critical section seen from the CPU that runs it\<close>

definition this_cpu :: "hw \<Rightarrow> nat option" where
  "this_cpu h = find_idx (\<lambda>c. apicid c = lapicid h) (cpus h)"

text \<open>
  What a well-behaved CPU keeps: it is in the table, its nesting count is not negative, and
  interrupts are off while it is positive.  The saved flag \<^verbatim>\<open>intena\<close> is stale while the count is
  zero; \<open>settle\<close> is the state in which it has been refreshed, which is what a balanced
  \<^verbatim>\<open>pushcli\<close>/\<^verbatim>\<open>popcli\<close> pair leaves behind.
\<close>

definition hwgood :: "hw \<Rightarrow> bool" where
  "hwgood h \<longleftrightarrow>
     (case this_cpu h of
        None \<Rightarrow> False
      | Some i \<Rightarrow> 0 \<le> ncli (cpus h ! i) \<and> (0 < ncli (cpus h ! i) \<longrightarrow> \<not> readeflags_if h))"

definition settle :: "hw \<Rightarrow> hw" where
  "settle h =
     (let i = the (this_cpu h) in
      if ncli (cpus h ! i) = 0 then upd_cpu i (\<lambda>c. c\<lparr>intena := readeflags_if h\<rparr>) h else h)"

definition lkfree :: "lockid \<Rightarrow> hw \<Rightarrow> bool" where
  "lkfree lk h \<longleftrightarrow> locks h lk = freelock"

definition pushed :: "hw \<Rightarrow> hw" where
  "pushed h =
     (let i = the (this_cpu h) in
      upd_cpu i (\<lambda>c. c\<lparr>ncli := ncli c + 1\<rparr>) ((settle h)\<lparr>ifl := (ifl h)(lapicid h := False)\<rparr>))"

definition enter :: "lockid \<Rightarrow> hw \<Rightarrow> hw" where
  "enter lk h =
     (pushed h)\<lparr>locks := (locks h)(lk := \<lparr>locked = True, lk_cpu = this_cpu h\<rparr>)\<rparr>"

lemma find_idx_upd_apicid:
  "apicid c = apicid (cs ! i) \<Longrightarrow>
   find_idx (\<lambda>c. apicid c = a) (cs[i := c]) = find_idx (\<lambda>c. apicid c = a) cs"
  by (rule find_idx_cong_map) (metis nth_list_update_eq nth_list_update_neq length_list_update, simp)

lemma upd_cpu_simps [simp]:
  "locks (upd_cpu i f h) = locks h" "ifl (upd_cpu i f h) = ifl h" "lapicid (upd_cpu i f h) = lapicid h"
  "length (cpus (upd_cpu i f h)) = length (cpus h)"
  by (simp_all add: upd_cpu_def)

lemma this_cpu_upd_cpu [simp]:
  "(\<And>c. apicid (f c) = apicid c) \<Longrightarrow> this_cpu (upd_cpu i f h) = this_cpu h"
  by (simp add: this_cpu_def upd_cpu_def find_idx_upd_apicid)

lemma this_cpu_upd_rest [simp]:
  "this_cpu (h\<lparr>ifl := f\<rparr>) = this_cpu h" "this_cpu (h\<lparr>locks := l\<rparr>) = this_cpu h"
  by (simp_all add: this_cpu_def)

lemma settle_simps [simp]:
  "this_cpu (settle h) = this_cpu h" "locks (settle h) = locks h" "ifl (settle h) = ifl h"
  "lapicid (settle h) = lapicid h" "length (cpus (settle h)) = length (cpus h)"
  "readeflags_if (settle h) = readeflags_if h"
  by (simp_all add: settle_def Let_def readeflags_if_def)

lemma this_cpu_pushed [simp]: "this_cpu (pushed h) = this_cpu h"
  by (simp add: pushed_def Let_def)

lemma hwgoodE:
  assumes "hwgood h"
  obtains i where "this_cpu h = Some i" "i < length (cpus h)" "apicid (cpus h ! i) = lapicid h"
    "0 \<le> ncli (cpus h ! i)" "0 < ncli (cpus h ! i) \<Longrightarrow> \<not> readeflags_if h"
  using assms find_idx_SomeD[of "\<lambda>c. apicid c = lapicid h" "cpus h"]
  by (auto simp: hwgood_def this_cpu_def split: option.splits)

lemma settle_ncli: "this_cpu h = Some i \<Longrightarrow> i < length (cpus h) \<Longrightarrow> ncli (cpus (settle h) ! i) = ncli (cpus h ! i)"
  by (simp add: settle_def upd_cpu_def)

lemma settle_intena:
  "this_cpu h = Some i \<Longrightarrow> i < length (cpus h) \<Longrightarrow> ncli (cpus h ! i) = 0 \<Longrightarrow>
   intena (cpus (settle h) ! i) = readeflags_if h"
  by (simp add: settle_def upd_cpu_def)

lemma mycpu_off: "\<not> readeflags_if h \<Longrightarrow> this_cpu h = Some i \<Longrightarrow> mycpu h = Ret i h"
  by (simp add: mycpu_def this_cpu_def)

lemma pushed_simps [simp]:
  "locks (pushed h) = locks h" "lapicid (pushed h) = lapicid h" "\<not> readeflags_if (pushed h)"
  "length (cpus (pushed h)) = length (cpus h)"
  by (simp_all add: pushed_def readeflags_if_def Let_def)

lemma pushcli_good:
  assumes "hwgood h"
  shows "pushcli h = Ret () (pushed h)"
proof -
  obtain i where i: "this_cpu h = Some i" "i < length (cpus h)"
    using assms by (rule hwgoodE)
  let ?h = "h\<lparr>ifl := (ifl h)(lapicid h := False)\<rparr>"
  have m: "mycpu ?h = Ret i ?h" using i(1) by (simp add: mycpu_off readeflags_if_def)
  show ?thesis
    using i by (cases "ncli (cpus h ! i) = 0")
      (simp_all add: kdefs pushcli_def cli_def m pushed_def settle_def upd_cpu_def)
qed

lemma popcli_pushed:
  assumes "hwgood h"
  shows "popcli ((pushed h)\<lparr>locks := L\<rparr>) = Ret () ((settle h)\<lparr>locks := L\<rparr>)"
proof -
  obtain i where i: "this_cpu h = Some i" "i < length (cpus h)" "0 \<le> ncli (cpus h ! i)"
    "0 < ncli (cpus h ! i) \<Longrightarrow> \<not> readeflags_if h"
    using assms by (rule hwgoodE) blast
  let ?h = "(pushed h)\<lparr>locks := L\<rparr>"
  let ?g = "(settle h)\<lparr>ifl := (ifl h)(lapicid h := False), locks := L\<rparr>"
  have off: "\<not> readeflags_if ?h" using pushed_simps(3)[of h] by (simp add: readeflags_if_def)
  have m: "mycpu ?h = Ret i ?h" using off i(1) by (simp add: mycpu_off)
  have dec: "upd_cpu i (\<lambda>x. x\<lparr>ncli := ncli x - 1\<rparr>) ?h = ?g"
    using i(1,2) by (simp add: pushed_def upd_cpu_def)
  have n: "ncli (cpus (settle h) ! i) = ncli (cpus h ! i)" by (rule settle_ncli[OF i(1,2)])
  have "popcli ?h = kwhen (ncli (cpus h ! i) = 0 \<and> intena (cpus (settle h) ! i)) sti ?g"
    using off m i(3) by (simp add: kdefs popcli_def dec n)
  also have "ncli (cpus h ! i) = 0 \<and> intena (cpus (settle h) ! i) \<longleftrightarrow> readeflags_if h"
    using settle_intena[OF i(1,2)] i(3,4) by (cases "ncli (cpus h ! i) = 0") auto
  also have "kwhen (readeflags_if h) sti ?g = Ret () ((settle h)\<lparr>locks := L\<rparr>)"
  proof -
    have e: "(ifl h)(lapicid h := readeflags_if h) = ifl (settle h)"
      by (simp add: readeflags_if_def fun_upd_idem)
    have u: "(settle h)\<lparr>locks := L, ifl := ifl (settle h)\<rparr> = (settle h)\<lparr>locks := L\<rparr>" by simp
    show ?thesis
      using e u by (cases "readeflags_if h") (simp_all add: kdefs sti_def del: settle_simps(3))
  qed
  finally show ?thesis .
qed

lemma enter_simps [simp]:
  "this_cpu (enter lk h) = this_cpu h" "lapicid (enter lk h) = lapicid h"
  "\<not> readeflags_if (enter lk h)"
  "locks (enter lk h) = (locks h)(lk := \<lparr>locked = True, lk_cpu = this_cpu h\<rparr>)"
  "length (cpus (enter lk h)) = length (cpus h)"
  using pushed_simps(3)[of h] by (simp_all add: enter_def readeflags_if_def)

lemma acquire_free [simp]:
  assumes "hwgood h" "lkfree lk h"
  shows "acquire lk h = Ret () (enter lk h)"
proof -
  obtain i where i: "this_cpu h = Some i" using assms(1) by (rule hwgoodE)
  let ?p = "(pushed h)\<lparr>locks := (locks h)(lk := (freelock\<lparr>locked := True\<rparr>))\<rparr>"
  have "\<not> readeflags_if ?p" using pushed_simps(3)[of h] by (simp add: readeflags_if_def)
  then have "mycpu ?p = Ret i ?p" using i by (simp add: mycpu_off)
  with assms i show ?thesis
    by (simp add: kdefs acquire_def pushcli_good holding_def lkfree_def freelock_def xchg_locked_def enter_def)
qed

lemma release_enter [simp]:
  assumes "hwgood h" "lkfree lk h"
  shows "release lk (enter lk h) = Ret () (settle h)"
proof -
  obtain i where i: "this_cpu h = Some i" using assms(1) by (rule hwgoodE)
  then have "mycpu (enter lk h) = Ret i (enter lk h)" by (simp add: mycpu_off)
  moreover have "(settle h)\<lparr>locks := (locks h)(lk := freelock)\<rparr> = settle h"
    using assms(2) settle_simps(2)[of h] by (simp add: lkfree_def fun_upd_idem del: settle_simps(2))
  ultimately show ?thesis
    using i popcli_pushed[OF assms(1)]
    by (simp add: kdefs release_def holding_def enter_def freelock_def)
qed

lemma enter_ncli:
  "this_cpu h = Some i \<Longrightarrow> i < length (cpus h) \<Longrightarrow> ncli (cpus (enter lk h) ! i) = ncli (cpus h ! i) + 1"
  by (simp add: enter_def pushed_def upd_cpu_def settle_def)

lemma hwgood_enter [simp]:
  assumes "hwgood h"
  shows "hwgood (enter lk h)"
proof -
  obtain i where i: "this_cpu h = Some i" "i < length (cpus h)" "0 \<le> ncli (cpus h ! i)"
    using assms by (rule hwgoodE)
  then show ?thesis by (simp add: hwgood_def enter_ncli)
qed

lemma hwgood_settle [simp]: "hwgood h \<Longrightarrow> hwgood (settle h)"
  by (erule hwgoodE) (auto simp: hwgood_def settle_ncli)

lemma settle_id:
  assumes "this_cpu h = Some i" "ncli (cpus h ! i) = 0 \<Longrightarrow> intena (cpus h ! i) = readeflags_if h"
  shows "settle h = h"
proof (cases "ncli (cpus h ! i) = 0")
  case True
  have "(cpus h ! i)\<lparr>intena := readeflags_if h\<rparr> = cpus h ! i"
    using assms(2)[OF True, symmetric] by simp
  with True assms(1) show ?thesis by (simp add: settle_def upd_cpu_def)
qed (simp add: settle_def assms(1))

lemma settle_idem [simp]: "hwgood h \<Longrightarrow> settle (settle h) = settle h"
  by (erule hwgoodE) (auto intro!: settle_id simp: settle_ncli settle_intena)

lemma enter_settle [simp]: "hwgood h \<Longrightarrow> enter lk (settle h) = enter lk h"
  using settle_idem[of h] by (simp add: enter_def pushed_def)

lemma settle_enter [simp]: "hwgood h \<Longrightarrow> settle (enter lk h) = enter lk h"
  by (erule hwgoodE) (auto intro!: settle_id simp: enter_ncli)

lemma lkfree_settle [simp]: "lkfree lk (settle h) = lkfree lk h"
  by (simp add: lkfree_def)

lemma lkfree_enter [simp]: "lkfree lk' (enter lk h) \<longleftrightarrow> lk' \<noteq> lk \<and> lkfree lk' h"
  by (auto simp: lkfree_def freelock_def)

lemma enter_enter:
  assumes "hwgood h" "a \<noteq> b"
  shows "enter a (enter b h) = enter b (enter a h)"
proof -
  have p: "pushed (enter l h)
      = upd_cpu (the (this_cpu h)) (\<lambda>c. c\<lparr>ncli := ncli c + 1\<rparr>) ((enter l h)\<lparr>ifl := (ifl h)(lapicid h := False)\<rparr>)"
    for l
  proof -
    have "ifl (enter l h) = (ifl h)(lapicid h := False)"
      by (simp add: enter_def pushed_def Let_def)
    then show ?thesis by (simp add: pushed_def[of "enter l h"] settle_enter[OF assms(1)])
  qed
  have "(pushed (enter a h))\<lparr>locks := L\<rparr> = (pushed (enter b h))\<lparr>locks := L\<rparr>" for L
    unfolding p by (simp add: enter_def upd_cpu_def)
  then show ?thesis using assms(2) unfolding enter_def[of a "enter b h"] enter_def[of b "enter a h"]
    by (simp add: fun_upd_twist)
qed

lemma release_enter_inner:
  assumes "hwgood h" "lkfree a h" "lkfree b h" "a \<noteq> b"
  shows "release a (enter b (enter a h)) = Ret () (enter b h)"
  using assms by (simp add: enter_enter[OF assms(1) assms(4)[symmetric]])

interpretation spin: critical "acquire lk" "release lk" "enter lk" settle "\<lambda>h. hwgood h \<and> lkfree lk h" for lk
  by unfold_locales simp_all

lemma acquire_held_panics:
  assumes "hwgood h" "locks h lk = \<lparr>locked = True, lk_cpu = this_cpu h\<rparr>"
  shows "acquire lk h = Panic ''acquire''"
proof -
  obtain i where i: "this_cpu h = Some i" using assms(1) by (rule hwgoodE)
  then have "mycpu (pushed h) = Ret i (pushed h)" by (simp add: mycpu_off)
  with assms i show ?thesis by (simp add: kdefs acquire_def pushcli_good holding_def)
qed

lemma acquire_contended_spins:
  assumes "hwgood h" "locked (locks h lk)" "lk_cpu (locks h lk) \<noteq> this_cpu h"
  shows "acquire lk h = Spin"
proof -
  obtain i where i: "this_cpu h = Some i" using assms(1) by (rule hwgoodE)
  then have "mycpu (pushed h) = Ret i (pushed h)" by (simp add: mycpu_off)
  with assms i show ?thesis by (simp add: kdefs acquire_def pushcli_good holding_def xchg_locked_def)
qed

section \<open>The view of one CPU among several\<close>

definition at_cpu :: "nat \<Rightarrow> hw \<Rightarrow> hw" where
  "at_cpu i h = h\<lparr>lapicid := apicid (cpus h ! i)\<rparr>"

text \<open>
  CPU \<open>i\<close> has \<open>n\<close> pending \<^verbatim>\<open>pushcli\<close>: while there are any, its interrupts are off and the saved flag says what they were
  outside of the outermost one; without any, the flag itself does.
\<close>

definition cpu_at :: "nat \<Rightarrow> hw \<Rightarrow> nat \<Rightarrow> bool \<Rightarrow> bool" where
  "cpu_at i h n e \<longleftrightarrow>
     i < length (cpus h) \<and> ncli (cpus h ! i) = int n
     \<and> (if n = 0 then ifl h (apicid (cpus h ! i)) = e else \<not> ifl h (apicid (cpus h ! i)) \<and> intena (cpus h ! i) = e)"

text \<open>Only CPU \<open>i\<close> has changed, and neither its identifier nor its process.\<close>

definition cpu_frame :: "nat \<Rightarrow> hw \<Rightarrow> hw \<Rightarrow> bool" where
  "cpu_frame i h h' \<longleftrightarrow>
     map apicid (cpus h') = map apicid (cpus h) \<and> map cproc (cpus h') = map cproc (cpus h)
     \<and> (\<forall>j. j \<noteq> i \<longrightarrow> cpus h' ! j = cpus h ! j) \<and> (\<forall>a. a \<noteq> apicid (cpus h ! i) \<longrightarrow> ifl h' a = ifl h a)"

lemma at_cpu_simps [simp]:
  "cpus (at_cpu i h) = cpus h" "locks (at_cpu i h) = locks h" "ifl (at_cpu i h) = ifl h"
  "lapicid (at_cpu i h) = apicid (cpus h ! i)"
  by (simp_all add: at_cpu_def)

lemma at_cpu_locks [simp]: "at_cpu i (h\<lparr>locks := l\<rparr>) = (at_cpu i h)\<lparr>locks := l\<rparr>"
  by (cases h) (simp add: at_cpu_def)

lemma cpu_at_at_cpu [simp]: "cpu_at i (at_cpu j h) n e = cpu_at i h n e"
  by (simp add: cpu_at_def)

lemma this_cpu_at_cpu:
  assumes "distinct (map apicid (cpus h))" "i < length (cpus h)"
  shows "this_cpu (at_cpu i h) = Some i"
  unfolding this_cpu_def at_cpu_def
proof (rule find_idx_eqI)
  fix j assume "j < i"
  then show "\<not> apicid (cpus (h\<lparr>lapicid := apicid (cpus h ! i)\<rparr>) ! j) = lapicid (h\<lparr>lapicid := apicid (cpus h ! i)\<rparr>)"
    using assms by (auto simp: distinct_conv_nth)
qed (use assms in simp_all)

lemma map_list_update_id: "(i < length xs \<Longrightarrow> f x = f (xs ! i)) \<Longrightarrow> map f (xs[i := x]) = map f xs"
  by (cases "i < length xs") (simp_all add: map_update list_update_beyond, metis length_map list_update_id nth_map)

lemma apicid_inj:
  "distinct (map apicid cs) \<Longrightarrow> i < length cs \<Longrightarrow> j < length cs \<Longrightarrow> apicid (cs ! i) = apicid (cs ! j) \<longleftrightarrow> i = j"
  by (auto simp: distinct_conv_nth)

lemma nth_apicid_eq: "map apicid cs' = map apicid cs \<Longrightarrow> i < length cs \<Longrightarrow> apicid (cs' ! i) = apicid (cs ! i)"
  by (metis length_map nth_map)

lemma cpu_frame_length: "cpu_frame i h h' \<Longrightarrow> length (cpus h') = length (cpus h)"
  by (metis cpu_frame_def length_map)

lemma cpu_frame_other:
  assumes "cpu_frame i h h'" "distinct (map apicid (cpus h))" "i < length (cpus h)" "j \<noteq> i" "cpu_at j h n e"
  shows "cpu_at j h' n e"
proof -
  have "apicid (cpus h ! j) \<noteq> apicid (cpus h ! i)" using assms by (simp add: apicid_inj cpu_at_def)
  then show ?thesis using assms(1,4,5) cpu_frame_length[OF assms(1)] by (simp add: cpu_at_def cpu_frame_def)
qed

lemma cpu_frame_trans:
  assumes "cpu_frame i h h1" "cpu_frame i h1 h2" "i < length (cpus h)"
  shows "cpu_frame i h h2"
proof -
  have "apicid (cpus h1 ! i) = apicid (cpus h ! i)" using assms(1,3) by (intro nth_apicid_eq) (simp_all add: cpu_frame_def)
  then show ?thesis using assms(1,2) by (simp add: cpu_frame_def)
qed

lemma mycpu_at:
  assumes "distinct (map apicid (cpus h))" "cpu_at i h n e" "n \<noteq> 0"
  shows "mycpu (at_cpu i h) = Ret i (at_cpu i h)"
  using assms by (intro mycpu_off this_cpu_at_cpu) (auto simp: cpu_at_def readeflags_if_def)

lemma pushcli_at:
  assumes "distinct (map apicid (cpus h))" "cpu_at i h n e"
  obtains h' where "pushcli (at_cpu i h) = Ret () h'" "cpu_frame i h h'" "locks h' = locks h" "lapicid h' = apicid (cpus h ! i)"
    "cpu_at i h' (Suc n) e"
proof -
  have i: "i < length (cpus h)" using assms(2) by (simp add: cpu_at_def)
  note tc = this_cpu_at_cpu[OF assms(1) i]
  have "hwgood (at_cpu i h)" using assms(2) by (auto simp: hwgood_def tc cpu_at_def readeflags_if_def split: if_splits)
  then have "pushcli (at_cpu i h) = Ret () (pushed (at_cpu i h))" by (rule pushcli_good)
  then show thesis
    by (rule that) (use i assms(2) in \<open>auto simp: cpu_frame_def cpu_at_def pushed_def settle_def tc upd_cpu_def map_list_update_id
      nth_list_update readeflags_if_def split: if_splits\<close>)
qed

lemma popcli_at:
  assumes "distinct (map apicid (cpus h))" "cpu_at i h (Suc n) e"
  obtains h' where "popcli (at_cpu i h) = Ret () h'" "cpu_frame i h h'" "locks h' = locks h" "lapicid h' = apicid (cpus h ! i)"
    "cpu_at i h' n e"
proof -
  have i: "i < length (cpus h)" using assms(2) by (simp add: cpu_at_def)
  let ?h = "upd_cpu i (\<lambda>x. x\<lparr>ncli := ncli x - 1\<rparr>) (at_cpu i h)"
  let ?h' = "if n = 0 \<and> e then ?h\<lparr>ifl := (ifl h)(apicid (cpus h ! i) := True)\<rparr> else ?h"
  have "popcli (at_cpu i h) = Ret () ?h'"
    using assms(2) mycpu_at[OF assms] i by (auto simp: popcli_def kdefs cpu_at_def readeflags_if_def upd_cpu_def sti_def)
  then show thesis
    by (rule that) (use i assms(2) in \<open>auto simp: cpu_frame_def cpu_at_def upd_cpu_def map_list_update_id nth_list_update split: if_splits\<close>)
qed


definition set_lk_cpu :: "lockid \<Rightarrow> nat option \<Rightarrow> hw \<Rightarrow> hw" where
  "set_lk_cpu lk c h = h\<lparr>locks := (locks h)(lk := (locks h lk)\<lparr>lk_cpu := c\<rparr>)\<rparr>"

definition unlock :: "lockid \<Rightarrow> hw \<Rightarrow> hw" where
  "unlock lk h = h\<lparr>locks := (locks h)(lk := (locks h lk)\<lparr>locked := False\<rparr>)\<rparr>"

text \<open>Taking and giving back a lock, seen from all CPUs.\<close>

lemma cpu_at_locks [simp]: "cpu_at i (h\<lparr>locks := l\<rparr>) n e = cpu_at i h n e" "cpu_frame i h (h'\<lparr>locks := l\<rparr>) = cpu_frame i h h'"
  by (simp_all add: cpu_at_def cpu_frame_def)

lemma at_cpu_idem: "lapicid h = apicid (cpus h ! i) \<Longrightarrow> at_cpu i h = h"
  by (simp add: at_cpu_def)

lemma spinlock_upd: "(x :: spinlock)\<lparr>locked := a, lk_cpu := b\<rparr> = \<lparr>locked = a, lk_cpu = b\<rparr>"
  by (cases x) simp

lemma acquire_at:
  assumes "distinct (map apicid (cpus h))" "cpu_at i h n e"
  shows "\<not> locked (locks h lk) \<Longrightarrow> \<exists>h'. acquire lk (at_cpu i h) = Ret () h' \<and> cpu_frame i h h' \<and> cpu_at i h' (Suc n) e
      \<and> locks h' = (locks h)(lk := \<lparr>locked = True, lk_cpu = Some i\<rparr>)"
    and "locked (locks h lk) \<Longrightarrow> lk_cpu (locks h lk) \<noteq> Some i \<Longrightarrow> acquire lk (at_cpu i h) = Spin"
proof -
  have i: "i < length (cpus h)" using assms(2) by (simp add: cpu_at_def)
  obtain g where g: "pushcli (at_cpu i h) = Ret () g" "cpu_frame i h g" "locks g = locks h" "lapicid g = apicid (cpus h ! i)" "cpu_at i g (Suc n) e"
    using pushcli_at[OF assms] .
  have ap: "map apicid (cpus g) = map apicid (cpus h)" using g(2) by (simp add: cpu_frame_def)
  have eq: "at_cpu i g = g" using g(4) nth_apicid_eq[OF ap i] by (intro at_cpu_idem) simp
  have m: "mycpu (g\<lparr>locks := l\<rparr>) = Ret i (g\<lparr>locks := l\<rparr>)" for l
    using mycpu_at[of "g\<lparr>locks := l\<rparr>" i "Suc n" e] g(5) ap assms(1) by (simp add: eq)
  have m0: "mycpu g = Ret i g" using m[of "locks g"] by simp
  { assume "\<not> locked (locks h lk)"
    then show "\<exists>h'. acquire lk (at_cpu i h) = Ret () h' \<and> cpu_frame i h h' \<and> cpu_at i h' (Suc n) e
        \<and> locks h' = (locks h)(lk := \<lparr>locked = True, lk_cpu = Some i\<rparr>)"
      using g m by (simp add: acquire_def kdefs holding_def xchg_locked_def spinlock_upd) }
  assume "locked (locks h lk)" "lk_cpu (locks h lk) \<noteq> Some i"
  then show "acquire lk (at_cpu i h) = Spin" using g m0 by (simp add: acquire_def kdefs holding_def xchg_locked_def)
qed

lemma release_at:
  assumes "distinct (map apicid (cpus h))" "cpu_at i h (Suc n) e" "locks h lk = \<lparr>locked = True, lk_cpu = Some i\<rparr>"
  shows "\<exists>h'. release lk (at_cpu i h) = Ret () h' \<and> cpu_frame i h h' \<and> cpu_at i h' n e \<and> locks h' = (locks h)(lk := freelock)"
proof -
  let ?g = "h\<lparr>locks := (locks h)(lk := freelock)\<rparr>"
  have d: "distinct (map apicid (cpus ?g))" "cpu_at i ?g (Suc n) e" using assms(1,2) by simp_all
  obtain h' where h': "popcli (at_cpu i ?g) = Ret () h'" "cpu_frame i ?g h'" "locks h' = locks ?g" "cpu_at i h' n e"
    using popcli_at[OF d] .
  have f: "cpu_frame i h h'" using h'(2) by (simp add: cpu_frame_def)
  have "release lk (at_cpu i h) = popcli (at_cpu i ?g)"
    using assms(3) mycpu_at[OF assms(1,2)] by (simp add: release_def kdefs holding_def freelock_def)
  then show ?thesis using h' f by simp
qed

section \<open>Several CPUs: the lock protocol as a step relation\<close>

text \<open>
  Each CPU runs \<^verbatim>\<open>acquire\<close> and \<^verbatim>\<open>release\<close> one access to the shared lock at a time, and the steps of different CPUs
  interleave freely; a CPU may take further locks while it holds some, and release them in any order, and it may
  nest plain \<^verbatim>\<open>pushcli\<close> and \<^verbatim>\<open>popcli\<close> pairs outside of the two routines.  \<open>Pushed\<close> is the point of \<^verbatim>\<open>acquire\<close> behind
  \<^verbatim>\<open>pushcli\<close>; \<open>Seen\<close> is inside of \<^verbatim>\<open>holding\<close>, which has read \<^verbatim>\<open>locked\<close> as set; \<open>Spinning\<close> is the loop around \<^verbatim>\<open>xchg\<close>;
  \<open>Got\<close> is behind the successful \<^verbatim>\<open>xchg\<close>, before \<^verbatim>\<open>lk->cpu\<close> is written; \<open>Asked\<close> is inside of the \<^verbatim>\<open>holding\<close> of \<^verbatim>\<open>release\<close>;
  \<open>Cleared\<close> is behind \<^verbatim>\<open>lk->cpu = 0\<close>, before \<^verbatim>\<open>lk->locked = 0\<close>; \<open>Leaving\<close> is before \<^verbatim>\<open>popcli\<close>.  A CPU that panics takes no
  further step.
\<close>

datatype lockpc = Outside | Pushed lockid | Seen lockid | Spinning lockid | Got lockid | Asked lockid | Cleared lockid | Leaving

record lthread =
  lpc :: lockpc
  held :: "lockid list"
  masks :: nat

type_synonym lstate = "hw \<times> (nat \<Rightarrow> lthread)"

definition lstart :: lthread where
  "lstart = \<lparr>lpc = Outside, held = [], masks = 0\<rparr>"

inductive lock_step :: "lstate \<Rightarrow> lstate \<Rightarrow> bool" where
  push: "i < length (cpus h) \<Longrightarrow> lpc (ts i) = Outside \<Longrightarrow> pushcli (at_cpu i h) = Ret () h1 \<Longrightarrow>
     lock_step (h, ts) (h1, ts(i := (ts i)\<lparr>masks := masks (ts i) + 1\<rparr>))"
| pop: "i < length (cpus h) \<Longrightarrow> lpc (ts i) = Outside \<Longrightarrow> masks (ts i) = Suc k \<Longrightarrow> popcli (at_cpu i h) = Ret () h1 \<Longrightarrow>
     lock_step (h, ts) (h1, ts(i := (ts i)\<lparr>masks := k\<rparr>))"
| start: "i < length (cpus h) \<Longrightarrow> lpc (ts i) = Outside \<Longrightarrow> pushcli (at_cpu i h) = Ret () h1 \<Longrightarrow>
     lock_step (h, ts) (h1, ts(i := (ts i)\<lparr>lpc := Pushed lk\<rparr>))"
| unlocked: "i < length (cpus h) \<Longrightarrow> lpc (ts i) = Pushed lk \<Longrightarrow> \<not> locked (locks h lk) \<Longrightarrow>
     lock_step (h, ts) (at_cpu i h, ts(i := (ts i)\<lparr>lpc := Spinning lk\<rparr>))"
| seen: "i < length (cpus h) \<Longrightarrow> lpc (ts i) = Pushed lk \<Longrightarrow> locked (locks h lk) \<Longrightarrow>
     lock_step (h, ts) (at_cpu i h, ts(i := (ts i)\<lparr>lpc := Seen lk\<rparr>))"
| foreign: "i < length (cpus h) \<Longrightarrow> lpc (ts i) = Seen lk \<Longrightarrow> mycpu (at_cpu i h) = Ret c h1 \<Longrightarrow> lk_cpu (locks h1 lk) \<noteq> Some c \<Longrightarrow>
     lock_step (h, ts) (h1, ts(i := (ts i)\<lparr>lpc := Spinning lk\<rparr>))"
| spin: "i < length (cpus h) \<Longrightarrow> lpc (ts i) = Spinning lk \<Longrightarrow> xchg_locked lk (at_cpu i h) = Ret True h1 \<Longrightarrow>
     lock_step (h, ts) (h1, ts)"
| got: "i < length (cpus h) \<Longrightarrow> lpc (ts i) = Spinning lk \<Longrightarrow> xchg_locked lk (at_cpu i h) = Ret False h1 \<Longrightarrow>
     lock_step (h, ts) (h1, ts(i := (ts i)\<lparr>lpc := Got lk\<rparr>))"
| set_cpu: "i < length (cpus h) \<Longrightarrow> lpc (ts i) = Got lk \<Longrightarrow> mycpu (at_cpu i h) = Ret c h1 \<Longrightarrow>
     lock_step (h, ts) (set_lk_cpu lk (Some c) h1, ts(i := (ts i)\<lparr>lpc := Outside, held := lk # held (ts i)\<rparr>))"
| ask: "i < length (cpus h) \<Longrightarrow> lpc (ts i) = Outside \<Longrightarrow> locked (locks h lk) \<Longrightarrow>
     lock_step (h, ts) (at_cpu i h, ts(i := (ts i)\<lparr>lpc := Asked lk\<rparr>))"
| clear: "i < length (cpus h) \<Longrightarrow> lpc (ts i) = Asked lk \<Longrightarrow> mycpu (at_cpu i h) = Ret c h1 \<Longrightarrow> lk_cpu (locks h1 lk) = Some c \<Longrightarrow>
     lock_step (h, ts) (set_lk_cpu lk None h1, ts(i := (ts i)\<lparr>lpc := Cleared lk, held := remove1 lk (held (ts i))\<rparr>))"
| unlock: "i < length (cpus h) \<Longrightarrow> lpc (ts i) = Cleared lk \<Longrightarrow>
     lock_step (h, ts) (unlock lk (at_cpu i h), ts(i := (ts i)\<lparr>lpc := Leaving\<rparr>))"
| leave: "i < length (cpus h) \<Longrightarrow> lpc (ts i) = Leaving \<Longrightarrow> popcli (at_cpu i h) = Ret () h1 \<Longrightarrow>
     lock_step (h, ts) (h1, ts(i := (ts i)\<lparr>lpc := Outside\<rparr>))"

inductive_cases lock_stepE: "lock_step (h, ts) (h', ts')"

text \<open>At the start all locks are free and no CPU has a pending \<^verbatim>\<open>pushcli\<close>.\<close>

definition lock_init :: "hw \<Rightarrow> bool" where
  "lock_init h \<longleftrightarrow> distinct (map apicid (cpus h)) \<and> (\<forall>lk. locks h lk = freelock) \<and> (\<forall>c\<in>set (cpus h). ncli c = 0)"

inductive lock_reach :: "hw \<Rightarrow> lstate \<Rightarrow> bool" for h0 where
  init: "lock_init h0 \<Longrightarrow> lock_reach h0 (h0, \<lambda>_. lstart)"
| step: "lock_reach h0 s \<Longrightarrow> lock_step s t \<Longrightarrow> lock_reach h0 t"

definition owns :: "lthread \<Rightarrow> lockid \<Rightarrow> bool" where
  "owns t lk \<longleftrightarrow> lk \<in> set (held t) \<or> lpc t = Got lk \<or> lpc t = Cleared lk"

text \<open>The number of \<^verbatim>\<open>pushcli\<close> that a CPU has to undo: one for each lock it holds, is taking or is about to leave, and the plain ones.\<close>

definition depth :: "lthread \<Rightarrow> nat" where
  "depth t = length (held t) + masks t + (case lpc t of Outside \<Rightarrow> 0 | Asked _ \<Rightarrow> 0 | _ \<Rightarrow> 1)"

definition lthread_ok :: "lthread \<Rightarrow> bool" where
  "lthread_ok t \<longleftrightarrow> distinct (held t) \<and> (\<forall>lk. lpc t = Got lk \<or> lpc t = Cleared lk \<longrightarrow> lk \<notin> set (held t))"

definition lock_inv :: "hw \<Rightarrow> lstate \<Rightarrow> bool" where
  "lock_inv h0 = (\<lambda>(h, ts).
     distinct (map apicid (cpus h)) \<and> map apicid (cpus h) = map apicid (cpus h0)
     \<and> (\<forall>i. i < length (cpus h) \<longrightarrow> cpu_at i h (depth (ts i)) (ifl h0 (apicid (cpus h0 ! i))))
     \<and> (\<forall>i. length (cpus h) \<le> i \<longrightarrow> ts i = lstart)
     \<and> (\<forall>i. lthread_ok (ts i))
     \<and> (\<forall>lk i j. owns (ts i) lk \<longrightarrow> owns (ts j) lk \<longrightarrow> i = j)
     \<and> (\<forall>lk. locked (locks h lk) \<longleftrightarrow> (\<exists>i. owns (ts i) lk))
     \<and> (\<forall>lk i. lk_cpu (locks h lk) = Some i \<longleftrightarrow> lk \<in> set (held (ts i))))"

lemma lock_invD:
  assumes "lock_inv h0 (h, ts)"
  shows "distinct (map apicid (cpus h))" and "map apicid (cpus h) = map apicid (cpus h0)"
    and "\<And>i. i < length (cpus h) \<Longrightarrow> cpu_at i h (depth (ts i)) (ifl h0 (apicid (cpus h0 ! i)))"
    and "\<And>i. length (cpus h) \<le> i \<Longrightarrow> ts i = lstart"
    and "\<And>i. lthread_ok (ts i)"
    and "\<And>lk i j. owns (ts i) lk \<Longrightarrow> owns (ts j) lk \<Longrightarrow> i = j"
    and "\<And>lk. locked (locks h lk) \<longleftrightarrow> (\<exists>i. owns (ts i) lk)"
    and "\<And>lk i. lk_cpu (locks h lk) = Some i \<longleftrightarrow> lk \<in> set (held (ts i))"
  using assms unfolding lock_inv_def prod.case by blast+

text \<open>One CPU moves from one point to another and writes at most one lock.\<close>

lemma lock_inv_upd:
  assumes inv: "lock_inv h0 (h, ts)" and i: "i < length (cpus h)"
    and fr: "cpu_frame i h h'" "cpu_at i h' (depth t) (ifl h0 (apicid (cpus h0 ! i)))" and ok: "lthread_ok t"
    and other: "\<And>k. k \<noteq> lk \<Longrightarrow> owns t k = owns (ts i) k \<and> (k \<in> set (held t) \<longleftrightarrow> k \<in> set (held (ts i))) \<and> locks h' k = locks h k"
    and excl: "\<And>j. j \<noteq> i \<Longrightarrow> owns t lk \<Longrightarrow> \<not> owns (ts j) lk"
    and lck: "locked (locks h' lk) \<longleftrightarrow> owns t lk \<or> (\<exists>j. j \<noteq> i \<and> owns (ts j) lk)"
    and cpu: "\<And>j. lk_cpu (locks h' lk) = Some j \<longleftrightarrow> (if j = i then lk \<in> set (held t) else lk \<in> set (held (ts j)))"
  shows "lock_inv h0 (h', ts(i := t))"
proof -
  note I = lock_invD[OF inv]
  have ap: "map apicid (cpus h') = map apicid (cpus h)" using fr(1) by (simp add: cpu_frame_def)
  have len: "length (cpus h') = length (cpus h)" by (rule cpu_frame_length[OF fr(1)])
  have at: "cpu_at j h' (depth ((ts(i := t)) j)) (ifl h0 (apicid (cpus h0 ! j)))" if "j < length (cpus h')" for j
    using that fr I(3)[of j] cpu_frame_other[OF fr(1) I(1) i, of j] len by (cases "j = i") auto
  have own: "owns ((ts(i := t)) j) k \<longleftrightarrow> owns (ts j) k" if "k \<noteq> lk" for j k using other[OF that] by simp
  have uniq: "j = m" if "owns ((ts(i := t)) j) k" "owns ((ts(i := t)) m) k" for j m k
  proof (cases "k = lk")
    case True
    then show ?thesis using that excl I(6) by (auto split: if_splits)
  next
    case False
    then show ?thesis using that own I(6) by (auto simp del: fun_upd_apply)
  qed
  have locked: "locked (locks h' k) \<longleftrightarrow> (\<exists>j. owns ((ts(i := t)) j) k)" for k
  proof (cases "k = lk")
    case True
    then show ?thesis using lck by auto
  next
    case False
    then show ?thesis using I(7)[of k] other[OF False] own[OF False] by (simp del: fun_upd_apply)
  qed
  have cpus: "lk_cpu (locks h' k) = Some j \<longleftrightarrow> k \<in> set (held ((ts(i := t)) j))" for k j
    using cpu[of j] I(8)[of k j] other[of k] by (cases "k = lk") auto
  have rest: "(ts(i := t)) j = lstart" if "length (cpus h') \<le> j" for j using that len i I(4) by auto
  have oks: "lthread_ok ((ts(i := t)) j)" for j using ok I(5) by simp
  show ?thesis unfolding lock_inv_def prod.case
    using I(1,2) ap at uniq locked cpus rest oks by (intro conjI allI impI) (simp_all del: fun_upd_apply)
qed

corollary lock_inv_mask:
  assumes inv: "lock_inv h0 (h, ts)" and i: "i < length (cpus h)"
    and "cpu_frame i h h'" "cpu_at i h' (depth t) (ifl h0 (apicid (cpus h0 ! i)))" "lthread_ok t"
    and "\<And>k. owns t k = owns (ts i) k" "held t = held (ts i)" "locks h' = locks h"
  shows "lock_inv h0 (h', ts(i := t))"
proof -
  note I = lock_invD[OF inv]
  have o: "\<not> owns (ts j) Lptable" if "j \<noteq> i" "owns t Lptable" for j using assms(6) that I(6)[of i Lptable j] by auto
  have l: "locked (locks h' Lptable) \<longleftrightarrow> owns t Lptable \<or> (\<exists>j. j \<noteq> i \<and> owns (ts j) Lptable)" using I(7)[of Lptable] unfolding assms(6,8) by metis
  show ?thesis
    by (rule lock_inv_upd[OF inv i assms(3-5), where lk = Lptable, OF _ o l]) (use assms(6-8) I(8) in auto)
qed

lemma cpu_frame_refl [simp]: "cpu_frame i h (at_cpu j h)"
  by (simp add: cpu_frame_def)

lemma mycpu_step:
  assumes "lock_inv h0 (h, ts)" "i < length (cpus h)" "depth (ts i) \<noteq> 0" "mycpu (at_cpu i h) = Ret c h1"
  shows "c = i" "h1 = at_cpu i h"
  using mycpu_at[OF lock_invD(1)[OF assms(1)] lock_invD(3)[OF assms(1,2)] assms(3)] assms(4) by auto

text \<open>The steps that leave the locks alone.\<close>

lemma lock_inv_push:
  assumes inv: "lock_inv h0 (h, ts)" and i: "i < length (cpus h)" and p: "pushcli (at_cpu i h) = Ret () h1"
    and "depth t = Suc (depth (ts i))" "lthread_ok t" "\<And>k. owns t k = owns (ts i) k" "held t = held (ts i)"
  shows "lock_inv h0 (h1, ts(i := t))"
proof -
  obtain g where "pushcli (at_cpu i h) = Ret () g" "cpu_frame i h g" "locks g = locks h" "cpu_at i g (depth t) (ifl h0 (apicid (cpus h0 ! i)))"
    using pushcli_at[OF lock_invD(1)[OF inv] lock_invD(3)[OF inv i]] assms(4) by metis
  then show ?thesis using p assms(5-7) by (intro lock_inv_mask[OF inv i]) simp_all
qed

lemma lock_inv_pop:
  assumes inv: "lock_inv h0 (h, ts)" and i: "i < length (cpus h)" and p: "popcli (at_cpu i h) = Ret () h1"
    and "depth (ts i) = Suc (depth t)" "lthread_ok t" "\<And>k. owns t k = owns (ts i) k" "held t = held (ts i)"
  shows "lock_inv h0 (h1, ts(i := t))"
proof -
  obtain g where "popcli (at_cpu i h) = Ret () g" "cpu_frame i h g" "locks g = locks h" "cpu_at i g (depth t) (ifl h0 (apicid (cpus h0 ! i)))"
    using popcli_at[OF lock_invD(1)[OF inv] lock_invD(3)[OF inv i, unfolded assms(4)]] by metis
  then show ?thesis using p assms(5-7) by (intro lock_inv_mask[OF inv i]) simp_all
qed

lemma lock_inv_stay:
  assumes inv: "lock_inv h0 (h, ts)" and i: "i < length (cpus h)"
    and "depth t = depth (ts i)" "lthread_ok t" "\<And>k. owns t k = owns (ts i) k" "held t = held (ts i)"
  shows "lock_inv h0 (at_cpu i h, ts(i := t))"
  using assms(3-) lock_invD(3)[OF inv i] by (intro lock_inv_mask[OF inv i]) simp_all

text \<open>The steps that write a lock.\<close>

lemma lock_inv_got:
  assumes inv: "lock_inv h0 (h, ts)" and i: "i < length (cpus h)" and p: "lpc (ts i) = Spinning lk" "xchg_locked lk (at_cpu i h) = Ret False h1"
  shows "lock_inv h0 (h1, ts(i := (ts i)\<lparr>lpc := Got lk\<rparr>))"
proof -
  note I = lock_invD[OF inv]
  have nl: "\<not> locked (locks h lk)" and h1: "h1 = (at_cpu i h)\<lparr>locks := (locks h)(lk := (locks h lk)\<lparr>locked := True\<rparr>)\<rparr>"
    using p(2) by (auto simp: xchg_locked_def)
  have no: "\<not> owns (ts j) lk" for j using I(7)[of lk] nl by blast
  then have nh: "lk \<notin> set (held (ts j))" for j by (simp add: owns_def)
  show ?thesis
    by (rule lock_inv_upd[OF inv i, where lk = lk])
      (use h1 no nh p(1) I(3)[OF i] I(5)[of i] I(8) in \<open>auto simp: depth_def lthread_ok_def owns_def\<close>)
qed

lemma lock_inv_only:
  assumes "lock_inv h0 (h, ts)" "owns (ts i) lk"
  shows "j \<noteq> i \<Longrightarrow> \<not> owns (ts j) lk" "locked (locks h lk)" "lk \<notin> set (held (ts i)) \<Longrightarrow> lk \<notin> set (held (ts j))"
proof -
  note I = lock_invD[OF assms(1)]
  show "j \<noteq> i \<Longrightarrow> \<not> owns (ts j) lk" using I(6)[OF assms(2)] by blast
  then show "lk \<notin> set (held (ts i)) \<Longrightarrow> lk \<notin> set (held (ts j))" by (cases "j = i") (auto simp: owns_def)
  show "locked (locks h lk)" using I(7) assms(2) by blast
qed

lemma lock_inv_set_cpu:
  assumes inv: "lock_inv h0 (h, ts)" and i: "i < length (cpus h)" and p: "lpc (ts i) = Got lk" "mycpu (at_cpu i h) = Ret c h1"
  shows "lock_inv h0 (set_lk_cpu lk (Some c) h1, ts(i := (ts i)\<lparr>lpc := Outside, held := lk # held (ts i)\<rparr>))"
proof -
  note I = lock_invD[OF inv]
  have h1: "h1 = at_cpu i h" "c = i" using p(1) mycpu_step[OF inv i _ p(2)] by (simp_all add: depth_def)
  have ow: "owns (ts i) lk" and nh: "lk \<notin> set (held (ts i))" using p(1) I(5)[of i] by (auto simp: owns_def lthread_ok_def)
  note O = lock_inv_only[OF inv ow]
  show ?thesis
    by (rule lock_inv_upd[OF inv i, where lk = lk])
      (use h1 O(1,2) O(3)[OF nh] nh p(1) I(3)[OF i] I(5)[of i] I(8) in \<open>auto simp: set_lk_cpu_def depth_def lthread_ok_def owns_def\<close>)
qed

lemma lock_inv_clear:
  assumes inv: "lock_inv h0 (h, ts)" and i: "i < length (cpus h)"
    and p: "lpc (ts i) = Asked lk" "mycpu (at_cpu i h) = Ret c h1" "lk_cpu (locks h1 lk) = Some c"
  shows "lock_inv h0 (set_lk_cpu lk None h1, ts(i := (ts i)\<lparr>lpc := Cleared lk, held := remove1 lk (held (ts i))\<rparr>))"
proof -
  note I = lock_invD[OF inv]
  have hs: "h1 = at_cpu i h" "this_cpu (at_cpu i h) = Some c" using p(2) by (auto simp: mycpu_def this_cpu_def split: if_splits option.splits)
  then have c: "c = i" using this_cpu_at_cpu[OF I(1) i] by simp
  have hd: "lk \<in> set (held (ts i))" using p(3) I(8)[of lk i] hs c by simp
  then have ow: "owns (ts i) lk" by (simp add: owns_def)
  note O = lock_inv_only[OF inv ow]
  have dist: "distinct (held (ts i))" using I(5)[of i] by (simp add: lthread_ok_def)
  have len: "length (held (ts i)) = Suc (length (remove1 lk (held (ts i))))" using hd by (simp add: length_remove1) (metis Suc_pred length_pos_if_in_set)
  show ?thesis
    by (rule lock_inv_upd[OF inv i, where lk = lk])
      (use hs c O(1,2) hd dist len p(1) I(3)[OF i] I(8) in \<open>auto simp: set_lk_cpu_def depth_def lthread_ok_def owns_def\<close>)
qed

lemma lock_inv_unlock:
  assumes inv: "lock_inv h0 (h, ts)" and i: "i < length (cpus h)" and p: "lpc (ts i) = Cleared lk"
  shows "lock_inv h0 (unlock lk (at_cpu i h), ts(i := (ts i)\<lparr>lpc := Leaving\<rparr>))"
proof -
  note I = lock_invD[OF inv]
  have ow: "owns (ts i) lk" and nh: "lk \<notin> set (held (ts i))" using p I(5)[of i] by (auto simp: owns_def lthread_ok_def)
  note O = lock_inv_only[OF inv ow]
  show ?thesis
    by (rule lock_inv_upd[OF inv i, where lk = lk])
      (use O(1) O(3)[OF nh] nh p I(3)[OF i] I(5)[of i] I(8) in \<open>auto simp: unlock_def depth_def lthread_ok_def owns_def\<close>)
qed

lemma lock_step_inv:
  assumes "lock_step s t" "lock_inv h0 s"
  shows "lock_inv h0 t"
  using assms
proof (induction rule: lock_step.induct)
  case (push i h ts h1)
  then show ?case using lock_invD(5)[OF push.prems, of i]
    by (intro lock_inv_push[OF push.prems push.hyps(1,3)]) (simp_all add: depth_def lthread_ok_def owns_def)
next
  case (pop i h ts k h1)
  then show ?case using lock_invD(5)[OF pop.prems, of i]
    by (intro lock_inv_pop[OF pop.prems pop.hyps(1,4)]) (simp_all add: depth_def lthread_ok_def owns_def)
next
  case (start i h ts h1 lk)
  then show ?case using lock_invD(5)[OF start.prems, of i]
    by (intro lock_inv_push[OF start.prems start.hyps(1,3)]) (simp_all add: depth_def lthread_ok_def owns_def)
next
  case (unlocked i h ts lk)
  then show ?case using lock_invD(5)[OF unlocked.prems, of i]
    by (intro lock_inv_stay) (simp_all add: depth_def lthread_ok_def owns_def)
next
  case (seen i h ts lk)
  then show ?case using lock_invD(5)[OF seen.prems, of i]
    by (intro lock_inv_stay) (simp_all add: depth_def lthread_ok_def owns_def)
next
  case (foreign i h ts lk c h1)
  then have "h1 = at_cpu i h" using mycpu_step(2)[OF foreign.prems foreign.hyps(1) _ foreign.hyps(3)] by (simp add: depth_def)
  then show ?case using foreign lock_invD(5)[OF foreign.prems, of i]
    by (simp only:) (intro lock_inv_stay, simp_all add: depth_def lthread_ok_def owns_def)
next
  case (spin i h ts lk h1)
  have h1: "h1 = at_cpu i h" using spin.hyps(3) by (auto simp: xchg_locked_def fun_upd_idem)
  show ?case using spin.prems unfolding h1 lock_inv_def prod.case at_cpu_simps cpu_at_at_cpu .
next
  case (ask i h ts lk)
  then show ?case using lock_invD(5)[OF ask.prems, of i]
    by (intro lock_inv_stay) (simp_all add: depth_def lthread_ok_def owns_def)
next
  case (leave i h ts h1)
  then show ?case using lock_invD(5)[OF leave.prems, of i]
    by (intro lock_inv_pop[OF leave.prems leave.hyps(1,3)]) (simp_all add: depth_def lthread_ok_def owns_def)
qed (blast intro: lock_inv_got lock_inv_set_cpu lock_inv_clear lock_inv_unlock)+

lemma lock_reach_inv: "lock_reach h0 s \<Longrightarrow> lock_inv h0 s"
proof (induction rule: lock_reach.induct)
  case init
  then show ?case by (auto simp: lock_inv_def lock_init_def freelock_def cpu_at_def lstart_def depth_def lthread_ok_def owns_def)
next
  case (step s t)
  then show ?case by (blast intro: lock_step_inv)
qed

text \<open>The routines of the sequential model are runs of these steps.\<close>

lemma mycpu_Ret: "mycpu h = Ret c h' \<Longrightarrow> h' = h \<and> this_cpu h = Some c"
  by (auto simp: mycpu_def this_cpu_def split: if_splits option.splits)

lemma pushcli_Ret:
  assumes "pushcli h = Ret () h'"
  shows "map apicid (cpus h') = map apicid (cpus h)" "lapicid h' = lapicid h"
  using assms by (auto simp: pushcli_def kdefs cli_def upd_cpu_def map_list_update_id dest!: mycpu_Ret split: outcome.splits if_splits)

lemma lock_step_at:
  assumes "lock_step (h, ts) (h1, ts1)" "lock_step\<^sup>*\<^sup>* (h1, ts1) s"
  shows "lock_step\<^sup>*\<^sup>* (h, ts) s"
  using assms by (rule converse_rtranclp_into_rtranclp)

lemma acquire_is_run:
  assumes i: "i < length (cpus h)" and pc: "lpc (ts i) = Outside" and a: "acquire lk (at_cpu i h) = Ret () h'"
  shows "lock_step\<^sup>*\<^sup>* (h, ts) (h', ts(i := (ts i)\<lparr>lpc := Outside, held := lk # held (ts i)\<rparr>))"
proof -
  obtain h1 where h1: "pushcli (at_cpu i h) = Ret () h1" using a by (auto simp: acquire_def kthen_Ret_iff)
  have ap: "map apicid (cpus h1) = map apicid (cpus h)" "lapicid h1 = apicid (cpus h ! i)" using pushcli_Ret[OF h1] by simp_all
  then have e: "at_cpu i h1 = h1" and i1: "i < length (cpus h1)"
    using nth_apicid_eq[OF ap(1) i] i by (auto intro: at_cpu_idem dest: map_eq_imp_length_eq)
  define h2 where "h2 = h1\<lparr>locks := (locks h1)(lk := (locks h1 lk)\<lparr>locked := True\<rparr>)\<rparr>"
  have nl: "\<not> locked (locks h1 lk)" and c: "\<exists>c. mycpu h2 = Ret c h2 \<and> h' = set_lk_cpu lk (Some c) h2"
    using a h1 by (auto simp: acquire_def kdefs h2_def set_lk_cpu_def xchg_locked_def holding_def dest: mycpu_Ret split: outcome.splits if_splits)
  then obtain c where c: "mycpu h2 = Ret c h2" "h' = set_lk_cpu lk (Some c) h2" by blast
  have e2: "at_cpu i h2 = h2" using e by (simp add: h2_def)
  have "lock_step (h, ts) (h1, ts(i := (ts i)\<lparr>lpc := Pushed lk\<rparr>))" by (rule lock_step.start[where ts = ts, OF i pc h1])
  moreover have "lock_step (h1, ts(i := (ts i)\<lparr>lpc := Pushed lk\<rparr>)) (h1, ts(i := (ts i)\<lparr>lpc := Spinning lk\<rparr>))"
    using lock_step.unlocked[OF i1, of "ts(i := (ts i)\<lparr>lpc := Pushed lk\<rparr>)" lk] nl e by simp
  moreover have "lock_step (h1, ts(i := (ts i)\<lparr>lpc := Spinning lk\<rparr>)) (h2, ts(i := (ts i)\<lparr>lpc := Got lk\<rparr>))"
    using lock_step.got[OF i1, of "ts(i := (ts i)\<lparr>lpc := Spinning lk\<rparr>)" lk h2] nl e by (simp add: xchg_locked_def h2_def)
  moreover have "lock_step (h2, ts(i := (ts i)\<lparr>lpc := Got lk\<rparr>)) (h', ts(i := (ts i)\<lparr>lpc := Outside, held := lk # held (ts i)\<rparr>))"
    using lock_step.set_cpu[of i h2 "ts(i := (ts i)\<lparr>lpc := Got lk\<rparr>)" lk c h2] i1 c e2 by (simp add: h2_def)
  ultimately show ?thesis by (meson lock_step_at rtranclp.rtrancl_refl)
qed

lemma lthread_upd_comm: "(t :: lthread)\<lparr>lpc := p, held := ls\<rparr> = t\<lparr>held := ls, lpc := p\<rparr>"
  by (cases t) simp

lemma release_is_run:
  assumes i: "i < length (cpus h)" and pc: "lpc (ts i) = Outside" and a: "release lk (at_cpu i h) = Ret () h'"
  shows "lock_step\<^sup>*\<^sup>* (h, ts) (h', ts(i := (ts i)\<lparr>held := remove1 lk (held (ts i)), lpc := Outside\<rparr>))"
proof -
  let ?h = "at_cpu i h" and ?t = "\<lambda>p. (ts i)\<lparr>held := remove1 lk (held (ts i)), lpc := p\<rparr>"
  have at: "at_cpu i ?h = ?h" by (simp add: at_cpu_idem)
  obtain c where c: "locked (locks ?h lk)" "mycpu ?h = Ret c ?h" "lk_cpu (locks ?h lk) = Some c"
      "popcli (unlock lk (set_lk_cpu lk None ?h)) = Ret () h'"
    using a by (auto simp: release_def kdefs unlock_def set_lk_cpu_def holding_def dest: mycpu_Ret split: outcome.splits if_splits)
  have e: "at_cpu i (set_lk_cpu lk None ?h) = set_lk_cpu lk None ?h" "at_cpu i (unlock lk (set_lk_cpu lk None ?h)) = unlock lk (set_lk_cpu lk None ?h)"
    using at by (simp_all add: set_lk_cpu_def unlock_def)
  have l: "i < length (cpus (set_lk_cpu lk None ?h))" "i < length (cpus (unlock lk (set_lk_cpu lk None ?h)))" using i by (simp_all add: set_lk_cpu_def unlock_def)
  have "lock_step (h, ts) (?h, ts(i := (ts i)\<lparr>lpc := Asked lk\<rparr>))" using lock_step.ask[where ts = ts, OF i pc, of lk] c(1) by simp
  moreover have "lock_step (?h, ts(i := (ts i)\<lparr>lpc := Asked lk\<rparr>)) (set_lk_cpu lk None ?h, ts(i := ?t (Cleared lk)))"
    using lock_step.clear[of i ?h "ts(i := (ts i)\<lparr>lpc := Asked lk\<rparr>)" lk c ?h] i c(2,3) at by (simp add: lthread_upd_comm)
  moreover have "lock_step (set_lk_cpu lk None ?h, ts(i := ?t (Cleared lk))) (unlock lk (set_lk_cpu lk None ?h), ts(i := ?t Leaving))"
    using lock_step.unlock[OF l(1), of "ts(i := ?t (Cleared lk))" lk] e by simp
  moreover have "lock_step (unlock lk (set_lk_cpu lk None ?h), ts(i := ?t Leaving)) (h', ts(i := ?t Outside))"
    using lock_step.leave[OF l(2), of "ts(i := ?t Leaving)" h'] e c(4) by simp
  ultimately show ?thesis by (meson lock_step_at rtranclp.rtrancl_refl)
qed

section \<open>Properties\<close>

definition two_cpus :: hw where
  "two_cpus =
     \<lparr>cpus = [\<lparr>apicid = 0, ncli = 0, intena = False, cproc = None\<rparr>,
              \<lparr>apicid = 4, ncli = 0, intena = True, cproc = None\<rparr>],
      lapicid = 0, ifl = \<lambda>a. a = 0, locks = \<lambda>_. freelock\<rparr>"

text \<open>
  C9: Mutual exclusion.  However the accesses to the locks that \<^verbatim>\<open>acquire\<close> and \<^verbatim>\<open>release\<close> make on any number of CPUs interleave, with any
  nesting of locks and of \<^verbatim>\<open>pushcli\<close>, starting with all locks free: at most one CPU is between the \<^verbatim>\<open>xchg\<close> that took a lock and the
  store that frees it; \<^verbatim>\<open>holding\<close> tells the CPU that holds a lock so, and each other CPU that runs with interrupts off that it does not; as long as
  a CPU owns any lock its interrupts are off, and once it has undone all it has done they are what they were at the start.
\<close>

theorem lock_mutual_exclusion:
  assumes "lock_reach h0 (h, ts)" "i < length (cpus h)"
  shows "(\<forall>lk j. owns (ts i) lk \<longrightarrow> owns (ts j) lk \<longrightarrow> j = i)
    \<and> (\<forall>lk. \<not> ifl h (apicid (cpus h ! i)) \<longrightarrow> holding lk (at_cpu i h) = Ret (lk \<in> set (held (ts i))) (at_cpu i h))
    \<and> (\<forall>lk. owns (ts i) lk \<longrightarrow> \<not> ifl h (apicid (cpus h ! i)))
    \<and> (lpc (ts i) = Outside \<longrightarrow> held (ts i) = [] \<longrightarrow> masks (ts i) = 0 \<longrightarrow> ifl h (apicid (cpus h ! i)) = ifl h0 (apicid (cpus h0 ! i)))"
proof -
  note I = lock_invD[OF lock_reach_inv[OF assms(1)]]
  have at: "cpu_at i h (depth (ts i)) (ifl h0 (apicid (cpus h0 ! i)))" by (rule I(3)[OF assms(2)])
  have off: "\<not> ifl h (apicid (cpus h ! i))" if "owns (ts i) lk" for lk
    using at that by (cases "held (ts i)") (auto simp: cpu_at_def owns_def depth_def split: if_splits)
  have hold: "holding lk (at_cpu i h) = Ret (lk \<in> set (held (ts i))) (at_cpu i h)" if "\<not> ifl h (apicid (cpus h ! i))" for lk
  proof -
    have "mycpu (at_cpu i h) = Ret i (at_cpu i h)"
      using that by (intro mycpu_off this_cpu_at_cpu I(1) assms(2)) (simp add: readeflags_if_def)
    moreover have "lk \<in> set (held (ts i)) \<Longrightarrow> locked (locks h lk)" using I(7)[of lk] by (auto simp: owns_def)
    ultimately show ?thesis using I(8)[of lk i] by (auto simp: holding_def kdefs)
  qed
  show ?thesis using I(6) off hold at by (auto simp: cpu_at_def depth_def)
qed

text \<open>One CPU takes two locks, one inside of the other, and gives the inner one back.\<close>

lemma nested_reach:
  "\<exists>h ts. lock_reach two_cpus (h, ts) \<and> held (ts 1) = [Llog] \<and> lpc (ts 1) = Outside \<and> length (cpus h) = 2"
proof -
  have init: "lock_init two_cpus" by (auto simp: lock_init_def two_cpus_def)
  have d: "distinct (map apicid (cpus two_cpus))" "cpu_at 1 two_cpus 0 False" "locks two_cpus = (\<lambda>_. freelock)" "length (cpus two_cpus) = 2"
    by (simp_all add: two_cpus_def cpu_at_def)
  obtain h1 where h1: "acquire Llog (at_cpu 1 two_cpus) = Ret () h1" "cpu_frame 1 two_cpus h1" "cpu_at 1 h1 1 False"
      "locks h1 = (\<lambda>_. freelock)(Llog := \<lparr>locked = True, lk_cpu = Some 1\<rparr>)"
    using acquire_at(1)[OF d(1,2), of Llog] d(3) by (auto simp: freelock_def)
  have d1: "distinct (map apicid (cpus h1))" "length (cpus h1) = 2" using h1(2) d cpu_frame_length[OF h1(2)] by (simp_all add: cpu_frame_def)
  obtain h2 where h2: "acquire Lbcache (at_cpu 1 h1) = Ret () h2" "cpu_frame 1 h1 h2" "cpu_at 1 h2 2 False"
      "locks h2 = (locks h1)(Lbcache := \<lparr>locked = True, lk_cpu = Some 1\<rparr>)"
    using acquire_at(1)[OF d1(1) h1(3), of Lbcache] h1(4) by (auto simp: freelock_def numeral_2_eq_2)
  have d2: "distinct (map apicid (cpus h2))" "length (cpus h2) = 2" using h2(2) d1 cpu_frame_length[OF h2(2)] by (simp_all add: cpu_frame_def)
  obtain h3 where h3: "release Lbcache (at_cpu 1 h2) = Ret () h3" "cpu_frame 1 h2 h3"
    using release_at[OF d2(1), of 1 1 False Lbcache] h2(3,4) by (auto simp: numeral_2_eq_2)
  let ?t = "\<lambda>ls. (\<lambda>_. lstart)(1 := lstart\<lparr>held := ls, lpc := Outside\<rparr>)"
  have "lock_step\<^sup>*\<^sup>* (two_cpus, \<lambda>_. lstart) (h1, ?t [Llog])"
    using acquire_is_run[OF _ _ h1(1), of "\<lambda>_. lstart"] d(4) by (simp add: lstart_def)
  also have "lock_step\<^sup>*\<^sup>* (h1, ?t [Llog]) (h2, ?t [Lbcache, Llog])"
    using acquire_is_run[OF _ _ h2(1), of "?t [Llog]"] d1(2) by (simp add: lstart_def)
  also have "lock_step\<^sup>*\<^sup>* (h2, ?t [Lbcache, Llog]) (h3, ?t [Llog])"
    using release_is_run[OF _ _ h3(1), of "?t [Lbcache, Llog]"] d2(2) by (simp add: lstart_def)
  finally have run: "lock_step\<^sup>*\<^sup>* (two_cpus, \<lambda>_. lstart) (h3, ?t [Llog])" .
  have "lock_reach two_cpus s" if "lock_step\<^sup>*\<^sup>* (two_cpus, \<lambda>_. lstart) s" for s
    using that by (induction rule: rtranclp_induct) (auto intro: lock_reach.intros init)
  then show ?thesis using run d2(2) cpu_frame_length[OF h3(2)] by (intro exI[of _ h3] exI[of _ "?t [Llog]"]) simp
qed

theorem lock_mutual_exclusion_witness:
  "\<exists>h ts. lock_reach two_cpus (h, ts) \<and> held (ts 1) = [Llog] \<and> \<not> owns (ts 0) Llog \<and> \<not> ifl h (apicid (cpus h ! 1))
     \<and> holding Llog (at_cpu 1 h) = Ret True (at_cpu 1 h) \<and> holding Lbcache (at_cpu 1 h) = Ret False (at_cpu 1 h)"
proof -
  obtain h ts where r: "lock_reach two_cpus (h, ts)" "held (ts 1) = [Llog]" "length (cpus h) = 2" using nested_reach by blast
  have o: "owns (ts 1) Llog" using r(2) by (simp add: owns_def)
  show ?thesis using lock_mutual_exclusion[OF r(1), of 1] r o by (intro exI[of _ h] exI[of _ ts]) auto
qed

text \<open>
  C30: A critical section is transparent to the rest of the CPU's state: \<^verbatim>\<open>acquire\<close> of a free lock
  takes it with interrupts off, and the matching \<^verbatim>\<open>release\<close> returns every lock, every nesting count
  and the interrupt flag to what they were, whatever the nesting depth; a second \<^verbatim>\<open>acquire\<close> of the
  lock by the same CPU panics.
\<close>

theorem acquire_release_balanced:
  assumes "hwgood h" "lkfree lk h"
  shows "\<exists>h1 h2. acquire lk h = Ret () h1 \<and> \<not> readeflags_if h1 \<and> acquire lk h1 = Panic ''acquire''
    \<and> release lk h1 = Ret () h2 \<and> locks h2 = locks h \<and> readeflags_if h2 = readeflags_if h
    \<and> map ncli (cpus h2) = map ncli (cpus h) \<and> hwgood h2"
proof -
  have n: "map ncli (cpus (settle h)) = map ncli (cpus h)"
    using assms(1) by (elim hwgoodE) (auto simp: settle_def upd_cpu_def nth_list_update intro: nth_equalityI)
  have "acquire lk (enter lk h) = Panic ''acquire''"
    using assms by (intro acquire_held_panics) simp_all
  then show ?thesis using assms n
    by (intro exI[of _ "enter lk h"] exI[of _ "settle h"]) (simp add: spin.acq_ok spin.rel_ok)
qed

theorem acquire_release_balanced_witness:
  "hwgood two_cpus \<and> (\<exists>h1 h2. acquire Lptable two_cpus = Ret () h1 \<and> release Lptable h1 = Ret () h2
     \<and> readeflags_if h2)"
proof -
  have g: "hwgood two_cpus" "lkfree Lptable two_cpus" "readeflags_if two_cpus"
    by (simp_all add: two_cpus_def hwgood_def this_cpu_def lkfree_def readeflags_if_def)
  show ?thesis using acquire_release_balanced[OF g(1,2)] g(1,3) by auto
qed

end
