(* ===== verification/CString.thy ===== *)
theory CString
  imports Prelude
begin

text \<open>
  The kernel's byte and string routines (\<^verbatim>\<open>string.c\<close>) and their user-level counterparts
  (\<^verbatim>\<open>ulib.c\<close>).  Memory is a function from addresses to bytes.  A routine that writes takes the
  memory and the two addresses, so that overlapping regions are covered; a routine that only reads
  takes the memory as seen from its pointer, \<open>p i\<close> being \<^verbatim>\<open>p[i]\<close>.
\<close>

unbundle bit_operations_syntax

type_synonym memory = "nat \<Rightarrow> byte"
type_synonym view = "nat \<Rightarrow> byte"

definition view_of :: "byte list \<Rightarrow> view" where
  "view_of xs i = (if i < length xs then xs ! i else 0)"

section \<open>Copying and filling\<close>

fun copy_up :: "memory \<Rightarrow> nat \<Rightarrow> nat \<Rightarrow> nat \<Rightarrow> memory" where
  "copy_up m d s 0 = m"
| "copy_up m d s (Suc n) = copy_up (m(d := m s)) (d + 1) (s + 1) n"

fun copy_down :: "memory \<Rightarrow> nat \<Rightarrow> nat \<Rightarrow> nat \<Rightarrow> memory" where
  "copy_down m d s 0 = m"
| "copy_down m d s (Suc n) = copy_down (m(d + n := m (s + n))) d s n"

definition memmove :: "memory \<Rightarrow> nat \<Rightarrow> nat \<Rightarrow> nat \<Rightarrow> memory" where
  "memmove m d s n = (if s < d \<and> s + n > d then copy_down m d s n else copy_up m d s n)"

definition memcpy :: "memory \<Rightarrow> nat \<Rightarrow> nat \<Rightarrow> nat \<Rightarrow> memory" where
  "memcpy m d s n = memmove m d s n"

fun stosb :: "memory \<Rightarrow> nat \<Rightarrow> byte \<Rightarrow> nat \<Rightarrow> memory" where
  "stosb m d c 0 = m"
| "stosb m d c (Suc n) = stosb (m(d := c)) (d + 1) c n"

definition store4 :: "memory \<Rightarrow> nat \<Rightarrow> u32 \<Rightarrow> memory" where
  "store4 m a w =
     m(a := ucast w, a + 1 := ucast (drop_bit 8 w), a + 2 := ucast (drop_bit 16 w),
       a + 3 := ucast (drop_bit 24 w))"

definition load4 :: "memory \<Rightarrow> nat \<Rightarrow> u32" where
  "load4 m a =
     ucast (m a) OR push_bit 8 (ucast (m (a + 1))) OR push_bit 16 (ucast (m (a + 2)))
     OR push_bit 24 (ucast (m (a + 3)))"

fun stosl :: "memory \<Rightarrow> nat \<Rightarrow> u32 \<Rightarrow> nat \<Rightarrow> memory" where
  "stosl m d w 0 = m"
| "stosl m d w (Suc n) = stosl (store4 m d w) (d + 4) w n"

definition memset :: "memory \<Rightarrow> nat \<Rightarrow> u32 \<Rightarrow> nat \<Rightarrow> memory" where
  "memset m d c n =
     (if d mod 4 = 0 \<and> n mod 4 = 0
      then (let c' = c AND 0xFF in
            stosl m d (push_bit 24 c' OR push_bit 16 c' OR push_bit 8 c' OR c') (n div 4))
      else stosb m d (ucast c) n)"

lemma copy_up_apply:
  "d \<le> s \<or> s + n \<le> d \<Longrightarrow> copy_up m d s n a = (if d \<le> a \<and> a < d + n then m (s + (a - d)) else m a)"
proof (induction n arbitrary: m d s)
  case 0
  then show ?case by auto
next
  case (Suc n)
  then have "d + 1 \<le> s + 1 \<or> (s + 1) + n \<le> d + 1" by auto
  note IH = Suc.IH[OF this]
  show ?case
  proof (cases "d < a \<and> a < d + Suc n")
    case True
    then have "s + 1 + (a - (d + 1)) = s + (a - d)" by arith
    moreover have "s + (a - d) \<noteq> d" using True Suc.prems by linarith
    ultimately show ?thesis using True unfolding copy_up.simps IH by simp
  next
    case False
    then show ?thesis unfolding copy_up.simps IH by auto
  qed
qed

lemma copy_down_apply:
  "s \<le> d \<Longrightarrow> copy_down m d s n a = (if d \<le> a \<and> a < d + n then m (s + (a - d)) else m a)"
proof (induction n arbitrary: m)
  case 0
  then show ?case by auto
next
  case (Suc n)
  have "s + (a - d) \<noteq> d + n" if "d \<le> a" "a < d + n" using that Suc.prems by linarith
  then show ?case unfolding copy_down.simps Suc.IH[OF Suc.prems] by (auto simp: less_Suc_eq)
qed

lemma memmove_apply:
  "memmove m d s n a = (if d \<le> a \<and> a < d + n then m (s + (a - d)) else m a)"
proof (cases "s < d \<and> s + n > d")
  case True
  then show ?thesis by (simp add: memmove_def copy_down_apply)
next
  case False
  then have "d \<le> s \<or> s + n \<le> d" by linarith
  then show ?thesis unfolding memmove_def if_not_P[OF False] by (rule copy_up_apply)
qed

lemma stosb_apply: "stosb m d c n a = (if d \<le> a \<and> a < d + n then c else m a)"
  by (induction n arbitrary: m d) auto

lemma stosl_apply:
  assumes "\<And>k. k < 4 \<Longrightarrow> (ucast (drop_bit (8 * k) w) :: byte) = c"
  shows "stosl m d w n a = (if d \<le> a \<and> a < d + 4 * n then c else m a)"
proof (induction n arbitrary: m d)
  case 0
  then show ?case by auto
next
  case (Suc n)
  have st: "store4 m d w = m(d := c, d + 1 := c, d + 2 := c, d + 3 := c)"
    using assms[of 0] assms[of 1] assms[of 2] assms[of 3] by (simp add: store4_def)
  show ?case unfolding stosl.simps Suc.IH st by auto
qed

lemma spread_byte:
  fixes c :: u32
  assumes "k < 4"
  defines "c' \<equiv> c AND 0xFF"
  shows "(ucast (drop_bit (8 * k) (push_bit 24 c' OR push_bit 16 c' OR push_bit 8 c' OR c')) :: byte)
         = ucast c"
proof -
  have mask: "bit (0xFF :: u32) j \<longleftrightarrow> j < 8" for j
  proof -
    have e: "(0xFF :: u32) = mask 8" by (simp add: mask_eq_exp_minus_1)
    show ?thesis unfolding e bit_mask_iff by auto
  qed
  show ?thesis
  proof (rule bit_word_eqI)
    fix n assume "n < LENGTH(8)"
    then have n: "n < 8" by simp
    have b: "bit c' j \<longleftrightarrow> bit c j \<and> j < 8" for j unfolding c'_def bit_and_iff mask ..
    have sh: "bit (push_bit (8 * q) c') (8 * k + n) \<longleftrightarrow> q = k \<and> bit c n" for q
    proof -
      have "8 * q \<le> 8 * k + n \<and> 8 * k + n - 8 * q < 8 \<longleftrightarrow> q = k"
        using n by (cases q k rule: linorder_cases) auto
      then show ?thesis unfolding bit_push_bit_iff b using n assms(1) by auto
    qed
    have "c' = push_bit 0 c'" by simp
    then have "bit (push_bit 24 c' OR push_bit 16 c' OR push_bit 8 c' OR c') (8 * k + n) \<longleftrightarrow> bit c n"
      using sh[of 0] sh[of 1] sh[of 2] sh[of 3] assms(1) by (auto simp: bit_or_iff)
    then show "bit (ucast (drop_bit (8 * k) (push_bit 24 c' OR push_bit 16 c' OR push_bit 8 c' OR c')) :: byte) n
        = bit (ucast c :: byte) n"
      using n by (simp add: bit_ucast_iff bit_drop_bit_eq del: drop_bit_or)
  qed
qed

lemma memset_apply: "memset m d c n a = (if d \<le> a \<and> a < d + n then ucast c else m a)"
proof (cases "d mod 4 = 0 \<and> n mod 4 = 0")
  case True
  then have n: "4 * (n div 4) = n" by auto
  show ?thesis
    unfolding memset_def if_P[OF True] Let_def
    by (subst stosl_apply[where c = "ucast c"]) (rule spread_byte, assumption, simp add: n)
next
  case False
  then show ?thesis by (auto simp: memset_def stosb_apply)
qed

text \<open>A block copy from a buffer that is not part of the memory.\<close>

definition put_bytes :: "memory \<Rightarrow> nat \<Rightarrow> byte list \<Rightarrow> memory" where
  "put_bytes m a bs = (\<lambda>x. if a \<le> x \<and> x < a + length bs then bs ! (x - a) else m x)"

definition get_bytes :: "memory \<Rightarrow> nat \<Rightarrow> nat \<Rightarrow> byte list" where
  "get_bytes m a n = map (\<lambda>i. m (a + i)) [0..<n]"

lemma length_get_bytes [simp]: "length (get_bytes m a n) = n"
  by (simp add: get_bytes_def)

lemma nth_get_bytes [simp]: "i < n \<Longrightarrow> get_bytes m a n ! i = m (a + i)"
  by (simp add: get_bytes_def)

lemma get_put_bytes [simp]: "get_bytes (put_bytes m a bs) a (length bs) = bs"
  by (rule nth_equalityI) (simp_all add: put_bytes_def)

lemma load4_cong:
  assumes "\<And>i. i < 4 \<Longrightarrow> m (a + i) = m' (a + i)"
  shows "load4 m a = load4 m' a"
  using assms[of 0] assms[of 1] assms[of 2] assms[of 3] unfolding load4_def by simp

lemma load4_store4 [simp]: "load4 (store4 m a w) a = w"
proof (rule bit_word_eqI)
  fix n assume "n < LENGTH(32)"
  then have "n < 8 \<or> n = (n - 8) + 8 \<and> n - 8 < 8 \<or> n = (n - 16) + 16 \<and> n - 16 < 8
      \<or> n = (n - 24) + 24 \<and> n - 24 < 8"
    by auto
  then consider "n < 8" | j where "n = j + 8" "j < 8" | j where "n = j + 16" "j < 8" | j where "n = j + 24" "j < 8"
    by blast
  then show "bit (load4 (store4 m a w) a) n = bit w n"
    by cases (simp_all add: load4_def store4_def bit_or_iff bit_push_bit_iff bit_ucast_iff bit_drop_bit_eq add.commute)
qed

lemma load4_store4_other: "a + 4 \<le> b \<or> b + 4 \<le> a \<Longrightarrow> load4 (store4 m a w) b = load4 m b"
  by (rule load4_cong) (auto simp: store4_def)

lemma load4_store4_aligned:
  "a mod 4 = 0 \<Longrightarrow> b mod 4 = 0 \<Longrightarrow> load4 (store4 m a w) b = (if a = b then w else load4 m b)"
proof -
  assume "a mod 4 = 0" "b mod 4 = 0"
  then obtain i j where "a = 4 * i" "b = 4 * j" by (metis dvd_def mod_0_imp_dvd)
  then show ?thesis using load4_store4_other[of a b m w] by (cases i j rule: linorder_cases) auto
qed

section \<open>Comparing\<close>

text \<open>\<^verbatim>\<open>memcmp\<close> and \<^verbatim>\<open>strncmp\<close> return the difference of the first differing bytes as unsigned chars.\<close>

fun memcmp :: "view \<Rightarrow> view \<Rightarrow> nat \<Rightarrow> int" where
  "memcmp p q 0 = 0"
| "memcmp p q (Suc n) =
     (if p 0 \<noteq> q 0 then uint (p 0) - uint (q 0) else memcmp (\<lambda>i. p (i + 1)) (\<lambda>i. q (i + 1)) n)"

fun strncmp :: "view \<Rightarrow> view \<Rightarrow> nat \<Rightarrow> int" where
  "strncmp p q 0 = 0"
| "strncmp p q (Suc n) =
     (if p 0 \<noteq> 0 \<and> p 0 = q 0 then strncmp (\<lambda>i. p (i + 1)) (\<lambda>i. q (i + 1)) n
      else uint (p 0) - uint (q 0))"

lemma memcmp_eq_0_iff: "memcmp p q n = 0 \<longleftrightarrow> (\<forall>i<n. p i = q i)"
proof (induction n arbitrary: p q)
  case 0
  then show ?case by simp
next
  case (Suc n)
  have "(\<forall>i<Suc n. p i = q i) \<longleftrightarrow> p 0 = q 0 \<and> (\<forall>i<n. p (i + 1) = q (i + 1))"
    by (auto simp: less_Suc_eq_0_disj)
  with Suc.IH[of "\<lambda>i. p (i + 1)" "\<lambda>i. q (i + 1)"] show ?case
    by (auto simp: word_uint_eq_iff)
qed

text \<open>The characters of a C string bounded by \<open>n\<close>: up to the first NUL, at most \<open>n\<close> of them.\<close>

fun cstr :: "view \<Rightarrow> nat \<Rightarrow> byte list" where
  "cstr p 0 = []"
| "cstr p (Suc n) = (if p 0 = 0 then [] else p 0 # cstr (\<lambda>i. p (i + 1)) n)"

lemma length_cstr: "length (cstr p n) \<le> n"
  by (induction n arbitrary: p) auto

lemma strncmp_eq_0_iff: "strncmp p q n = 0 \<longleftrightarrow> cstr p n = cstr q n"
proof (induction n arbitrary: p q)
  case 0
  then show ?case by simp
next
  case (Suc n)
  show ?case
  proof (cases "p 0 \<noteq> 0 \<and> p 0 = q 0")
    case True
    then show ?thesis using Suc.IH by simp
  next
    case False
    then have "uint (p 0) - uint (q 0) = 0 \<longleftrightarrow> p 0 = q 0" by (auto simp: word_uint_eq_iff)
    with False show ?thesis by auto
  qed
qed

section \<open>Copying strings\<close>

text \<open>
  \<^verbatim>\<open>strncpy\<close>: the first loop copies up to and including the NUL, the second pads.  Both decrement
  \<^verbatim>\<open>n\<close> in their test.
\<close>

fun strncpy_pad :: "memory \<Rightarrow> nat \<Rightarrow> nat \<Rightarrow> memory" where
  "strncpy_pad m s 0 = m"
| "strncpy_pad m s (Suc n) = strncpy_pad (m(s := 0)) (s + 1) n"

fun strncpy_copy :: "memory \<Rightarrow> nat \<Rightarrow> nat \<Rightarrow> nat \<Rightarrow> memory" where
  "strncpy_copy m s t 0 = m"
| "strncpy_copy m s t (Suc n) =
     (let m' = m(s := m t) in
      if m t \<noteq> 0 then strncpy_copy m' (s + 1) (t + 1) n else strncpy_pad m' (s + 1) n)"

definition strncpy :: "memory \<Rightarrow> nat \<Rightarrow> nat \<Rightarrow> int \<Rightarrow> memory" where
  "strncpy m s t n = strncpy_copy m s t (nat n)"

fun safestrcpy_copy :: "memory \<Rightarrow> nat \<Rightarrow> nat \<Rightarrow> nat \<Rightarrow> memory" where
  "safestrcpy_copy m s t 0 = m(s := 0)"
| "safestrcpy_copy m s t (Suc n) =
     (let m' = m(s := m t) in
      if m t \<noteq> 0 then safestrcpy_copy m' (s + 1) (t + 1) n else m'(s + 1 := 0))"

definition safestrcpy :: "memory \<Rightarrow> nat \<Rightarrow> nat \<Rightarrow> int \<Rightarrow> memory" where
  "safestrcpy m s t n = (if n \<le> 0 then m else safestrcpy_copy m s t (nat (n - 1)))"

lemma strncpy_pad_apply: "strncpy_pad m s n a = (if s \<le> a \<and> a < s + n then 0 else m a)"
  by (induction n arbitrary: m s) auto

lemma cstr_nth: "i < length (cstr p n) \<Longrightarrow> cstr p n ! i = p i"
proof (induction n arbitrary: p i)
  case 0
  then show ?case by simp
next
  case (Suc n)
  then show ?case by (cases i) (auto split: if_splits)
qed

lemma cstr_cong: "(\<And>i. i < n \<Longrightarrow> p i = q i) \<Longrightarrow> cstr p n = cstr q n"
proof (induction n arbitrary: p q)
  case 0
  then show ?case by simp
next
  case (Suc n)
  have "cstr (\<lambda>i. p (i + 1)) n = cstr (\<lambda>i. q (i + 1)) n" by (rule Suc.IH) (simp add: Suc.prems)
  then show ?case using Suc.prems[of 0] by simp
qed

lemma cstr_eqI:
  "length (cstr q k) = l \<Longrightarrow> l \<le> k \<Longrightarrow> k \<le> n \<Longrightarrow> l < n \<Longrightarrow> p l = 0 \<Longrightarrow> (\<And>i. i < l \<Longrightarrow> p i = q i) \<Longrightarrow>
   cstr p n = cstr q k"
proof (induction k arbitrary: p q l n)
  case 0
  then show ?case by (cases n) auto
next
  case (Suc k)
  then obtain n' where n: "n = Suc n'" by (cases n) auto
  show ?case
  proof (cases "q 0 = 0")
    case True
    with Suc.prems n show ?thesis by auto
  next
    case False
    then obtain l' where l: "l = Suc l'" using Suc.prems(1) by auto
    have "cstr (\<lambda>i. p (i + 1)) n' = cstr (\<lambda>i. q (i + 1)) k"
      by (rule Suc.IH[where l = l']) (use Suc.prems n l False in auto)
    then show ?thesis using n False Suc.prems(6)[of 0] l by simp
  qed
qed

lemma strncpy_copy_apply:
  assumes "s + n \<le> t \<or> t + n \<le> s"
  shows "strncpy_copy m s t n a =
     (if s \<le> a \<and> a < s + n
      then (if a - s < length (cstr (\<lambda>i. m (t + i)) n) then m (t + (a - s)) else 0)
      else m a)"
  using assms
proof (induction n arbitrary: m s t)
  case 0
  then show ?case by auto
next
  case (Suc n)
  let ?m = "m(s := m t)"
  have dis: "s + 1 + n \<le> t + 1 \<or> t + 1 + n \<le> s + 1" using Suc.prems by auto
  have cs: "cstr (\<lambda>i. ?m (t + 1 + i)) n = cstr (\<lambda>i. m (t + (i + 1))) n"
    by (rule cstr_cong) (use Suc.prems in auto)
  show ?case
  proof (cases "m t = 0")
    case True
    then show ?thesis by (auto simp: strncpy_pad_apply Let_def)
  next
    case False
    let ?l = "length (cstr (\<lambda>i. m (t + (i + 1))) n)"
    have eq: "strncpy_copy m s t (Suc n) a =
        (if s + 1 \<le> a \<and> a < s + 1 + n then if a - (s + 1) < ?l then ?m (t + 1 + (a - (s + 1))) else 0
         else ?m a)"
      unfolding strncpy_copy.simps Let_def if_P[OF False] Suc.IH[OF dis] cs ..
    have len: "length (cstr (\<lambda>i. m (t + i)) (Suc n)) = Suc ?l" using False by simp
    show ?thesis
    proof (cases "s < a \<and> a < s + Suc n")
      case True
      then obtain d where d: "a = s + 1 + d" by (metis Suc_eq_plus1 Suc_leI le_Suc_ex)
      then have "t + 1 + d \<noteq> s" using True Suc.prems by auto
      with True d show ?thesis unfolding eq len by simp
    next
      case F: False
      then show ?thesis unfolding eq len by auto
    qed
  qed
qed

lemma safestrcpy_copy_apply:
  assumes "s + Suc n \<le> t \<or> t + Suc n \<le> s"
  shows "safestrcpy_copy m s t n a =
     (let l = length (cstr (\<lambda>i. m (t + i)) n) in
      if s \<le> a \<and> a < s + l then m (t + (a - s))
      else if a = s + l \<or> l < n \<and> a = s + l + 1 then 0
      else m a)"
  using assms
proof (induction n arbitrary: m s t)
  case 0
  then show ?case by auto
next
  case (Suc n)
  let ?m = "m(s := m t)"
  have dis: "s + 1 + Suc n \<le> t + 1 \<or> t + 1 + Suc n \<le> s + 1" using Suc.prems by auto
  have cs: "cstr (\<lambda>i. ?m (t + 1 + i)) n = cstr (\<lambda>i. m (t + (i + 1))) n"
    by (rule cstr_cong) (use Suc.prems in auto)
  show ?case
  proof (cases "m t = 0")
    case True
    then have "safestrcpy_copy m s t (Suc n) = m(s := 0, s + 1 := 0)"
      "length (cstr (\<lambda>i. m (t + i)) (Suc n)) = 0"
      by simp_all
    then show ?thesis unfolding Let_def by auto
  next
    case False
    define l where "l = length (cstr (\<lambda>i. m (t + (i + 1))) n)"
    have ln: "l \<le> n" unfolding l_def by (rule length_cstr)
    have eq: "safestrcpy_copy m s t (Suc n) a =
        (if s + 1 \<le> a \<and> a < s + 1 + l then ?m (t + 1 + (a - (s + 1)))
         else if a = s + 1 + l \<or> l < n \<and> a = s + 1 + l + 1 then 0 else ?m a)"
      unfolding safestrcpy_copy.simps Let_def if_P[OF False] Suc.IH[OF dis] cs l_def ..
    have len: "length (cstr (\<lambda>i. m (t + i)) (Suc n)) = Suc l" using False by (simp add: l_def)
    show ?thesis
    proof (cases "s < a \<and> a < s + Suc l")
      case True
      then have c1: "s + 1 \<le> a \<and> a < s + 1 + l" and c2: "s \<le> a \<and> a < s + Suc l" by auto
      obtain d where d: "a = s + 1 + d" using c1 by (metis le_Suc_ex)
      then have "t + 1 + d \<noteq> s" using True Suc.prems ln by auto
      with d show ?thesis unfolding eq len Let_def if_P[OF c1] if_P[OF c2] by simp
    next
      case F: False
      then have c1: "\<not> (s + 1 \<le> a \<and> a < s + 1 + l)" by auto
      show ?thesis
      proof (cases "a = s")
        case True
        then show ?thesis unfolding eq len Let_def if_not_P[OF c1] by simp
      next
        case False
        with F have c2: "\<not> (s \<le> a \<and> a < s + Suc l)" by auto
        with False show ?thesis unfolding eq len Let_def if_not_P[OF c1] if_not_P[OF c2] by simp
      qed
    qed
  qed
qed

section \<open>Unbounded scans\<close>

text \<open>
  \<^verbatim>\<open>strlen\<close>, \<^verbatim>\<open>strcmp\<close>, \<^verbatim>\<open>strcpy\<close>, \<^verbatim>\<open>strchr\<close> and \<^verbatim>\<open>atoi\<close> run until they meet a terminator, so they
  return only when there is one: \<open>None\<close> is an endless scan.
\<close>

partial_function (option) strlen_from :: "view \<Rightarrow> nat \<Rightarrow> nat option" where
  "strlen_from s n = (if s n = 0 then Some n else strlen_from s (n + 1))"

definition strlen :: "view \<Rightarrow> nat option" where
  "strlen s = strlen_from s 0"

partial_function (option) strcmp :: "view \<Rightarrow> view \<Rightarrow> nat \<Rightarrow> int option" where
  "strcmp p q i =
     (if p i \<noteq> 0 \<and> p i = q i then strcmp p q (i + 1) else Some (uint (p i) - uint (q i)))"

partial_function (option) strcpy :: "memory \<Rightarrow> nat \<Rightarrow> nat \<Rightarrow> memory option" where
  "strcpy m s t =
     (let m' = m(s := m t) in if m t \<noteq> 0 then strcpy m' (s + 1) (t + 1) else Some m')"

partial_function (option) strchr_from :: "view \<Rightarrow> byte \<Rightarrow> nat \<Rightarrow> nat option option" where
  "strchr_from s c i =
     (if s i = 0 then Some None else if s i = c then Some (Some i) else strchr_from s c (i + 1))"

definition strchr :: "view \<Rightarrow> byte \<Rightarrow> nat option option" where
  "strchr s c = strchr_from s c 0"

text \<open>\<^verbatim>\<open>atoi\<close> computes in C's \<^verbatim>\<open>int\<close>; \<open>None\<close> is also the overflow of one of its operations, which C leaves undefined.\<close>

partial_function (option) atoi_from :: "view \<Rightarrow> nat \<Rightarrow> int \<Rightarrow> int option" where
  "atoi_from s i n =
     (if 48 \<le> s i \<and> s i \<le> 57 then
        if in_int (n * 10) \<and> in_int (n * 10 + uint (s i)) \<and> in_int (n * 10 + uint (s i) - 48)
        then atoi_from s (i + 1) (n * 10 + uint (s i) - 48)
        else None
      else Some n)"

definition atoi :: "view \<Rightarrow> int option" where
  "atoi s = atoi_from s 0 0"

definition ulib_memset :: "memory \<Rightarrow> nat \<Rightarrow> u32 \<Rightarrow> nat \<Rightarrow> memory" where
  "ulib_memset m d c n = stosb m d (ucast c) n"

definition ulib_memmove :: "memory \<Rightarrow> nat \<Rightarrow> nat \<Rightarrow> int \<Rightarrow> memory" where
  "ulib_memmove m d s n = copy_up m d s (nat n)"

lemma strlen_from_total:
  "s (n + k) = 0 \<Longrightarrow> (\<And>i. i < k \<Longrightarrow> s (n + i) \<noteq> 0) \<Longrightarrow> strlen_from s n = Some (n + k)"
proof (induction k arbitrary: n)
  case 0
  then show ?case by (simp add: strlen_from.simps[of s n])
next
  case (Suc k)
  have "s n \<noteq> 0" using Suc.prems(2)[of 0] by simp
  moreover have "strlen_from s (n + 1) = Some (n + 1 + k)"
    using Suc.prems(1) Suc.prems(2)[of "Suc _"] by (intro Suc.IH) auto
  ultimately show ?case by (simp add: strlen_from.simps[of s n])
qed

lemma strlen_eq_Some:
  "s k = 0 \<Longrightarrow> (\<And>i. i < k \<Longrightarrow> s i \<noteq> 0) \<Longrightarrow> strlen s = Some k"
  using strlen_from_total[of s 0 k] by (simp add: strlen_def)

lemma strchr_from_total:
  "s (n + k) = 0 \<Longrightarrow> (\<And>i. i < k \<Longrightarrow> s (n + i) \<noteq> 0) \<Longrightarrow>
   strchr_from s c n = Some (map_option (\<lambda>j. n + j) (find_idx ((=) c) (map (\<lambda>i. s (n + i)) [0..<k])))"
proof (induction k arbitrary: n)
  case 0
  then show ?case by (simp add: strchr_from.simps[of s c n])
next
  case (Suc k)
  have nz: "s n \<noteq> 0" using Suc.prems(2)[of 0] by simp
  have m: "map (\<lambda>i. s (n + i)) [0..<Suc k] = s n # map (\<lambda>i. s (n + 1 + i)) [0..<k]"
    by (simp add: upt_conv_Cons map_Suc_upt[symmetric] del: upt_Suc)
  have "strchr_from s c (n + 1) = Some (map_option (\<lambda>j. n + 1 + j) (find_idx ((=) c) (map (\<lambda>i. s (n + 1 + i)) [0..<k])))"
    using Suc.prems(1) Suc.prems(2)[of "Suc _"] by (intro Suc.IH) auto
  then show ?case
    using nz by (auto simp: strchr_from.simps[of s c n] m option.map_comp comp_def simp del: upt_Suc)
qed

section \<open>Properties\<close>

text \<open>
  C31: \<^verbatim>\<open>memmove\<close> is right for every overlap of its regions: afterwards the destination holds what the
  source held before the call, and no other byte has changed.
\<close>

theorem memmove_correct:
  "memmove m d s n = (\<lambda>a. if d \<le> a \<and> a < d + n then m (s + (a - d)) else m a)"
  by (rule ext) (rule memmove_apply)

text \<open>
  C32: The kernel's \<^verbatim>\<open>memset\<close>, which stores four bytes at a time when the address and the length are
  multiples of four, writes the same memory as the byte loop of the user library: the low byte of
  \<^verbatim>\<open>c\<close> in each of the \<open>n\<close> places and nothing elsewhere.
\<close>

theorem memset_equiv:
  "memset m d c n = ulib_memset m d c n
   \<and> memset m d c n a = (if d \<le> a \<and> a < d + n then ucast c else m a)"
  by (simp add: fun_eq_iff memset_apply ulib_memset_def stosb_apply)

text \<open>
  \<^verbatim>\<open>safestrcpy\<close> with a positive size between disjoint regions leaves in the destination the
  source string cut to \<open>n - 1\<close> characters, always terminated within the \<open>n\<close> bytes, and writes
  nothing outside them.
\<close>

theorem safestrcpy_terminated:
  assumes "0 < n" "s + nat n \<le> t \<or> t + nat n \<le> s"
  shows "cstr (\<lambda>i. safestrcpy m s t n (s + i)) (nat n) = cstr (\<lambda>i. m (t + i)) (nat n - 1)
    \<and> (\<exists>i<nat n. safestrcpy m s t n (s + i) = 0)
    \<and> (\<forall>a. a < s \<or> s + nat n \<le> a \<longrightarrow> safestrcpy m s t n a = m a)"
proof -
  define k where "k = nat n - 1"
  have n: "nat n = Suc k" "nat (n - 1) = k" using assms(1) by (simp_all add: k_def nat_diff_distrib)
  define l where "l = length (cstr (\<lambda>i. m (t + i)) k)"
  have lk: "l \<le> k" unfolding l_def by (rule length_cstr)
  have ap: "safestrcpy m s t n a =
      (if s \<le> a \<and> a < s + l then m (t + (a - s))
       else if a = s + l \<or> l < k \<and> a = s + l + 1 then 0 else m a)" for a
    using safestrcpy_copy_apply[of s k t m a] assms n unfolding l_def safestrcpy_def Let_def by simp
  have z: "safestrcpy m s t n (s + l) = 0" unfolding ap by simp
  have copied: "safestrcpy m s t n (s + i) = m (t + i)" if "i < l" for i using that unfolding ap by simp
  have "cstr (\<lambda>i. safestrcpy m s t n (s + i)) (Suc k) = cstr (\<lambda>i. m (t + i)) k"
    by (rule cstr_eqI[where l = l]) (use z copied lk l_def in auto)
  moreover have "safestrcpy m s t n a = m a" if "a < s \<or> s + Suc k \<le> a" for a
    using that lk unfolding ap by auto
  moreover have "\<exists>i<Suc k. safestrcpy m s t n (s + i) = 0" using z lk by (intro exI[of _ l]) simp
  ultimately show ?thesis unfolding n by simp
qed

theorem safestrcpy_terminated_witness:
  "cstr (\<lambda>i. safestrcpy (\<lambda>a. if a < 20 then 65 else 66) 0 30 4 (0 + i)) (nat 4) = [66, 66, 66]"
proof -
  have "cstr (\<lambda>i. if 30 + i < (20 :: nat) then 65 else 66) (nat 4 - 1) = [66, 66, 66]" by code_simp
  then show ?thesis
    using safestrcpy_terminated[of 4 0 30 "\<lambda>a. if a < 20 then 65 else 66"] by simp
qed

end
