(* ===== verification/Cprintf.thy ===== *)
theory Cprintf
  imports CString
begin

text \<open>
  Formatted output: the kernel's \<^verbatim>\<open>printint\<close> and \<^verbatim>\<open>cprintf\<close> (\<^verbatim>\<open>console.c\<close>) and the user library's
  \<^verbatim>\<open>printint\<close> and \<^verbatim>\<open>printf\<close> (\<^verbatim>\<open>printf.c\<close>).  Both are modelled by the bytes they send to the output,
  in order.  An argument is the word the caller pushed; a \<^verbatim>\<open>%s\<close> argument is the string it points at,
  or a null pointer.
\<close>

datatype carg = ANum u32 | AStr "byte list" | ANull

definition bytes_of :: "string \<Rightarrow> byte list" where
  "bytes_of s = map (\<lambda>c. of_nat (of_char c)) s"

section \<open>Integers\<close>

definition digits :: "byte list" where
  "digits = bytes_of ''0123456789abcdef''"

definition udigits :: "byte list" where
  "udigits = bytes_of ''0123456789ABCDEF''"

text \<open>The \<^verbatim>\<open>do\<close> loop: the digits of \<open>x\<close>, least significant first, as they fill \<^verbatim>\<open>buf\<close>.\<close>

function digit_buf :: "byte list \<Rightarrow> nat \<Rightarrow> nat \<Rightarrow> byte list" where
  "digit_buf ds base x =
     ds ! (x mod base) # (if x div base = 0 \<or> base \<le> 1 then [] else digit_buf ds base (x div base))"
  by pat_completeness auto
termination
  by (relation "measure (\<lambda>(ds, base, x). x)") (auto intro!: div_less_dividend gr0I)

declare digit_buf.simps [simp del]

definition printint :: "u32 \<Rightarrow> nat \<Rightarrow> bool \<Rightarrow> byte list" where
  "printint xx base sign =
     (let sign = (sign \<and> sint xx < 0);
          x = (if sign then - xx else xx);
          buf = digit_buf digits base (unat x)
      in rev (if sign then buf @ [45] else buf))"

definition uprintint :: "u32 \<Rightarrow> nat \<Rightarrow> bool \<Rightarrow> byte list" where
  "uprintint xx base sg =
     (let (neg, x) = (if sg \<and> sint xx < 0 then (True, - xx) else (False, xx));
          buf = digit_buf udigits base (unat x)
      in rev (if neg then buf @ [45] else buf))"

section \<open>Format strings\<close>

text \<open>
  \<open>None\<close> is a call whose arguments do not fit its format (the code would read the stack beyond
  them, or follow a number as a pointer).
\<close>

fun str_arg :: "carg \<Rightarrow> byte list option" where
  "str_arg (AStr s) = Some (takeWhile (\<lambda>c. c \<noteq> 0) s)"
| "str_arg ANull = Some (bytes_of ''(null)'')"
| "str_arg (ANum n) = None"

fun num_arg :: "carg \<Rightarrow> u32 option" where
  "num_arg (ANum n) = Some n"
| "num_arg ANull = Some 0"
| "num_arg (AStr s) = None"

fun cprintf_text :: "byte list \<Rightarrow> carg list \<Rightarrow> byte list option" where
  "cprintf_text [] args = Some []"
| "cprintf_text (c # fmt) args =
     (if c = 0 then Some []
      else if c \<noteq> 37 then map_option ((#) c) (cprintf_text fmt args)
      else
        (case fmt of
           [] \<Rightarrow> Some []
         | d # fmt' \<Rightarrow>
             if d = 0 then Some []
             else if d = 100 then
               (case args of [] \<Rightarrow> None
                | a # args' \<Rightarrow> Option.bind (num_arg a) (\<lambda>n.
                    map_option ((@) (printint n 10 True)) (cprintf_text fmt' args')))
             else if d = 120 \<or> d = 112 then
               (case args of [] \<Rightarrow> None
                | a # args' \<Rightarrow> Option.bind (num_arg a) (\<lambda>n.
                    map_option ((@) (printint n 16 False)) (cprintf_text fmt' args')))
             else if d = 115 then
               (case args of [] \<Rightarrow> None
                | a # args' \<Rightarrow> Option.bind (str_arg a) (\<lambda>s.
                    map_option ((@) s) (cprintf_text fmt' args')))
             else if d = 37 then map_option ((#) 37) (cprintf_text fmt' args)
             else map_option (\<lambda>r. 37 # d # r) (cprintf_text fmt' args)))"

text \<open>\<^verbatim>\<open>printf\<close> keeps the state of a pending \<^verbatim>\<open>%\<close> in a variable, and also knows \<^verbatim>\<open>%c\<close>.\<close>

fun printf_loop :: "bool \<Rightarrow> byte list \<Rightarrow> carg list \<Rightarrow> byte list option" where
  "printf_loop st [] args = Some []"
| "printf_loop st (c # fmt) args =
     (if c = 0 then Some []
      else if \<not> st then
        (if c = 37 then printf_loop True fmt args else map_option ((#) c) (printf_loop False fmt args))
      else if c = 100 then
        (case args of [] \<Rightarrow> None
         | a # args' \<Rightarrow> Option.bind (num_arg a) (\<lambda>n.
             map_option ((@) (uprintint n 10 True)) (printf_loop False fmt args')))
      else if c = 120 \<or> c = 112 then
        (case args of [] \<Rightarrow> None
         | a # args' \<Rightarrow> Option.bind (num_arg a) (\<lambda>n.
             map_option ((@) (uprintint n 16 False)) (printf_loop False fmt args')))
      else if c = 115 then
        (case args of [] \<Rightarrow> None
         | a # args' \<Rightarrow> Option.bind (str_arg a) (\<lambda>s.
             map_option ((@) s) (printf_loop False fmt args')))
      else if c = 99 then
        (case args of [] \<Rightarrow> None
         | a # args' \<Rightarrow> Option.bind (num_arg a) (\<lambda>n.
             map_option ((#) (ucast n)) (printf_loop False fmt args')))
      else if c = 37 then map_option ((#) 37) (printf_loop False fmt args)
      else map_option (\<lambda>r. 37 # c # r) (printf_loop False fmt args))"

definition uprintf :: "byte list \<Rightarrow> carg list \<Rightarrow> byte list option" where
  "uprintf fmt args = printf_loop False fmt args"

section \<open>Printing and reading back\<close>

text \<open>The value of a digit buffer, least significant digit first.\<close>

fun digval :: "byte list \<Rightarrow> int" where
  "digval [] = 0"
| "digval (d # ds) = uint d - 48 + 10 * digval ds"

definition decimal :: "byte \<Rightarrow> bool" where
  "decimal b \<longleftrightarrow> 48 \<le> b \<and> b \<le> 57"

lemma digits_table:
  "\<forall>d\<in>set [0..<10]. uint (digits ! d) = 48 + int d \<and> udigits ! d = digits ! d"
  by code_simp

lemma digits_nth: "d < 10 \<Longrightarrow> uint (digits ! d) = 48 + int d"
  using digits_table by simp

lemma udigits_nth: "d < 10 \<Longrightarrow> udigits ! d = digits ! d"
  using digits_table by simp

lemma digits_decimal: "d < 10 \<Longrightarrow> decimal (digits ! d)"
  using digits_nth[of d] by (simp add: decimal_def word_le_def)

lemma digit_buf_dec:
  "(\<forall>b\<in>set (digit_buf digits 10 x). decimal b) \<and> digval (digit_buf digits 10 x) = int x"
proof (induction x rule: less_induct)
  case (less x)
  have d: "x mod 10 < 10" by simp
  show ?case
  proof (cases "x div 10 = 0")
    case True
    then have "x mod 10 = x" by simp
    then show ?thesis
      using True digits_decimal[OF d] digits_nth[OF d] by (simp add: digit_buf.simps[of digits 10 x])
  next
    case False
    have e: "int (x mod 10) + 10 * int (x div 10) = int x"
      by (metis mod_mult_div_eq of_nat_add of_nat_mult of_nat_numeral)
    have "x div 10 < x" using False by simp
    from less.IH[OF this] False show ?thesis
      using digits_decimal[OF d] digits_nth[OF d] e
      by (simp add: digit_buf.simps[of digits 10 x])
  qed
qed

lemma digit_buf_udigits: "digit_buf udigits 10 x = digit_buf digits 10 x"
proof (induction x rule: less_induct)
  case (less x)
  then show ?case
    using udigits_nth[of "x mod 10"]
    by (cases "x div 10 = 0") (simp_all add: digit_buf.simps[of _ 10 x])
qed

lemma length_digit_buf: "2 \<le> base \<Longrightarrow> x < base ^ n \<Longrightarrow> 0 < n \<Longrightarrow> length (digit_buf ds base x) \<le> n"
proof (induction n arbitrary: x)
  case 0
  then show ?case by simp
next
  case (Suc n)
  show ?case
  proof (cases "x div base = 0")
    case True
    then show ?thesis by (simp add: digit_buf.simps[of ds base x])
  next
    case False
    have lt: "x div base < base ^ n" using Suc.prems by (intro less_mult_imp_div_less) (simp add: mult.commute)
    then have "0 < n" using False by (cases n) auto
    from Suc.IH[OF Suc.prems(1) lt this] False Suc.prems(1) show ?thesis
      by (simp add: digit_buf.simps[of ds base x])
  qed
qed

fun horner :: "byte list \<Rightarrow> int \<Rightarrow> int" where
  "horner [] n = n"
| "horner (d # ds) n = horner ds (n * 10 + uint d - 48)"

lemma horner_append: "horner (xs @ ys) n = horner ys (horner xs n)"
  by (induction xs arbitrary: n) auto

lemma horner_rev: "horner (rev ds) 0 = digval ds"
  by (induction ds) (auto simp: horner_append)

text \<open>The largest number that \<^verbatim>\<open>atoi\<close> reads: it adds the last character before it subtracts \<^verbatim>\<open>'0'\<close>.\<close>

abbreviation "ATOI_MAX \<equiv> (2147483599 :: int)"

lemma horner_ge: "0 \<le> n \<Longrightarrow> \<forall>b\<in>set ds. decimal b \<Longrightarrow> n \<le> horner ds n"
proof (induction ds arbitrary: n)
  case (Cons d ds)
  have "48 \<le> uint d" using Cons.prems(2) by (simp add: decimal_def word_le_def)
  then have "n \<le> n * 10 + uint d - 48" using Cons.prems(1) by linarith
  then show ?case using Cons.IH[of "n * 10 + uint d - 48"] Cons.prems by auto
qed simp

lemma atoi_from_horner:
  "(\<And>j. j < length ds \<Longrightarrow> s (i + j) = ds ! j) \<Longrightarrow> \<forall>b\<in>set ds. decimal b \<Longrightarrow> \<not> decimal (s (i + length ds)) \<Longrightarrow>
   0 \<le> n \<Longrightarrow> n \<le> ATOI_MAX \<Longrightarrow> atoi_from s i n = (if horner ds n \<le> ATOI_MAX then Some (horner ds n) else None)"
proof (induction ds arbitrary: i n)
  case Nil
  then show ?case by (auto simp: atoi_from.simps[of s i] decimal_def)
next
  case (Cons d ds)
  let ?v = "n * 10 + uint d - 48"
  have d: "s i = d" using Cons.prems(1)[of 0] by simp
  have dec: "48 \<le> d" "d \<le> 57" "48 \<le> uint d" "uint d \<le> 57" using Cons.prems(2) by (simp_all add: decimal_def word_le_def)
  have v: "0 \<le> ?v" using Cons.prems(4) dec(3) by simp
  have "s (i + 1 + j) = ds ! j" if "j < length ds" for j using Cons.prems(1)[of "Suc j"] that by simp
  then have IH: "atoi_from s (i + 1) ?v = (if horner ds ?v \<le> ATOI_MAX then Some (horner ds ?v) else None)" if "?v \<le> ATOI_MAX"
    using Cons.prems(2,3) v that by (intro Cons.IH) auto
  have ok: "in_int (n * 10) \<and> in_int (n * 10 + uint d) \<and> in_int ?v \<longleftrightarrow> ?v \<le> ATOI_MAX"
    using Cons.prems(4) dec(3,4) v by (auto simp: in_int_def)
  have "ATOI_MAX < horner ds ?v" if "\<not> ?v \<le> ATOI_MAX" using that horner_ge[OF v, of ds] Cons.prems(2) by simp
  then show ?case using IH ok dec(1,2) d by (subst atoi_from.simps) auto
qed

section \<open>Properties\<close>



end
