(* ===== verification/Klib.thy ===== *)
theory Klib
  imports Spinlock Cprintf
begin

text \<open>
  The part of the kernel state every component shares: the CPUs and locks, and the console output
  stream.  Lock operations are lifted to it, and \<^verbatim>\<open>cprintf\<close> appends to the stream under the console
  lock (\<^verbatim>\<open>console.c\<close>).  The state grows by record extension: each component adds the fields it owns.
\<close>

record ksys =
  khw :: hw
  cout :: "byte list"
  cons_locking :: bool

definition onhw :: "(hw, 'a) K \<Rightarrow> ('z ksys_scheme, 'a) K" where
  "onhw m s =
     (case m (khw s) of
        Ret a h \<Rightarrow> Ret a (s\<lparr>khw := h\<rparr>)
      | Panic msg \<Rightarrow> Panic msg
      | Spin \<Rightarrow> Spin
      | Blocked h \<Rightarrow> Blocked (s\<lparr>khw := h\<rparr>)
      | Fault \<Rightarrow> Fault)"

definition kacquire :: "lockid \<Rightarrow> ('z ksys_scheme, unit) K" where
  "kacquire lk = onhw (acquire lk)"

definition krelease :: "lockid \<Rightarrow> ('z ksys_scheme, unit) K" where
  "krelease lk = onhw (release lk)"

definition cprintf :: "byte list option \<Rightarrow> carg list \<Rightarrow> ('z ksys_scheme, unit) K" where
  "cprintf fmt args =
     kbind (kget cons_locking) (\<lambda>locking.
     kthen (kwhen locking (kacquire Lcons))
       (case fmt of
          None \<Rightarrow> kpanic ''null fmt''
        | Some f \<Rightarrow>
            kderef (cprintf_text f args) (\<lambda>out.
            kthen (kmod (\<lambda>s. s\<lparr>cout := cout s @ out\<rparr>))
              (kwhen locking (krelease Lcons)))))"

section \<open>Net effect of lifted operations\<close>

definition klock :: "lockid \<Rightarrow> 'z ksys_scheme \<Rightarrow> 'z ksys_scheme" where
  "klock lk s = s\<lparr>khw := enter lk (khw s)\<rparr>"

definition ksettle :: "'z ksys_scheme \<Rightarrow> 'z ksys_scheme" where
  "ksettle s = s\<lparr>khw := settle (khw s)\<rparr>"

definition settle_if :: "bool \<Rightarrow> 'z ksys_scheme \<Rightarrow> 'z ksys_scheme" where
  "settle_if b s = (if b then ksettle s else s)"

definition kgood :: "'z ksys_scheme \<Rightarrow> bool" where
  "kgood s \<longleftrightarrow> hwgood (khw s)"

definition kfree_lk :: "lockid \<Rightarrow> 'z ksys_scheme \<Rightarrow> bool" where
  "kfree_lk lk s \<longleftrightarrow> lkfree lk (khw s)"

text \<open>A call that leaves the locks as it found them.\<close>

definition kquiet :: "'z ksys_scheme \<Rightarrow> 'z ksys_scheme \<Rightarrow> bool" where
  "kquiet s t \<longleftrightarrow> (kgood s \<longrightarrow> kgood t) \<and> (\<forall>lk. kfree_lk lk t = kfree_lk lk s)"

lemma kquiet_refl [simp]: "kquiet s s"
  by (simp add: kquiet_def)

lemma kquiet_trans: "kquiet s t \<Longrightarrow> kquiet t u \<Longrightarrow> kquiet s u"
  by (simp add: kquiet_def)

lemma kquietD: "kquiet s t \<Longrightarrow> kgood s \<Longrightarrow> kgood t" "kquiet s t \<Longrightarrow> kfree_lk lk t = kfree_lk lk s"
  by (simp_all add: kquiet_def)

lemma onhw_Ret [simp]: "m (khw s) = Ret a h \<Longrightarrow> onhw m s = Ret a (s\<lparr>khw := h\<rparr>)"
  by (simp add: onhw_def)

lemma kacquire_free [simp]: "kgood s \<Longrightarrow> kfree_lk lk s \<Longrightarrow> kacquire lk s = Ret () (klock lk s)"
  by (simp add: kacquire_def kgood_def kfree_lk_def klock_def)

lemma krelease_klock [simp]: "kgood s \<Longrightarrow> kfree_lk lk s \<Longrightarrow> krelease lk (klock lk s) = Ret () (ksettle s)"
  by (simp add: krelease_def kgood_def kfree_lk_def klock_def ksettle_def)

lemma kgood_simps [simp]:
  "kgood s \<Longrightarrow> kgood (klock lk s)" "kgood s \<Longrightarrow> kgood (ksettle s)"
  by (simp_all add: kgood_def klock_def ksettle_def)

lemma kfree_lk_simps [simp]:
  "kfree_lk lk (klock lk' s) \<longleftrightarrow> lk \<noteq> lk' \<and> kfree_lk lk s"
  "kfree_lk lk (ksettle s) \<longleftrightarrow> kfree_lk lk s"
  by (simp_all add: kfree_lk_def klock_def ksettle_def)

lemma klock_ksettle [simp]: "kgood s \<Longrightarrow> klock lk (ksettle s) = klock lk s"
  by (simp add: klock_def ksettle_def kgood_def)

lemma ksettle_simps [simp]: "kgood s \<Longrightarrow> ksettle (ksettle s) = ksettle s" "kgood s \<Longrightarrow> ksettle (klock lk s) = klock lk s"
  by (simp_all add: klock_def ksettle_def kgood_def)

lemma cout_simps [simp]: "cout (klock lk s) = cout s" "cout (ksettle s) = cout s"
  "cons_locking (klock lk s) = cons_locking s" "cons_locking (ksettle s) = cons_locking s"
  "khw (klock lk s) = enter lk (khw s)" "khw (ksettle s) = settle (khw s)"
  by (simp_all add: klock_def ksettle_def)

text \<open>
  The hardware part commutes with updates of every other field; the normal form keeps the updates
  innermost, so that a \<open>krelease\<close> meets the \<open>klock\<close> it undoes.
\<close>

lemma kgood_upd [simp]:
  "kgood (s\<lparr>cout := x\<rparr>) = kgood s" "kfree_lk lk (s\<lparr>cout := x\<rparr>) = kfree_lk lk s"
  "(klock lk s)\<lparr>cout := x\<rparr> = klock lk (s\<lparr>cout := x\<rparr>)" "(ksettle s)\<lparr>cout := x\<rparr> = ksettle (s\<lparr>cout := x\<rparr>)"
  by (simp_all add: kgood_def kfree_lk_def klock_def ksettle_def)

interpretation kspin: critical "kacquire lk" "krelease lk" "klock lk" ksettle "\<lambda>s. kgood s \<and> kfree_lk lk s" for lk
  by unfold_locales simp_all

lemma cprintf_good:
  assumes "kgood s" "kfree_lk Lcons s" "cprintf_text f args = Some out"
  shows "cprintf (Some f) args s = Ret () (settle_if (cons_locking s) (s\<lparr>cout := cout s @ out\<rparr>))"
  using assms by (simp add: cprintf_def kdefs settle_if_def)

end
