(* ===== verification/Kalloc.thy ===== *)
theory Kalloc
  imports Klib
begin

text \<open>
  The physical page allocator (\<^verbatim>\<open>kalloc.c\<close>): a free list threaded through the free pages themselves.
  Addresses are kernel virtual addresses, as numbers below \<open>2 ^ 32\<close>; 0 is the null pointer.
\<close>

abbreviation "PGSIZE \<equiv> (4096 :: nat)"
abbreviation "KERNBASE \<equiv> (0x80000000 :: nat)"
abbreviation "PHYSTOP \<equiv> (0xE000000 :: nat)"

definition V2P :: "nat \<Rightarrow> nat" where
  "V2P a = (a + (2 ^ 32 - KERNBASE)) mod 2 ^ 32"

definition P2V :: "nat \<Rightarrow> nat" where
  "P2V a = (a + KERNBASE) mod 2 ^ 32"

definition PGROUNDUP :: "nat \<Rightarrow> nat" where
  "PGROUNDUP sz = ((sz + PGSIZE - 1) mod 2 ^ 32) div PGSIZE * PGSIZE"

definition PGROUNDDOWN :: "nat \<Rightarrow> nat" where
  "PGROUNDDOWN a = a div PGSIZE * PGSIZE"

record kphys = ksys +
  pmem :: memory
  kfreelist :: nat
  kmem_use_lock :: bool
  kend :: nat

definition kfree :: "nat \<Rightarrow> ('z kphys_scheme, unit) K" where
  "kfree v =
     kbind (kget kend) (\<lambda>e.
     if v mod PGSIZE \<noteq> 0 \<or> v < e \<or> V2P v \<ge> PHYSTOP then kpanic ''kfree''
     else
       kthen (kmod (\<lambda>s. s\<lparr>pmem := memset (pmem s) v 1 PGSIZE\<rparr>)) (
       kthen (kbind (kget kmem_use_lock) (\<lambda>u. kwhen u (kacquire Lkmem))) (
       kthen (kmod (\<lambda>s. s\<lparr>pmem := store4 (pmem s) v (of_nat (kfreelist s))\<rparr>)) (
       kthen (kmod (\<lambda>s. s\<lparr>kfreelist := v\<rparr>))
         (kbind (kget kmem_use_lock) (\<lambda>u. kwhen u (krelease Lkmem)))))))"

definition kalloc :: "('z kphys_scheme, nat) K" where
  "kalloc =
     kthen (kbind (kget kmem_use_lock) (\<lambda>u. kwhen u (kacquire Lkmem))) (
     kbind (kget kfreelist) (\<lambda>r.
     kthen (kwhen (r \<noteq> 0) (kmod (\<lambda>s. s\<lparr>kfreelist := unat (load4 (pmem s) r)\<rparr>))) (
     kthen (kbind (kget kmem_use_lock) (\<lambda>u. kwhen u (krelease Lkmem)))
       (kret r))))"

function range_pages :: "nat \<Rightarrow> nat \<Rightarrow> nat list" where
  "range_pages p vend = (if p + PGSIZE \<le> vend then p # range_pages (p + PGSIZE) vend else [])"
  by pat_completeness auto
termination by (relation "measure (\<lambda>(p, vend). vend - p)") auto

declare range_pages.simps [simp del]

definition freerange :: "nat \<Rightarrow> nat \<Rightarrow> ('z kphys_scheme, unit) K" where
  "freerange vstart vend = kfor (range_pages (PGROUNDUP vstart) vend) kfree"

definition kinit1 :: "nat \<Rightarrow> nat \<Rightarrow> ('z kphys_scheme, unit) K" where
  "kinit1 vstart vend =
     kthen (onhw (initlock Lkmem)) (
     kthen (kmod (\<lambda>s. s\<lparr>kmem_use_lock := False\<rparr>)) (freerange vstart vend))"

definition kinit2 :: "nat \<Rightarrow> nat \<Rightarrow> ('z kphys_scheme, unit) K" where
  "kinit2 vstart vend =
     kthen (freerange vstart vend) (kmod (\<lambda>s. s\<lparr>kmem_use_lock := True\<rparr>))"

section \<open>The free list as a chain in memory\<close>

fun flist :: "memory \<Rightarrow> nat \<Rightarrow> nat list \<Rightarrow> bool" where
  "flist m r [] \<longleftrightarrow> r = 0"
| "flist m r (x # xs) \<longleftrightarrow> r = x \<and> x \<noteq> 0 \<and> flist m (unat (load4 m x)) xs"

definition page_ok :: "nat \<Rightarrow> nat \<Rightarrow> bool" where
  "page_ok e v \<longleftrightarrow> v mod PGSIZE = 0 \<and> e \<le> v \<and> V2P v < PHYSTOP \<and> 0 < v \<and> v < 2 ^ 32"

definition kmem_ready :: "'z kphys_scheme \<Rightarrow> bool" where
  "kmem_ready s \<longleftrightarrow> (kmem_use_lock s \<longrightarrow> kgood s \<and> kfree_lk Lkmem s)"

definition kmem_inv :: "nat list \<Rightarrow> 'z kphys_scheme \<Rightarrow> bool" where
  "kmem_inv xs s \<longleftrightarrow>
     flist (pmem s) (kfreelist s) xs \<and> distinct xs \<and> (\<forall>x\<in>set xs. page_ok (kend s) x) \<and> kmem_ready s"

definition in_page :: "nat \<Rightarrow> nat \<Rightarrow> bool" where
  "in_page v a \<longleftrightarrow> v \<le> a \<and> a < v + PGSIZE"

lemma V2P_kern: "KERNBASE \<le> a \<Longrightarrow> a < 2 ^ 32 \<Longrightarrow> V2P a = a - KERNBASE"
proof -
  assume "KERNBASE \<le> a" "a < 2 ^ 32"
  then obtain d where d: "a = KERNBASE + d" "d < KERNBASE" by (auto simp: nat_le_iff_add)
  then show ?thesis by (simp add: V2P_def)
qed

lemma P2V_kern: "a < KERNBASE \<Longrightarrow> P2V a = KERNBASE + a"
  by (simp add: P2V_def)

lemma page_disjoint:
  "v mod PGSIZE = 0 \<Longrightarrow> w mod PGSIZE = 0 \<Longrightarrow> v \<noteq> w \<Longrightarrow> in_page v a \<Longrightarrow> \<not> in_page w a"
proof
  assume a: "v mod PGSIZE = 0" "w mod PGSIZE = 0" "v \<noteq> w" "in_page v a" "in_page w a"
  then obtain i j where "v = 4096 * i" "w = 4096 * j" by (metis dvd_def mod_0_imp_dvd)
  then show False using a(3-5) by (auto simp: in_page_def)
qed

lemma flist_cong:
  "flist m r xs \<Longrightarrow> (\<And>x. x \<in> set xs \<Longrightarrow> load4 m' x = load4 m x) \<Longrightarrow> flist m' r xs"
  by (induction xs arbitrary: r) auto

lemma flist_distinct_head: "flist m r (x # xs) \<Longrightarrow> flist m (unat (load4 m x)) xs"
  by simp

lemma kphys_lock_simps [simp]:
  "pmem (klock lk s) = pmem s" "kfreelist (klock lk s) = kfreelist s"
  "kmem_use_lock (klock lk s) = kmem_use_lock s" "kend (klock lk s) = kend s"
  "pmem (ksettle s) = pmem s" "kfreelist (ksettle s) = kfreelist s"
  "kmem_use_lock (ksettle s) = kmem_use_lock s" "kend (ksettle s) = kend s"
  by (simp_all add: klock_def ksettle_def)

lemma kphys_upd_simps [simp]:
  "kgood (s\<lparr>pmem := m\<rparr>) = kgood s" "kfree_lk lk (s\<lparr>pmem := m\<rparr>) = kfree_lk lk s"
  "kgood (s\<lparr>kfreelist := r\<rparr>) = kgood s" "kfree_lk lk (s\<lparr>kfreelist := r\<rparr>) = kfree_lk lk s"
  "(klock lk s)\<lparr>pmem := m\<rparr> = klock lk (s\<lparr>pmem := m\<rparr>)" "(ksettle s)\<lparr>pmem := m\<rparr> = ksettle (s\<lparr>pmem := m\<rparr>)"
  "(klock lk s)\<lparr>kfreelist := r\<rparr> = klock lk (s\<lparr>kfreelist := r\<rparr>)"
  "(ksettle s)\<lparr>kfreelist := r\<rparr> = ksettle (s\<lparr>kfreelist := r\<rparr>)"
  by (simp_all add: kgood_def kfree_lk_def klock_def ksettle_def)

lemma kfree_net:
  assumes "page_ok (kend s) v" "kmem_ready s"
  shows "kfree v s = Ret () (settle_if (kmem_use_lock s)
     (s\<lparr>pmem := store4 (memset (pmem s) v 1 PGSIZE) v (of_nat (kfreelist s)), kfreelist := v\<rparr>))"
  using assms by (auto simp: kfree_def kdefs page_ok_def kmem_ready_def settle_if_def)

lemma kalloc_net:
  assumes "kmem_ready s"
  shows "kalloc s = Ret (kfreelist s) (settle_if (kmem_use_lock s)
     (if kfreelist s = 0 then s else s\<lparr>kfreelist := unat (load4 (pmem s) (kfreelist s))\<rparr>))"
  using assms by (auto simp: kalloc_def kdefs kmem_ready_def settle_if_def)

lemma settle_if_simps [simp]:
  "pmem (settle_if b s) = pmem s" "kfreelist (settle_if b s) = kfreelist s"
  "kmem_use_lock (settle_if b s) = kmem_use_lock s" "kend (settle_if b s) = kend s"
  "kgood s \<Longrightarrow> kgood (settle_if b s)" "kfree_lk lk (settle_if b s) = kfree_lk lk s"
  by (simp_all add: settle_if_def)

lemma kmem_ready_simps [simp]:
  "kmem_ready (s\<lparr>pmem := m\<rparr>) = kmem_ready s" "kmem_ready (s\<lparr>kfreelist := r\<rparr>) = kmem_ready s"
  "kmem_ready s \<Longrightarrow> kmem_ready (settle_if b s)"
  by (auto simp: kmem_ready_def)

lemma kmem_inv_settle_if [simp]: "kmem_inv xs s \<Longrightarrow> kmem_inv xs (settle_if b s)"
  by (simp add: kmem_inv_def)

lemma in_page_self: "i < PGSIZE \<Longrightarrow> in_page v (v + i)"
  by (simp add: in_page_def)

lemma load4_other_page:
  assumes "\<And>a. \<not> in_page v a \<Longrightarrow> m' a = m a" "v mod PGSIZE = 0" "w mod PGSIZE = 0" "v \<noteq> w"
  shows "load4 m' w = load4 m w"
  using page_disjoint[OF assms(3,2) assms(4)[symmetric] in_page_self] assms(1)
  by (intro load4_cong) simp

lemma kfree_page_frame:
  "\<not> in_page v a \<Longrightarrow> store4 (memset m v 1 PGSIZE) v w a = m a"
  by (auto simp: store4_def memset_apply in_page_def)

lemma kmem_inv_kfree:
  assumes "kmem_inv xs s" "page_ok (kend s) v" "v \<notin> set xs"
  shows "kmem_inv (v # xs)
    (s\<lparr>pmem := store4 (memset (pmem s) v 1 PGSIZE) v (of_nat (kfreelist s)), kfreelist := v\<rparr>)"
proof -
  let ?m = "store4 (memset (pmem s) v 1 PGSIZE) v (of_nat (kfreelist s))"
  have fl: "flist (pmem s) (kfreelist s) xs" and pg: "\<forall>x\<in>set xs. page_ok (kend s) x"
    using assms(1) by (simp_all add: kmem_inv_def)
  have "kfreelist s < 2 ^ 32" using fl pg by (cases xs) (auto simp: page_ok_def)
  then have h: "unat (of_nat (kfreelist s) :: u32) = kfreelist s" by (simp add: unat_of_nat)
  have "load4 ?m x = load4 (pmem s) x" if "x \<in> set xs" for x
    using that pg assms(2,3)
    by (intro load4_other_page[of v]) (auto simp: page_ok_def kfree_page_frame)
  from flist_cong[OF fl this] show ?thesis
    using assms h by (simp add: kmem_inv_def page_ok_def)
qed

section \<open>The allocator interface\<close>

text \<open>
  What the rest of the kernel relies on.  \<open>inv xs s\<close> says that \<open>xs\<close> are the free pages.
\<close>

locale page_allocator =
  fixes alloc :: "('s, nat) K" and free :: "nat \<Rightarrow> ('s, unit) K"
    and inv :: "nat list \<Rightarrow> 's \<Rightarrow> bool" and valid :: "'s \<Rightarrow> nat \<Rightarrow> bool" and contents :: "'s \<Rightarrow> memory"
  assumes alloc_none: "inv [] s \<Longrightarrow> \<exists>t. alloc s = Ret 0 t \<and> inv [] t \<and> contents t = contents s"
    and alloc_some: "inv (x # xs) s \<Longrightarrow>
      \<exists>t. alloc s = Ret x t \<and> inv xs t \<and> contents t = contents s"
    and free_page: "inv xs s \<Longrightarrow> valid s v \<Longrightarrow> v \<notin> set xs \<Longrightarrow>
      \<exists>t. free v s = Ret () t \<and> inv (v # xs) t \<and> (\<forall>a. \<not> in_page v a \<longrightarrow> contents t a = contents s a)"
    and inv_distinct: "inv xs s \<Longrightarrow> distinct xs \<and> 0 \<notin> set xs"
begin

lemma alloc_many_take:
  "inv xs s \<Longrightarrow> n \<le> length xs \<Longrightarrow>
   \<exists>t. kreplicate n alloc s = Ret (take n xs) t \<and> inv (drop n xs) t \<and> contents t = contents s"
proof (induction n arbitrary: xs s)
  case 0
  then show ?case by simp
next
  case (Suc n)
  then obtain x ys where xs: "xs = x # ys" by (cases xs) auto
  obtain t where t: "alloc s = Ret x t" "inv ys t" "contents t = contents s"
    using alloc_some Suc.prems(1) xs by blast
  obtain u where u: "kreplicate n alloc t = Ret (take n ys) u" "inv (drop n ys) u" "contents u = contents t"
    using Suc.IH[OF t(2)] Suc.prems(2) xs by auto
  show ?case using t u xs by (simp add: kdefs)
qed

lemma free_then_alloc:
  assumes "inv xs s" "valid s v" "v \<notin> set xs"
  shows "\<exists>t. kthen (free v) alloc s = Ret v t \<and> inv xs t"
proof -
  obtain u where u: "free v s = Ret () u" "inv (v # xs) u" using free_page[OF assms] by blast
  obtain t where "alloc u = Ret v t" "inv xs t" using alloc_some[OF u(2)] by blast
  with u show ?thesis by (auto simp: kdefs)
qed

end

interpretation kmem: page_allocator kalloc kfree kmem_inv "\<lambda>s. page_ok (kend s)" pmem
proof
  fix s :: "'a kphys_scheme" and x xs v
  show "\<exists>t. kalloc s = Ret 0 t \<and> kmem_inv [] t \<and> pmem t = pmem s" if "kmem_inv [] s"
    using that by (auto simp: kmem_inv_def kalloc_net)
  show "\<exists>t. kalloc s = Ret x t \<and> kmem_inv xs t \<and> pmem t = pmem s" if "kmem_inv (x # xs) s"
    using that by (auto simp: kmem_inv_def kalloc_net)
  show "\<exists>t. kfree v s = Ret () t \<and> kmem_inv (v # xs) t \<and> (\<forall>a. \<not> in_page v a \<longrightarrow> pmem t a = pmem s a)"
    if "kmem_inv xs s" "page_ok (kend s) v" "v \<notin> set xs"
    using that kmem_inv_kfree[OF that] by (auto simp: kfree_net kmem_inv_def[of xs] kfree_page_frame)
  show "distinct xs \<and> 0 \<notin> set xs" if "kmem_inv xs s"
    using that by (auto simp: kmem_inv_def page_ok_def)
qed

section \<open>Initialisation\<close>

lemma range_pages_set: "set (range_pages p e) = {p + PGSIZE * i | i. p + PGSIZE * i + PGSIZE \<le> e}"
proof (induction p e rule: range_pages.induct)
  case (1 p vend)
  show ?case
  proof (cases "p + PGSIZE \<le> vend")
    case True
    have "{p + PGSIZE * i | i. p + PGSIZE * i + PGSIZE \<le> vend}
        = insert p {p + PGSIZE + PGSIZE * i | i. p + PGSIZE + PGSIZE * i + PGSIZE \<le> vend}" (is "?A = ?B")
    proof (intro equalityI subsetI)
      fix x assume "x \<in> ?A"
      then obtain i where "x = p + PGSIZE * i" "x + PGSIZE \<le> vend" by blast
      then show "x \<in> ?B" by (cases i) auto
    next
      fix x assume "x \<in> ?B"
      then show "x \<in> ?A"
      proof
        assume "x = p"
        then show ?thesis using True by (intro CollectI exI[of _ 0]) simp
      next
        assume "x \<in> {p + PGSIZE + PGSIZE * i | i. p + PGSIZE + PGSIZE * i + PGSIZE \<le> vend}"
        then obtain i where "x = p + PGSIZE + PGSIZE * i" "x + PGSIZE \<le> vend" by blast
        then show ?thesis by (intro CollectI exI[of _ "Suc i"]) simp
      qed
    qed
    then show ?thesis using True 1 by (simp add: range_pages.simps[of p vend])
  next
    case False
    then show ?thesis by (auto simp: range_pages.simps[of p vend])
  qed
qed

lemma distinct_range_pages: "distinct (range_pages p e)"
proof (induction p e rule: range_pages.induct)
  case (1 p vend)
  then show ?case by (cases "p + PGSIZE \<le> vend") (auto simp: range_pages.simps[of p vend] range_pages_set)
qed

lemma kfor_kfree:
  "kmem_inv xs s \<Longrightarrow> distinct ps \<Longrightarrow> set ps \<inter> set xs = {} \<Longrightarrow> \<forall>p\<in>set ps. page_ok (kend s) p \<Longrightarrow>
   \<exists>t. kfor ps kfree s = Ret () t \<and> kmem_inv (rev ps @ xs) t \<and> kmem_use_lock t = kmem_use_lock s
     \<and> kend t = kend s \<and> kquiet s t"
proof (induction ps arbitrary: xs s)
  case Nil
  then show ?case by simp
next
  case (Cons p ps)
  let ?s = "s\<lparr>pmem := store4 (memset (pmem s) p 1 PGSIZE) p (of_nat (kfreelist s)), kfreelist := p\<rparr>"
  let ?t = "settle_if (kmem_use_lock s) ?s"
  have k: "kfree p s = Ret () ?t" using Cons.prems by (intro kfree_net) (auto simp: kmem_inv_def)
  have i: "kmem_inv (p # xs) ?t" using Cons.prems by (intro kmem_inv_settle_if kmem_inv_kfree) auto
  have "\<exists>u. kfor ps kfree ?t = Ret () u \<and> kmem_inv (rev ps @ p # xs) u
      \<and> kmem_use_lock u = kmem_use_lock ?t \<and> kend u = kend ?t \<and> kquiet ?t u"
    by (rule Cons.IH[OF i]) (use Cons.prems in auto)
  moreover have "kquiet s ?t" by (simp add: kquiet_def)
  ultimately show ?case using k by (auto simp: kdefs intro: kquiet_trans)
qed

lemma page_ok_range:
  assumes "p mod PGSIZE = 0" "e \<le> p" "KERNBASE \<le> e" "vend \<le> KERNBASE + PHYSTOP" "v \<in> set (range_pages p vend)"
  shows "page_ok e v"
proof -
  obtain i where v: "v = p + PGSIZE * i" "v + PGSIZE \<le> vend" using assms(5) by (auto simp: range_pages_set)
  have "v mod PGSIZE = 0" unfolding v(1) using assms(1) by simp
  moreover have "V2P v < PHYSTOP" using v assms by (simp add: V2P_kern)
  ultimately show ?thesis using v assms by (simp add: page_ok_def)
qed

lemma PGROUNDUP_mod: "PGROUNDUP a mod PGSIZE = 0"
  by (simp add: PGROUNDUP_def)

lemma PGROUNDUP_le: "a + PGSIZE \<le> 2 ^ 32 \<Longrightarrow> a \<le> PGROUNDUP a"
proof -
  assume a: "a + PGSIZE \<le> 2 ^ 32"
  then have "PGROUNDUP a = (a + 4095) div PGSIZE * PGSIZE" by (simp add: PGROUNDUP_def)
  then show ?thesis using div_mult_mod_eq[of "a + 4095" 4096] mod_less_divisor[of 4096 "a + 4095"] by linarith
qed

lemma PGROUNDUP_le_iff:
  assumes "p mod PGSIZE = 0" "a + PGSIZE \<le> 2 ^ 32"
  shows "PGROUNDUP a \<le> p \<longleftrightarrow> a \<le> p"
proof -
  obtain j where p: "p = PGSIZE * j" using assms(1) by (metis dvd_def mod_0_imp_dvd)
  have r: "PGROUNDUP a = (a + 4095) div PGSIZE * PGSIZE" using assms(2) by (simp add: PGROUNDUP_def)
  have "(a + 4095) div PGSIZE \<le> j \<longleftrightarrow> a \<le> PGSIZE * j"
    using div_mult_mod_eq[of "a + 4095" 4096] mod_less_divisor[of 4096 "a + 4095"] by linarith
  then show ?thesis unfolding r p by (simp add: mult.commute)
qed

lemma range_pages_roundup:
  assumes "a + PGSIZE \<le> 2 ^ 32"
  shows "set (range_pages (PGROUNDUP a) e) = {p. p mod PGSIZE = 0 \<and> a \<le> p \<and> p + PGSIZE \<le> e}"
proof (intro equalityI subsetI)
  fix p assume "p \<in> set (range_pages (PGROUNDUP a) e)"
  then obtain i where p: "p = PGROUNDUP a + PGSIZE * i" "p + PGSIZE \<le> e" by (auto simp: range_pages_set)
  then have "p mod PGSIZE = 0" using PGROUNDUP_mod[of a] by simp
  then show "p \<in> {p. p mod PGSIZE = 0 \<and> a \<le> p \<and> p + PGSIZE \<le> e}" using p PGROUNDUP_le[OF assms] by simp
next
  fix p assume "p \<in> {p. p mod PGSIZE = 0 \<and> a \<le> p \<and> p + PGSIZE \<le> e}"
  then have p: "p mod PGSIZE = 0" "PGROUNDUP a \<le> p" "p + PGSIZE \<le> e"
    using PGROUNDUP_le_iff[of p a] assms by auto
  obtain j k where "p = PGSIZE * j" "PGROUNDUP a = PGSIZE * k"
    using p(1) PGROUNDUP_mod[of a] by (metis dvd_def mod_0_imp_dvd)
  with p have "p = PGROUNDUP a + PGSIZE * (j - k)" by (simp add: diff_mult_distrib2)
  then show "p \<in> set (range_pages (PGROUNDUP a) e)" using p(3) by (auto simp: range_pages_set)
qed

lemma freerange_ok:
  assumes "kmem_inv xs s" "KERNBASE \<le> kend s" "kend s \<le> a" "a + PGSIZE \<le> 2 ^ 32" "e \<le> KERNBASE + PHYSTOP"
    "\<forall>x\<in>set xs. x < a"
  shows "\<exists>t. freerange a e s = Ret () t \<and> kmem_inv (rev (range_pages (PGROUNDUP a) e) @ xs) t
    \<and> kmem_use_lock t = kmem_use_lock s \<and> kend t = kend s \<and> kquiet s t"
  unfolding freerange_def
proof (rule kfor_kfree[OF assms(1) distinct_range_pages])
  show "set (range_pages (PGROUNDUP a) e) \<inter> set xs = {}"
    using assms(6) by (auto simp: range_pages_roundup[OF assms(4)])
  show "\<forall>p\<in>set (range_pages (PGROUNDUP a) e). page_ok (kend s) p"
    using page_ok_range[OF PGROUNDUP_mod _ assms(2,5)] PGROUNDUP_le[OF assms(4)] assms(3) by (meson le_trans)
qed

section \<open>Properties\<close>

definition phys0 :: kphys where
  "phys0 = \<lparr>khw = two_cpus, cout = [], cons_locking = False, pmem = (\<lambda>_. 0), kfreelist = 0,
     kmem_use_lock = False, kend = 0x80115000\<rparr>"

lemma phys0_good: "kgood phys0" "kfree_lk Lkmem phys0"
  by (simp_all add: phys0_def kgood_def kfree_lk_def two_cpus_def hwgood_def this_cpu_def lkfree_def readeflags_if_def)

text \<open>
  C17: Allocating \<open>n\<close> pages one after the other returns \<open>n\<close> different non-null pages, all of them from
  the free list, which is left with the others; no memory is written, and the locks are as before.
\<close>

theorem kalloc_many_distinct:
  assumes "kmem_inv xs s" "n \<le> length xs"
  shows "\<exists>ps t. kreplicate n kalloc s = Ret ps t \<and> length ps = n \<and> distinct ps \<and> 0 \<notin> set ps
    \<and> set ps \<subseteq> set xs \<and> kmem_inv (drop n xs) t \<and> set ps \<inter> set (drop n xs) = {} \<and> pmem t = pmem s"
proof -
  have d: "distinct xs" "0 \<notin> set xs" using kmem.inv_distinct[OF assms(1)] by simp_all
  obtain t where "kreplicate n kalloc s = Ret (take n xs) t" "kmem_inv (drop n xs) t" "pmem t = pmem s"
    using kmem.alloc_many_take[OF assms] by blast
  moreover have "set (take n xs) \<inter> set (drop n xs) = {}" using d(1) by (rule set_take_disj_set_drop_if_distinct) simp
  ultimately show ?thesis
    using d assms(2) set_take_subset[of n xs] by (intro exI[of _ "take n xs"] exI[of _ t]) auto
qed

theorem kalloc_many_distinct_witness:
  "\<exists>ps t. kreplicate 1 kalloc (phys0\<lparr>kfreelist := 0x80200000\<rparr>) = Ret ps t \<and> length ps = 1 \<and> set ps \<subseteq> {0x80200000}"
proof -
  have "kmem_inv [0x80200000] (phys0\<lparr>kfreelist := 0x80200000\<rparr>)"
    by (simp add: kmem_inv_def kmem_ready_def page_ok_def V2P_def phys0_def load4_def)
  from kalloc_many_distinct[OF this, of 1] show ?thesis by auto
qed

text \<open>
  C28: Booting the allocator as \<^verbatim>\<open>main\<close> does, \<^verbatim>\<open>kinit1\<close> on the pages the first page table maps and
  \<^verbatim>\<open>kinit2\<close> on the rest, returns with exactly the whole pages of the two ranges on the free list,
  each once, and with locking switched on.
\<close>

theorem kinit_free_pages:
  assumes "kfreelist s = 0" "kgood s" "KERNBASE \<le> kend s" "kend s \<le> aa" "ea \<le> ab" "aa \<le> ea"
    and "ab \<le> eb" "eb \<le> KERNBASE + PHYSTOP"
  shows "\<exists>xs t. kthen (kinit1 aa ea) (kinit2 ab eb) s = Ret () t \<and> kmem_inv xs t \<and> kmem_use_lock t
    \<and> set xs = {p. p mod PGSIZE = 0 \<and> (aa \<le> p \<and> p + PGSIZE \<le> ea \<or> ab \<le> p \<and> p + PGSIZE \<le> eb)}"
proof -
  let ?h = "(khw s)\<lparr>locks := (locks (khw s))(Lkmem := freelock)\<rparr>"
  let ?s = "s\<lparr>khw := ?h, kmem_use_lock := False\<rparr>"
  have i: "onhw (initlock Lkmem) s = Ret () (s\<lparr>khw := ?h\<rparr>)" by (simp add: initlock_def)
  have g: "kgood ?s" "kfree_lk Lkmem ?s"
    using assms(2) by (auto simp: kgood_def hwgood_def readeflags_if_def kfree_lk_def lkfree_def split: option.splits)
  have k0: "kmem_inv [] ?s" using assms(1) by (simp add: kmem_inv_def kmem_ready_def)
  let ?r1 = "range_pages (PGROUNDUP aa) ea" and ?r2 = "range_pages (PGROUNDUP ab) eb"
  have w: "aa + PGSIZE \<le> 2 ^ 32" "ab + PGSIZE \<le> 2 ^ 32" using assms by simp_all
  have r: "set ?r1 = {p. p mod PGSIZE = 0 \<and> aa \<le> p \<and> p + PGSIZE \<le> ea}"
    "set ?r2 = {p. p mod PGSIZE = 0 \<and> ab \<le> p \<and> p + PGSIZE \<le> eb}"
    using range_pages_roundup[OF w(1)] range_pages_roundup[OF w(2)] by simp_all
  obtain t1 where t1: "freerange aa ea ?s = Ret () t1" "kmem_inv (rev ?r1 @ []) t1"
      "kmem_use_lock t1 = kmem_use_lock ?s" "kend t1 = kend ?s" "kquiet ?s t1"
    using freerange_ok[OF k0, of aa ea] assms(3-8) w by auto
  obtain t2 where t2: "freerange ab eb t1 = Ret () t2" "kmem_inv (rev ?r2 @ rev ?r1 @ []) t2"
      "kmem_use_lock t2 = kmem_use_lock t1" "kend t2 = kend t1" "kquiet t1 t2"
    using freerange_ok[OF t1(2), of ab eb] assms(3-8) w t1(4) r by auto
  have q: "kgood t2" "kfree_lk Lkmem t2" using kquietD[OF kquiet_trans[OF t1(5) t2(5)]] g by simp_all
  have "kthen (kinit1 aa ea) (kinit2 ab eb) s = Ret () (t2\<lparr>kmem_use_lock := True\<rparr>)"
    by (simp add: kinit1_def kinit2_def kdefs i t1(1) t2(1))
  moreover have "kmem_inv (rev ?r2 @ rev ?r1) (t2\<lparr>kmem_use_lock := True\<rparr>)"
    using t2(2) q by (simp add: kmem_inv_def kmem_ready_def kgood_def kfree_lk_def)
  ultimately show ?thesis
    using r by (intro exI[of _ "rev ?r2 @ rev ?r1"] exI[of _ "t2\<lparr>kmem_use_lock := True\<rparr>"]) auto
qed

theorem kinit_free_pages_witness:
  "\<exists>xs t. kthen (kinit1 0x80115000 0x80400000) (kinit2 0x80400000 0x8E000000) phys0 = Ret () t
     \<and> 0x80115000 \<in> set xs \<and> kmem_inv xs t"
proof -
  have a: "kfreelist phys0 = 0" "kend phys0 = 0x80115000" by (simp_all add: phys0_def)
  obtain xs t where "kthen (kinit1 0x80115000 0x80400000) (kinit2 0x80400000 0x8E000000) phys0 = Ret () t"
      "kmem_inv xs t" and xs: "set xs = {p. p mod PGSIZE = 0 \<and> (0x80115000 \<le> p \<and> p + PGSIZE \<le> 0x80400000
        \<or> 0x80400000 \<le> p \<and> p + PGSIZE \<le> 0x8E000000)}"
    using kinit_free_pages[of phys0 "0x80115000" "0x80400000" "0x80400000" "0x8E000000"] a phys0_good(1) by auto
  moreover have "0x80115000 \<in> set xs" unfolding xs by simp
  ultimately show ?thesis by blast
qed

end
