(* ===== verification/Vm.thy ===== *)
theory Vm
  imports Kalloc
begin

text \<open>
  Page tables and address spaces (\<^verbatim>\<open>vm.c\<close>, \<^verbatim>\<open>mmu.h\<close>).  A page directory is the kernel address of a page
  of 1024 entries in physical memory; a present entry holds the physical address of a page table.
  Two routines of \<^verbatim>\<open>vm.c\<close> need later components and are modelled there: \<^verbatim>\<open>switchuvm\<close> (processes) and
  \<^verbatim>\<open>loaduvm\<close> (inodes).
\<close>

unbundle bit_operations_syntax

abbreviation "EXTMEM \<equiv> (0x100000 :: nat)"
abbreviation "DEVSPACE \<equiv> (0xFE000000 :: nat)"
abbreviation "KERNLINK \<equiv> (0x80100000 :: nat)"
abbreviation "NPDENTRIES \<equiv> (1024 :: nat)"

definition PTE_P :: u32 where "PTE_P = 1"
definition PTE_W :: u32 where "PTE_W = 2"
definition PTE_U :: u32 where "PTE_U = 4"

definition PDX :: "nat \<Rightarrow> nat" where
  "PDX va = (va div 2 ^ 22) mod 1024"

definition PTX :: "nat \<Rightarrow> nat" where
  "PTX va = (va div 2 ^ 12) mod 1024"

definition PGADDR :: "nat \<Rightarrow> nat \<Rightarrow> nat \<Rightarrow> nat" where
  "PGADDR d t f = (d * 2 ^ 22 + t * 2 ^ 12 + f) mod 2 ^ 32"

definition PTE_ADDR :: "u32 \<Rightarrow> nat" where
  "PTE_ADDR e = unat (e AND NOT 0xFFF)"

definition PTE_FLAGS :: "u32 \<Rightarrow> u32" where
  "PTE_FLAGS e = e AND 0xFFF"

definition present :: "u32 \<Rightarrow> bool" where
  "present e \<longleftrightarrow> e AND PTE_P \<noteq> 0"

section \<open>Segments\<close>

record segdesc =
  lim_15_0 :: u32
  base_15_0 :: u32
  base_23_16 :: u32
  sd_type :: u32
  sd_s :: u32
  sd_dpl :: u32
  sd_p :: u32
  lim_19_16 :: u32
  sd_avl :: u32
  sd_rsv1 :: u32
  sd_db :: u32
  sd_g :: u32
  base_31_24 :: u32

definition SEG :: "u32 \<Rightarrow> u32 \<Rightarrow> u32 \<Rightarrow> u32 \<Rightarrow> segdesc" where
  "SEG ty base lim dpl =
     \<lparr>lim_15_0 = drop_bit 12 lim AND 0xFFFF, base_15_0 = base AND 0xFFFF,
      base_23_16 = drop_bit 16 base AND 0xFF, sd_type = ty, sd_s = 1, sd_dpl = dpl, sd_p = 1,
      lim_19_16 = drop_bit 28 lim, sd_avl = 0, sd_rsv1 = 0, sd_db = 1, sd_g = 1,
      base_31_24 = drop_bit 24 base\<rparr>"

definition SEG16 :: "u32 \<Rightarrow> u32 \<Rightarrow> u32 \<Rightarrow> u32 \<Rightarrow> segdesc" where
  "SEG16 ty base lim dpl =
     \<lparr>lim_15_0 = lim AND 0xFFFF, base_15_0 = base AND 0xFFFF,
      base_23_16 = drop_bit 16 base AND 0xFF, sd_type = ty, sd_s = 1, sd_dpl = dpl, sd_p = 1,
      lim_19_16 = drop_bit 16 lim, sd_avl = 0, sd_rsv1 = 0, sd_db = 1, sd_g = 0,
      base_31_24 = drop_bit 24 base\<rparr>"

record kvm = kphys +
  kpgdir :: nat
  kdata :: nat
  cr3 :: "nat \<Rightarrow> nat"
  gdt :: "nat \<Rightarrow> nat \<Rightarrow> segdesc"
  ts_esp0 :: "nat \<Rightarrow> nat"
  ts_ss0 :: "nat \<Rightarrow> nat"
  ts_iomb :: "nat \<Rightarrow> nat"
  ts_addr :: "nat \<Rightarrow> nat"

definition seginit :: "('z kvm_scheme, unit) K" where
  "seginit =
     kbind (onhw mycpu) (\<lambda>c.
     kmod (\<lambda>s. s\<lparr>gdt := (gdt s)(c := (gdt s c)(
         1 := SEG 0xA 0 0xFFFFFFFF 0,
         2 := SEG 0x2 0 0xFFFFFFFF 0,
         3 := SEG 0xA 0 0xFFFFFFFF 3,
         4 := SEG 0x2 0 0xFFFFFFFF 3))\<rparr>))"

definition lcr3 :: "nat \<Rightarrow> ('z kvm_scheme, unit) K" where
  "lcr3 pa = kmod (\<lambda>s. s\<lparr>cr3 := (cr3 s)(lapicid (khw s) := pa)\<rparr>)"

definition switchkvm :: "('z kvm_scheme, unit) K" where
  "switchkvm = kbind (kget kpgdir) (\<lambda>d. lcr3 (V2P d))"

section \<open>Page tables\<close>

definition set_pmem :: "(memory \<Rightarrow> memory) \<Rightarrow> ('z kphys_scheme, unit) K" where
  "set_pmem f = kmod (\<lambda>s. s\<lparr>pmem := f (pmem s)\<rparr>)"

definition walkpgdir :: "nat \<Rightarrow> nat \<Rightarrow> bool \<Rightarrow> ('z kphys_scheme, nat) K" where
  "walkpgdir pgdir va alloc =
     (let pde = pgdir + 4 * PDX va in
      kbind (kget (\<lambda>s. load4 (pmem s) pde)) (\<lambda>e.
      if present e then kret (P2V (PTE_ADDR e) + 4 * PTX va)
      else if \<not> alloc then kret 0
      else
        kbind kalloc (\<lambda>pgtab.
        if pgtab = 0 then kret 0
        else
          kthen (set_pmem (\<lambda>m. memset m pgtab 0 PGSIZE)) (
          kthen (set_pmem (\<lambda>m. store4 m pde (of_nat (V2P pgtab) OR PTE_P OR PTE_W OR PTE_U)))
            (kret (pgtab + 4 * PTX va))))))"

text \<open>One turn of the loop of \<^verbatim>\<open>mappages\<close>, then the loop, whose index may wrap around at \<open>2 ^ 32\<close>.\<close>

definition map_page :: "nat \<Rightarrow> nat \<Rightarrow> nat \<Rightarrow> u32 \<Rightarrow> ('z kphys_scheme, int option) K" where
  "map_page pgdir a pa perm =
     kbind (walkpgdir pgdir a True) (\<lambda>pte.
     if pte = 0 then kret (Some (-1))
     else
       kbind (kget (\<lambda>s. load4 (pmem s) pte)) (\<lambda>e.
       if present e then kpanic ''remap''
       else kthen (set_pmem (\<lambda>m. store4 m pte (of_nat pa OR perm OR PTE_P))) (kret None)))"

definition mappages :: "nat \<Rightarrow> nat \<Rightarrow> nat \<Rightarrow> nat \<Rightarrow> u32 \<Rightarrow> ('z kphys_scheme, int) K" where
  "mappages pgdir va sz pa perm =
     (let a = PGROUNDDOWN va;
          last = PGROUNDDOWN ((va + sz + (2 ^ 32 - 1)) mod 2 ^ 32);
          n = ((last + 2 ^ 32 - a) mod 2 ^ 32) div PGSIZE
      in kbind
        (kfor_ret [0..<n + 1] (\<lambda>i. map_page pgdir ((a + i * PGSIZE) mod 2 ^ 32) (pa + i * PGSIZE) perm))
        (\<lambda>r. kret (case r of None \<Rightarrow> 0 | Some x \<Rightarrow> x)))"

text \<open>
  The loop of \<^verbatim>\<open>deallocuvm\<close>, whose index jumps over absent page tables.  Each turn advances \<^verbatim>\<open>a\<close> by at
  least a page, so \<open>2 ^ 20\<close> turns cover the address space; a loop that needs more has wrapped around
  and never ends.
\<close>

fun dealloc_loop :: "nat \<Rightarrow> nat \<Rightarrow> nat \<Rightarrow> nat \<Rightarrow> ('z kphys_scheme, unit) K" where
  "dealloc_loop 0 pgdir a oldsz = (if a < oldsz then (\<lambda>s. Spin) else kret ())"
| "dealloc_loop (Suc n) pgdir a oldsz =
     (if \<not> a < oldsz then kret ()
      else
        kbind (walkpgdir pgdir a False) (\<lambda>pte.
        if pte = 0
        then dealloc_loop n pgdir ((PGADDR (PDX a + 1) 0 0 + (2 ^ 32 - PGSIZE) + PGSIZE) mod 2 ^ 32) oldsz
        else
          kbind (kget (\<lambda>s. load4 (pmem s) pte)) (\<lambda>e.
          kthen
            (kwhen (present e)
              (if PTE_ADDR e = 0 then kpanic ''kfree''
               else kthen (kfree (P2V (PTE_ADDR e))) (set_pmem (\<lambda>m. store4 m pte 0))))
            (dealloc_loop n pgdir ((a + PGSIZE) mod 2 ^ 32) oldsz))))"

definition deallocuvm :: "nat \<Rightarrow> nat \<Rightarrow> nat \<Rightarrow> ('z kphys_scheme, nat) K" where
  "deallocuvm pgdir oldsz newsz =
     (if newsz \<ge> oldsz then kret oldsz
      else kthen (dealloc_loop (2 ^ 20) pgdir (PGROUNDUP newsz) oldsz) (kret newsz))"

definition freevm :: "nat \<Rightarrow> ('z kphys_scheme, unit) K" where
  "freevm pgdir =
     (if pgdir = 0 then kpanic ''freevm: no pgdir''
      else
        kthen (deallocuvm pgdir KERNBASE 0) (
        kthen
          (kfor [0..<NPDENTRIES] (\<lambda>i.
             kbind (kget (\<lambda>s. load4 (pmem s) (pgdir + 4 * i))) (\<lambda>e.
             kwhen (present e) (kfree (P2V (PTE_ADDR e))))))
          (kfree pgdir)))"

record kmap_entry =
  virt :: nat
  phys_start :: nat
  phys_end :: nat
  kperm :: u32

definition kmap :: "nat \<Rightarrow> kmap_entry list" where
  "kmap data =
     [\<lparr>virt = KERNBASE, phys_start = 0, phys_end = EXTMEM, kperm = PTE_W\<rparr>,
      \<lparr>virt = KERNLINK, phys_start = V2P KERNLINK, phys_end = V2P data, kperm = 0\<rparr>,
      \<lparr>virt = data, phys_start = V2P data, phys_end = PHYSTOP, kperm = PTE_W\<rparr>,
      \<lparr>virt = DEVSPACE, phys_start = DEVSPACE, phys_end = 0, kperm = PTE_W\<rparr>]"

definition setupkvm :: "('z kvm_scheme, nat) K" where
  "setupkvm =
     kbind kalloc (\<lambda>pgdir.
     if pgdir = 0 then kret 0
     else
       kthen (set_pmem (\<lambda>m. memset m pgdir 0 PGSIZE)) (
       if P2V PHYSTOP > DEVSPACE then kpanic ''PHYSTOP too high''
       else
         kbind (kget kdata) (\<lambda>data.
         kbind
           (kfor_ret (kmap data) (\<lambda>k.
              kbind (mappages pgdir (virt k) ((phys_end k + 2 ^ 32 - phys_start k) mod 2 ^ 32) (phys_start k) (kperm k))
                (\<lambda>r. if r < 0 then kthen (freevm pgdir) (kret (Some 0)) else kret None)))
           (\<lambda>r. kret (case r of None \<Rightarrow> pgdir | Some x \<Rightarrow> x)))))"

definition kvmalloc :: "('z kvm_scheme, unit) K" where
  "kvmalloc = kbind setupkvm (\<lambda>d. kthen (kmod (\<lambda>s. s\<lparr>kpgdir := d\<rparr>)) switchkvm)"

definition inituvm :: "nat \<Rightarrow> byte list \<Rightarrow> ('z kphys_scheme, unit) K" where
  "inituvm pgdir init =
     (if length init \<ge> PGSIZE then kpanic ''inituvm: more than a page''
      else
        kbind kalloc (\<lambda>mem.
        kthen (set_pmem (\<lambda>m. memset m mem 0 PGSIZE)) (
        kbind (mappages pgdir 0 PGSIZE (V2P mem) (PTE_W OR PTE_U)) (\<lambda>_.
        set_pmem (\<lambda>m. put_bytes m mem init)))))"

function upto_pages :: "nat \<Rightarrow> nat \<Rightarrow> nat list" where
  "upto_pages a sz = (if a < sz then a # upto_pages (a + PGSIZE) sz else [])"
  by pat_completeness auto
termination by (relation "measure (\<lambda>(a, sz). sz - a)") auto

declare upto_pages.simps [simp del]

definition allocuvm :: "nat \<Rightarrow> nat \<Rightarrow> nat \<Rightarrow> ('z kphys_scheme, nat) K" where
  "allocuvm pgdir oldsz newsz =
     (if newsz \<ge> KERNBASE then kret 0
      else if newsz < oldsz then kret oldsz
      else
        kbind
          (kfor_ret (upto_pages (PGROUNDUP oldsz) newsz) (\<lambda>a.
             kbind kalloc (\<lambda>mem.
             if mem = 0
             then
               kthen (cprintf (Some (bytes_of (''allocuvm out of memory'' @ [CHR 0x0A]))) [])
                 (kthen (deallocuvm pgdir newsz oldsz) (kret (Some 0)))
             else
               kthen (set_pmem (\<lambda>m. memset m mem 0 PGSIZE)) (
               kbind (mappages pgdir a PGSIZE (V2P mem) (PTE_W OR PTE_U)) (\<lambda>r.
               if r < 0
               then
                 kthen (cprintf (Some (bytes_of (''allocuvm out of memory (2)'' @ [CHR 0x0A]))) [])
                   (kthen (deallocuvm pgdir newsz oldsz) (kthen (kfree mem) (kret (Some 0))))
               else kret None)))))
          (\<lambda>r. kret (case r of None \<Rightarrow> newsz | Some x \<Rightarrow> x)))"

definition clearpteu :: "nat \<Rightarrow> nat \<Rightarrow> ('z kphys_scheme, unit) K" where
  "clearpteu pgdir uva =
     kbind (walkpgdir pgdir uva False) (\<lambda>pte.
     if pte = 0 then kpanic ''clearpteu''
     else set_pmem (\<lambda>m. store4 m pte (load4 m pte AND NOT PTE_U)))"

definition copyuvm :: "nat \<Rightarrow> nat \<Rightarrow> ('z kvm_scheme, nat) K" where
  "copyuvm pgdir sz =
     kbind setupkvm (\<lambda>d.
     if d = 0 then kret 0
     else
       kbind
         (kfor_ret (upto_pages 0 sz) (\<lambda>i.
            kbind (walkpgdir pgdir i False) (\<lambda>pte.
            if pte = 0 then kpanic ''copyuvm: pte should exist''
            else
              kbind (kget (\<lambda>s. load4 (pmem s) pte)) (\<lambda>e.
              if \<not> present e then kpanic ''copyuvm: page not present''
              else
                kbind kalloc (\<lambda>mem.
                if mem = 0 then kret (Some ())
                else
                  kthen (set_pmem (\<lambda>m. memmove m mem (P2V (PTE_ADDR e)) PGSIZE)) (
                  kbind (mappages d i PGSIZE (V2P mem) (PTE_FLAGS e)) (\<lambda>r.
                  kret (if r < 0 then Some () else None))))))))
         (\<lambda>bad. case bad of None \<Rightarrow> kret d | Some _ \<Rightarrow> kthen (freevm d) (kret 0)))"

definition uva2ka :: "nat \<Rightarrow> nat \<Rightarrow> ('z kphys_scheme, nat) K" where
  "uva2ka pgdir uva =
     kbind (walkpgdir pgdir uva False) (\<lambda>pte.
     if pte = 0 then kfault
     else
       kbind (kget (\<lambda>s. load4 (pmem s) pte)) (\<lambda>e.
       if e AND PTE_P = 0 then kret 0
       else if e AND PTE_U = 0 then kret 0
       else kret (P2V (PTE_ADDR e))))"

lemma pgoff_less: "va - PGROUNDDOWN va < PGSIZE"
  using div_mult_mod_eq[of va 4096] mod_less_divisor[of 4096 va] unfolding PGROUNDDOWN_def by linarith

function copyout :: "nat \<Rightarrow> nat \<Rightarrow> byte list \<Rightarrow> ('z kphys_scheme, int) K" where
  "copyout pgdir va bs =
     (if bs = [] then kret 0
      else
        let va0 = PGROUNDDOWN va;
            n = min (PGSIZE - (va - va0)) (length bs)
        in kbind (uva2ka pgdir va0) (\<lambda>pa0.
           if pa0 = 0 then kret (-1)
           else
             kthen (set_pmem (\<lambda>m. put_bytes m (pa0 + (va - va0)) (take n bs)))
               (copyout pgdir ((va0 + PGSIZE) mod 2 ^ 32) (drop n bs))))"
  by pat_completeness auto
termination
  by (relation "measure (\<lambda>(pgdir, va, bs). length bs)") (auto simp: pgoff_less)

declare copyout.simps [simp del]

section \<open>Entries as words\<close>

lemma bit_0xFFF: "bit (0xFFF :: u32) n \<longleftrightarrow> n < 12"
proof -
  have "(0xFFF :: u32) = mask 12" by (simp add: mask_eq_exp_minus_1)
  then show ?thesis by (simp only: bit_mask_iff) auto
qed

lemma bit_not_0xFFF: "bit (NOT (0xFFF :: u32)) n \<longleftrightarrow> 12 \<le> n \<and> n < 32"
  by (simp only: bit_not_iff bit_0xFFF) auto

lemma aligned_bits: "x mod PGSIZE = 0 \<Longrightarrow> n < 12 \<Longrightarrow> \<not> bit (of_nat x :: u32) n"
proof -
  assume a: "x mod PGSIZE = 0" "n < 12"
  then obtain y where "x = 4096 * y" by (metis dvd_def mod_0_imp_dvd)
  then have "(of_nat x :: u32) = push_bit 12 (of_nat y)" by (simp add: push_bit_eq_mult)
  then show ?thesis using a(2) by (simp add: bit_push_bit_iff)
qed

lemma flag_bits: "f AND NOT 0xFFF = 0 \<Longrightarrow> 12 \<le> n \<Longrightarrow> \<not> bit (f :: u32) n"
proof
  assume a: "f AND NOT 0xFFF = 0" "12 \<le> n" "bit f n"
  then have "n < 32" using bit_imp_le_length[of f n] by simp
  with a(2,3) have "bit (f AND NOT 0xFFF) n" unfolding bit_and_iff bit_not_iff bit_0xFFF by simp
  then show False using a(1) by simp
qed

lemma PTE_ADDR_or:
  assumes "x mod PGSIZE = 0" "x < 2 ^ 32" "f AND NOT 0xFFF = 0"
  shows "PTE_ADDR (of_nat x OR f) = x"
proof -
  have "(of_nat x OR f) AND NOT 0xFFF = (of_nat x :: u32)"
  proof (rule bit_word_eqI)
    fix n assume "n < LENGTH(32)"
    then show "bit ((of_nat x OR f) AND NOT 0xFFF) n = bit (of_nat x :: u32) n"
      unfolding bit_or_iff bit_and_iff bit_not_0xFFF
      using aligned_bits[OF assms(1), of n] flag_bits[OF assms(3), of n] by (cases "n < 12") auto
  qed
  then show ?thesis using assms(2) unfolding PTE_ADDR_def by (simp add: unat_of_nat)
qed

lemma PTE_FLAGS_or:
  assumes "x mod PGSIZE = 0" "f AND NOT 0xFFF = 0"
  shows "PTE_FLAGS (of_nat x OR f) = f"
  unfolding PTE_FLAGS_def
proof (rule bit_word_eqI)
  fix n assume "n < LENGTH(32)"
  show "bit ((of_nat x OR f) AND 0xFFF) n = bit f n"
    unfolding bit_or_iff bit_and_iff bit_0xFFF
    using aligned_bits[OF assms(1), of n] flag_bits[OF assms(2), of n] by (cases "n < 12") auto
qed

lemma present_bit: "present e \<longleftrightarrow> bit e 0"
  unfolding present_def PTE_P_def by (simp add: and_one_eq bit_0 mod2_eq_if)

lemma present_or [simp]: "present (x OR PTE_P OR y) = True" "present (x OR y OR PTE_P) = True" "\<not> present 0"
  by (simp_all add: present_bit bit_or_iff PTE_P_def)

section \<open>Words in pages\<close>

lemma entry_in_page: "i < 1024 \<Longrightarrow> k < 4 \<Longrightarrow> in_page p (p + 4 * i + k)"
  by (simp add: in_page_def)

lemma load4_page_cong:
  "i < 1024 \<Longrightarrow> (\<And>x. in_page d x \<Longrightarrow> m' x = m x) \<Longrightarrow> load4 m' (d + 4 * i) = load4 m (d + 4 * i)"
  by (rule load4_cong) (simp add: entry_in_page)

lemma store4_in_page: "j < 1024 \<Longrightarrow> \<not> in_page p x \<Longrightarrow> store4 m (p + 4 * j) w x = m x"
  by (auto simp: store4_def in_page_def)

lemma memset_in_page: "\<not> in_page p x \<Longrightarrow> memset m p c PGSIZE x = m x"
  by (auto simp: memset_apply in_page_def)

lemma load4_store4_entry:
  assumes "d mod PGSIZE = 0" "p mod PGSIZE = 0" "i < 1024" "j < 1024"
  shows "load4 (store4 m (p + 4 * j) w) (d + 4 * i) = (if d = p \<and> i = j then w else load4 m (d + 4 * i))"
proof (cases "d = p")
  case True
  have "p mod 4 = 0" using mod_mod_cancel[of 4 4096 p] assms(2) by simp
  then have "(p + 4 * j) mod 4 = 0" "(p + 4 * i) mod 4 = 0" by simp_all
  from load4_store4_aligned[OF this] True show ?thesis by auto
next
  case False
  then show ?thesis
    using assms page_disjoint[of d p] by (auto intro!: load4_page_cong store4_in_page)
qed

lemma load4_memset_entry:
  assumes "d mod PGSIZE = 0" "p mod PGSIZE = 0" "i < 1024"
  shows "load4 (memset m p 0 PGSIZE) (d + 4 * i) = (if d = p then 0 else load4 m (d + 4 * i))"
proof (cases "d = p")
  case True
  have "load4 (memset m p 0 PGSIZE) (p + 4 * i) = load4 (\<lambda>_. 0) (p + 4 * i)"
    by (rule load4_cong) (use assms(3) in \<open>simp add: memset_apply\<close>)
  then show ?thesis using True by (simp add: load4_def)
next
  case False
  then show ?thesis
    using assms page_disjoint[of d p] by (auto intro!: load4_page_cong memset_in_page)
qed

lemma kmem_inv_frame:
  assumes "kmem_inv xs s" "\<And>p x. p \<in> set xs \<Longrightarrow> in_page p x \<Longrightarrow> m' x = pmem s x"
  shows "kmem_inv xs (s\<lparr>pmem := m'\<rparr>)"
proof -
  have "load4 m' p = load4 (pmem s) p" if "p \<in> set xs" for p
    using load4_page_cong[of 0 p m' "pmem s"] assms(2)[OF that] by simp
  then show ?thesis using assms(1) by (auto simp: kmem_inv_def intro: flist_cong)
qed

section \<open>The mapping a page directory stands for\<close>

definition pde_at :: "memory \<Rightarrow> nat \<Rightarrow> nat \<Rightarrow> u32" where
  "pde_at m d i = load4 m (d + 4 * i)"

definition ptab :: "memory \<Rightarrow> nat \<Rightarrow> nat \<Rightarrow> nat" where
  "ptab m d i = P2V (PTE_ADDR (pde_at m d i))"

text \<open>The entry for \<open>va\<close>, zero where there is no table.\<close>

definition pte_of :: "memory \<Rightarrow> nat \<Rightarrow> nat \<Rightarrow> u32" where
  "pte_of m d va = (if present (pde_at m d (PDX va)) then load4 m (ptab m d (PDX va) + 4 * PTX va) else 0)"

definition ptpages :: "memory \<Rightarrow> nat \<Rightarrow> nat set" where
  "ptpages m d = insert d {ptab m d i | i. i < 1024 \<and> present (pde_at m d i)}"

definition pt_wf :: "nat \<Rightarrow> memory \<Rightarrow> nat \<Rightarrow> bool" where
  "pt_wf e m d \<longleftrightarrow>
     page_ok e d
     \<and> (\<forall>i<1024. present (pde_at m d i) \<longrightarrow> page_ok e (ptab m d i) \<and> ptab m d i \<noteq> d)
     \<and> (\<forall>i<1024. \<forall>j<1024. present (pde_at m d i) \<longrightarrow> present (pde_at m d j) \<longrightarrow>
          ptab m d i = ptab m d j \<longrightarrow> i = j)"

text \<open>A directory beside the free pages \<open>xs\<close>.\<close>

definition pt_state :: "nat list \<Rightarrow> nat \<Rightarrow> 'z kphys_scheme \<Rightarrow> bool" where
  "pt_state xs d s \<longleftrightarrow>
     kmem_inv xs s \<and> KERNBASE \<le> kend s \<and> pt_wf (kend s) (pmem s) d \<and> ptpages (pmem s) d \<inter> set xs = {}"

lemma ptpagesI: "i < 1024 \<Longrightarrow> present (pde_at m d i) \<Longrightarrow> ptab m d i \<in> ptpages m d" "d \<in> ptpages m d"
  unfolding ptpages_def by blast+

lemma ptpagesE:
  assumes "x \<in> ptpages m d"
  obtains "x = d" | i where "i < 1024" "present (pde_at m d i)" "x = ptab m d i"
  using assms unfolding ptpages_def by blast

lemma PDX_less [simp]: "PDX va < 1024" and PTX_less [simp]: "PTX va < 1024"
  by (simp_all add: PDX_def PTX_def)

lemma PDX_PTX_eq_iff:
  assumes "va < 2 ^ 32" "vb < 2 ^ 32"
  shows "PDX va = PDX vb \<and> PTX va = PTX vb \<longleftrightarrow> va div PGSIZE = vb div PGSIZE"
proof -
  have s: "v div PGSIZE = PDX v * 1024 + PTX v" if "v < 2 ^ 32" for v :: nat
  proof -
    have "v div 2 ^ 22 < 1024" using that by (simp add: less_mult_imp_div_less)
    then have "PDX v = v div PGSIZE div 1024" by (simp add: PDX_def flip: div_mult2_eq)
    moreover have "PTX v = v div PGSIZE mod 1024" by (simp add: PTX_def)
    ultimately show ?thesis by (simp add: mult.commute)
  qed
  show ?thesis
  proof
    show "va div PGSIZE = vb div PGSIZE" if "PDX va = PDX vb \<and> PTX va = PTX vb"
      using that s[OF assms(1)] s[OF assms(2)] by simp
    show "PDX va = PDX vb \<and> PTX va = PTX vb" if e: "va div PGSIZE = vb div PGSIZE"
    proof -
      have "PTX va = PTX vb" using e by (simp add: PTX_def)
      then show ?thesis using e s[OF assms(1)] s[OF assms(2)] by simp
    qed
  qed
qed

lemma pt_wfD:
  assumes "pt_wf e m d"
  shows "page_ok e d" "i < 1024 \<Longrightarrow> present (pde_at m d i) \<Longrightarrow> page_ok e (ptab m d i)"
    "i < 1024 \<Longrightarrow> present (pde_at m d i) \<Longrightarrow> ptab m d i \<noteq> d"
    "i < 1024 \<Longrightarrow> j < 1024 \<Longrightarrow> present (pde_at m d i) \<Longrightarrow> present (pde_at m d j) \<Longrightarrow> i \<noteq> j \<Longrightarrow>
       ptab m d i \<noteq> ptab m d j"
  using assms unfolding pt_wf_def by blast+

lemma page_ok_mod: "page_ok e p \<Longrightarrow> p mod PGSIZE = 0"
  by (simp add: page_ok_def)

lemma V2P_page:
  assumes "page_ok e p" "KERNBASE \<le> e"
  shows "V2P p < PHYSTOP" "V2P p mod PGSIZE = 0" "P2V (V2P p) = p"
proof -
  have p: "KERNBASE \<le> p" "p < 2 ^ 32" "p mod PGSIZE = 0" using assms by (auto simp: page_ok_def)
  have v: "V2P p = p - KERNBASE" using p by (simp add: V2P_kern)
  obtain k where "p = PGSIZE * k" using p(3) by (metis dvd_def mod_0_imp_dvd)
  then have "p - KERNBASE = PGSIZE * (k - 524288)" by (simp add: diff_mult_distrib2)
  then show "V2P p mod PGSIZE = 0" unfolding v by simp
  show l: "V2P p < PHYSTOP" using assms(1) by (simp add: page_ok_def)
  show "P2V (V2P p) = p" using p v by (simp add: P2V_kern)
qed

text \<open>Writing an entry of a page table.\<close>

lemma pt_store:
  fixes w :: u32
  assumes wf: "pt_wf e m d" and i: "i < 1024" "present (pde_at m d i)" and j: "j < 1024"
  defines "m' \<equiv> store4 m (ptab m d i + 4 * j) w"
  shows "\<And>k. k < 1024 \<Longrightarrow> pde_at m' d k = pde_at m d k"
    and "\<And>k. k < 1024 \<Longrightarrow> ptab m' d k = ptab m d k"
    and "pt_wf e m' d" and "ptpages m' d = ptpages m d"
    and "pte_of m' d va = (if PDX va = i \<and> PTX va = j then w else pte_of m d va)"
proof -
  have d: "d mod PGSIZE = 0" and p: "ptab m d i mod PGSIZE = 0" "ptab m d i \<noteq> d"
    using pt_wfD[OF wf] i page_ok_mod by blast+
  have pde: "pde_at m' d k = pde_at m d k" if "k < 1024" for k
    using that d p j unfolding pde_at_def m'_def by (simp add: load4_store4_entry)
  then have tab: "ptab m' d k = ptab m d k" if "k < 1024" for k using that by (simp add: ptab_def)
  show "pde_at m' d k = pde_at m d k" "ptab m' d k = ptab m d k" if "k < 1024" for k
    using pde[OF that] tab[OF that] by simp_all
  show "pt_wf e m' d" using wf unfolding pt_wf_def by (simp add: pde tab)
  show "ptpages m' d = ptpages m d" 
    unfolding ptpages_def using pde tab by (intro arg_cong[where f = "insert d"] Collect_cong) (metis (no_types))
  show "pte_of m' d va = (if PDX va = i \<and> PTX va = j then w else pte_of m d va)"
  proof (cases "present (pde_at m d (PDX va))")
    case True
    have q: "ptab m d (PDX va) mod PGSIZE = 0" using pt_wfD(2)[OF wf _ True] page_ok_mod by simp
    have "ptab m d (PDX va) = ptab m d i \<longleftrightarrow> PDX va = i"
      using pt_wfD(4)[OF wf _ i(1) True i(2)] by auto
    then show ?thesis
      using True q p(1) j unfolding pte_of_def m'_def[symmetric] pde[OF PDX_less] tab[OF PDX_less]
      unfolding m'_def by (simp add: load4_store4_entry)
  next
    case False
    then show ?thesis using i(2) pde[OF PDX_less] unfolding pte_of_def by auto
  qed
qed

text \<open>Adding a cleared page table to the directory.\<close>

lemma pt_add_table:
  assumes wf: "pt_wf e m d" and e: "KERNBASE \<le> e" and i: "i < 1024" "\<not> present (pde_at m d i)"
    and p: "page_ok e p" "p \<notin> ptpages m d"
  defines "m' \<equiv> store4 (memset m p 0 PGSIZE) (d + 4 * i) (of_nat (V2P p) OR PTE_P OR PTE_W OR PTE_U)"
  shows "\<And>k. k < 1024 \<Longrightarrow>
      pde_at m' d k = (if k = i then of_nat (V2P p) OR PTE_P OR PTE_W OR PTE_U else pde_at m d k)"
    and "\<And>k. k < 1024 \<Longrightarrow> ptab m' d k = (if k = i then p else ptab m d k)"
    and "pt_wf e m' d" and "ptpages m' d = insert p (ptpages m d)"
    and "pte_of m' d va = pte_of m d va"
proof -
  have d: "d mod PGSIZE = 0" and pm: "p mod PGSIZE = 0" and pd: "p \<noteq> d"
    using pt_wfD(1)[OF wf] p page_ok_mod by (auto simp: ptpages_def)
  have pde: "pde_at m' d k = (if k = i then of_nat (V2P p) OR PTE_P OR PTE_W OR PTE_U else pde_at m d k)" if "k < 1024" for k
    using that d pm pd i unfolding pde_at_def m'_def by (simp add: load4_store4_entry load4_memset_entry)
  have flags: "(PTE_P OR PTE_W OR PTE_U) AND NOT 0xFFF = 0" by (simp add: PTE_P_def PTE_W_def PTE_U_def)
  have addr: "P2V (PTE_ADDR (of_nat (V2P p) OR PTE_P OR PTE_W OR PTE_U)) = p"
    using PTE_ADDR_or[OF _ _ flags, of "V2P p"] V2P_page[OF p(1) e] by simp
  have tab: "ptab m' d k = (if k = i then p else ptab m d k)" if "k < 1024" for k
    using that pde addr by (simp add: ptab_def)
  show "pde_at m' d k = (if k = i then of_nat (V2P p) OR PTE_P OR PTE_W OR PTE_U else pde_at m d k)"
    "ptab m' d k = (if k = i then p else ptab m d k)" if "k < 1024" for k
    using pde[OF that] tab[OF that] by simp_all
  have np: "ptab m d k \<noteq> p" if "k < 1024" "present (pde_at m d k)" for k
    using p(2) that unfolding ptpages_def by blast
  show "pt_wf e m' d"
    unfolding pt_wf_def using pt_wfD[OF wf] p(1) pd by (auto simp: pde tab np np[symmetric])
  show "ptpages m' d = insert p (ptpages m d)" (is "?A = ?B")
  proof (intro equalityI subsetI)
    show "x \<in> ?B" if "x \<in> ?A" for x
      using that by (auto simp: ptpages_def pde tab split: if_splits)
    show "x \<in> ?A" if xB: "x \<in> ?B" for x
    proof -
      consider "x = p" | "x = d" | k where "k < 1024" "present (pde_at m d k)" "x = ptab m d k"
        using xB by (auto elim: ptpagesE)
      then show ?thesis
      proof cases
        case 1
        then show ?thesis using ptpagesI(1)[of i m' d] i pde[OF i(1)] tab[OF i(1)] by simp
      next
        case 3
        then have "k \<noteq> i" using i(2) by blast
        with 3 show ?thesis using ptpagesI(1)[of k m' d] pde[OF 3(1)] tab[OF 3(1)] by simp
      qed (simp add: ptpagesI)
    qed
  qed
  show "pte_of m' d va = pte_of m d va"
  proof (cases "PDX va = i")
    case True
    then show ?thesis
      using i d pm pd unfolding pte_of_def pde[OF PDX_less] tab[OF PDX_less]
      by (simp add: m'_def load4_store4_entry load4_memset_entry)
  next
    case False
    have q: "ptab m d (PDX va) mod PGSIZE = 0 \<and> ptab m d (PDX va) \<noteq> d \<and> ptab m d (PDX va) \<noteq> p"
      if "present (pde_at m d (PDX va))"
      using pt_wfD(2,3)[OF wf PDX_less that] np[OF PDX_less that] page_ok_mod by simp
    show ?thesis
      using False i d pm q unfolding pte_of_def pde[OF PDX_less] tab[OF PDX_less]
      by (simp add: m'_def load4_store4_entry load4_memset_entry)
  qed
qed

section \<open>Walking and mapping\<close>

definition phys_only :: "'z kphys_scheme \<Rightarrow> 'z kphys_scheme \<Rightarrow> bool" where
  "phys_only s t \<longleftrightarrow> (\<exists>h m r. t = s\<lparr>khw := h, pmem := m, kfreelist := r\<rparr>) \<and> kquiet s t"

lemma phys_onlyE:
  assumes "phys_only s t"
  obtains h m r where "t = s\<lparr>khw := h, pmem := m, kfreelist := r\<rparr>" "kquiet s t"
  using assms unfolding phys_only_def by blast

lemma phys_only_refl [simp]: "phys_only s s"
  unfolding phys_only_def by (auto intro!: exI[of _ "khw s"] exI[of _ "pmem s"] exI[of _ "kfreelist s"])

lemma phys_onlyI: "t = s\<lparr>khw := h, pmem := m, kfreelist := r\<rparr> \<Longrightarrow> kquiet s t \<Longrightarrow> phys_only s t"
  unfolding phys_only_def by blast

lemma phys_only_trans: "phys_only s t \<Longrightarrow> phys_only t u \<Longrightarrow> phys_only s u"
  by (elim phys_onlyE, rule phys_onlyI) (simp_all, auto intro: kquiet_trans)

lemma phys_only_kend: "phys_only s t \<Longrightarrow> kend t = kend s"
  by (auto elim!: phys_onlyE)

lemma phys_only_upd [simp]: "phys_only s (s\<lparr>pmem := m\<rparr>)"
  unfolding phys_only_def kquiet_def by (auto intro!: exI[of _ "khw s"] exI[of _ m] exI[of _ "kfreelist s"])

lemma phys_only_settle_if:
  "phys_only s (settle_if b (s\<lparr>pmem := m, kfreelist := r\<rparr>))"
  by (rule phys_onlyI[where h = "if b then settle (khw s) else khw s" and m = m and r = r])
    (simp_all add: kquiet_def settle_if_def ksettle_def kgood_def kfree_lk_def)

text \<open>What a routine that only edits the page tables under \<open>d\<close> leaves alone.\<close>

definition pt_frame :: "nat \<Rightarrow> 'z kphys_scheme \<Rightarrow> 'z kphys_scheme \<Rightarrow> bool" where
  "pt_frame d s t \<longleftrightarrow>
     phys_only s t \<and> ptpages (pmem s) d \<subseteq> ptpages (pmem t) d
     \<and> (\<forall>x. (\<forall>p\<in>ptpages (pmem t) d. \<not> in_page p x) \<longrightarrow> pmem t x = pmem s x)"

lemma pt_frame_refl [simp]: "pt_frame d s s"
  by (simp add: pt_frame_def)

lemma pt_frame_trans: "pt_frame d s t \<Longrightarrow> pt_frame d t u \<Longrightarrow> pt_frame d s u"
  unfolding pt_frame_def
  by (elim conjE, intro conjI) (erule phys_only_trans, assumption, erule subset_trans, assumption, simp add: subset_iff)

lemma walkpgdir_present:
  "present (pde_at (pmem s) d (PDX va)) \<Longrightarrow>
   walkpgdir d va al s = Ret (ptab (pmem s) d (PDX va) + 4 * PTX va) s"
  by (simp add: walkpgdir_def Let_def kdefs pde_at_def ptab_def)

lemma walkpgdir_absent: "\<not> present (pde_at (pmem s) d (PDX va)) \<Longrightarrow> walkpgdir d va False s = Ret 0 s"
  by (simp add: walkpgdir_def Let_def kdefs pde_at_def)

lemma kalloc_head:
  assumes "kmem_inv (p # xs) s"
  obtains t where "kalloc s = Ret p t" "kmem_inv xs t" "pmem t = pmem s" "phys_only s t"
proof -
  let ?t = "settle_if (kmem_use_lock s) (s\<lparr>pmem := pmem s, kfreelist := unat (load4 (pmem s) (kfreelist s))\<rparr>)"
  have "kalloc s = Ret p ?t" using assms by (simp add: kmem_inv_def kalloc_net)
  moreover have "kmem_inv xs ?t" using assms by (simp add: kmem_inv_def)
  moreover have "phys_only s ?t" by (rule phys_only_settle_if)
  ultimately show ?thesis using that[of ?t] by simp
qed

lemma walk_alloc:
  assumes st: "pt_state xs d s" and ne: "present (pde_at (pmem s) d (PDX va)) \<or> xs \<noteq> []"
  obtains t ys where "walkpgdir d va True s = Ret (ptab (pmem t) d (PDX va) + 4 * PTX va) t"
    "pt_state ys d t" "present (pde_at (pmem t) d (PDX va))" "\<And>v. pte_of (pmem t) d v = pte_of (pmem s) d v"
    "length xs \<le> Suc (length ys)" "set ys \<subseteq> set xs" "pt_frame d s t"
proof (cases "present (pde_at (pmem s) d (PDX va))")
  case True
  show ?thesis by (rule that[of s xs]) (use True st in \<open>simp_all add: walkpgdir_present\<close>)
next
  case False
  then obtain p ys where xs: "xs = p # ys" using ne by (cases xs) auto
  have I: "kmem_inv (p # ys) s" "KERNBASE \<le> kend s" "pt_wf (kend s) (pmem s) d" "ptpages (pmem s) d \<inter> set (p # ys) = {}"
    using st xs by (simp_all add: pt_state_def)
  obtain u where u: "kalloc s = Ret p u" "kmem_inv ys u" "pmem u = pmem s" "phys_only s u"
    using kalloc_head[OF I(1)] by blast
  have p: "page_ok (kend s) p" "p \<notin> ptpages (pmem s) d" "p \<noteq> 0" "p \<notin> set ys"
    using I by (auto simp: kmem_inv_def page_ok_def)
  let ?i = "PDX va"
  define m where "m = store4 (memset (pmem s) p 0 PGSIZE) (d + 4 * ?i) (of_nat (V2P p) OR PTE_P OR PTE_W OR PTE_U)"
  note A = pt_add_table[OF I(3,2) PDX_less[of va] False p(1,2), folded m_def]
  let ?t = "u\<lparr>pmem := m\<rparr>"
  have w: "walkpgdir d va True s = Ret (ptab m d ?i + 4 * PTX va) ?t"
    using False p(3) u(1,3) A(2)[OF PDX_less[of va]]
    by (simp add: walkpgdir_def Let_def kdefs pde_at_def set_pmem_def m_def)
  have out: "m x = pmem s x" if "\<not> in_page p x" "\<not> in_page d x" for x
    using that by (simp add: m_def store4_in_page memset_in_page)
  have k: "kmem_inv ys ?t"
  proof (rule kmem_inv_frame[OF u(2)])
    fix q x assume q: "q \<in> set ys" "in_page q x"
    have "q mod PGSIZE = 0" "q \<noteq> p" "q \<noteq> d" using q(1) I p(4) by (auto simp: kmem_inv_def page_ok_def ptpages_def)
    then have "\<not> in_page p x" "\<not> in_page d x"
      using page_disjoint[OF _ _ _ q(2)] p(1) pt_wfD(1)[OF I(3)] by (auto simp: page_ok_def)
    then show "m x = pmem u x" using out u(3) by simp
  qed
  have ke: "kend ?t = kend s" using phys_only_kend[OF u(4)] by simp
  show ?thesis
  proof (rule that[of ?t ys])
    show "walkpgdir d va True s = Ret (ptab (pmem ?t) d (PDX va) + 4 * PTX va) ?t" using w by simp
    show "pt_state ys d ?t" unfolding pt_state_def using k ke I(2) A(3,4) I(4) p(4) by simp
    show "present (pde_at (pmem ?t) d (PDX va))" using A(1)[OF PDX_less[of va]] by simp
    show "pte_of (pmem ?t) d v = pte_of (pmem s) d v" for v using A(5) by simp
    show "length xs \<le> Suc (length ys)" "set ys \<subseteq> set xs" using xs by auto
    show "pt_frame d s ?t"
      unfolding pt_frame_def using phys_only_trans[OF u(4) phys_only_upd] A(4) out ptpagesI(2) by auto
  qed
qed

lemma pt_state_store:
  assumes st: "pt_state ys d u" and pr: "present (pde_at (pmem u) d i)" and i: "i < 1024" and j: "j < 1024"
  shows "pt_state ys d (u\<lparr>pmem := store4 (pmem u) (ptab (pmem u) d i + 4 * j) w\<rparr>)"
    and "pt_frame d u (u\<lparr>pmem := store4 (pmem u) (ptab (pmem u) d i + 4 * j) w\<rparr>)"
proof -
  let ?p = "ptab (pmem u) d i" and ?m = "store4 (pmem u) (ptab (pmem u) d i + 4 * j) w"
  have I: "kmem_inv ys u" "KERNBASE \<le> kend u" "pt_wf (kend u) (pmem u) d" "ptpages (pmem u) d \<inter> set ys = {}"
    using st by (simp_all add: pt_state_def)
  note S = pt_store[OF I(3) i pr j, where w = w]
  have p: "?p \<in> ptpages (pmem u) d" by (rule ptpagesI(1)[OF i pr])
  have k: "kmem_inv ys (u\<lparr>pmem := ?m\<rparr>)"
  proof (rule kmem_inv_frame[OF I(1)])
    fix q x assume q: "q \<in> set ys" "in_page q x"
    have "q mod PGSIZE = 0" "q \<noteq> ?p" using q(1) I p by (auto simp: kmem_inv_def page_ok_def)
    then have "\<not> in_page ?p x" using page_disjoint[OF _ _ _ q(2)] pt_wfD(2)[OF I(3) i pr] by (auto simp: page_ok_def)
    then show "?m x = pmem u x" using j by (simp add: store4_in_page)
  qed
  then show "pt_state ys d (u\<lparr>pmem := ?m\<rparr>)" using S(3,4) I by (simp add: pt_state_def)
  show "pt_frame d u (u\<lparr>pmem := ?m\<rparr>)"
    unfolding pt_frame_def using S(4) p j by (auto simp: store4_in_page)
qed

lemma map_page_ok:
  assumes st: "pt_state xs d s" "xs \<noteq> []" and va: "va < 2 ^ 32" "\<not> present (pte_of (pmem s) d va)"
  obtains t ys where "map_page d va pa f s = Ret None t" "pt_state ys d t"
    "\<And>v. v < 2 ^ 32 \<Longrightarrow> pte_of (pmem t) d v =
       (if v div PGSIZE = va div PGSIZE then of_nat pa OR f OR PTE_P else pte_of (pmem s) d v)"
    "length xs \<le> Suc (length ys)" "set ys \<subseteq> set xs" "pt_frame d s t"
proof -
  obtain u ys where u: "walkpgdir d va True s = Ret (ptab (pmem u) d (PDX va) + 4 * PTX va) u"
    "pt_state ys d u" "present (pde_at (pmem u) d (PDX va))" "\<And>v. pte_of (pmem u) d v = pte_of (pmem s) d v"
    "length xs \<le> Suc (length ys)" "set ys \<subseteq> set xs" "pt_frame d s u"
    using walk_alloc[OF st(1), of va] st(2) by blast
  let ?p = "ptab (pmem u) d (PDX va)" and ?w = "of_nat pa OR f OR PTE_P"
  have wf: "pt_wf (kend u) (pmem u) d" using u(2) by (simp add: pt_state_def)
  have nz: "?p \<noteq> 0" using pt_wfD(2)[OF wf PDX_less u(3)] by (simp add: page_ok_def)
  have e: "\<not> present (load4 (pmem u) (?p + 4 * PTX va))" using u(3) u(4)[of va] va(2) by (simp add: pte_of_def)
  note S = pt_store[OF wf PDX_less u(3) PTX_less[of va], where w = ?w]
  let ?t = "u\<lparr>pmem := store4 (pmem u) (?p + 4 * PTX va) ?w\<rparr>"
  show ?thesis
  proof (rule that[of ?t ys])
    show "map_page d va pa f s = Ret None ?t" using u(1) nz e by (simp add: map_page_def kdefs set_pmem_def)
    show "pt_state ys d ?t" by (rule pt_state_store(1)[OF u(2,3)]) simp_all
    show "pte_of (pmem ?t) d v = (if v div PGSIZE = va div PGSIZE then ?w else pte_of (pmem s) d v)"
      if "v < 2 ^ 32" for v
      using S(5)[of v] u(4) PDX_PTX_eq_iff[OF that va(1)] by simp
    show "pt_frame d s ?t" by (rule pt_frame_trans[OF u(7) pt_state_store(2)[OF u(2,3)]]) simp_all
  qed (fact u(5,6))+
qed

lemma map_loop:
  assumes "pt_state xs d s" "length is \<le> length xs" "distinct is"
    "\<And>i. i \<in> set is \<Longrightarrow> a + i * PGSIZE < 2 ^ 32 \<and> \<not> present (pte_of (pmem s) d (a + i * PGSIZE))"
    "a mod PGSIZE = 0"
  shows "\<exists>t ys. kfor_ret is (\<lambda>i. map_page d ((a + i * PGSIZE) mod 2 ^ 32) (pa + i * PGSIZE) f) s = Ret None t
    \<and> pt_state ys d t \<and> set ys \<subseteq> set xs \<and> pt_frame d s t
    \<and> (\<forall>v<2 ^ 32. pte_of (pmem t) d v =
         (if a div PGSIZE \<le> v div PGSIZE \<and> v div PGSIZE - a div PGSIZE \<in> set is
          then of_nat (pa + (v div PGSIZE - a div PGSIZE) * PGSIZE) OR f OR PTE_P else pte_of (pmem s) d v))"
  using assms
proof (induction "is" arbitrary: s xs)
  case Nil
  then show ?case by (intro exI[of _ s] exI[of _ xs]) simp
next
  case (Cons i "is")
  let ?g = "\<lambda>i. map_page d ((a + i * PGSIZE) mod 2 ^ 32) (pa + i * PGSIZE) f"
  have lt: "a + i * PGSIZE < 2 ^ 32" "\<not> present (pte_of (pmem s) d (a + i * PGSIZE))" and ne: "xs \<noteq> []"
    using Cons.prems(2,4) by auto
  have dv: "(a + k * PGSIZE) div PGSIZE = a div PGSIZE + k" for k by simp
  obtain t ys where t: "map_page d (a + i * PGSIZE) (pa + i * PGSIZE) f s = Ret None t" "pt_state ys d t"
    "\<And>v. v < 2 ^ 32 \<Longrightarrow> pte_of (pmem t) d v =
       (if v div PGSIZE = a div PGSIZE + i then of_nat (pa + i * PGSIZE) OR f OR PTE_P else pte_of (pmem s) d v)"
    "length xs \<le> Suc (length ys)" "set ys \<subseteq> set xs" "pt_frame d s t"
    using map_page_ok[OF Cons.prems(1) ne lt, of "pa + i * PGSIZE" f] unfolding dv by blast
  have "\<exists>u zs. kfor_ret is ?g t = Ret None u \<and> pt_state zs d u \<and> set zs \<subseteq> set ys \<and> pt_frame d t u
    \<and> (\<forall>v<2 ^ 32. pte_of (pmem u) d v =
         (if a div PGSIZE \<le> v div PGSIZE \<and> v div PGSIZE - a div PGSIZE \<in> set is
          then of_nat (pa + (v div PGSIZE - a div PGSIZE) * PGSIZE) OR f OR PTE_P else pte_of (pmem t) d v))"
  proof (rule Cons.IH[OF t(2)])
    show "length is \<le> length ys" using Cons.prems(2) t(4) by simp
    show "a + k * PGSIZE < 2 ^ 32 \<and> \<not> present (pte_of (pmem t) d (a + k * PGSIZE))" if "k \<in> set is" for k
      using that Cons.prems(3) Cons.prems(4)[of k] t(3)[of "a + k * PGSIZE"] unfolding dv by auto
  qed (use Cons.prems in auto)
  then obtain u zs where u: "kfor_ret is ?g t = Ret None u" "pt_state zs d u" "set zs \<subseteq> set ys" "pt_frame d t u"
    "\<forall>v<2 ^ 32. pte_of (pmem u) d v =
         (if a div PGSIZE \<le> v div PGSIZE \<and> v div PGSIZE - a div PGSIZE \<in> set is
          then of_nat (pa + (v div PGSIZE - a div PGSIZE) * PGSIZE) OR f OR PTE_P else pte_of (pmem t) d v)"
    by blast
  have run: "kfor_ret (i # is) ?g s = Ret None u"
    using kfor_ret_Ret_None[of ?g i s t "is"] t(1) u(1) lt(1) by simp
  show ?case
  proof (intro exI conjI allI impI)
    show "kfor_ret (i # is) ?g s = Ret None u" by (fact run)
    show "pt_state zs d u" by (fact u(2))
    show "set zs \<subseteq> set xs" using u(3) t(5) by blast
    show "pt_frame d s u" by (rule pt_frame_trans[OF t(6) u(4)])
    fix v :: nat assume v: "v < 2 ^ 32"
    show "pte_of (pmem u) d v = (if a div PGSIZE \<le> v div PGSIZE \<and> v div PGSIZE - a div PGSIZE \<in> set (i # is)
          then of_nat (pa + (v div PGSIZE - a div PGSIZE) * PGSIZE) OR f OR PTE_P else pte_of (pmem s) d v)"
      using u(5)[rule_format, OF v] t(3)[OF v] by (auto split: if_splits)
  qed
qed

section \<open>User memory seen through a directory\<close>

definition upage :: "memory \<Rightarrow> nat \<Rightarrow> nat \<Rightarrow> nat" where
  "upage m d v = P2V (PTE_ADDR (pte_of m d v))"

definition ubyte :: "memory \<Rightarrow> nat \<Rightarrow> nat \<Rightarrow> byte" where
  "ubyte m d v = m (upage m d v + v mod PGSIZE)"

text \<open>
  The pages numbered in \<open>N\<close> are mapped, to different physical pages that are not page tables; with
  \<open>user_wf\<close> also for the user.
\<close>

definition mapped_wf :: "nat set \<Rightarrow> nat \<Rightarrow> memory \<Rightarrow> nat \<Rightarrow> bool" where
  "mapped_wf N e m d \<longleftrightarrow>
     pt_wf e m d
     \<and> (\<forall>n\<in>N. n < 2 ^ 20 \<and> pte_of m d (n * PGSIZE) AND PTE_P \<noteq> 0
          \<and> page_ok e (upage m d (n * PGSIZE)) \<and> upage m d (n * PGSIZE) \<notin> ptpages m d)
     \<and> inj_on (\<lambda>n. upage m d (n * PGSIZE)) N"

definition user_wf :: "nat set \<Rightarrow> nat \<Rightarrow> memory \<Rightarrow> nat \<Rightarrow> bool" where
  "user_wf N e m d \<longleftrightarrow> mapped_wf N e m d \<and> (\<forall>n\<in>N. pte_of m d (n * PGSIZE) AND PTE_U \<noteq> 0)"

lemma pt_cong:
  assumes wf: "pt_wf e m d" and "\<forall>p\<in>ptpages m d. \<forall>x. in_page p x \<longrightarrow> m' x = m x"
  shows "pt_wf e m' d" "ptpages m' d = ptpages m d" "pte_of m' d v = pte_of m d v"
    "i < 1024 \<Longrightarrow> pde_at m' d i = pde_at m d i"
proof -
  have eq: "p \<in> ptpages m d \<Longrightarrow> in_page p x \<Longrightarrow> m' x = m x" for p x using assms(2) by blast
  have pde: "pde_at m' d i = pde_at m d i" if "i < 1024" for i
    unfolding pde_at_def using that eq[OF ptpagesI(2)] by (intro load4_page_cong) simp_all
  then show "i < 1024 \<Longrightarrow> pde_at m' d i = pde_at m d i" .
  from pde have tab: "ptab m' d i = ptab m d i" if "i < 1024" for i using that by (simp add: ptab_def)
  show "pt_wf e m' d" using wf unfolding pt_wf_def by (simp add: pde tab)
  show "ptpages m' d = ptpages m d"
    unfolding ptpages_def using pde tab by (intro arg_cong[where f = "insert d"] Collect_cong) (metis (no_types))
  have "load4 m' (ptab m d (PDX v) + 4 * PTX v) = load4 m (ptab m d (PDX v) + 4 * PTX v)"
    if "present (pde_at m d (PDX v))"
    using eq[OF ptpagesI(1)[OF PDX_less that]] by (intro load4_page_cong) simp_all
  then show "pte_of m' d v = pte_of m d v" by (simp add: pte_of_def pde tab)
qed

lemma pte_of_page: "pte_of m d v = pte_of m d (v div PGSIZE * PGSIZE)"
proof -
  have "v div PGSIZE * PGSIZE div 2 ^ 22 = v div 2 ^ 22"
    using div_mult2_eq[of "v div PGSIZE * PGSIZE" 4096 1024] div_mult2_eq[of v 4096 1024] by simp
  then have "PDX (v div PGSIZE * PGSIZE) = PDX v" "PTX (v div PGSIZE * PGSIZE) = PTX v"
    by (simp_all add: PDX_def PTX_def)
  then show ?thesis by (simp add: pte_of_def)
qed

lemma uva2ka_mapped:
  assumes "pt_wf e (pmem s) d" "pte_of (pmem s) d v AND PTE_P \<noteq> 0" "pte_of (pmem s) d v AND PTE_U \<noteq> 0"
  shows "uva2ka d v s = Ret (upage (pmem s) d v) s"
proof -
  have p: "present (pde_at (pmem s) d (PDX v))" using assms(2) by (cases "present (pde_at (pmem s) d (PDX v))") (simp_all add: pte_of_def)
  have "ptab (pmem s) d (PDX v) \<noteq> 0" using pt_wfD(2)[OF assms(1) PDX_less p] by (simp add: page_ok_def)
  then show ?thesis
    using p assms(2,3) by (simp add: uva2ka_def kdefs walkpgdir_present upage_def pte_of_def)
qed

lemma mapped_wf_put:
  assumes "mapped_wf N e m d" "n \<in> N" "b + length bs \<le> PGSIZE"
  defines "m' \<equiv> put_bytes m (upage m d (n * PGSIZE) + b) bs"
  shows "mapped_wf N e m' d" "\<And>v. upage m' d v = upage m d v"
    "\<And>v. v div PGSIZE \<in> N \<Longrightarrow> ubyte m' d v =
       (if v div PGSIZE = n \<and> b \<le> v mod PGSIZE \<and> v mod PGSIZE < b + length bs then bs ! (v mod PGSIZE - b)
        else ubyte m d v)"
    "\<And>v. pte_of m' d v = pte_of m d v"
proof -
  let ?p = "upage m d (n * PGSIZE)"
  have wf: "pt_wf e m d" and pg: "page_ok e ?p" "?p \<notin> ptpages m d"
    and inj: "inj_on (\<lambda>n. upage m d (n * PGSIZE)) N"
    using assms(1,2) by (auto simp: mapped_wf_def)
  have out: "m' x = m x" if "\<not> in_page ?p x" for x
    using that assms(3) unfolding m'_def put_bytes_def in_page_def by auto
  have "m' x = m x" if "q \<in> ptpages m d" "in_page q x" for q x
  proof -
    have "page_ok e q" using that(1) pt_wfD(1,2)[OF wf] by (auto elim: ptpagesE)
    then have "\<not> in_page ?p x" using page_disjoint[OF _ _ _ that(2)] pg that(1) by (metis page_ok_mod)
    then show ?thesis by (rule out)
  qed
  then have "\<forall>q\<in>ptpages m d. \<forall>x. in_page q x \<longrightarrow> m' x = m x" by blast
  note C = pt_cong[where m' = m', OF wf this]
  show "pte_of m' d v = pte_of m d v" for v by (rule C(3))
  show u: "upage m' d v = upage m d v" for v by (simp add: upage_def C(3))
  show "mapped_wf N e m' d" using assms(1) C(1) by (simp add: mapped_wf_def C(2,3) u)
  fix v assume v: "v div PGSIZE \<in> N"
  have up: "upage m d v = upage m d (v div PGSIZE * PGSIZE)" unfolding upage_def by (subst pte_of_page) simp
  have off: "v mod PGSIZE < PGSIZE" by simp
  show "ubyte m' d v =
       (if v div PGSIZE = n \<and> b \<le> v mod PGSIZE \<and> v mod PGSIZE < b + length bs then bs ! (v mod PGSIZE - b)
        else ubyte m d v)"
  proof (cases "v div PGSIZE = n")
    case True
    then have v_p: "upage m d v = ?p" using up by simp
    have "m' (?p + v mod PGSIZE) = (if b \<le> v mod PGSIZE \<and> v mod PGSIZE < b + length bs
        then bs ! (v mod PGSIZE - b) else m (?p + v mod PGSIZE))"
      unfolding m'_def put_bytes_def by auto
    then show ?thesis using True unfolding ubyte_def u v_p by simp
  next
    case False
    have "upage m d v \<noteq> ?p" using inj_onD[OF inj _ v assms(2)] False up by metis
    moreover have "page_ok e (upage m d v)" using assms(1) v up by (auto simp: mapped_wf_def)
    ultimately have "\<not> in_page ?p (upage m d v + v mod PGSIZE)"
      using page_disjoint[of "upage m d v" ?p] pg(1) in_page_self[OF off] by (simp add: page_ok_def)
    then show ?thesis using False out unfolding ubyte_def u by auto
  qed
qed

lemma user_wf_put:
  assumes "user_wf N e m d" "n \<in> N" "b + length bs \<le> PGSIZE"
  shows "user_wf N e (put_bytes m (upage m d (n * PGSIZE) + b) bs) d"
  using assms mapped_wf_put(1,4)[OF _ assms(2,3), of e m d] by (simp add: user_wf_def)

lemma copyout_ok:
  assumes "user_wf N e (pmem s) d" "va + length bs \<le> 2 ^ 32" "\<And>v. va \<le> v \<Longrightarrow> v < va + length bs \<Longrightarrow> v div PGSIZE \<in> N"
  shows "\<exists>m. copyout d va bs s = Ret 0 (s\<lparr>pmem := m\<rparr>) \<and> user_wf N e m d
    \<and> (\<forall>v. v div PGSIZE \<in> N \<longrightarrow>
         ubyte m d v = (if va \<le> v \<and> v < va + length bs then bs ! (v - va) else ubyte (pmem s) d v))"
  using assms
proof (induction "length bs" arbitrary: va bs s rule: less_induct)
  case less
  show ?case
  proof (cases "bs = []")
    case True
    then show ?thesis using less.prems(1) by (intro exI[of _ "pmem s"]) (auto simp: copyout.simps[of d va "[]"])
  next
    case False
    define n where "n = va div PGSIZE"
    define b where "b = va mod PGSIZE"
    define k where "k = min (PGSIZE - b) (length bs)"
    have va: "va = n * PGSIZE + b" "b < PGSIZE" by (simp_all add: n_def b_def)
    have r: "PGROUNDDOWN va = n * PGSIZE" by (simp add: PGROUNDDOWN_def n_def)
    have k: "0 < k" "k \<le> length bs" "b + k \<le> PGSIZE" using False va by (auto simp: k_def)
    have nN: "n \<in> N" using less.prems(3)[of va] False by (simp add: n_def)
    have wf: "pt_wf e (pmem s) d" and pr: "pte_of (pmem s) d (n * PGSIZE) AND PTE_P \<noteq> 0"
        "pte_of (pmem s) d (n * PGSIZE) AND PTE_U \<noteq> 0" "upage (pmem s) d (n * PGSIZE) \<noteq> 0"
      using less.prems(1) nN by (auto simp: user_wf_def mapped_wf_def page_ok_def)
    let ?p = "upage (pmem s) d (n * PGSIZE)"
    let ?m = "put_bytes (pmem s) (?p + b) (take k bs)"
    have mwf: "mapped_wf N e (pmem s) d" using less.prems(1) by (simp add: user_wf_def)
    note P = mapped_wf_put[OF mwf nN, of b "take k bs"]
    have len: "length (take k bs) = k" using k by simp
    define w where "w = (n * PGSIZE + PGSIZE) mod 2 ^ 32"
    have w_lt: "w < 2 ^ 32" unfolding w_def by simp
    have step: "copyout d va bs s = copyout d w (drop k bs) (s\<lparr>pmem := ?m\<rparr>)"
      using False uva2ka_mapped[OF wf pr(1,2)] pr(3) va
      unfolding copyout.simps[of d va bs] r Let_def
      by (simp add: kdefs set_pmem_def k_def w_def)
    have rest: "drop k bs \<noteq> [] \<Longrightarrow> w = va + k" and last: "drop k bs = [] \<Longrightarrow> k = length bs"
      using less.prems(2) va k by (auto simp: k_def w_def split: if_splits)
    have "\<exists>m. copyout d w (drop k bs) (s\<lparr>pmem := ?m\<rparr>) = Ret 0 ((s\<lparr>pmem := ?m\<rparr>)\<lparr>pmem := m\<rparr>) \<and> user_wf N e m d
      \<and> (\<forall>v. v div PGSIZE \<in> N \<longrightarrow> ubyte m d v =
           (if w \<le> v \<and> v < w + length (drop k bs) then drop k bs ! (v - w) else ubyte (pmem (s\<lparr>pmem := ?m\<rparr>)) d v))"
    proof (rule less.hyps)
      show "length (drop k bs) < length bs" using k False by simp
      show "user_wf N e (pmem (s\<lparr>pmem := ?m\<rparr>)) d" using user_wf_put[OF less.prems(1) nN, of b "take k bs"] len k by simp
      show "w + length (drop k bs) \<le> 2 ^ 32"
        using rest less.prems(2) k w_lt by (cases "drop k bs = []") auto
      show "v div PGSIZE \<in> N" if "w \<le> v" "v < w + length (drop k bs)" for v
      proof -
        have "drop k bs \<noteq> []" using that by auto
        then show ?thesis using that rest less.prems(3)[of v] k by auto
      qed
    qed
    then obtain m where m: "copyout d w (drop k bs) (s\<lparr>pmem := ?m\<rparr>) = Ret 0 (s\<lparr>pmem := m\<rparr>)" "user_wf N e m d"
      "\<And>v. v div PGSIZE \<in> N \<Longrightarrow> ubyte m d v =
         (if w \<le> v \<and> v < w + length (drop k bs) then drop k bs ! (v - w) else ubyte ?m d v)"
      by auto
    have "ubyte m d v = (if va \<le> v \<and> v < va + length bs then bs ! (v - va) else ubyte (pmem s) d v)"
      if v: "v div PGSIZE \<in> N" for v
    proof -
      define q r where "q = v div PGSIZE" and "r = v mod PGSIZE"
      have vq: "v = q * PGSIZE + r" "r < PGSIZE" by (simp_all add: q_def r_def)
      have here: "v div PGSIZE = n \<and> b \<le> v mod PGSIZE \<and> v mod PGSIZE < b + k \<longleftrightarrow> va \<le> v \<and> v < va + k"
        unfolding q_def[symmetric] r_def[symmetric] vq(1) va(1) using k(3) vq(2) va(2)
        by (cases q n rule: linorder_cases) auto
      have idx: "v mod PGSIZE - b = v - va" if "v div PGSIZE = n"
        using that vq(1) va(1) unfolding q_def[symmetric] r_def[symmetric] by linarith
      have one: "ubyte ?m d v = (if va \<le> v \<and> v < va + k then bs ! (v - va) else ubyte (pmem s) d v)"
      proof -
        have p3: "ubyte ?m d v = (if va \<le> v \<and> v < va + k then take k bs ! (v mod PGSIZE - b) else ubyte (pmem s) d v)"
          using P(3)[OF _ v] k(3) unfolding len here by simp
        have "take k bs ! (v mod PGSIZE - b) = bs ! (v - va)" if "va \<le> v \<and> v < va + k"
          using idx that here by (subst idx) auto
        then show ?thesis unfolding p3 by simp
      qed
      show ?thesis
      proof (cases "drop k bs = []")
        case True
        then show ?thesis using m(3)[OF v] one last[OF True] by auto
      next
        case F: False
        have two: "ubyte m d v = (if va + k \<le> v \<and> v < va + length bs then bs ! (v - va) else ubyte ?m d v)"
          using m(3)[OF v] k(2) unfolding rest[OF F] by auto
        show ?thesis unfolding two one using k(2) by auto
      qed
    qed
    then show ?thesis using step m(1,2) by auto
  qed
qed

section \<open>Releasing user pages\<close>

definition upages :: "memory \<Rightarrow> nat \<Rightarrow> nat set \<Rightarrow> nat set" where
  "upages m d N = (\<lambda>n. upage m d (n * PGSIZE)) ` {n \<in> N. present (pte_of m d (n * PGSIZE))}"

text \<open>
  The pages mapped for the numbers in \<open>N\<close> may be given back: they are real pages, all different, none
  of them a page table or already free.
\<close>

definition releasable :: "nat set \<Rightarrow> nat list \<Rightarrow> nat \<Rightarrow> 'z kphys_scheme \<Rightarrow> bool" where
  "releasable N xs d s \<longleftrightarrow>
     pt_state xs d s
     \<and> (\<forall>n\<in>N. n < 2 ^ 20 \<and> (present (pte_of (pmem s) d (n * PGSIZE)) \<longrightarrow>
          PTE_ADDR (pte_of (pmem s) d (n * PGSIZE)) \<noteq> 0
          \<and> page_ok (kend s) (upage (pmem s) d (n * PGSIZE))
          \<and> upage (pmem s) d (n * PGSIZE) \<notin> ptpages (pmem s) d \<union> set xs))
     \<and> inj_on (\<lambda>n. upage (pmem s) d (n * PGSIZE)) {n \<in> N. present (pte_of (pmem s) d (n * PGSIZE))}"

lemma present_pde: "present (pte_of m d v) \<Longrightarrow> present (pde_at m d (PDX v))"
  by (auto simp: pte_of_def split: if_splits)

lemma kfree_pt:
  assumes st: "pt_state xs d s" and p: "page_ok (kend s) p" "p \<notin> ptpages (pmem s) d" "p \<notin> set xs"
  obtains t where "kfree p s = Ret () t" "pt_state (p # xs) d t" "ptpages (pmem t) d = ptpages (pmem s) d"
    "\<And>v. pte_of (pmem t) d v = pte_of (pmem s) d v" "phys_only s t"
    "\<And>x. \<not> in_page p x \<Longrightarrow> pmem t x = pmem s x" "\<And>i. i < 1024 \<Longrightarrow> pde_at (pmem t) d i = pde_at (pmem s) d i"
proof -
  have I: "kmem_inv xs s" "KERNBASE \<le> kend s" "pt_wf (kend s) (pmem s) d" "ptpages (pmem s) d \<inter> set xs = {}"
    using st by (simp_all add: pt_state_def)
  let ?m = "store4 (memset (pmem s) p 1 PGSIZE) p (of_nat (kfreelist s))"
  let ?t = "settle_if (kmem_use_lock s) (s\<lparr>pmem := ?m, kfreelist := p\<rparr>)"
  have k: "kfree p s = Ret () ?t" using I(1) p(1) by (intro kfree_net) (simp_all add: kmem_inv_def)
  have i: "kmem_inv (p # xs) ?t" by (intro kmem_inv_settle_if kmem_inv_kfree I(1) p(1,3))
  have out: "\<not> in_page p x \<Longrightarrow> ?m x = pmem s x" for x by (rule kfree_page_frame)
  have "?m x = pmem s x" if "q \<in> ptpages (pmem s) d" "in_page q x" for q x
  proof (rule out)
    have "page_ok (kend s) q" using that(1) pt_wfD(1,2)[OF I(3)] by (auto elim: ptpagesE)
    then show "\<not> in_page p x" using page_disjoint[OF _ _ _ that(2)] p that(1) by (metis page_ok_mod)
  qed
  then have "\<forall>q\<in>ptpages (pmem s) d. \<forall>x. in_page q x \<longrightarrow> ?m x = pmem s x" by blast
  note C = pt_cong[where m' = ?m, OF I(3) this]
  show ?thesis
  proof (rule that[OF k])
    show "pt_state (p # xs) d ?t" using i I(2,4) C(1,2) p(2) by (simp add: pt_state_def)
    show "ptpages (pmem ?t) d = ptpages (pmem s) d" "pte_of (pmem ?t) d v = pte_of (pmem s) d v" for v
      using C(2,3) by simp_all
    show "phys_only s ?t" by (rule phys_only_settle_if)
    show "pmem ?t x = pmem s x" if "\<not> in_page p x" for x using out[OF that] by simp
    show "pde_at (pmem ?t) d i = pde_at (pmem s) d i" if "i < 1024" for i using C(4)[OF that] by simp
  qed
qed

text \<open>One turn of the loop on a present page.\<close>

lemma dealloc_one:
  assumes R: "releasable N xs d s" and n: "n \<in> N" and pr: "present (pte_of (pmem s) d (n * PGSIZE))"
  defines "p \<equiv> upage (pmem s) d (n * PGSIZE)"
    and "pte \<equiv> ptab (pmem s) d (PDX (n * PGSIZE)) + 4 * PTX (n * PGSIZE)"
  obtains t where "kthen (kfree p) (set_pmem (\<lambda>m. store4 m pte 0)) s = Ret () t" "releasable N (p # xs) d t"
    "\<And>v. v < 2 ^ 32 \<Longrightarrow> pte_of (pmem t) d v = (if v div PGSIZE = n then 0 else pte_of (pmem s) d v)"
    "phys_only s t" "ptpages (pmem t) d = ptpages (pmem s) d"
    "\<And>x. \<not> in_page p x \<Longrightarrow> (\<And>q. q \<in> ptpages (pmem s) d \<Longrightarrow> \<not> in_page q x) \<Longrightarrow> pmem t x = pmem s x"
proof -
  have st: "pt_state xs d s" and pd: "present (pde_at (pmem s) d (PDX (n * PGSIZE)))"
    using R pr by (auto simp: releasable_def intro: present_pde)
  have lt: "n * PGSIZE < 2 ^ 32" using R n by (auto simp: releasable_def)
  have ok: "page_ok (kend s) p" "p \<notin> ptpages (pmem s) d" "p \<notin> set xs"
    using R n pr unfolding releasable_def p_def by auto
  obtain u where u: "kfree p s = Ret () u" "pt_state (p # xs) d u" "ptpages (pmem u) d = ptpages (pmem s) d"
    "\<And>v. pte_of (pmem u) d v = pte_of (pmem s) d v" "phys_only s u" "\<And>x. \<not> in_page p x \<Longrightarrow> pmem u x = pmem s x"
    "\<And>i. i < 1024 \<Longrightarrow> pde_at (pmem u) d i = pde_at (pmem s) d i"
    using kfree_pt[OF st ok] by blast
  let ?i = "PDX (n * PGSIZE)" and ?j = "PTX (n * PGSIZE)"
  have pdu: "present (pde_at (pmem u) d ?i)" and pte_u: "pte = ptab (pmem u) d ?i + 4 * ?j"
    using pd u(7)[OF PDX_less] by (simp_all add: pte_def ptab_def)
  let ?t = "u\<lparr>pmem := store4 (pmem u) pte 0\<rparr>"
  have wf: "pt_wf (kend u) (pmem u) d" using u(2) by (simp add: pt_state_def)
  note S = pt_store[OF wf PDX_less pdu PTX_less, of "n * PGSIZE", where w = 0, folded pte_u]
  note T = pt_state_store[OF u(2) pdu PDX_less PTX_less, of "n * PGSIZE" 0, folded pte_u]
  have pte': "pte_of (pmem ?t) d v = (if v div PGSIZE = n then 0 else pte_of (pmem s) d v)" if "v < 2 ^ 32" for v
    using S(5)[of v] u(4)[of v] PDX_PTX_eq_iff[OF that lt] by simp
  have at: "pte_of (pmem ?t) d (k * PGSIZE) = (if k = n then 0 else pte_of (pmem s) d (k * PGSIZE))"
    if "k \<in> N" for k using R that pte'[of "k * PGSIZE"] by (auto simp: releasable_def)
  have up: "upage (pmem ?t) d (k * PGSIZE) = upage (pmem s) d (k * PGSIZE)" if "k \<in> N" "k \<noteq> n" for k
    using at[OF that(1)] that(2) by (simp add: upage_def)
  have pages: "ptpages (pmem ?t) d = ptpages (pmem s) d" using S(4) u(3) by simp
  have ke: "kend ?t = kend s" using phys_only_kend[OF u(5)] by simp
  let ?P = "{k \<in> N. present (pte_of (pmem s) d (k * PGSIZE))}"
  have inj: "inj_on (\<lambda>k. upage (pmem s) d (k * PGSIZE)) ?P" using R by (simp add: releasable_def)
  have live: "k \<noteq> n \<and> present (pte_of (pmem s) d (k * PGSIZE))"
    if "k \<in> N" "present (pte_of (pmem ?t) d (k * PGSIZE))" for k
    using at[OF that(1)] that(2) by (simp split: if_splits)
  have "releasable N (p # xs) d ?t"
    unfolding releasable_def
  proof (intro conjI ballI impI)
    show "pt_state (p # xs) d ?t" by (rule T(1))
    fix k assume k: "k \<in> N"
    show "k < 2 ^ 20" using R k by (simp add: releasable_def)
    assume pk: "present (pte_of (pmem ?t) d (k * PGSIZE))"
    note l = live[OF k pk]
    have old: "PTE_ADDR (pte_of (pmem s) d (k * PGSIZE)) \<noteq> 0" "page_ok (kend s) (upage (pmem s) d (k * PGSIZE))"
      "upage (pmem s) d (k * PGSIZE) \<notin> ptpages (pmem s) d \<union> set xs"
      using R k l unfolding releasable_def by blast+
    have "upage (pmem s) d (k * PGSIZE) \<noteq> p" using inj_onD[OF inj, of k n] k l n pr unfolding p_def by blast
    then show "PTE_ADDR (pte_of (pmem ?t) d (k * PGSIZE)) \<noteq> 0" "page_ok (kend ?t) (upage (pmem ?t) d (k * PGSIZE))"
      "upage (pmem ?t) d (k * PGSIZE) \<notin> ptpages (pmem ?t) d \<union> set (p # xs)"
      unfolding ke pages up[OF k conjunct1[OF l]] using at[OF k] l old by simp_all
  next
    show "inj_on (\<lambda>k. upage (pmem ?t) d (k * PGSIZE)) {k \<in> N. present (pte_of (pmem ?t) d (k * PGSIZE))}"
    proof (rule inj_onI)
      fix i j assume "i \<in> {k \<in> N. present (pte_of (pmem ?t) d (k * PGSIZE))}"
        "j \<in> {k \<in> N. present (pte_of (pmem ?t) d (k * PGSIZE))}"
        "upage (pmem ?t) d (i * PGSIZE) = upage (pmem ?t) d (j * PGSIZE)"
      then show "i = j" using live[of i] live[of j] up[of i] up[of j] inj_onD[OF inj, of i j] by auto
    qed
  qed
  moreover have "kthen (kfree p) (set_pmem (\<lambda>m. store4 m pte 0)) s = Ret () ?t"
    using u(1) by (simp add: kdefs set_pmem_def)
  moreover have "phys_only s ?t" by (rule phys_only_trans[OF u(5) phys_only_upd])
  moreover have "pmem ?t x = pmem s x" if "\<not> in_page p x" "\<And>q. q \<in> ptpages (pmem s) d \<Longrightarrow> \<not> in_page q x" for x
    using that(2)[OF ptpagesI(1)[OF PDX_less pd]] u(6)[OF that(1)] u(7)[OF PDX_less]
    unfolding pte_def by (simp add: store4_in_page ptab_def)
  ultimately show ?thesis using that[of ?t] pte' pages by blast
qed

lemma PGADDR_next: "a < KERNBASE \<Longrightarrow> (PGADDR (PDX a + 1) 0 0 + (2 ^ 32 - PGSIZE) + PGSIZE) mod 2 ^ 32 = (a div 2 ^ 22 + 1) * 2 ^ 22"
proof -
  assume a: "a < KERNBASE"
  then have d: "a div 2 ^ 22 < 512" by (simp add: less_mult_imp_div_less)
  then have "PGADDR (PDX a + 1) 0 0 = (a div 2 ^ 22 + 1) * 2 ^ 22" (is "_ = ?X")
    by (simp add: PGADDR_def PDX_def)
  moreover have "?X + (2 ^ 32 - PGSIZE) + PGSIZE = ?X + 2 ^ 32" by simp
  moreover have "?X < 2 ^ 32" using d by simp
  ultimately show ?thesis by (simp only: mod_add_self2 mod_less)
qed

lemma pte_of_absent: "\<not> present (pde_at m d (PDX v)) \<Longrightarrow> \<not> present (pte_of m d v)"
  by (simp add: pte_of_def)

lemma PDX_same_slot: "a \<le> v \<Longrightarrow> v < (a div 2 ^ 22 + 1) * 2 ^ 22 \<Longrightarrow> PDX v = PDX a"
proof -
  assume "a \<le> v" "v < (a div 2 ^ 22 + 1) * 2 ^ 22"
  then have "a div 2 ^ 22 \<le> v div 2 ^ 22" "v div 2 ^ 22 < a div 2 ^ 22 + 1"
    using less_mult_imp_div_less[of v "a div 2 ^ 22 + 1" "2 ^ 22"] by (simp_all add: div_le_mono)
  then have "v div 2 ^ 22 = a div 2 ^ 22" by simp
  then show ?thesis unfolding PDX_def by (rule arg_cong)
qed

text \<open>The present entries of the pages in \<open>J\<close> have been cleared and their pages freed, and nothing else.\<close>

definition released :: "nat set \<Rightarrow> nat list \<Rightarrow> nat \<Rightarrow> 'z kphys_scheme \<Rightarrow> 'z kphys_scheme \<Rightarrow> nat list \<Rightarrow> bool" where
  "released J xs d s t ys \<longleftrightarrow>
     pt_state ys d t \<and> phys_only s t \<and> set ys = set xs \<union> upages (pmem s) d J
     \<and> ptpages (pmem t) d = ptpages (pmem s) d
     \<and> (\<forall>v<2 ^ 32. pte_of (pmem t) d v =
          (if v div PGSIZE \<in> J \<and> present (pte_of (pmem s) d v) then 0 else pte_of (pmem s) d v))
     \<and> (\<forall>x. (\<forall>q\<in>ptpages (pmem s) d \<union> upages (pmem s) d J. \<not> in_page q x) \<longrightarrow> pmem t x = pmem s x)"

lemma releasedD:
  assumes "released J xs d s t ys"
  shows "pt_state ys d t" "phys_only s t" "set ys = set xs \<union> upages (pmem s) d J"
    "ptpages (pmem t) d = ptpages (pmem s) d"
    "v < 2 ^ 32 \<Longrightarrow> pte_of (pmem t) d v =
       (if v div PGSIZE \<in> J \<and> present (pte_of (pmem s) d v) then 0 else pte_of (pmem s) d v)"
    "(\<And>q. q \<in> ptpages (pmem s) d \<Longrightarrow> \<not> in_page q x) \<Longrightarrow> (\<And>q. q \<in> upages (pmem s) d J \<Longrightarrow> \<not> in_page q x) \<Longrightarrow>
       pmem t x = pmem s x"
  using assms unfolding released_def by blast+

lemma releasable_mono: "releasable N xs d s \<Longrightarrow> M \<subseteq> N \<Longrightarrow> releasable M xs d s"
  unfolding releasable_def by (auto intro: inj_on_subset)

lemma released_none:
  assumes "pt_state xs d s" "\<And>v. v div PGSIZE \<in> J \<Longrightarrow> \<not> present (pte_of (pmem s) d v)"
  shows "released J xs d s s xs"
proof -
  have "upages (pmem s) d J = {}" using assms(2)[of "_ * PGSIZE"] by (auto simp: upages_def)
  then show ?thesis using assms by (auto simp: released_def)
qed

lemma released_trans:
  assumes A: "released I xs d s t ys" and B: "released J ys d t u zs" and "I \<inter> J = {}" "\<forall>n\<in>J. n < 2 ^ 20"
  shows "released (I \<union> J) xs d s u zs"
proof -
  have same: "pte_of (pmem t) d v = pte_of (pmem s) d v" if "v div PGSIZE \<in> J" "v < 2 ^ 32" for v
    using A that assms(3) by (auto simp: released_def)
  have "pte_of (pmem t) d (n * PGSIZE) = pte_of (pmem s) d (n * PGSIZE)" if "n \<in> J" for n
    using same[of "n * PGSIZE"] that assms(4) by auto
  then have up: "upages (pmem t) d J = upages (pmem s) d J" unfolding upages_def upage_def by (intro image_cong) auto
  have un: "upages (pmem s) d (I \<union> J) = upages (pmem s) d I \<union> upages (pmem s) d J" unfolding upages_def by auto
  have pte: "pte_of (pmem u) d v = (if v div PGSIZE \<in> I \<union> J \<and> present (pte_of (pmem s) d v) then 0 else pte_of (pmem s) d v)"
    if "v < 2 ^ 32" for v
    using A B that assms(3) unfolding released_def by auto
  show ?thesis
    unfolding released_def un
  proof (intro conjI allI impI)
    show "phys_only s u" using A B phys_only_trans unfolding released_def by blast
    fix x assume "\<forall>q\<in>ptpages (pmem s) d \<union> (upages (pmem s) d I \<union> upages (pmem s) d J). \<not> in_page q x"
    then show "pmem u x = pmem s x"
      using releasedD(6)[OF A, of x] releasedD(6)[OF B, of x] releasedD(4)[OF A] up by auto
  qed (use releasedD(1,3,4)[OF A] releasedD(1,3,4)[OF B] pte up in auto)
qed

lemma dealloc_page:
  assumes R: "releasable N xs d s" and n: "n \<in> N"
    and pd: "present (pde_at (pmem s) d (PDX (n * PGSIZE)))"
  defines "e \<equiv> pte_of (pmem s) d (n * PGSIZE)"
    and "pte \<equiv> ptab (pmem s) d (PDX (n * PGSIZE)) + 4 * PTX (n * PGSIZE)"
  obtains t ys where "kwhen (present e) (if PTE_ADDR e = 0 then kpanic ''kfree''
       else kthen (kfree (P2V (PTE_ADDR e))) (set_pmem (\<lambda>m. store4 m pte 0))) s = Ret () t"
    "released {n} xs d s t ys" "releasable N ys d t"
proof (cases "present e")
  case False
  have st: "pt_state xs d s" using R by (simp add: releasable_def)
  have "released {n} xs d s s xs"
    by (rule released_none[OF st]) (use False pte_of_page[of "pmem s" d] in \<open>auto simp: e_def\<close>)
  then show ?thesis using that[of s xs] False R by (simp add: kdefs)
next
  case True
  let ?p = "upage (pmem s) d (n * PGSIZE)"
  obtain t where t: "kthen (kfree ?p) (set_pmem (\<lambda>m. store4 m pte 0)) s = Ret () t" "releasable N (?p # xs) d t"
    "\<And>v. v < 2 ^ 32 \<Longrightarrow> pte_of (pmem t) d v = (if v div PGSIZE = n then 0 else pte_of (pmem s) d v)"
    "phys_only s t" "ptpages (pmem t) d = ptpages (pmem s) d"
    "\<And>x. \<not> in_page ?p x \<Longrightarrow> (\<And>q. q \<in> ptpages (pmem s) d \<Longrightarrow> \<not> in_page q x) \<Longrightarrow> pmem t x = pmem s x"
    using dealloc_one[OF R n True[unfolded e_def]] unfolding pte_def by blast
  have up: "upages (pmem s) d {n} = {?p}" using True by (auto simp: upages_def e_def)
  have same: "pte_of (pmem s) d v = e" if "v div PGSIZE = n" for v
    unfolding e_def using pte_of_page[of "pmem s" d v] that by simp
  have "released {n} xs d s t (?p # xs)"
    unfolding released_def up using t(2-6) True same by (auto simp: releasable_def)
  moreover have "PTE_ADDR e \<noteq> 0" using R n True unfolding releasable_def e_def by blast
  ultimately show ?thesis
    using that[of t "?p # xs"] t(1,2) True by (simp add: kwhen_apply upage_def e_def)
qed

text \<open>
  The loop from page number \<open>n\<close>: every present entry below \<open>oldsz\<close> is cleared and its page freed.
\<close>

lemma dealloc_loop_ok:
  assumes "releasable {n..<N} xs d s" "oldsz \<le> KERNBASE" "N = (oldsz + PGSIZE - 1) div PGSIZE"
    "oldsz \<le> n * PGSIZE + fuel * PGSIZE"
  shows "\<exists>t ys. dealloc_loop fuel d (n * PGSIZE) oldsz s = Ret () t \<and> released {n..<N} xs d s t ys"
  using assms
proof (induction fuel arbitrary: n xs s)
  case 0
  then have "N \<le> n" by (simp add: less_mult_imp_div_less less_Suc_eq_le[symmetric])
  then have "released {n..<N} xs d s s xs" using 0 by (intro released_none) (auto simp: releasable_def)
  then show ?case using 0 by (intro exI[of _ s] exI[of _ xs]) simp
next
  case (Suc fuel)
  have st: "pt_state xs d s" using Suc.prems(1) by (simp add: releasable_def)
  have lt20: "\<forall>k\<in>{m..<N}. k < 2 ^ 20" for m using Suc.prems(2,3) by auto
  show ?case
  proof (cases "n * PGSIZE < oldsz")
    case False
    then have "N \<le> n" using Suc.prems(3) by (simp add: less_mult_imp_div_less less_Suc_eq_le[symmetric])
    then have "released {n..<N} xs d s s xs" by (intro released_none[OF st]) auto
    then show ?thesis using False by (intro exI[of _ s] exI[of _ xs]) simp
  next
    case True
    have nN: "n < N" using True Suc.prems(3) by (auto simp: less_eq_div_iff_mult_less_eq Suc_le_eq[symmetric])
    have nK: "n * PGSIZE < KERNBASE" using True Suc.prems(2) by simp
    show ?thesis
    proof (cases "present (pde_at (pmem s) d (PDX (n * PGSIZE)))")
      case pd: False
      define k where "k = (n * PGSIZE div 2 ^ 22 + 1) * 1024"
      have k: "(n * PGSIZE div 2 ^ 22 + 1) * 2 ^ 22 = k * PGSIZE" by (simp add: k_def)
      have "n * PGSIZE < k * PGSIZE" unfolding k[symmetric]
        using div_mult_mod_eq[of "n * PGSIZE" "2 ^ 22"] mod_less_divisor[of "2 ^ 22" "n * PGSIZE"] by simp
      then have nk: "n < k" by simp
      have gap: "released {n..<min k N} xs d s s xs"
      proof (rule released_none[OF st])
        fix v assume "v div PGSIZE \<in> {n..<min k N}"
        then have "n * PGSIZE \<le> v" "v < k * PGSIZE"
          using div_mult_mod_eq[of v 4096] mod_less_divisor[of 4096 v] by auto
        then have "PDX v = PDX (n * PGSIZE)" unfolding k[symmetric] by (rule PDX_same_slot)
        then show "\<not> present (pte_of (pmem s) d v)" using pd by (intro pte_of_absent) simp
      qed
      have "\<exists>t ys. dealloc_loop fuel d (k * PGSIZE) oldsz s = Ret () t \<and> released {k..<N} xs d s t ys"
        using Suc.prems nk by (intro Suc.IH) (auto intro: releasable_mono)
      then obtain t ys where t: "dealloc_loop fuel d (k * PGSIZE) oldsz s = Ret () t" "released {k..<N} xs d s t ys" by blast
      have "released ({n..<min k N} \<union> {k..<N}) xs d s t ys" using lt20 by (intro released_trans[OF gap t(2)]) auto
      moreover have "{n..<min k N} \<union> {k..<N} = {n..<N}" using nk by auto
      moreover have "dealloc_loop (Suc fuel) d (n * PGSIZE) oldsz s = Ret () t"
        using True t(1) walkpgdir_absent[OF pd] PGADDR_next[OF nK] k by (simp add: kdefs)
      ultimately show ?thesis by auto
    next
      case pd: True
      let ?pte = "ptab (pmem s) d (PDX (n * PGSIZE)) + 4 * PTX (n * PGSIZE)"
      have nn: "n \<in> {n..<N}" using nN by simp
      have nz: "?pte \<noteq> 0" using st pt_wfD(2)[OF _ PDX_less pd] by (auto simp: pt_state_def page_ok_def)
      have e: "load4 (pmem s) ?pte = pte_of (pmem s) d (n * PGSIZE)" using pd by (simp add: pte_of_def)
      obtain u zs where u: "kwhen (present (load4 (pmem s) ?pte)) (if PTE_ADDR (load4 (pmem s) ?pte) = 0 then kpanic ''kfree''
           else kthen (kfree (P2V (PTE_ADDR (load4 (pmem s) ?pte)))) (set_pmem (\<lambda>m. store4 m ?pte 0))) s = Ret () u"
         "released {n} xs d s u zs" "releasable {n..<N} zs d u"
        using dealloc_page[OF Suc.prems(1) nn pd] unfolding e by blast
      have "\<exists>t ys. dealloc_loop fuel d (Suc n * PGSIZE) oldsz u = Ret () t \<and> released {Suc n..<N} zs d u t ys"
        using Suc.prems(2-4) u(3) by (intro Suc.IH) (auto intro: releasable_mono)
      then obtain t ys where t: "dealloc_loop fuel d (Suc n * PGSIZE) oldsz u = Ret () t" "released {Suc n..<N} zs d u t ys"
        by blast
      have "released ({n} \<union> {Suc n..<N}) xs d s t ys" using lt20 by (intro released_trans[OF u(2) t(2)]) auto
      moreover have "{n} \<union> {Suc n..<N} = {n..<N}" using nN by auto
      moreover have "dealloc_loop (Suc fuel) d (n * PGSIZE) oldsz s = Ret () t"
      proof -
        have nx: "(n * PGSIZE + PGSIZE) mod 2 ^ 32 = Suc n * PGSIZE" using nK by simp
        show ?thesis
          using True nz
          by (simp only: dealloc_loop.simps kbind_apply kthen_apply kget_apply if_apply walkpgdir_present[OF pd]
              outcome.case not_True_eq_False if_False u(1) nx t(1))
      qed
      ultimately show ?thesis by auto
    qed
  qed
qed

section \<open>A concrete address space\<close>

definition dir0 :: nat where "dir0 = 0x80300000"
definition tab0 :: nat where "tab0 = 0x80301000"
definition page0 :: nat where "page0 = 0x80302000"

definition pool0 :: memory where
  "pool0 = store4 (\<lambda>_. 0) 0x80200000 0x80201000"

definition vm0 :: kphys where
  "vm0 = phys0\<lparr>pmem := pool0, kfreelist := 0x80200000\<rparr>"

lemma pool0_entry: "i < 1024 \<Longrightarrow> load4 pool0 (dir0 + 4 * i) = 0"
  unfolding pool0_def dir0_def by (subst load4_store4_other) (simp_all add: load4_def)

lemma pt_wf_pool0: "pt_wf (kend phys0) pool0 dir0" "ptpages pool0 dir0 = {dir0}" "pte_of pool0 dir0 v = 0"
proof -
  have z: "pde_at pool0 dir0 i = 0" if "i < 1024" for i using pool0_entry[OF that] by (simp add: pde_at_def)
  have "page_ok (kend phys0) dir0" by (simp add: page_ok_def dir0_def V2P_def phys0_def)
  then show "pt_wf (kend phys0) pool0 dir0" using z by (simp add: pt_wf_def)
  show "ptpages pool0 dir0 = {dir0}" using z by (auto simp: ptpages_def)
  show "pte_of pool0 dir0 v = 0" using z[OF PDX_less] by (simp add: pte_of_def)
qed

lemma vm0_state: "pt_state [0x80200000, 0x80201000] dir0 vm0"
proof -
  have "load4 pool0 0x80201000 = 0" unfolding pool0_def by (subst load4_store4_other) (simp_all add: load4_def)
  moreover have "load4 pool0 0x80200000 = 0x80201000" unfolding pool0_def by simp
  ultimately have "kmem_inv [0x80200000, 0x80201000] vm0"
    by (simp add: kmem_inv_def kmem_ready_def vm0_def phys0_def page_ok_def V2P_def)
  then show ?thesis
    using pt_wf_pool0 by (simp add: pt_state_def vm0_def) (simp add: phys0_def dir0_def)
qed

text \<open>One table and one user page.\<close>

definition user0 :: memory where
  "user0 =
     (let m1 = store4 (memset pool0 tab0 0 PGSIZE) (dir0 + 4 * 0) (of_nat (V2P tab0) OR PTE_P OR PTE_W OR PTE_U)
      in store4 m1 (ptab m1 dir0 0 + 4 * 0) (of_nat (V2P page0) OR PTE_P OR PTE_W OR PTE_U))"

lemma user0_pages_ok: "page_ok (kend phys0) tab0" "page_ok (kend phys0) page0" "page_ok (kend phys0) dir0"
  "KERNBASE \<le> kend phys0"
  by (simp_all add: page_ok_def tab0_def page0_def dir0_def V2P_def phys0_def)

lemma user0_facts:
  "pt_wf (kend phys0) user0 dir0" "ptpages user0 dir0 = {tab0, dir0}"
  "pte_of user0 dir0 0 = of_nat (V2P page0) OR PTE_P OR PTE_W OR PTE_U"
  "\<And>x. \<not> in_page tab0 x \<Longrightarrow> \<not> in_page dir0 x \<Longrightarrow> user0 x = pool0 x"
proof -
  define m1 where "m1 = store4 (memset pool0 tab0 0 PGSIZE) (dir0 + 4 * 0) (of_nat (V2P tab0) OR PTE_P OR PTE_W OR PTE_U)"
  have np: "\<not> present (pde_at pool0 dir0 0)" using pool0_entry[of 0] by (simp add: pde_at_def)
  have nt: "tab0 \<notin> ptpages pool0 dir0" unfolding pt_wf_pool0(2) by (simp add: tab0_def dir0_def)
  note A = pt_add_table[OF pt_wf_pool0(1) user0_pages_ok(4) _ np user0_pages_ok(1) nt, folded m1_def]
  let ?w = "of_nat (V2P page0) OR PTE_P OR PTE_W OR PTE_U"
  have pr: "present (pde_at m1 dir0 0)" and tab: "ptab m1 dir0 0 = tab0" using A(1,2)[of 0] by simp_all
  note S = pt_store[OF A(3) _ pr, of 0, where w = ?w]
  have u: "user0 = store4 m1 (ptab m1 dir0 0 + 4 * 0) ?w" by (simp add: user0_def m1_def Let_def)
  show "pte_of user0 dir0 0 = ?w" using S(5)[of 0] by (simp add: u PDX_def PTX_def)
  show "ptpages user0 dir0 = {tab0, dir0}" using S(4) A(4) by (simp add: u pt_wf_pool0)
  show "pt_wf (kend phys0) user0 dir0" using S(3) by (simp add: u)
  fix x assume x: "\<not> in_page tab0 x" "\<not> in_page dir0 x"
  have "user0 x = m1 x" unfolding u tab using x by (intro store4_in_page) simp_all
  also have "\<dots> = memset pool0 tab0 0 PGSIZE x" unfolding m1_def using x by (intro store4_in_page) simp_all
  finally show "user0 x = pool0 x" using x by (simp add: memset_in_page)
qed

lemma user0_upage:
  "upage user0 dir0 0 = page0" "pte_of user0 dir0 0 AND PTE_P \<noteq> 0" "pte_of user0 dir0 0 AND PTE_U \<noteq> 0"
  "PTE_ADDR (pte_of user0 dir0 0) \<noteq> 0"
proof -
  have flags: "(PTE_P OR PTE_W OR PTE_U) AND NOT 0xFFF = 0" by (simp add: PTE_P_def PTE_W_def PTE_U_def)
  have a: "PTE_ADDR (pte_of user0 dir0 0) = V2P page0"
    using PTE_ADDR_or[OF _ _ flags, of "V2P page0"] V2P_page[OF user0_pages_ok(2,4)] by (simp add: user0_facts)
  then show "upage user0 dir0 0 = page0" "PTE_ADDR (pte_of user0 dir0 0) \<noteq> 0"
    using V2P_page[OF user0_pages_ok(2,4)] by (simp_all add: upage_def) (simp add: page0_def V2P_def)
  show "pte_of user0 dir0 0 AND PTE_P \<noteq> 0" "pte_of user0 dir0 0 AND PTE_U \<noteq> 0"
    by (simp_all add: user0_facts page0_def V2P_def PTE_P_def PTE_W_def PTE_U_def)
qed

lemma user0_wf: "user_wf {0} (kend phys0) user0 dir0"
  using user0_facts(1,2) user0_upage user0_pages_ok(2)
  by (simp add: user_wf_def mapped_wf_def) (simp add: page0_def tab0_def dir0_def)

lemma user0_releasable: "releasable {0} [0x80200000, 0x80201000] dir0 (vm0\<lparr>pmem := user0\<rparr>)"
proof -
  have k: "kmem_inv [0x80200000, 0x80201000] vm0" "kend vm0 = kend phys0" "pmem vm0 = pool0"
    using vm0_state by (simp_all add: pt_state_def vm0_def)
  have "kmem_inv [0x80200000, 0x80201000] (vm0\<lparr>pmem := user0\<rparr>)"
  proof (rule kmem_inv_frame[OF k(1)])
    fix p x assume "p \<in> set [0x80200000, 0x80201000]" "in_page p x"
    then show "user0 x = pmem vm0 x" unfolding k(3)
      by (intro user0_facts(4)) (auto simp: in_page_def tab0_def dir0_def)
  qed
  then have "pt_state [0x80200000, 0x80201000] dir0 (vm0\<lparr>pmem := user0\<rparr>)"
    using user0_facts(1,2) user0_pages_ok(4) k(2) by (simp add: pt_state_def) (simp add: tab0_def dir0_def)
  then show ?thesis
    using user0_upage user0_facts(2) user0_pages_ok(2) k(2)
    by (simp add: releasable_def) (simp add: page0_def tab0_def dir0_def inj_on_def)
qed

section \<open>Properties\<close>

text \<open>
  C8: \<^verbatim>\<open>mappages\<close> maps exactly the range asked for.  From a well-formed directory with enough free
  pages and none of the range mapped, it returns 0; afterwards each page of the range is present and
  refers to its physical page with the permissions given, every other entry is as it was, the
  directory is well-formed and shares no page with the free list, and no memory outside the page
  tables has changed.
\<close>

theorem mappages_correct:
  assumes "pt_state xs d s" "0 < sz" "va + sz \<le> 2 ^ 32"
    and "(va + sz - 1) div PGSIZE - va div PGSIZE < length xs"
    and "\<forall>v. va div PGSIZE \<le> v div PGSIZE \<and> v div PGSIZE \<le> (va + sz - 1) div PGSIZE \<longrightarrow> \<not> present (pte_of (pmem s) d v)"
  shows "\<exists>t ys. mappages d va sz pa f s = Ret 0 t \<and> pt_state ys d t \<and> set ys \<subseteq> set xs \<and> pt_frame d s t
    \<and> (\<forall>v<2 ^ 32. pte_of (pmem t) d v =
         (if va div PGSIZE \<le> v div PGSIZE \<and> v div PGSIZE \<le> (va + sz - 1) div PGSIZE
          then of_nat (pa + (v div PGSIZE - va div PGSIZE) * PGSIZE) OR f OR PTE_P
          else pte_of (pmem s) d v))"
proof -
  define a l where "a = va div PGSIZE" and "l = (va + sz - 1) div PGSIZE"
  have al: "a \<le> l" "l < 2 ^ 20" using assms(2,3) unfolding a_def l_def by (auto intro!: div_le_mono less_mult_imp_div_less)
  have e: "(va + sz + (2 ^ 32 - 1)) mod 2 ^ 32 = va + sz - 1"
  proof -
    have "va + sz + (2 ^ 32 - 1) = (va + sz - 1) + 2 ^ 32" using assms(2) by simp
    then show ?thesis using assms(2,3) by (simp only: mod_add_self2) simp
  qed
  have n: "((l * PGSIZE + 2 ^ 32 - a * PGSIZE) mod 2 ^ 32) div PGSIZE = l - a"
  proof -
    have "l * PGSIZE + 2 ^ 32 - a * PGSIZE = (l - a) * PGSIZE + 2 ^ 32"
      using al by (simp add: diff_mult_distrib)
    then show ?thesis using al by simp
  qed
  let ?g = "\<lambda>i. map_page d ((a * PGSIZE + i * PGSIZE) mod 2 ^ 32) (pa + i * PGSIZE) f"
  have run: "mappages d va sz pa f s = kbind (kfor_ret [0..<l - a + 1] ?g) (\<lambda>r. kret (case r of None \<Rightarrow> 0 | Some x \<Rightarrow> x)) s"
    unfolding mappages_def PGROUNDDOWN_def e Let_def a_def[symmetric] l_def[symmetric] n ..
  have len: "length [0..<l - a + 1] \<le> length xs" using assms(4) unfolding a_def l_def by simp
  have free: "a * PGSIZE + i * PGSIZE < 2 ^ 32 \<and> \<not> present (pte_of (pmem s) d (a * PGSIZE + i * PGSIZE))"
    if "i \<in> set [0..<l - a + 1]" for i
  proof -
    have i: "a + i \<le> l" using that al by auto
    moreover have "(a * PGSIZE + i * PGSIZE) div PGSIZE = a + i" by simp
    ultimately show ?thesis using assms(5)[rule_format, of "a * PGSIZE + i * PGSIZE"] al unfolding a_def[symmetric] l_def[symmetric] by simp
  qed
  have am: "a * PGSIZE mod PGSIZE = 0" and dv: "a * PGSIZE div PGSIZE = a" by simp_all
  obtain t ys where t: "kfor_ret [0..<l - a + 1] ?g s = Ret None t" "pt_state ys d t" "set ys \<subseteq> set xs" "pt_frame d s t"
    "\<And>v. v < 2 ^ 32 \<Longrightarrow> pte_of (pmem t) d v =
         (if a \<le> v div PGSIZE \<and> v div PGSIZE - a \<in> set [0..<l - a + 1]
          then of_nat (pa + (v div PGSIZE - a) * PGSIZE) OR f OR PTE_P else pte_of (pmem s) d v)"
    using map_loop[OF assms(1) len distinct_upt free am, of pa f] unfolding dv by blast
  have "v div PGSIZE - a \<in> set [0..<l - a + 1] \<longleftrightarrow> v div PGSIZE \<le> l" if "a \<le> v div PGSIZE" for v
    using that al by auto
  then show ?thesis
    using t run unfolding a_def[symmetric] l_def[symmetric]
    by (intro exI[of _ t] exI[of _ ys]) (auto simp: kdefs)
qed

theorem mappages_correct_witness:
  "\<exists>t. mappages dir0 0x1000 0x1800 0x300000 (PTE_W OR PTE_U) vm0 = Ret 0 t
     \<and> pte_of (pmem t) dir0 0x2004 = of_nat 0x301000 OR (PTE_W OR PTE_U) OR PTE_P"
proof -
  have "\<not> present (pte_of (pmem vm0) dir0 v)" for v by (simp add: vm0_def pt_wf_pool0)
  then obtain t where t: "mappages dir0 0x1000 0x1800 0x300000 (PTE_W OR PTE_U) vm0 = Ret 0 t"
    "\<forall>v<2 ^ 32. pte_of (pmem t) dir0 v =
       (if 0x1000 div PGSIZE \<le> v div PGSIZE \<and> v div PGSIZE \<le> (0x1000 + 0x1800 - 1) div PGSIZE
        then of_nat (0x300000 + (v div PGSIZE - 0x1000 div PGSIZE) * PGSIZE) OR (PTE_W OR PTE_U) OR PTE_P
        else pte_of (pmem vm0) dir0 v)"
    using mappages_correct[OF vm0_state, of "0x1800" "0x1000" "0x300000" "PTE_W OR PTE_U"] by auto
  show ?thesis using t(1) t(2)[rule_format, of "0x2004"] by (intro exI[of _ t]) simp
qed

text \<open>
  C18: \<^verbatim>\<open>deallocuvm\<close> shrinks an address space of at most \<^verbatim>\<open>KERNBASE\<close> bytes: its loop ends, it returns the
  new size, the free list gains exactly the pages that were mapped between the two sizes, each once,
  their entries are cleared and all others kept, and no other memory is touched.
\<close>

theorem deallocuvm_correct:
  assumes "newsz < oldsz" "oldsz \<le> KERNBASE"
    and "releasable {PGROUNDUP newsz div PGSIZE..<(oldsz + PGSIZE - 1) div PGSIZE} xs d s"
  shows "\<exists>t ys. deallocuvm d oldsz newsz s = Ret newsz t
    \<and> released {PGROUNDUP newsz div PGSIZE..<(oldsz + PGSIZE - 1) div PGSIZE} xs d s t ys"
proof -
  let ?n = "PGROUNDUP newsz div PGSIZE"
  have n: "PGROUNDUP newsz = ?n * PGSIZE" by (simp add: PGROUNDUP_def)
  have "oldsz \<le> ?n * PGSIZE + 2 ^ 20 * PGSIZE" using assms(2) by simp
  then obtain t ys where "dealloc_loop (2 ^ 20) d (?n * PGSIZE) oldsz s = Ret () t"
      "released {?n..<(oldsz + PGSIZE - 1) div PGSIZE} xs d s t ys"
    using dealloc_loop_ok[OF assms(3,2) refl] by blast
  then show ?thesis
    using assms(1) n unfolding deallocuvm_def by (intro exI[of _ t] exI[of _ ys]) (simp add: kthen_apply)
qed

theorem deallocuvm_correct_witness:
  "\<exists>t ys. deallocuvm dir0 0x1000 0 (vm0\<lparr>pmem := user0\<rparr>) = Ret 0 t \<and> page0 \<in> set ys"
proof -
  have one: "{PGROUNDUP 0 div PGSIZE..<(0x1000 + PGSIZE - 1) div PGSIZE} = {0}" by (auto simp: PGROUNDUP_def)
  have "upages user0 dir0 {0} = {page0}"
    using user0_upage by (auto simp: upages_def present_def)
  then show ?thesis
    using deallocuvm_correct[of 0 "0x1000" "[0x80200000, 0x80201000]" dir0 "vm0\<lparr>pmem := user0\<rparr>"] user0_releasable
    unfolding one by (auto simp: released_def)
qed

text \<open>
  C19: \<^verbatim>\<open>copyout\<close> to pages mapped for the user returns 0 and leaves exactly the given bytes at \<^verbatim>\<open>va\<close> as the
  user sees them, across page boundaries; every other user byte is as before.
\<close>

theorem copyout_correct:
  assumes "user_wf N e (pmem s) d" "va + length bs \<le> 2 ^ 32"
    and "\<forall>v. va \<le> v \<and> v < va + length bs \<longrightarrow> v div PGSIZE \<in> N"
  shows "\<exists>m. copyout d va bs s = Ret 0 (s\<lparr>pmem := m\<rparr>)
    \<and> (\<forall>v. v div PGSIZE \<in> N \<longrightarrow>
         ubyte m d v = (if va \<le> v \<and> v < va + length bs then bs ! (v - va) else ubyte (pmem s) d v))"
  using copyout_ok[OF assms(1,2)] assms(3) by blast

theorem copyout_correct_witness:
  "\<exists>m. copyout dir0 0xFF0 [104, 105] (vm0\<lparr>pmem := user0\<rparr>) = Ret 0 (vm0\<lparr>pmem := m\<rparr>) \<and> ubyte m dir0 0xFF1 = 105"
proof -
  have "user_wf {0} (kend phys0) (pmem (vm0\<lparr>pmem := user0\<rparr>)) dir0" using user0_wf by simp
  then obtain m where m: "copyout dir0 0xFF0 [104, 105] (vm0\<lparr>pmem := user0\<rparr>) = Ret 0 (vm0\<lparr>pmem := m\<rparr>)"
    "\<forall>v. v div PGSIZE \<in> {0} \<longrightarrow> ubyte m dir0 v =
       (if 0xFF0 \<le> v \<and> v < 0xFF0 + length [104, 105 :: byte] then [104, 105] ! (v - 0xFF0) else ubyte user0 dir0 v)"
    using copyout_correct[of "{0}" "kend phys0" "vm0\<lparr>pmem := user0\<rparr>" dir0 "0xFF0" "[104, 105]"] by auto
  show ?thesis using m(1) m(2)[rule_format, of "0xFF1"] by (intro exI[of _ m]) simp
qed

text \<open>
  An address whose page table is absent makes \<^verbatim>\<open>uva2ka\<close> follow the null pointer that \<^verbatim>\<open>walkpgdir\<close>
  returned.
\<close>

lemma uva2ka_no_table: "\<not> present (pde_at (pmem s) d (PDX v)) \<Longrightarrow> uva2ka d v s = Fault"
  by (simp add: uva2ka_def kdefs walkpgdir_absent)

end
