(* ===== verification/Proc.thy ===== *)
theory Proc
  imports Vm
begin

text \<open>
  Processes and scheduling (\<^verbatim>\<open>proc.c\<close>, \<^verbatim>\<open>proc.h\<close>, the trap frame of \<^verbatim>\<open>x86.h\<close>, and \<^verbatim>\<open>switchuvm\<close> of \<^verbatim>\<open>vm.c\<close>).
  A process is an index into the table; a pointer that may be null is an option.  The trap frame and
  the saved context of a process, which the code keeps on its kernel stack, are fields of its entry.
  The operations that touch files or inodes (\<^verbatim>\<open>userinit\<close>, \<^verbatim>\<open>fork\<close>, \<^verbatim>\<open>exit\<close>, \<^verbatim>\<open>forkret\<close>) are modelled with
  those components.  Code after a context switch is a definition of its own (\<open>_resume\<close>): the run of a
  routine that gives up the CPU ends in \<open>Blocked\<close>.
\<close>

datatype procstate = UNUSED | EMBRYO | SLEEPING | RUNNABLE | RUNNING | ZOMBIE

text \<open>The objects whose addresses the kernel uses as sleep channels.\<close>

datatype chan =
    ChanProc nat | ChanTicks | ChanLog | ChanPipeR nat | ChanPipeW nat | ChanBuf nat | ChanSleep slid
  | ChanInput

record trapframe =
  tf_edi :: u32
  tf_esi :: u32
  tf_ebp :: u32
  tf_oesp :: u32
  tf_ebx :: u32
  tf_edx :: u32
  tf_ecx :: u32
  tf_eax :: u32
  tf_gs :: u16
  tf_fs :: u16
  tf_es :: u16
  tf_ds :: u16
  tf_trapno :: u32
  tf_err :: u32
  tf_eip :: u32
  tf_cs :: u16
  tf_eflags :: u32
  tf_esp :: u32
  tf_ss :: u16

record kcontext =
  c_edi :: u32
  c_esi :: u32
  c_ebx :: u32
  c_ebp :: u32
  c_eip :: u32

record proc =
  p_sz :: nat
  p_pgdir :: nat
  p_kstack :: nat
  p_state :: procstate
  p_pid :: int
  p_parent :: "nat option"
  p_tf :: trapframe
  p_retaddr :: u32
  p_context :: kcontext
  p_chan :: "chan option"
  p_killed :: bool
  p_ofile :: "nat option list"
  p_cwd :: "nat option"
  p_name :: "byte list"
  p_priority :: int
  p_start_ticks :: u32
  p_uid :: u32
  p_gid :: u32

record kpr = kvm +
  procs :: "proc list"
  nextpid :: int
  initproc :: "nat option"
  ticks :: u32
  forkret_addr :: u32
  trapret_addr :: u32

abbreviation "NPROC \<equiv> (64 :: nat)"
abbreviation "KSTACKSIZE \<equiv> (4096 :: nat)"
abbreviation "NOFILE \<equiv> (16 :: nat)"

definition zero_context :: kcontext where
  "zero_context = \<lparr>c_edi = 0, c_esi = 0, c_ebx = 0, c_ebp = 0, c_eip = 0\<rparr>"

definition upd_proc :: "nat \<Rightarrow> (proc \<Rightarrow> proc) \<Rightarrow> 'z kpr_scheme \<Rightarrow> 'z kpr_scheme" where
  "upd_proc i f s = s\<lparr>procs := (procs s)[i := f (procs s ! i)]\<rparr>"

definition the_proc :: "nat \<Rightarrow> ('z kpr_scheme, proc) K" where
  "the_proc i = kget (\<lambda>s. procs s ! i)"

definition pinit :: "('z kpr_scheme, unit) K" where
  "pinit = onhw (initlock Lptable)"

definition myproc :: "('z kpr_scheme, nat option) K" where
  "myproc =
     onhw (kthen pushcli (
       kbind mycpu (\<lambda>c.
       kbind (kget (\<lambda>h. cproc (cpus h ! c))) (\<lambda>p.
       kthen popcli (kret p)))))"

text \<open>The task state segment of CPU \<open>c\<close> for the kernel stack \<open>k\<close>.\<close>

definition set_tss :: "nat \<Rightarrow> nat \<Rightarrow> 'z kvm_scheme \<Rightarrow> 'z kvm_scheme" where
  "set_tss c k s =
     s\<lparr>gdt := (gdt s)(c := (gdt s c)(5 := (SEG16 9 (of_nat (ts_addr s c)) 103 0)\<lparr>sd_s := 0\<rparr>)),
       ts_ss0 := (ts_ss0 s)(c := 16),
       ts_esp0 := (ts_esp0 s)(c := k + KSTACKSIZE),
       ts_iomb := (ts_iomb s)(c := 0xFFFF)\<rparr>"

definition switchuvm :: "nat option \<Rightarrow> ('z kpr_scheme, unit) K" where
  "switchuvm q =
     (case q of
        None \<Rightarrow> kpanic ''switchuvm: no process''
      | Some i \<Rightarrow>
          kbind (the_proc i) (\<lambda>p.
          if p_kstack p = 0 then kpanic ''switchuvm: no kstack''
          else if p_pgdir p = 0 then kpanic ''switchuvm: no pgdir''
          else
            kthen (onhw pushcli) (
            kbind (onhw mycpu) (\<lambda>c.
            kthen (kmod (set_tss c (p_kstack p))) (
            kthen (lcr3 (V2P (p_pgdir p))) (onhw popcli))))))"

section \<open>Creating processes\<close>

definition allocproc :: "('z kpr_scheme, nat option) K" where
  "allocproc =
     kthen (kacquire Lptable) (
     kbind (kget (\<lambda>s. find_idx (\<lambda>p. p_state p = UNUSED) (procs s))) (\<lambda>found.
     case found of
       None \<Rightarrow> kthen (krelease Lptable) (kret None)
     | Some i \<Rightarrow>
         kthen (kmod (upd_proc i (\<lambda>p. p\<lparr>p_state := EMBRYO\<rparr>))) (
         kthen (kmod (\<lambda>s. (upd_proc i (\<lambda>p. p\<lparr>p_pid := nextpid s\<rparr>) s)\<lparr>nextpid := int32 (nextpid s + 1)\<rparr>)) (
         kthen (kmod (upd_proc i (\<lambda>p. p\<lparr>p_priority := 10\<rparr>))) (
         kthen (krelease Lptable) (
         kbind kalloc (\<lambda>k.
         kthen (kmod (upd_proc i (\<lambda>p. p\<lparr>p_kstack := k\<rparr>)))
           (if k = 0
            then kthen (kmod (upd_proc i (\<lambda>p. p\<lparr>p_state := UNUSED\<rparr>))) (kret None)
            else
              kthen (kmod (\<lambda>s. upd_proc i (\<lambda>p. p\<lparr>p_retaddr := trapret_addr s\<rparr>) s)) (
              kthen (kmod (\<lambda>s. upd_proc i (\<lambda>p. p\<lparr>p_context := zero_context\<lparr>c_eip := forkret_addr s\<rparr>\<rparr>) s)) (
              kthen (kmod (\<lambda>s. upd_proc i (\<lambda>p. p\<lparr>p_start_ticks := ticks s\<rparr>) s))
                (kret (Some i))))))))))))"

definition growproc :: "int \<Rightarrow> ('z kpr_scheme, int) K" where
  "growproc n =
     kbind myproc (\<lambda>cur. kderef cur (\<lambda>i.
     kbind (the_proc i) (\<lambda>p.
     kbind
       (if n > 0 then
          kbind (allocuvm (p_pgdir p) (p_sz p) (nat ((int (p_sz p) + n) mod 2 ^ 32)))
            (\<lambda>r. kret (if r = 0 then None else Some r))
        else if n < 0 then
          kbind (deallocuvm (p_pgdir p) (p_sz p) (nat ((int (p_sz p) + n) mod 2 ^ 32)))
            (\<lambda>r. kret (if r = 0 then None else Some r))
        else kret (Some (p_sz p)))
       (\<lambda>r. case r of
          None \<Rightarrow> kret (-1)
        | Some sz \<Rightarrow>
            kthen (kmod (upd_proc i (\<lambda>p. p\<lparr>p_sz := sz\<rparr>)))
              (kthen (switchuvm cur) (kret 0))))))"

section \<open>Giving up the CPU\<close>

definition sched :: "('z kpr_scheme, unit) K" where
  "sched =
     kbind myproc (\<lambda>p.
     kbind (onhw (holding Lptable)) (\<lambda>h.
     if \<not> h then kpanic ''sched ptable.lock''
     else
       kbind (onhw mycpu) (\<lambda>c.
       kbind (kget (\<lambda>s. ncli (cpus (khw s) ! c))) (\<lambda>n.
       if n \<noteq> 1 then kpanic ''sched locks''
       else
         kderef p (\<lambda>i.
         kbind (the_proc i) (\<lambda>q.
         if p_state q = RUNNING then kpanic ''sched running''
         else
           kbind (kget (\<lambda>s. readeflags_if (khw s))) (\<lambda>f.
           if f then kpanic ''sched interruptible'' else (\<lambda>s. Blocked s))))))))"

definition sched_resume :: "bool \<Rightarrow> ('z kpr_scheme, unit) K" where
  "sched_resume ie =
     kbind (onhw mycpu) (\<lambda>c. onhw (kmod (upd_cpu c (\<lambda>x. x\<lparr>intena := ie\<rparr>))))"

definition yield :: "('z kpr_scheme, unit) K" where
  "yield =
     kthen (kacquire Lptable) (
     kbind myproc (\<lambda>p. kderef p (\<lambda>i.
     kthen (kmod (upd_proc i (\<lambda>p. p\<lparr>p_state := RUNNABLE\<rparr>)))
       (kthen sched (krelease Lptable)))))"

definition yield_resume :: "bool \<Rightarrow> ('z kpr_scheme, unit) K" where
  "yield_resume ie = kthen (sched_resume ie) (krelease Lptable)"

text \<open>
  Up to the context switch, \<^verbatim>\<open>sleep\<close> is the sequence of these steps; between two of them other CPUs may run.  The same
  holds for \<^verbatim>\<open>wakeup\<close>.
\<close>

definition sleep_steps :: "chan option \<Rightarrow> nat \<Rightarrow> lockid \<Rightarrow> ('z kpr_scheme, unit) K list" where
  "sleep_steps ch i l =
     (if l \<noteq> Lptable then [kacquire Lptable, krelease l] else [])
     @ [kmod (upd_proc i (\<lambda>p. p\<lparr>p_chan := ch\<rparr>)), kmod (upd_proc i (\<lambda>p. p\<lparr>p_state := SLEEPING\<rparr>)), sched]"

definition sleep :: "chan option \<Rightarrow> lockid option \<Rightarrow> ('z kpr_scheme, unit) K" where
  "sleep ch lk =
     kbind myproc (\<lambda>p.
     case p of
       None \<Rightarrow> kpanic ''sleep''
     | Some i \<Rightarrow>
         (case lk of
            None \<Rightarrow> kpanic ''sleep without lk''
          | Some l \<Rightarrow>
              kthen (kseq (sleep_steps ch i l)) (
              kthen (kmod (upd_proc i (\<lambda>p. p\<lparr>p_chan := None\<rparr>)))
                (kwhen (l \<noteq> Lptable) (kthen (krelease Lptable) (kacquire l))))))"

definition sleep_resume :: "bool \<Rightarrow> nat \<Rightarrow> lockid \<Rightarrow> ('z kpr_scheme, unit) K" where
  "sleep_resume ie i l =
     kthen (sched_resume ie) (
     kthen (kmod (upd_proc i (\<lambda>p. p\<lparr>p_chan := None\<rparr>)))
       (kwhen (l \<noteq> Lptable) (kthen (krelease Lptable) (kacquire l))))"

definition wakeup1 :: "chan option \<Rightarrow> ('z kpr_scheme, unit) K" where
  "wakeup1 ch =
     kmod (\<lambda>s. s\<lparr>procs := map (\<lambda>p. if p_state p = SLEEPING \<and> p_chan p = ch then p\<lparr>p_state := RUNNABLE\<rparr> else p) (procs s)\<rparr>)"

definition wakeup_steps :: "chan option \<Rightarrow> ('z kpr_scheme, unit) K list" where
  "wakeup_steps ch = [kacquire Lptable, wakeup1 ch, krelease Lptable]"

definition wakeup :: "chan option \<Rightarrow> ('z kpr_scheme, unit) K" where
  "wakeup ch = kseq (wakeup_steps ch)"

section \<open>Waiting and killing\<close>

definition reap :: "nat \<Rightarrow> ('z kpr_scheme, int) K" where
  "reap i =
     kbind (the_proc i) (\<lambda>p.
     kthen (kfree (p_kstack p)) (
     kthen (kmod (upd_proc i (\<lambda>p. p\<lparr>p_kstack := 0\<rparr>))) (
     kthen (freevm (p_pgdir p)) (
     kthen (kmod (upd_proc i (\<lambda>p. p\<lparr>p_pid := 0, p_parent := None, p_name := (p_name p)[0 := 0],
         p_killed := False, p_state := UNUSED\<rparr>))) (
     kthen (krelease Lptable) (kret (p_pid p)))))))"

definition wait_loop :: "nat \<Rightarrow> ('z kpr_scheme, int) K" where
  "wait_loop cur =
     kbind (kget procs) (\<lambda>ps.
     case find_idx (\<lambda>p. p_parent p = Some cur \<and> p_state p = ZOMBIE) ps of
       Some i \<Rightarrow> reap i
     | None \<Rightarrow>
         if \<not> (\<exists>p\<in>set ps. p_parent p = Some cur) \<or> p_killed (ps ! cur)
         then kthen (krelease Lptable) (kret (-1))
         else kthen (sleep (Some (ChanProc cur)) (Some Lptable)) (kret 0))"

definition wait :: "('z kpr_scheme, int) K" where
  "wait =
     kbind myproc (\<lambda>cur. kderef cur (\<lambda>i.
     kthen (kacquire Lptable) (wait_loop i)))"

definition wait_resume :: "bool \<Rightarrow> nat \<Rightarrow> ('z kpr_scheme, int) K" where
  "wait_resume ie i = kthen (sleep_resume ie i Lptable) (wait_loop i)"

definition kill :: "int \<Rightarrow> ('z kpr_scheme, int) K" where
  "kill pid =
     kthen (kacquire Lptable) (
     kbind (kget (\<lambda>s. find_idx (\<lambda>p. p_pid p = pid) (procs s))) (\<lambda>found.
     case found of
       Some i \<Rightarrow>
         kthen (kmod (upd_proc i (\<lambda>p. p\<lparr>p_killed := True\<rparr>))) (
         kthen (kmod (upd_proc i (\<lambda>p. if p_state p = SLEEPING then p\<lparr>p_state := RUNNABLE\<rparr> else p)))
           (kthen (krelease Lptable) (kret 0)))
     | None \<Rightarrow> kthen (krelease Lptable) (kret (-1))))"

text \<open>
  The end of \<^verbatim>\<open>exit\<close>, from taking the table lock on: wake the parent, hand the children to \<^verbatim>\<open>init\<close>, become
  a zombie and leave for good.
\<close>

definition adopt :: "nat \<Rightarrow> nat \<Rightarrow> ('z kpr_scheme, unit) K" where
  "adopt me i =
     kbind (the_proc i) (\<lambda>p.
     kwhen (p_parent p = Some me)
       (kbind (kget initproc) (\<lambda>ip.
        kthen (kmod (upd_proc i (\<lambda>p. p\<lparr>p_parent := ip\<rparr>)))
          (kwhen (p_state p = ZOMBIE) (wakeup1 (map_option ChanProc ip))))))"

definition exit_sched :: "nat \<Rightarrow> ('z kpr_scheme, unit) K" where
  "exit_sched me =
     kthen (kacquire Lptable) (
     kbind (the_proc me) (\<lambda>p.
     kthen (wakeup1 (map_option ChanProc (p_parent p))) (
     kthen (kfor [0..<NPROC] (adopt me)) (
     kthen (kmod (upd_proc me (\<lambda>p. p\<lparr>p_state := ZOMBIE\<rparr>))) (
     kthen sched (kpanic ''zombie exit''))))))"

section \<open>The scheduler\<close>

text \<open>The inner loop: the runnable process of smallest priority value, starting from \<open>h\<close>.\<close>

definition better :: "proc list \<Rightarrow> nat \<Rightarrow> nat \<Rightarrow> nat" where
  "better ps h j =
     (if p_state (ps ! j) \<noteq> RUNNABLE then h else if p_priority (ps ! h) > p_priority (ps ! j) then j else h)"

definition choose_proc :: "proc list \<Rightarrow> nat \<Rightarrow> nat" where
  "choose_proc ps i = foldl (better ps) i [0..<length ps]"

definition set_cpu_proc :: "nat option \<Rightarrow> ('z kpr_scheme, unit) K" where
  "set_cpu_proc p = kbind (onhw mycpu) (\<lambda>c. onhw (kmod (upd_cpu c (\<lambda>x. x\<lparr>cproc := p\<rparr>))))"

text \<open>
  One turn of the table scan from index \<open>k\<close>, up to the context switch: \<open>Some h\<close> when process \<open>h\<close> has
  been switched to, \<open>None\<close> when the scan has ended and the lock is released.
\<close>

definition scheduler_scan :: "nat \<Rightarrow> ('z kpr_scheme, nat option) K" where
  "scheduler_scan k =
     kbind (kget procs) (\<lambda>ps.
     case find_idx (\<lambda>p. p_state p = RUNNABLE) (drop k ps) of
       None \<Rightarrow> kthen (krelease Lptable) (kret None)
     | Some j \<Rightarrow>
         (let h = choose_proc ps (k + j) in
          kthen (set_cpu_proc (Some h)) (
          kthen (switchuvm (Some h)) (
          kthen (kmod (upd_proc h (\<lambda>p. p\<lparr>p_state := RUNNING\<rparr>)))
            (kret (Some h))))))"

definition scheduler_begin :: "('z kpr_scheme, nat option) K" where
  "scheduler_begin = kthen (onhw sti) (kthen (kacquire Lptable) (scheduler_scan 0))"

text \<open>Back from process \<open>h\<close>: the scan goes on behind it.\<close>

definition scheduler_return :: "nat \<Rightarrow> ('z kpr_scheme, nat option) K" where
  "scheduler_return h = kthen switchkvm (kthen (set_cpu_proc None) (scheduler_scan (h + 1)))"

definition scheduler :: "('z kpr_scheme, nat option) K" where
  "scheduler = kthen (set_cpu_proc None) scheduler_begin"

section \<open>Listings and identifiers\<close>

text \<open>Format strings are written with \<^verbatim>\<open>^n\<close> and \<^verbatim>\<open>^t\<close> for the C escapes of newline and tab.\<close>

fun unesc :: "string \<Rightarrow> string" where
  "unesc [] = []"
| "unesc [c] = [c]"
| "unesc (c # d # cs) =
     (if c = CHR ''^'' \<and> d = CHR ''n'' then CHR 0x0A # unesc cs
      else if c = CHR ''^'' \<and> d = CHR ''t'' then CHR 0x09 # unesc cs
      else c # unesc (d # cs))"

definition print :: "string \<Rightarrow> carg list \<Rightarrow> ('z ksys_scheme, unit) K" where
  "print fmt args = cprintf (Some (bytes_of (unesc fmt))) args"

definition int_arg :: "int \<Rightarrow> carg" where
  "int_arg n = ANum (of_int n)"

text \<open>\<^verbatim>\<open>getcallerpcs\<close>: follow the saved frame pointers from \<^verbatim>\<open>v\<close>, at most ten of them.\<close>

fun caller_pcs :: "memory \<Rightarrow> nat \<Rightarrow> nat \<Rightarrow> u32 list" where
  "caller_pcs m ebp 0 = []"
| "caller_pcs m ebp (Suc n) =
     (if ebp = 0 \<or> ebp < KERNBASE \<or> ebp = 0xFFFFFFFF then replicate (Suc n) 0
      else load4 m (ebp + 4) # caller_pcs m (unat (load4 m ebp)) n)"

definition getcallerpcs :: "memory \<Rightarrow> nat \<Rightarrow> u32 list" where
  "getcallerpcs m v = caller_pcs m ((v + 2 ^ 32 - 8) mod 2 ^ 32) 10"

definition state_name :: "procstate \<Rightarrow> string" where
  "state_name st =
     (case st of UNUSED \<Rightarrow> ''unused'' | EMBRYO \<Rightarrow> ''embryo'' | SLEEPING \<Rightarrow> ''sleep '' | RUNNABLE \<Rightarrow> ''runble''
      | RUNNING \<Rightarrow> ''run   '' | ZOMBIE \<Rightarrow> ''zombie'')"

definition parent_pid :: "proc \<Rightarrow> ('z kpr_scheme, int) K" where
  "parent_pid p = kderef (p_parent p) (\<lambda>j. kbind (the_proc j) (\<lambda>q. kret (p_pid q)))"

definition procdump_line :: "nat \<Rightarrow> ('z kpr_scheme, unit) K" where
  "procdump_line i =
     kbind (the_proc i) (\<lambda>p.
     if p_state p = UNUSED then kret ()
     else
       kbind (kget ticks) (\<lambda>now.
       let elapsed = now - p_start_ticks p in
       kbind (if p_pid p \<le> 1 then kret (p_pid p) else parent_pid p) (\<lambda>ppid.
       kthen (print ''%d^t%s^t%s^t%d^t%d^t%d^t%d.%d seconds^t%d bytes^t''
           [int_arg (p_pid p), AStr (bytes_of (state_name (p_state p))), AStr (p_name p), ANum (p_uid p), ANum (p_gid p),
            int_arg ppid, ANum (elapsed div 1000), ANum (elapsed mod 1000), ANum (of_nat (p_sz p))]) (
       kthen (kwhen (p_state p = SLEEPING)
           (kbind (kget (\<lambda>s. getcallerpcs (pmem s) (unat (c_ebp (p_context p)) + 8))) (\<lambda>pc.
            kfor (takeWhile (\<lambda>x. x \<noteq> 0) pc) (\<lambda>x. print '' %p'' [ANum x]))))
         (print ''^n'' [])))))"

definition procdump :: "('z kpr_scheme, unit) K" where
  "procdump =
     kthen (print ''^nPID^tState^tName^tUID ^tGID ^tPPID ^tElapsed^t^tSize^t^t PCs^n'' [])
       (kfor [0..<NPROC] procdump_line)"

definition cps_line :: "nat \<Rightarrow> ('z kpr_scheme, unit) K" where
  "cps_line i =
     kbind (the_proc i) (\<lambda>p.
     kbind (kget ticks) (\<lambda>now.
     let timechange = now - p_start_ticks p;
         show_as = (\<lambda>head nm.
           kthen (print head [AStr (p_name p), int_arg (p_pid p)]) (
           kthen (print nm []) (
           kthen (print '' %d ^t %d ^t'' [ANum (p_uid p), ANum (p_gid p)]) (
           kthen (if p_pid p \<le> 1 then print '' %d^t'' [int_arg (p_pid p)]
                  else kbind (parent_pid p) (\<lambda>ppid. print '' %d ^t'' [int_arg ppid]))
             (print ''^t %d.%d ^t^t %d ^t %d ^n''
               [ANum (timechange div 1000), ANum (timechange mod 1000), ANum (of_nat (p_sz p)),
                int_arg (p_priority p)])))))
     in case p_state p of
          SLEEPING \<Rightarrow> show_as ''%s ^t %d ^t'' '' SLEEPING ^t''
        | RUNNING \<Rightarrow> show_as ''%s ^t %d  ^t'' '' RUNNING ^t''
        | RUNNABLE \<Rightarrow> show_as ''%s ^t %d  ^t'' '' RUNNABLE ^t''
        | _ \<Rightarrow> kret ()))"

definition cps :: "('z kpr_scheme, int) K" where
  "cps =
     kthen (onhw sti) (
     kthen (kacquire Lptable) (
     kthen (print ''Name ^t Pid ^t State ^t ^t UID^t GID^tPPID^t ^t Elapsed ^t Size ^t priority ^n'' []) (
     kthen (kfor [0..<NPROC] cps_line) (
     kthen (krelease Lptable) (kret 22)))))"

definition nps :: "('z kpr_scheme, int) K" where
  "nps =
     kthen (onhw sti) (
     kthen (kacquire Lptable) (
     kbind (kget procs) (\<lambda>ps.
     kthen (print ''Total SLEEPING processes: %d^n'' [int_arg (int (length (filter (\<lambda>p. p_state p = SLEEPING) ps)))]) (
     kthen (print ''Total RUNNING processes: %d^n'' [int_arg (int (length (filter (\<lambda>p. p_state p = RUNNING) ps)))]) (
     kthen (krelease Lptable) (kret 22))))))"

definition chpr :: "int \<Rightarrow> int \<Rightarrow> ('z kpr_scheme, int) K" where
  "chpr pid priority =
     kthen (kacquire Lptable) (
     kbind (kget (\<lambda>s. find_idx (\<lambda>p. p_pid p = pid) (procs s))) (\<lambda>found.
     kthen (case found of None \<Rightarrow> kret () | Some i \<Rightarrow> kmod (upd_proc i (\<lambda>p. p\<lparr>p_priority := priority\<rparr>)))
       (kthen (krelease Lptable) (kret pid))))"

definition getuid :: "('z kpr_scheme, u32) K" where
  "getuid = kbind myproc (\<lambda>c. kderef c (\<lambda>i. kbind (the_proc i) (\<lambda>p. kret (p_uid p))))"

definition getgid :: "('z kpr_scheme, u32) K" where
  "getgid = kbind myproc (\<lambda>c. kderef c (\<lambda>i. kbind (the_proc i) (\<lambda>p. kret (p_gid p))))"

definition getppid :: "('z kpr_scheme, int) K" where
  "getppid =
     kbind myproc (\<lambda>c. kderef c (\<lambda>i. kbind (the_proc i) (\<lambda>p.
     case p_parent p of
       Some j \<Rightarrow> kbind (the_proc j) (\<lambda>q. kret (p_pid q))
     | None \<Rightarrow> kret (p_pid p))))"

text \<open>
  The four setters share their range check; the number is unsigned, so only the upper bound can fail.
\<close>

definition id_out_of_range :: "string \<Rightarrow> u32 \<Rightarrow> ('z kpr_scheme, int) K" where
  "id_out_of_range what x =
     kthen (print (''Error: %d is out of bounds. '' @ what @ '' will not be changed.^n'') [ANum x])
       (kthen (krelease Lptable) (kret (-1)))"

definition setuid :: "u32 \<Rightarrow> ('z kpr_scheme, int) K" where
  "setuid x =
     kthen (kacquire Lptable) (
     if \<not> x \<le> 32767 then id_out_of_range ''uid'' x
     else
       kbind myproc (\<lambda>c. kderef c (\<lambda>i.
       kthen (kmod (upd_proc i (\<lambda>p. p\<lparr>p_uid := x\<rparr>)))
         (kthen (krelease Lptable) (kret (sint x))))))"

definition setgid :: "u32 \<Rightarrow> ('z kpr_scheme, int) K" where
  "setgid x =
     kthen (kacquire Lptable) (
     if \<not> x \<le> 32767 then id_out_of_range ''gid'' x
     else
       kbind myproc (\<lambda>c. kderef c (\<lambda>i.
       kthen (kmod (upd_proc i (\<lambda>p. p\<lparr>p_gid := x\<rparr>)))
         (kthen (krelease Lptable) (kret (sint x))))))"

text \<open>\<^verbatim>\<open>myproc()->parent\<close>, dereferenced.\<close>

definition my_parent :: "('z kpr_scheme, nat) K" where
  "my_parent = kbind myproc (\<lambda>c. kderef c (\<lambda>i. kbind (the_proc i) (\<lambda>p. kderef (p_parent p) kret)))"

definition suid :: "u32 \<Rightarrow> ('z kpr_scheme, int) K" where
  "suid x =
     kthen (kacquire Lptable) (
     if \<not> x \<le> 32767 then id_out_of_range ''uid'' x
     else
       kbind myproc (\<lambda>c. kderef c (\<lambda>i.
       kbind (the_proc i) (\<lambda>p. kderef (p_parent p) (\<lambda>j.
       kthen (kmod (upd_proc j (\<lambda>p. p\<lparr>p_uid := x\<rparr>))) (
       kthen (krelease Lptable) (
       kbind (kbind my_parent the_proc) (\<lambda>q. kret (sint (p_uid q))))))))))"

definition sgid :: "u32 \<Rightarrow> ('z kpr_scheme, int) K" where
  "sgid x =
     kthen (kacquire Lptable) (
     if \<not> x \<le> 32767 then id_out_of_range ''gid'' x
     else
       kbind myproc (\<lambda>c. kderef c (\<lambda>i.
       kbind (the_proc i) (\<lambda>p. kderef (p_parent p) (\<lambda>j.
       kthen (kmod (upd_proc j (\<lambda>p. p\<lparr>p_gid := x\<rparr>))) (
       kthen (krelease Lptable) (
       kbind (kbind my_parent the_proc) (\<lambda>q. kret (sint (p_gid q))))))))))"

section \<open>Net effects\<close>

text \<open>The process running on the CPU that executes the code.\<close>

definition cur :: "'z ksys_scheme \<Rightarrow> nat option" where
  "cur s = cproc (cpus (khw s) ! the (this_cpu (khw s)))"

lemma kpr_lock_simps [simp]:
  "procs (klock lk s) = procs s" "nextpid (klock lk s) = nextpid s" "initproc (klock lk s) = initproc s"
  "ticks (klock lk s) = ticks s" "forkret_addr (klock lk s) = forkret_addr s" "trapret_addr (klock lk s) = trapret_addr s"
  "procs (ksettle s) = procs s" "nextpid (ksettle s) = nextpid s" "initproc (ksettle s) = initproc s"
  "ticks (ksettle s) = ticks s" "forkret_addr (ksettle s) = forkret_addr s" "trapret_addr (ksettle s) = trapret_addr s"
  by (simp_all add: klock_def ksettle_def)

lemma kpr_upd_simps [simp]:
  "kgood (s\<lparr>procs := x\<rparr>) = kgood s" "kfree_lk lk (s\<lparr>procs := x\<rparr>) = kfree_lk lk s"
  "(klock lk s)\<lparr>procs := x\<rparr> = klock lk (s\<lparr>procs := x\<rparr>)" "(ksettle s)\<lparr>procs := x\<rparr> = ksettle (s\<lparr>procs := x\<rparr>)"
  "kgood (s\<lparr>nextpid := n\<rparr>) = kgood s" "kfree_lk lk (s\<lparr>nextpid := n\<rparr>) = kfree_lk lk s"
  "(klock lk s)\<lparr>nextpid := n\<rparr> = klock lk (s\<lparr>nextpid := n\<rparr>)" "(ksettle s)\<lparr>nextpid := n\<rparr> = ksettle (s\<lparr>nextpid := n\<rparr>)"
  by (simp_all add: kgood_def kfree_lk_def klock_def ksettle_def)

lemma cur_simps [simp]:
  "cur (s\<lparr>procs := x\<rparr>) = cur s" "cur (s\<lparr>nextpid := n\<rparr>) = cur s" "cur (s\<lparr>pmem := m\<rparr>) = cur s"
  "cur (s\<lparr>kfreelist := r\<rparr>) = cur s" "cur (s\<lparr>cout := c\<rparr>) = cur s"
  by (simp_all add: cur_def)

lemma cproc_settle [simp]: "hwgood h \<Longrightarrow> cproc (cpus (settle h) ! the (this_cpu h)) = cproc (cpus h ! the (this_cpu h))"
  by (erule hwgoodE) (simp add: settle_def upd_cpu_def)

lemma cproc_enter [simp]: "hwgood h \<Longrightarrow> cproc (cpus (enter lk h) ! the (this_cpu h)) = cproc (cpus h ! the (this_cpu h))"
  by (erule hwgoodE) (simp add: enter_def pushed_def settle_def upd_cpu_def)

lemma cur_klock [simp]: "kgood s \<Longrightarrow> cur (klock lk s) = cur s" "kgood s \<Longrightarrow> cur (ksettle s) = cur s"
  by (simp_all add: cur_def kgood_def)

lemma popcli_pushed_plain:
  assumes "hwgood h"
  shows "popcli (pushed h) = Ret () (settle h)"
proof -
  have e: "(pushed h)\<lparr>locks := locks h\<rparr> = pushed h" "(settle h)\<lparr>locks := locks h\<rparr> = settle h"
    using pushed_simps(1)[of h, symmetric] settle_simps(2)[of h, symmetric]
    by (simp_all del: pushed_simps settle_simps)
  show ?thesis using popcli_pushed[OF assms, of "locks h"] unfolding e .
qed

lemma cproc_pushed: "hwgood h \<Longrightarrow> this_cpu h = Some i \<Longrightarrow> cproc (cpus (pushed h) ! i) = cproc (cpus h ! i)"
  by (erule hwgoodE) (simp add: pushed_def settle_def upd_cpu_def)

lemma myproc_net [simp]:
  assumes "kgood s"
  shows "myproc s = Ret (cur s) (ksettle s)"
proof -
  have g: "hwgood (khw s)" using assms by (simp add: kgood_def)
  then obtain i where i: "this_cpu (khw s) = Some i" by (rule hwgoodE)
  have "mycpu (pushed (khw s)) = Ret i (pushed (khw s))" using i by (simp add: mycpu_off)
  then show ?thesis
    using g i by (simp add: myproc_def onhw_def kdefs pushcli_good popcli_pushed_plain cproc_pushed cur_def ksettle_def)
qed

lemma wakeup_net:
  "kgood s \<Longrightarrow> kfree_lk Lptable s \<Longrightarrow>
   wakeup ch s = Ret () (ksettle (s\<lparr>procs := map (\<lambda>p. if p_state p = SLEEPING \<and> p_chan p = ch then p\<lparr>p_state := RUNNABLE\<rparr> else p) (procs s)\<rparr>))"
  by (simp add: wakeup_def wakeup_steps_def wakeup1_def kdefs)

lemma kill_net:
  "kgood s \<Longrightarrow> kfree_lk Lptable s \<Longrightarrow>
   kill x s = (case find_idx (\<lambda>p. p_pid p = x) (procs s) of
      None \<Rightarrow> Ret (-1) (ksettle s)
    | Some i \<Rightarrow> Ret 0 (ksettle (upd_proc i (\<lambda>p. p\<lparr>p_killed := True,
        p_state := (if p_state p = SLEEPING then RUNNABLE else p_state p)\<rparr>) s)))"
  by (cases "find_idx (\<lambda>p. p_pid p = x) (procs s)")
    (simp_all add: kill_def kdefs upd_proc_def find_idx_less del: find_idx_None_iff)

definition kdepth :: "'z ksys_scheme \<Rightarrow> int" where
  "kdepth s = ncli (cpus (khw s) ! the (this_cpu (khw s)))"

lemma kdepth_upd [simp]:
  "kdepth (s\<lparr>procs := x\<rparr>) = kdepth s" "kdepth (s\<lparr>cout := c\<rparr>) = kdepth s" "kdepth (s\<lparr>pmem := m\<rparr>) = kdepth s"
  by (simp_all add: kdepth_def)

lemma kdepth_klock: "kgood s \<Longrightarrow> kdepth (klock lk s) = kdepth s + 1"
  unfolding kgood_def by (erule hwgoodE) (simp add: kdepth_def enter_ncli)

lemma sched_blocks:
  assumes "kgood s" "kfree_lk Lptable s" "kdepth s = 0" "cur s = Some i" "p_state (procs s ! i) \<noteq> RUNNING"
  shows "sched (klock Lptable s) = Blocked (klock Lptable s)"
proof -
  have g: "hwgood (khw s)" using assms(1) by (simp add: kgood_def)
  then obtain c where c: "this_cpu (khw s) = Some c" by (rule hwgoodE)
  let ?h = "enter Lptable (khw s)"
  have m: "mycpu ?h = Ret c ?h" using c by (simp add: mycpu_off)
  have n: "ncli (cpus ?h ! c) = 1" using kdepth_klock[OF assms(1), of Lptable] assms(3) c by (simp add: kdepth_def)
  have id: "(klock Lptable s)\<lparr>khw := ?h\<rparr> = klock Lptable s" by (simp add: klock_def)
  show ?thesis
    using assms c m n by (simp add: sched_def kdefs onhw_def holding_def the_proc_def id)
qed

lemma upd_proc_simps [simp]:
  "khw (upd_proc i f s) = khw s" "kgood (upd_proc i f s) = kgood s" "kfree_lk lk (upd_proc i f s) = kfree_lk lk s"
  "upd_proc i f (klock lk s) = klock lk (upd_proc i f s)" "upd_proc i f (ksettle s) = ksettle (upd_proc i f s)"
  "cur (upd_proc i f s) = cur s" "kdepth (upd_proc i f s) = kdepth s"
  "length (procs (upd_proc i f s)) = length (procs s)" "i \<noteq> j \<Longrightarrow> procs (upd_proc i f s) ! j = procs s ! j"
  "i < length (procs s) \<Longrightarrow> procs (upd_proc i f s) ! i = f (procs s ! i)"
  by (simp_all add: upd_proc_def)

lemma upd_proc_twice [simp]: "upd_proc i g (upd_proc i f s) = upd_proc i (\<lambda>p. g (f p)) s"
  by (cases "i < length (procs s)") (simp_all add: upd_proc_def list_update_beyond)

text \<open>
  Going to sleep while holding \<open>lk\<close> and nothing else: the process is marked asleep and the table lock
  is held when \<open>lk\<close> has become free.
\<close>

lemma sleep_net:
  assumes "kgood s" "kfree_lk Lptable s" "kfree_lk lk s" "kdepth s = 0" "cur s = Some i" "i < length (procs s)"
  shows "sleep ch (Some lk) (klock lk s) =
     Blocked (klock Lptable (upd_proc i (\<lambda>p. p\<lparr>p_chan := ch, p_state := SLEEPING\<rparr>) s))"
proof -
  let ?u = "upd_proc i (\<lambda>p. p\<lparr>p_chan := ch, p_state := SLEEPING\<rparr>) s"
  have sch: "sched (klock Lptable ?u) = Blocked (klock Lptable ?u)"
    using assms by (intro sched_blocks[where i = i]) simp_all
  have rel: "krelease lk (klock Lptable (klock lk s)) = Ret () (klock Lptable s)" if "lk \<noteq> Lptable"
    using that assms release_enter_inner[of "khw s" lk Lptable]
    by (simp add: krelease_def onhw_def klock_def kgood_def kfree_lk_def)
  show ?thesis
    using assms sch rel by (cases "lk = Lptable") (simp_all add: sleep_def sleep_steps_def kdefs)
qed

section \<open>Choosing the next process\<close>

lemma choose_proc_invariant:
  assumes "i < length ps" "p_state (ps ! i) = RUNNABLE" "set js \<subseteq> {..<length ps}"
  shows "foldl (better ps) i js < length ps \<and> p_state (ps ! foldl (better ps) i js) = RUNNABLE
    \<and> (\<forall>j\<in>set js. p_state (ps ! j) = RUNNABLE \<longrightarrow> p_priority (ps ! foldl (better ps) i js) \<le> p_priority (ps ! j))
    \<and> (foldl (better ps) i js \<noteq> i \<longrightarrow> p_priority (ps ! foldl (better ps) i js) < p_priority (ps ! i))"
  using assms(3)
proof (induction js rule: rev_induct)
  case Nil
  then show ?case using assms(1,2) by simp
next
  case (snoc j js)
  define r where "r = foldl (better ps) i js"
  have IH: "r < length ps" "p_state (ps ! r) = RUNNABLE"
    "\<And>j. j \<in> set js \<Longrightarrow> p_state (ps ! j) = RUNNABLE \<Longrightarrow> p_priority (ps ! r) \<le> p_priority (ps ! j)"
    "r \<noteq> i \<Longrightarrow> p_priority (ps ! r) < p_priority (ps ! i)"
    using snoc unfolding r_def by auto
  have e: "foldl (better ps) i (js @ [j]) = better ps r j" by (simp add: r_def)
  show ?case
  proof (cases "p_state (ps ! j) = RUNNABLE \<and> p_priority (ps ! r) > p_priority (ps ! j)")
    case True
    have "p_priority (ps ! r) \<le> p_priority (ps ! i)" using IH(4) by fastforce
    with True have "p_priority (ps ! j) < p_priority (ps ! i)" by linarith
    moreover have "p_priority (ps ! j) \<le> p_priority (ps ! k)" if "k \<in> set js" "p_state (ps ! k) = RUNNABLE" for k
      using IH(3)[OF that] True by linarith
    ultimately show ?thesis unfolding e using True snoc.prems by (auto simp: better_def)
  next
    case False
    then have "better ps r j = r" by (auto simp: better_def)
    then show ?thesis unfolding e using IH False by auto
  qed
qed

lemma choose_proc_spec:
  assumes "i < length ps" "p_state (ps ! i) = RUNNABLE"
  shows "choose_proc ps i < length ps" "p_state (ps ! choose_proc ps i) = RUNNABLE"
    "j < length ps \<Longrightarrow> p_state (ps ! j) = RUNNABLE \<Longrightarrow> p_priority (ps ! choose_proc ps i) \<le> p_priority (ps ! j)"
    "choose_proc ps i \<noteq> i \<Longrightarrow> p_priority (ps ! choose_proc ps i) < p_priority (ps ! i)"
proof -
  have sub: "set [0..<length ps] \<subseteq> {..<length ps}" by auto
  note V = choose_proc_invariant[OF assms sub, folded choose_proc_def]
  show "choose_proc ps i < length ps" "p_state (ps ! choose_proc ps i) = RUNNABLE"
    "choose_proc ps i \<noteq> i \<Longrightarrow> p_priority (ps ! choose_proc ps i) < p_priority (ps ! i)"
    using V by blast+
  show "j < length ps \<Longrightarrow> p_state (ps ! j) = RUNNABLE \<Longrightarrow> p_priority (ps ! choose_proc ps i) \<le> p_priority (ps ! j)"
    using V by auto
qed

section \<open>Switching to a process\<close>

definition kset_cur :: "nat option \<Rightarrow> 'z ksys_scheme \<Rightarrow> 'z ksys_scheme" where
  "kset_cur p s = s\<lparr>khw := upd_cpu (the (this_cpu (khw s))) (\<lambda>c. c\<lparr>cproc := p\<rparr>) (khw s)\<rparr>"

lemma cproc_upd_comm:
  "(c :: cpu)\<lparr>cproc := p, intena := x\<rparr> = c\<lparr>intena := x, cproc := p\<rparr>" "c\<lparr>cproc := p, ncli := n\<rparr> = c\<lparr>ncli := n, cproc := p\<rparr>"
  "(h :: hw)\<lparr>cpus := cs, locks := l\<rparr> = h\<lparr>locks := l, cpus := cs\<rparr>"
  by (cases c; simp; cases h; simp)+

lemma enter_set_cproc:
  "hwgood h \<Longrightarrow> enter lk (upd_cpu (the (this_cpu h)) (\<lambda>c. c\<lparr>cproc := p\<rparr>) h)
     = upd_cpu (the (this_cpu h)) (\<lambda>c. c\<lparr>cproc := p\<rparr>) (enter lk h)"
  by (erule hwgoodE) (simp add: enter_def pushed_def settle_def upd_cpu_def Let_def readeflags_if_def find_idx_upd_apicid this_cpu_def cproc_upd_comm)

lemma hwgood_set_cproc: "hwgood h \<Longrightarrow> hwgood (upd_cpu (the (this_cpu h)) (\<lambda>c. c\<lparr>cproc := p\<rparr>) h)"
  by (erule hwgoodE) (simp add: hwgood_def readeflags_if_def, simp add: upd_cpu_def)

lemma kset_cur_simps [simp]:
  "kgood s \<Longrightarrow> kgood (kset_cur p s)" "kfree_lk lk (kset_cur p s) = kfree_lk lk s" "procs (kset_cur p s) = procs s"
  "kgood s \<Longrightarrow> cur (kset_cur p s) = p"
  by (simp_all add: kset_cur_def kgood_def hwgood_set_cproc kfree_lk_def lkfree_def cur_def)
    (erule hwgoodE, simp add: upd_cpu_def)

lemma set_cpu_proc_locked:
  assumes "kgood s"
  shows "set_cpu_proc p (klock lk s) = Ret () (klock lk (kset_cur p s))"
proof -
  have g: "hwgood (khw s)" using assms by (simp add: kgood_def)
  then obtain c where c: "this_cpu (khw s) = Some c" by (rule hwgoodE)
  have "mycpu (enter lk (khw s)) = Ret c (enter lk (khw s))" using c by (simp add: mycpu_off)
  then show ?thesis
    using c enter_set_cproc[OF g, of lk p] by (simp add: set_cpu_proc_def kdefs onhw_def kset_cur_def klock_def)
qed

lemma switchuvm_locked:
  assumes "kgood s" "p_kstack (procs s ! h) \<noteq> 0" "p_pgdir (procs s ! h) \<noteq> 0"
  obtains t where "switchuvm (Some h) (klock lk s) = Ret () (klock lk t)" "procs t = procs s" "khw t = khw s"
    "cr3 t (lapicid (khw s)) = V2P (p_pgdir (procs s ! h))"
proof -
  let ?c = "the (this_cpu (khw s))"
  let ?t = "(set_tss ?c (p_kstack (procs s ! h)) s)\<lparr>cr3 := (cr3 s)(lapicid (khw s) := V2P (p_pgdir (procs s ! h)))\<rparr>"
  have g: "hwgood (khw s)" using assms by (simp add: kgood_def)
  then obtain c where c: "this_cpu (khw s) = Some c" by (rule hwgoodE)
  have ge: "hwgood (enter lk (khw s))" using g by simp
  let ?p = "pushed (enter lk (khw s))"
  have m: "mycpu ?p = Ret c ?p" using c by (simp add: mycpu_off)
  have pop: "popcli ?p = Ret () (enter lk (khw s))" using popcli_pushed_plain[OF ge] g by simp
  have "switchuvm (Some h) (klock lk s) = Ret () (klock lk ?t)"
    using assms c m pop pushcli_good[OF ge]
    by (simp add: switchuvm_def kdefs the_proc_def onhw_def klock_def lcr3_def set_tss_def)
  then show ?thesis by (rule that) (simp_all add: set_tss_def)
qed

section \<open>Allocating a table entry\<close>

lemma kpr_misc_simps [simp]:
  "pmem (upd_proc i f s) = pmem s" "kfreelist (upd_proc i f s) = kfreelist s" "kend (upd_proc i f s) = kend s"
  "kmem_use_lock (upd_proc i f s) = kmem_use_lock s" "nextpid (upd_proc i f s) = nextpid s"
  "ticks (upd_proc i f s) = ticks s" "trapret_addr (upd_proc i f s) = trapret_addr s"
  "forkret_addr (upd_proc i f s) = forkret_addr s" "initproc (upd_proc i f s) = initproc s"
  "(upd_proc i f s)\<lparr>nextpid := n\<rparr> = upd_proc i f (s\<lparr>nextpid := n\<rparr>)"
  "(upd_proc i f s)\<lparr>kfreelist := r\<rparr> = upd_proc i f (s\<lparr>kfreelist := r\<rparr>)"
  "settle_if b (upd_proc i f s) = upd_proc i f (settle_if b s)"
  by (simp_all add: upd_proc_def settle_if_def)

definition newborn :: "'z kpr_scheme \<Rightarrow> nat \<Rightarrow> proc \<Rightarrow> proc" where
  "newborn s k p =
     p\<lparr>p_state := EMBRYO, p_pid := nextpid s, p_priority := 10, p_kstack := k, p_retaddr := trapret_addr s,
       p_context := zero_context\<lparr>c_eip := forkret_addr s\<rparr>, p_start_ticks := ticks s\<rparr>"

lemma allocproc_net:
  assumes "kgood s" "kfree_lk Lptable s" "kfree_lk Lkmem s" "kmem_inv xs s"
  shows "allocproc s =
     (case find_idx (\<lambda>p. p_state p = UNUSED) (procs s) of
        None \<Rightarrow> Ret None (ksettle s)
      | Some i \<Rightarrow>
          (case xs of
             [] \<Rightarrow> Ret None (ksettle (upd_proc i (\<lambda>p. p\<lparr>p_pid := nextpid s, p_priority := 10, p_kstack := 0, p_state := UNUSED\<rparr>)
                      (s\<lparr>nextpid := int32 (nextpid s + 1)\<rparr>)))
           | x # ys \<Rightarrow> Ret (Some i) (ksettle (upd_proc i (newborn s x)
                      (s\<lparr>nextpid := int32 (nextpid s + 1), kfreelist := unat (load4 (pmem s) (kfreelist s))\<rparr>)))))"
proof (cases "find_idx (\<lambda>p. p_state p = UNUSED) (procs s)")
  case None
  then show ?thesis using assms by (simp add: allocproc_def kdefs del: find_idx_None_iff)
next
  case (Some i)
  have i: "i < length (procs s)" by (rule find_idx_less[OF Some])
  let ?u = "upd_proc i (\<lambda>p. p\<lparr>p_state := EMBRYO, p_pid := nextpid s, p_priority := 10\<rparr>) (s\<lparr>nextpid := int32 (nextpid s + 1)\<rparr>)"
  have fl: "kfreelist s = (case xs of [] \<Rightarrow> 0 | x # _ \<Rightarrow> x)" "xs \<noteq> [] \<Longrightarrow> hd xs \<noteq> 0"
    using assms(4) by (cases xs; simp add: kmem_inv_def)+
  have st: "settle_if b (ksettle s) = ksettle s" for b using assms(1) by (simp add: settle_if_def)
  have k: "kalloc (ksettle ?u) = Ret (kfreelist s) (ksettle (if kfreelist s = 0 then ?u
      else ?u\<lparr>kfreelist := unat (load4 (pmem s) (kfreelist s))\<rparr>))"
    using assms by (subst kalloc_net) (simp_all add: kmem_ready_def settle_if_def)
  show ?thesis
    using assms Some i fl k
    by (cases xs) (simp_all add: allocproc_def kdefs newborn_def[abs_def])
qed


section \<open>Properties\<close>

lemma kset_cur_more [simp]:
  "kdepth (kset_cur p s) = kdepth s" "lapicid (khw (kset_cur p s)) = lapicid (khw s)"
  "readeflags_if (khw (kset_cur p s)) = readeflags_if (khw s)"
  by (cases "the (this_cpu (khw s)) < length (cpus (khw s))")
    (simp_all add: kset_cur_def kdepth_def upd_cpu_def readeflags_if_def this_cpu_def find_idx_upd_apicid list_update_beyond)

lemma set_cpu_proc_off:
  "kgood s \<Longrightarrow> \<not> readeflags_if (khw s) \<Longrightarrow> set_cpu_proc p s = Ret () (kset_cur p s)"
  unfolding kgood_def by (erule hwgoodE) (simp add: set_cpu_proc_def kdefs onhw_def mycpu_off kset_cur_def)

definition ksti :: "'z ksys_scheme \<Rightarrow> 'z ksys_scheme" where
  "ksti s = s\<lparr>khw := (khw s)\<lparr>ifl := (ifl (khw s))(lapicid (khw s) := True)\<rparr>\<rparr>"

lemma ksti_simps [simp]:
  "onhw sti s = Ret () (ksti s)" "kfree_lk lk (ksti s) = kfree_lk lk s" "cur (ksti s) = cur s"
  "lapicid (khw (ksti s)) = lapicid (khw s)"
  by (simp_all add: ksti_def onhw_def sti_def kfree_lk_def lkfree_def cur_def)

lemma procs_ksti [simp]: "procs (ksti s) = procs s"
  by (simp add: ksti_def)

lemma kgood_ksti: "kgood s \<Longrightarrow> kdepth s = 0 \<Longrightarrow> kgood (ksti s)"
  unfolding kgood_def kdepth_def by (erule hwgoodE) (simp add: hwgood_def ksti_def)

lemma scheduler_scan_found:
  assumes "kgood s" "i < length (procs s)" "k \<le> i" "p_state (procs s ! i) = RUNNABLE"
    and "\<forall>p\<in>set (procs s). p_state p = RUNNABLE \<longrightarrow> p_kstack p \<noteq> 0 \<and> p_pgdir p \<noteq> 0"
  shows "\<exists>h t. scheduler_scan k (klock Lptable s) = Ret (Some h) (klock Lptable t)
    \<and> h < length (procs s) \<and> p_state (procs s ! h) = RUNNABLE
    \<and> (\<forall>j<length (procs s). p_state (procs s ! j) = RUNNABLE \<longrightarrow> p_priority (procs s ! h) \<le> p_priority (procs s ! j))
    \<and> procs t = (procs s)[h := (procs s ! h)\<lparr>p_state := RUNNING\<rparr>] \<and> cur t = Some h
    \<and> cr3 t (lapicid (khw s)) = V2P (p_pgdir (procs s ! h))"
proof -
  let ?ps = "procs s"
  have "drop k ?ps ! (i - k) = ?ps ! i" "i - k < length (drop k ?ps)" using assms(2,3) by auto
  then have "?ps ! i \<in> set (drop k ?ps)" using nth_mem by metis
  then obtain j where j: "find_idx (\<lambda>p. p_state p = RUNNABLE) (drop k ?ps) = Some j"
    using find_idx_Some_ex[where P = "\<lambda>p. p_state p = RUNNABLE"] assms(4) by blast
  define h where "h = choose_proc ?ps (k + j)"
  have kj: "k + j < length ?ps" "p_state (?ps ! (k + j)) = RUNNABLE"
    using find_idx_SomeD[OF j] by auto
  note C = choose_proc_spec[OF kj, folded h_def]
  have nz: "p_kstack (?ps ! h) \<noteq> 0" "p_pgdir (?ps ! h) \<noteq> 0" using assms(5) C(1,2) nth_mem by blast+
  have g: "kgood (kset_cur (Some h) s)" using assms(1) by simp
  obtain t where t: "switchuvm (Some h) (klock Lptable (kset_cur (Some h) s)) = Ret () (klock Lptable t)"
    "procs t = ?ps" "khw t = khw (kset_cur (Some h) s)" "cr3 t (lapicid (khw s)) = V2P (p_pgdir (?ps ! h))"
    using switchuvm_locked[OF g, of h Lptable] nz by auto
  have "scheduler_scan k (klock Lptable s) = Ret (Some h) (klock Lptable (upd_proc h (\<lambda>p. p\<lparr>p_state := RUNNING\<rparr>) t))"
    using j assms(1) t(1) by (simp add: scheduler_scan_def kdefs Let_def h_def set_cpu_proc_locked)
  moreover have "cur (upd_proc h (\<lambda>p. p\<lparr>p_state := RUNNING\<rparr>) t) = Some h"
    using t(3) assms(1) by (simp add: cur_def) (simp flip: cur_def)
  moreover have "cr3 (upd_proc h (\<lambda>p. p\<lparr>p_state := RUNNING\<rparr>) t) = cr3 t" by (simp add: upd_proc_def)
  ultimately show ?thesis using C t by (intro exI[of _ h] exI) (auto simp: upd_proc_def)
qed

text \<open>
  C14: Entered with interrupts off and no lock held while some process is runnable, the scheduler returns
  in the chosen process with the table lock held: that process was runnable with the smallest priority
  value of all runnable processes, it alone has changed, to running, it is the current process of this
  CPU, and its page directory is loaded.
\<close>

theorem scheduler_picks_best:
  assumes "kgood s" "\<not> readeflags_if (khw s)" "kdepth s = 0" "kfree_lk Lptable s"
    and "i < length (procs s)" "p_state (procs s ! i) = RUNNABLE"
    and "\<forall>p\<in>set (procs s). p_state p = RUNNABLE \<longrightarrow> p_kstack p \<noteq> 0 \<and> p_pgdir p \<noteq> 0"
  shows "\<exists>h t. scheduler s = Ret (Some h) (klock Lptable t)
    \<and> h < length (procs s) \<and> p_state (procs s ! h) = RUNNABLE
    \<and> (\<forall>j<length (procs s). p_state (procs s ! j) = RUNNABLE \<longrightarrow> p_priority (procs s ! h) \<le> p_priority (procs s ! j))
    \<and> procs t = (procs s)[h := (procs s ! h)\<lparr>p_state := RUNNING\<rparr>] \<and> cur t = Some h
    \<and> cr3 t (lapicid (khw s)) = V2P (p_pgdir (procs s ! h))"
proof -
  let ?u = "ksti (kset_cur None s)"
  have g: "kgood ?u" using assms by (intro kgood_ksti) simp_all
  have "scheduler s = scheduler_scan 0 (klock Lptable ?u)"
    using assms g by (simp add: scheduler_def scheduler_begin_def kdefs set_cpu_proc_off)
  then show ?thesis using scheduler_scan_found[OF g, of i 0] assms by simp
qed

section \<open>Sleeping and waking on several CPUs\<close>

definition on_cpu :: "nat \<Rightarrow> 'z ksys_scheme \<Rightarrow> 'z ksys_scheme" where
  "on_cpu c s = s\<lparr>khw := at_cpu c (khw s)\<rparr>"

text \<open>
  Each CPU has a sequence of steps left to run, and the CPUs take turns in any order.  A step that spins is tried again
  later; a step that switches to the scheduler is followed by what the scheduler's side of that CPU does.
\<close>

inductive cpus_step :: "'z kpr_scheme \<times> (nat \<Rightarrow> ('z kpr_scheme, unit) K list) \<Rightarrow> 'z kpr_scheme \<times> (nat \<Rightarrow> ('z kpr_scheme, unit) K list) \<Rightarrow> bool" where
  runs: "ts c = m # ms \<Longrightarrow> m (on_cpu c s) = Ret () s' \<Longrightarrow> cpus_step (s, ts) (s', ts(c := ms))"
| spins: "ts c = m # ms \<Longrightarrow> m (on_cpu c s) = Spin \<Longrightarrow> cpus_step (s, ts) (s, ts)"
| switches: "ts c = m # ms \<Longrightarrow> m (on_cpu c s) = Blocked s' \<Longrightarrow> cpus_step (s, ts) (s', ts(c := ms))"

inductive_cases cpus_stepE: "cpus_step (s, ts) (s', ts')"

lemma kacquire_at:
  assumes "distinct (map apicid (cpus (khw s)))" "cpu_at c (khw s) n e"
  shows "\<not> locked (locks (khw s) lk) \<Longrightarrow> \<exists>h. kacquire lk (on_cpu c s) = Ret () (s\<lparr>khw := h\<rparr>) \<and> cpu_frame c (khw s) h \<and> cpu_at c h (Suc n) e
      \<and> locks h = (locks (khw s))(lk := \<lparr>locked = True, lk_cpu = Some c\<rparr>)"
    and "locked (locks (khw s) lk) \<Longrightarrow> lk_cpu (locks (khw s) lk) \<noteq> Some c \<Longrightarrow> kacquire lk (on_cpu c s) = Spin"
  using acquire_at[OF assms, of lk] by (auto simp: kacquire_def onhw_def on_cpu_def)

lemma krelease_at:
  assumes "distinct (map apicid (cpus (khw s)))" "cpu_at c (khw s) (Suc n) e" "locks (khw s) lk = \<lparr>locked = True, lk_cpu = Some c\<rparr>"
  shows "\<exists>h. krelease lk (on_cpu c s) = Ret () (s\<lparr>khw := h\<rparr>) \<and> cpu_frame c (khw s) h \<and> cpu_at c h n e \<and> locks h = (locks (khw s))(lk := freelock)"
  using release_at[OF assms] by (auto simp: krelease_def onhw_def on_cpu_def)

lemma myproc_at:
  assumes d: "distinct (map apicid (cpus (khw s)))" and c: "cpu_at c (khw s) n e"
  shows "\<exists>h. myproc (on_cpu c s) = Ret (cproc (cpus (khw s) ! c)) (on_cpu c (s\<lparr>khw := h\<rparr>)) \<and> cpu_frame c (khw s) h \<and> cpu_at c h n e \<and> locks h = locks (khw s)"
proof -
  have i: "c < length (cpus (khw s))" using c by (simp add: cpu_at_def)
  obtain g where g: "pushcli (at_cpu c (khw s)) = Ret () g" "cpu_frame c (khw s) g" "locks g = locks (khw s)" "lapicid g = apicid (cpus (khw s) ! c)"
      "cpu_at c g (Suc n) e" using pushcli_at[OF d c] .
  have ap: "map apicid (cpus g) = map apicid (cpus (khw s))" "map cproc (cpus g) = map cproc (cpus (khw s))" using g(2) by (simp_all add: cpu_frame_def)
  have eq: "at_cpu c g = g" using g(4) nth_apicid_eq[OF ap(1) i] by (intro at_cpu_idem) simp
  have dg: "distinct (map apicid (cpus g))" using d ap(1) by simp
  have m: "mycpu g = Ret c g" using mycpu_at[OF dg g(5)] eq by simp
  have cp: "cproc (cpus g ! c) = cproc (cpus (khw s) ! c)" using ap(2) i by (metis length_map nth_map)
  obtain h where h: "popcli g = Ret () h" "cpu_frame c g h" "locks h = locks g" "lapicid h = apicid (cpus g ! c)" "cpu_at c h n e"
    using popcli_at[OF dg g(5)] eq by metis
  have "map apicid (cpus h) = map apicid (cpus g)" using h(2) by (simp add: cpu_frame_def)
  then have "at_cpu c h = h" using h(4) nth_apicid_eq[of "cpus h" "cpus g" c] i map_eq_imp_length_eq[OF ap(1)] by (intro at_cpu_idem) simp
  then show ?thesis using g h m cp cpu_frame_trans[OF g(2) h(2) i]
    by (intro exI[of _ h]) (simp add: myproc_def onhw_def kdefs on_cpu_def)
qed

lemma sched_at:
  assumes d: "distinct (map apicid (cpus (khw s)))" and c: "cpu_at c (khw s) 1 e" and l: "locks (khw s) Lptable = \<lparr>locked = True, lk_cpu = Some c\<rparr>"
    and p: "cproc (cpus (khw s) ! c) = Some i" "p_state (procs s ! i) \<noteq> RUNNING"
  shows "\<exists>h. sched (on_cpu c s) = Blocked (s\<lparr>khw := h\<rparr>) \<and> cpu_frame c (khw s) h \<and> cpu_at c h 1 e \<and> locks h = locks (khw s)"
proof -
  obtain h where h: "myproc (on_cpu c s) = Ret (Some i) (on_cpu c (s\<lparr>khw := h\<rparr>))" "cpu_frame c (khw s) h" "cpu_at c h 1 e" "locks h = locks (khw s)"
    using myproc_at[OF d c] p(1) by auto
  have "distinct (map apicid (cpus h))" using d h(2) by (simp add: cpu_frame_def)
  then have m: "mycpu (at_cpu c h) = Ret c (at_cpu c h)" using mycpu_at[OF _ h(3)] by simp
  have "sched (on_cpu c s) = Blocked (s\<lparr>khw := at_cpu c h\<rparr>)"
    using h m l p(2) by (simp add: sched_def kdefs onhw_def holding_def the_proc_def on_cpu_def cpu_at_def readeflags_if_def)
  then show ?thesis using h(2-4) by (intro exI[of _ "at_cpu c h"]) (simp add: cpu_frame_def)
qed

text \<open>
  One CPU runs \<^verbatim>\<open>sleep\<close>, after which the scheduler of that CPU, or the process that it resumes, releases the table lock.
  Another CPU changes what the sleeper waits for, under the lock that protects it, and wakes up the sleepers.
\<close>

definition sleeper :: "chan option \<Rightarrow> nat \<Rightarrow> lockid \<Rightarrow> ('z kpr_scheme, unit) K list" where
  "sleeper ch i lk = sleep_steps ch i lk @ [krelease Lptable]"

definition waker :: "('z kpr_scheme \<Rightarrow> 'z kpr_scheme) \<Rightarrow> chan option \<Rightarrow> lockid \<Rightarrow> ('z kpr_scheme, unit) K list" where
  "waker f ch lk = kacquire lk # kmod f # wakeup_steps ch @ [krelease lk]"

text \<open>What holds when the one has run \<open>x\<close> of its steps and the other \<open>y\<close>.\<close>

abbreviation lock_of :: "nat option \<Rightarrow> spinlock" where
  "lock_of c \<equiv> (case c of None \<Rightarrow> freelock | Some i \<Rightarrow> \<lparr>locked = True, lk_cpu = Some i\<rparr>)"

definition asleep_inv :: "nat \<Rightarrow> nat \<Rightarrow> nat \<Rightarrow> chan option \<Rightarrow> lockid \<Rightarrow> bool \<Rightarrow> bool \<Rightarrow> nat \<Rightarrow> nat \<Rightarrow> 'z kpr_scheme \<Rightarrow> bool" where
  "asleep_inv a b i ch lk ea eb x y t \<longleftrightarrow>
     x \<le> 6 \<and> y \<le> 6 \<and> (x \<le> 1 \<longrightarrow> y = 0) \<and> (x \<le> 5 \<longrightarrow> y \<le> 2)
     \<and> distinct (map apicid (cpus (khw t))) \<and> i < length (procs t) \<and> cproc (cpus (khw t) ! a) = Some i
     \<and> cpu_at a (khw t) ([1, 2, 1, 1, 1, 1, 0] ! x) ea \<and> cpu_at b (khw t) ([0, 1, 1, 2, 2, 1, 0] ! y) eb
     \<and> locks (khw t) lk = lock_of (if x \<le> 1 then Some a else if 1 \<le> y \<and> y \<le> 5 then Some b else None)
     \<and> locks (khw t) Lptable = lock_of (if 1 \<le> x \<and> x \<le> 5 then Some a else if 3 \<le> y \<and> y \<le> 4 then Some b else None)
     \<and> (3 \<le> x \<longrightarrow> p_chan (procs t ! i) = ch)
     \<and> (4 \<le> x \<longrightarrow> p_state (procs t ! i) = (if y \<le> 3 then SLEEPING else RUNNABLE))"

lemma cpu_frame_hw:
  assumes "cpu_frame c (khw t) h" "distinct (map apicid (cpus (khw t)))" "c < length (cpus (khw t))"
  shows "distinct (map apicid (cpus h))" "d \<noteq> c \<Longrightarrow> cpu_at d (khw t) n e \<Longrightarrow> cpu_at d h n e"
    "d < length (cpus (khw t)) \<Longrightarrow> cproc (cpus h ! d) = cproc (cpus (khw t) ! d)"
  using assms cpu_frame_other[OF assms(1,2,3)]
  by (auto simp: cpu_frame_def) (metis length_map nth_map)

lemma asleep_invD:
  assumes "asleep_inv a b i ch lk ea eb x y t"
  shows "x \<le> 6" "y \<le> 6" "x \<le> 1 \<Longrightarrow> y = 0" "x \<le> 5 \<Longrightarrow> y \<le> 2"
    and "distinct (map apicid (cpus (khw t)))" "i < length (procs t)" "cproc (cpus (khw t) ! a) = Some i"
    and "cpu_at a (khw t) ([1, 2, 1, 1, 1, 1, 0] ! x) ea" "cpu_at b (khw t) ([0, 1, 1, 2, 2, 1, 0] ! y) eb"
    and "a < length (cpus (khw t))" "b < length (cpus (khw t))"
    and "locks (khw t) lk = lock_of (if x \<le> 1 then Some a else if 1 \<le> y \<and> y \<le> 5 then Some b else None)"
    and "locks (khw t) Lptable = lock_of (if 1 \<le> x \<and> x \<le> 5 then Some a else if 3 \<le> y \<and> y \<le> 4 then Some b else None)"
  using assms by (auto simp: asleep_inv_def cpu_at_def)

text \<open>A step of either that changes the lock state as it should, and of the processes nothing.\<close>

lemma asleep_inv_hw:
  assumes I: "asleep_inv a b i ch lk ea eb x y t" and c: "c = a \<or> c = b" "a \<noteq> b"
    and h: "cpu_frame c (khw t) h" "cpu_at c h n (if c = a then ea else eb)"
    and n: "n = (if c = a then [1, 2, 1, 1, 1, 1, 0] ! x' else [0, 1, 1, 2, 2, 1, 0] ! y')" "c \<noteq> a \<Longrightarrow> x' = x" "c \<noteq> b \<Longrightarrow> y' = y"
    and pos: "x' \<le> 6" "y' \<le> 6" "x' \<le> 1 \<longrightarrow> y' = 0" "x' \<le> 5 \<longrightarrow> y' \<le> 2"
    and lk: "locks h lk = lock_of (if x' \<le> 1 then Some a else if 1 \<le> y' \<and> y' \<le> 5 then Some b else None)"
      "locks h Lptable = lock_of (if 1 \<le> x' \<and> x' \<le> 5 then Some a else if 3 \<le> y' \<and> y' \<le> 4 then Some b else None)"
    and p: "3 \<le> x' \<longrightarrow> 3 \<le> x" "4 \<le> x' \<longrightarrow> 4 \<le> x \<and> (y' \<le> 3 \<longleftrightarrow> y \<le> 3)"
  shows "asleep_inv a b i ch lk ea eb x' y' (t\<lparr>khw := h\<rparr>)"
proof -
  note D = asleep_invD[OF I]
  have cl: "c < length (cpus (khw t))" using c(1) D(10,11) by auto
  note F = cpu_frame_hw[OF h(1) D(5) cl]
  have "cpu_at a h ([1, 2, 1, 1, 1, 1, 0] ! x') ea" using c h(2) n F(2)[of a] D(8) by (cases "c = a") auto
  moreover have "cpu_at b h ([0, 1, 1, 2, 2, 1, 0] ! y') eb" using c h(2) n F(2)[of b] D(9) by (cases "c = b") auto
  ultimately show ?thesis using I F(1) F(3)[OF D(10)] pos lk p unfolding asleep_inv_def by simp
qed

lemma sleeper_eq:
  "lk \<noteq> Lptable \<Longrightarrow> sleeper ch i lk = [kacquire Lptable, krelease lk, kmod (upd_proc i (\<lambda>p. p\<lparr>p_chan := ch\<rparr>)), kmod (upd_proc i (\<lambda>p. p\<lparr>p_state := SLEEPING\<rparr>)), sched, krelease Lptable]"
  by (simp add: sleeper_def sleep_steps_def)

lemma sleeper_step:
  assumes I: "asleep_inv a b i ch lk ea eb x y t" and ne: "a \<noteq> b" "lk \<noteq> Lptable" and x: "x < 6"
  shows "\<exists>t'. ((sleeper ch i lk ! x) (on_cpu a t) = Ret () t' \<or> (sleeper ch i lk ! x) (on_cpu a t) = Blocked t') \<and> asleep_inv a b i ch lk ea eb (Suc x) y t'"
proof -
  note D = asleep_invD[OF I]
  note prog = sleeper_eq[OF ne(2)]
  consider "x = 0" | "x = 1" | "x = 2" | "x = 3" | "x = 4" | "x = 5" using x by linarith
  then show ?thesis
  proof cases
    case 1
    have "\<not> locked (locks (khw t) Lptable)" using I 1 by (simp add: asleep_inv_def freelock_def)
    then obtain h where h: "kacquire Lptable (on_cpu a t) = Ret () (t\<lparr>khw := h\<rparr>)" "cpu_frame a (khw t) h" "cpu_at a h 2 ea"
        "locks h = (locks (khw t))(Lptable := \<lparr>locked = True, lk_cpu = Some a\<rparr>)"
      using kacquire_at(1)[OF D(5,8)] 1 by (auto simp: numeral_2_eq_2)
    then have "asleep_inv a b i ch lk ea eb (Suc x) y (t\<lparr>khw := h\<rparr>)"
      using I 1 D(3) ne by (intro asleep_inv_hw[OF I, where c = a and n = 2]) (simp_all add: asleep_inv_def)
    then show ?thesis using h(1) 1 by (auto simp: prog)
  next
    case 2
    then have "cpu_at a (khw t) (Suc 1) ea" "locks (khw t) lk = \<lparr>locked = True, lk_cpu = Some a\<rparr>" using I D(8) by (simp_all add: asleep_inv_def numeral_2_eq_2)
    then obtain h where h: "krelease lk (on_cpu a t) = Ret () (t\<lparr>khw := h\<rparr>)" "cpu_frame a (khw t) h" "cpu_at a h 1 ea" "locks h = (locks (khw t))(lk := freelock)"
      using krelease_at[OF D(5)] by blast
    then have "asleep_inv a b i ch lk ea eb (Suc x) y (t\<lparr>khw := h\<rparr>)"
      using I 2 D(3) ne by (intro asleep_inv_hw[OF I, where c = a and n = 1]) (simp_all add: asleep_inv_def)
    then show ?thesis using h(1) 2 by (auto simp: prog)
  next
    case 3
    then show ?thesis using I by (simp add: prog asleep_inv_def on_cpu_def upd_proc_def)
  next
    case 4
    then show ?thesis using I by (simp add: prog asleep_inv_def on_cpu_def upd_proc_def)
  next
    case 5
    have "cpu_at a (khw t) 1 ea" "locks (khw t) Lptable = \<lparr>locked = True, lk_cpu = Some a\<rparr>" "p_state (procs t ! i) \<noteq> RUNNING"
      using I 5 D(4,8) by (simp_all add: asleep_inv_def)
    then obtain h where h: "sched (on_cpu a t) = Blocked (t\<lparr>khw := h\<rparr>)" "cpu_frame a (khw t) h" "cpu_at a h 1 ea" "locks h = locks (khw t)"
      using sched_at[OF D(5) _ _ D(7)] by blast
    then have "asleep_inv a b i ch lk ea eb (Suc x) y (t\<lparr>khw := h\<rparr>)"
      using I 5 D(4) ne by (intro asleep_inv_hw[OF I, where c = a and n = 1]) (simp_all add: asleep_inv_def)
    then show ?thesis using h(1) 5 by (auto simp: prog)
  next
    case 6
    then have "cpu_at a (khw t) (Suc 0) ea" "locks (khw t) Lptable = \<lparr>locked = True, lk_cpu = Some a\<rparr>" using I D(8) by (simp_all add: asleep_inv_def)
    then obtain h where h: "krelease Lptable (on_cpu a t) = Ret () (t\<lparr>khw := h\<rparr>)" "cpu_frame a (khw t) h" "cpu_at a h 0 ea" "locks h = (locks (khw t))(Lptable := freelock)"
      using krelease_at[OF D(5)] by blast
    then have "asleep_inv a b i ch lk ea eb (Suc x) y (t\<lparr>khw := h\<rparr>)"
      using I 6 D(4) ne by (intro asleep_inv_hw[OF I, where c = a and n = 0]) (simp_all add: asleep_inv_def)
    then show ?thesis using h(1) 6 by (auto simp: prog)
  qed
qed

lemma waker_eq: "waker f ch lk = [kacquire lk, kmod f, kacquire Lptable, wakeup1 ch, krelease Lptable, krelease lk]"
  by (simp add: waker_def wakeup_steps_def)

lemma waker_acquires:
  assumes I: "asleep_inv a b i ch lk ea eb x y t" and ne: "a \<noteq> b" "lk \<noteq> Lptable" and y: "y = 0 \<and> l = lk \<or> y = 2 \<and> l = Lptable"
  shows "if y = 0 \<and> x \<le> 1 \<or> y = 2 \<and> x \<le> 5 then kacquire l (on_cpu b t) = Spin
    else \<exists>t'. kacquire l (on_cpu b t) = Ret () t' \<and> asleep_inv a b i ch lk ea eb x (Suc y) t'"
proof -
  note D = asleep_invD[OF I]
  have x2: "y = 2 \<Longrightarrow> 2 \<le> x" using D(3) by (cases "x \<le> 1") auto
  have spin: "locked (locks (khw t) l) \<and> lk_cpu (locks (khw t) l) \<noteq> Some b" if "y = 0 \<and> x \<le> 1 \<or> y = 2 \<and> x \<le> 5"
    using y ne that D(12,13) x2 by (elim disjE) simp_all
  show ?thesis
  proof (cases "y = 0 \<and> x \<le> 1 \<or> y = 2 \<and> x \<le> 5")
    case True
    then show ?thesis using spin kacquire_at(2)[OF D(5,9)] by simp
  next
    case False
    then have "\<not> locked (locks (khw t) l)" using y D(1,12,13) by (elim disjE) (simp_all add: freelock_def)
    then obtain h where h: "kacquire l (on_cpu b t) = Ret () (t\<lparr>khw := h\<rparr>)" "cpu_frame b (khw t) h" "cpu_at b h (Suc ([0, 1, 1, 2, 2, 1, 0] ! y)) eb"
        "locks h = (locks (khw t))(l := \<lparr>locked = True, lk_cpu = Some b\<rparr>)"
      using kacquire_at(1)[OF D(5,9)] by blast
    have "asleep_inv a b i ch lk ea eb x (Suc y) (t\<lparr>khw := h\<rparr>)"
      using False y ne h(3,4) D(1,12,13) by (elim disjE; intro asleep_inv_hw[OF I _ _ h(2), where n = "Suc ([0, 1, 1, 2, 2, 1, 0] ! y)"]) simp_all
    then show ?thesis using False h(1) by auto
  qed
qed

lemma waker_releases:
  assumes I: "asleep_inv a b i ch lk ea eb x y t" and ne: "a \<noteq> b" "lk \<noteq> Lptable" and y: "y = 4 \<and> l = Lptable \<or> y = 5 \<and> l = lk"
  shows "\<exists>t'. krelease l (on_cpu b t) = Ret () t' \<and> asleep_inv a b i ch lk ea eb x (Suc y) t'"
proof -
  note D = asleep_invD[OF I]
  have x: "x = 6" using D(1,4) y by (cases "x \<le> 5") auto
  have "cpu_at b (khw t) (Suc ([0, 1, 1, 2, 2, 1, 0] ! Suc y)) eb" "locks (khw t) l = \<lparr>locked = True, lk_cpu = Some b\<rparr>"
    using D(9,12,13) x y by (auto simp: numeral_2_eq_2)
  then obtain h where h: "krelease l (on_cpu b t) = Ret () (t\<lparr>khw := h\<rparr>)" "cpu_frame b (khw t) h" "cpu_at b h ([0, 1, 1, 2, 2, 1, 0] ! Suc y) eb"
      "locks h = (locks (khw t))(l := freelock)"
    using krelease_at[OF D(5)] by blast
  have "asleep_inv a b i ch lk ea eb x (Suc y) (t\<lparr>khw := h\<rparr>)"
    using x y ne h(3,4) D(12,13) by (elim disjE; intro asleep_inv_hw[OF I _ _ h(2), where n = "[0, 1, 1, 2, 2, 1, 0] ! Suc y"]) simp_all
  then show ?thesis using h(1) by auto
qed

lemma waker_step:
  assumes I: "asleep_inv a b i ch lk ea eb x y t" and ne: "a \<noteq> b" "lk \<noteq> Lptable" and y: "y < 6"
    and f: "\<And>s. khw (f s) = khw s" "\<And>s. procs (f s) = procs s"
  shows "if y = 0 \<and> x \<le> 1 \<or> y = 2 \<and> x \<le> 5 then (waker f ch lk ! y) (on_cpu b t) = Spin
    else \<exists>t'. (waker f ch lk ! y) (on_cpu b t) = Ret () t' \<and> asleep_inv a b i ch lk ea eb x (Suc y) t'"
proof -
  consider "y = 0" | "y = 1" | "y = 2" | "y = 3" | "y = 4" | "y = 5" using y by linarith
  then show ?thesis
  proof cases
    case 1
    then show ?thesis using waker_acquires[OF I ne, of lk] by (auto simp: waker_eq split: if_splits)
  next
    case 2
    then show ?thesis using I f by (auto simp: waker_eq asleep_inv_def on_cpu_def)
  next
    case 3
    then show ?thesis using waker_acquires[OF I ne, of Lptable] by (auto simp: waker_eq split: if_splits)
  next
    case 4
    then have "x = 6" using asleep_invD(1,4)[OF I] by (cases "x \<le> 5") auto
    then show ?thesis using I 4 by (auto simp: waker_eq asleep_inv_def on_cpu_def wakeup1_def)
  next
    case 5
    then show ?thesis using waker_releases[OF I ne, of Lptable] by (auto simp: waker_eq split: if_splits)
  next
    case 6
    then show ?thesis using waker_releases[OF I ne, of lk] by (auto simp: waker_eq split: if_splits)
  qed
qed

definition sleeping_pair :: "nat \<Rightarrow> nat \<Rightarrow> ('z kpr_scheme, unit) K list \<Rightarrow> ('z kpr_scheme, unit) K list \<Rightarrow> nat \<Rightarrow> ('z kpr_scheme, unit) K list" where
  "sleeping_pair a b ps qs = (\<lambda>_. [])(a := ps, b := qs)"

abbreviation "pair_left a b i ch lk f x y \<equiv> sleeping_pair a b (drop x (sleeper ch i lk)) (drop y (waker f ch lk))"

lemma nth_drop_Cons: "drop n xs = m # ms \<Longrightarrow> n < length xs \<and> m = xs ! n \<and> ms = drop (Suc n) xs"
  by (metis Cons_nth_drop_Suc drop_eq_Nil2 linorder_not_le list.discI list.inject)

lemma asleep_step:
  fixes t t' :: "'z kpr_scheme"
  assumes I: "asleep_inv a b i ch lk ea eb x y t" and ne: "a \<noteq> b" "lk \<noteq> Lptable"
    and f: "\<And>s. khw (f s) = khw s" "\<And>s. procs (f s) = procs s"
    and st: "cpus_step (t, pair_left a b i ch lk f x y) (t', ts')"
  shows "\<exists>x' y'. asleep_inv a b i ch lk ea eb x' y' t' \<and> ts' = pair_left a b i ch lk f x' y'"
proof -
  have upd: "(pair_left a b i ch lk f x y)(a := drop (Suc x) (sleeper ch i lk)) = pair_left a b i ch lk f (Suc x) y" "(pair_left a b i ch lk f x y)(b := drop (Suc y) (waker f ch lk)) = pair_left a b i ch lk f x (Suc y)"
    using ne(1) by (auto simp: sleeping_pair_def)
  have len: "length (sleeper ch i lk :: ('z kpr_scheme, unit) K list) = 6" "length (waker f ch lk) = 6" using ne(2) by (simp_all add: sleeper_eq waker_eq)
  have nxt: "ms = drop (Suc (if c = a then x else y)) (if c = a then sleeper ch i lk else waker f ch lk)
      \<and> (c = a \<and> x < 6 \<and> m = sleeper ch i lk ! x \<or> c = b \<and> y < 6 \<and> m = waker f ch lk ! y)" if "pair_left a b i ch lk f x y c = m # ms" for c m ms
    using that nth_drop_Cons[of x "sleeper ch i lk" m ms] nth_drop_Cons[of y "waker f ch lk" m ms] ne(1) len
    by (auto simp: sleeping_pair_def split: if_splits)
  have go: "\<exists>x' y'. asleep_inv a b i ch lk ea eb x' y' t' \<and> (pair_left a b i ch lk f x y)(c := ms) = pair_left a b i ch lk f x' y'"
    if p: "pair_left a b i ch lk f x y c = m # ms" and m: "m (on_cpu c t) = Ret () t' \<or> m (on_cpu c t) = Blocked t'" for c m ms
  proof (cases "c = a")
    case True
    then show ?thesis using nxt[OF p] m sleeper_step[OF I ne] upd(1) ne(1) by (intro exI[of _ "Suc x"] exI[of _ y]) auto
  next
    case False
    then show ?thesis using nxt[OF p] m waker_step[OF I ne _ f] upd(2) by (intro exI[of _ x] exI[of _ "Suc y"]) (auto split: if_splits)
  qed
  from st show ?thesis by (cases rule: cpus_stepE) (use I go in blast)+
qed


text \<open>A table of processes in a machine with two CPUs, for concrete instances.\<close>

definition proc0 :: proc where
  "proc0 = \<lparr>p_sz = 0, p_pgdir = 0, p_kstack = 0, p_state = UNUSED, p_pid = 0, p_parent = None,
     p_tf = \<lparr>tf_edi = 0, tf_esi = 0, tf_ebp = 0, tf_oesp = 0, tf_ebx = 0, tf_edx = 0, tf_ecx = 0, tf_eax = 0, tf_gs = 0, tf_fs = 0,
       tf_es = 0, tf_ds = 0, tf_trapno = 0, tf_err = 0, tf_eip = 0, tf_cs = 0, tf_eflags = 0, tf_esp = 0, tf_ss = 0\<rparr>,
     p_retaddr = 0, p_context = zero_context, p_chan = None, p_killed = False, p_ofile = replicate 16 None, p_cwd = None,
     p_name = replicate 16 0, p_priority = 0, p_start_ticks = 0, p_uid = 0, p_gid = 0\<rparr>"

definition kpr0 :: "hw \<Rightarrow> proc list \<Rightarrow> kpr" where
  "kpr0 h ps = \<lparr>khw = h, cout = [], cons_locking = True, pmem = \<lambda>_. 0, kfreelist = 0x80200000, kmem_use_lock = True,
     kend = 0x80115000, kpgdir = 0x80300000, kdata = 0x80108000, cr3 = \<lambda>_. 0x300000,
     gdt = \<lambda>_ _. SEG16 0 0 0 0, ts_esp0 = \<lambda>_. 0, ts_ss0 = \<lambda>_. 0, ts_iomb = \<lambda>_. 0, ts_addr = \<lambda>_. 0,
     procs = ps, nextpid = 3, initproc = Some 0, ticks = 0, forkret_addr = 0, trapret_addr = 0\<rparr>"

definition run_cpu :: "bool \<Rightarrow> nat option \<Rightarrow> hw" where
  "run_cpu f p = two_cpus\<lparr>cpus := (cpus two_cpus)[0 := (cpus two_cpus ! 0)\<lparr>cproc := p\<rparr>], ifl := \<lambda>_. f\<rparr>"

lemma run_cpu_good [simp]:
  "kgood (kpr0 (run_cpu f p) ps)" "kfree_lk lk (kpr0 (run_cpu f p) ps)" "kdepth (kpr0 (run_cpu f p) ps) = 0"
  "cur (kpr0 (run_cpu f p) ps) = p" "readeflags_if (khw (kpr0 (run_cpu f p) ps)) = f" "procs (kpr0 h ps) = ps"
  by (simp_all add: kpr0_def run_cpu_def two_cpus_def kgood_def hwgood_def kfree_lk_def lkfree_def kdepth_def cur_def
      this_cpu_def readeflags_if_def)

lemma kmem_inv_kpr0: "kmem_inv [0x80200000] (kpr0 (run_cpu f p) ps)"
proof -
  have "kgood (kpr0 (run_cpu f p) ps)" "kfree_lk Lkmem (kpr0 (run_cpu f p) ps)" by simp_all
  then show ?thesis by (simp add: kmem_inv_def kmem_ready_def) (simp add: kpr0_def page_ok_def V2P_def load4_def)
qed

theorem scheduler_picks_best_witness:
  "\<exists>t. scheduler (kpr0 (run_cpu False None)
       [proc0\<lparr>p_state := RUNNABLE, p_kstack := 0x80400000, p_pgdir := 0x80401000, p_priority := 10\<rparr>,
        proc0\<lparr>p_state := RUNNABLE, p_kstack := 0x80402000, p_pgdir := 0x80403000, p_priority := 3\<rparr>])
     = Ret (Some 1) (klock Lptable t) \<and> cur t = Some 1"
proof -
  let ?s = "kpr0 (run_cpu False None)
       [proc0\<lparr>p_state := RUNNABLE, p_kstack := 0x80400000, p_pgdir := 0x80401000, p_priority := 10\<rparr>,
        proc0\<lparr>p_state := RUNNABLE, p_kstack := 0x80402000, p_pgdir := 0x80403000, p_priority := 3\<rparr>]"
  obtain h t where "scheduler ?s = Ret (Some h) (klock Lptable t)" "h < length (procs ?s)" "cur t = Some h"
    "\<forall>j<length (procs ?s). p_state (procs ?s ! j) = RUNNABLE \<longrightarrow> p_priority (procs ?s ! h) \<le> p_priority (procs ?s ! j)"
    using scheduler_picks_best[of ?s 0] by auto
  moreover from this(2,4) have "h = 1" by (cases h) auto
  ultimately show ?thesis by auto
qed

text \<open>The two can run to their ends, for example one after the other.\<close>

lemma sleeping_pair_finishes:
  assumes I: "asleep_inv a b i ch lk ea eb 0 0 s" and ne: "a \<noteq> b" "lk \<noteq> Lptable" and f: "\<And>s. khw (f s) = khw s" "\<And>s. procs (f s) = procs s"
  shows "\<exists>t. cpus_step\<^sup>*\<^sup>* (s, sleeping_pair a b (sleeper ch i lk) (waker f ch lk)) (t, \<lambda>_. [])"
proof -
  have sl: "\<exists>t. cpus_step\<^sup>*\<^sup>* (s, pair_left a b i ch lk f 0 0) (t, pair_left a b i ch lk f x 0) \<and> asleep_inv a b i ch lk ea eb x 0 t" if "x \<le> 6" for x
    using that
  proof (induction x)
    case 0
    then show ?case using I by blast
  next
    case (Suc x)
    then obtain t where t: "cpus_step\<^sup>*\<^sup>* (s, pair_left a b i ch lk f 0 0) (t, pair_left a b i ch lk f x 0)" "asleep_inv a b i ch lk ea eb x 0 t" by auto
    obtain t' where t': "(sleeper ch i lk ! x) (on_cpu a t) = Ret () t' \<or> (sleeper ch i lk ! x) (on_cpu a t) = Blocked t'" "asleep_inv a b i ch lk ea eb (Suc x) 0 t'"
      using sleeper_step[OF t(2) ne] Suc.prems by auto
    have p: "pair_left a b i ch lk f x 0 a = sleeper ch i lk ! x # drop (Suc x) (sleeper ch i lk)"
      using Suc.prems ne by (simp add: sleeping_pair_def sleeper_eq Cons_nth_drop_Suc del: drop_Suc_Cons nth_Cons_Suc)
    have "(pair_left a b i ch lk f x 0)(a := drop (Suc x) (sleeper ch i lk)) = pair_left a b i ch lk f (Suc x) 0" using ne by (auto simp: sleeping_pair_def)
    then have "cpus_step (t, pair_left a b i ch lk f x 0) (t', pair_left a b i ch lk f (Suc x) 0)"
      using t'(1) cpus_step.runs[where ts = "pair_left a b i ch lk f x 0", OF p] cpus_step.switches[where ts = "pair_left a b i ch lk f x 0", OF p] by metis
    then show ?case using t(1) t'(2) by (meson rtranclp.rtrancl_into_rtrancl)
  qed
  obtain u where u: "cpus_step\<^sup>*\<^sup>* (s, pair_left a b i ch lk f 0 0) (u, pair_left a b i ch lk f 6 0)" "asleep_inv a b i ch lk ea eb 6 0 u" using sl[of 6] by auto
  have "\<exists>t. cpus_step\<^sup>*\<^sup>* (s, pair_left a b i ch lk f 0 0) (t, pair_left a b i ch lk f 6 y) \<and> asleep_inv a b i ch lk ea eb 6 y t" if "y \<le> 6" for y
    using that
  proof (induction y)
    case 0
    then show ?case using u by blast
  next
    case (Suc y)
    then obtain t where t: "cpus_step\<^sup>*\<^sup>* (s, pair_left a b i ch lk f 0 0) (t, pair_left a b i ch lk f 6 y)" "asleep_inv a b i ch lk ea eb 6 y t" by auto
    obtain t' where t': "(waker f ch lk ! y) (on_cpu b t) = Ret () t'" "asleep_inv a b i ch lk ea eb 6 (Suc y) t'"
      using waker_step[OF t(2) ne _ f] Suc.prems by auto
    have p: "pair_left a b i ch lk f 6 y b = waker f ch lk ! y # drop (Suc y) (waker f ch lk)"
      using Suc.prems by (simp add: sleeping_pair_def waker_eq Cons_nth_drop_Suc del: drop_Suc_Cons nth_Cons_Suc)
    have "(pair_left a b i ch lk f 6 y)(b := drop (Suc y) (waker f ch lk)) = pair_left a b i ch lk f 6 (Suc y)" by (auto simp: sleeping_pair_def)
    then have "cpus_step (t, pair_left a b i ch lk f 6 y) (t', pair_left a b i ch lk f 6 (Suc y))"
      using t'(1) cpus_step.runs[where ts = "pair_left a b i ch lk f 6 y", OF p] by metis
    then show ?case using t(1) t'(2) by (meson rtranclp.rtrancl_into_rtrancl)
  qed
  moreover have "pair_left a b i ch lk f 6 6 = (\<lambda>_. [])" using ne by (simp add: sleeper_eq waker_eq sleeping_pair_def fun_eq_iff)
  ultimately show ?thesis using drop_0 order_refl by metis
qed


text \<open>The identifiers in the table: non-zero ones are unique and below the next one to be given out.\<close>

definition pid_inv :: "'z kpr_scheme \<Rightarrow> bool" where
  "pid_inv s \<longleftrightarrow> 0 < nextpid s \<and> (\<forall>i<length (procs s). p_pid (procs s ! i) < nextpid s)
     \<and> (\<forall>i<length (procs s). \<forall>j<length (procs s). p_pid (procs s ! i) = p_pid (procs s ! j) \<longrightarrow>
          p_pid (procs s ! i) \<noteq> 0 \<longrightarrow> i = j)"

lemma pid_inv_set_next:
  assumes "pid_inv s" "nextpid s < 2147483647" "i < length (procs s)" "\<And>p. p_pid (f p) = nextpid s" "nextpid t = int32 (nextpid s + 1)"
    "procs t = (procs s)[i := f (procs s ! i)]"
  shows "pid_inv t"
  using assms int32_small[of "nextpid s + 1", unfolded in_int_def] unfolding pid_inv_def by (auto simp: nth_list_update; fastforce)

text \<open>
  C33: \<^verbatim>\<open>allocproc\<close> always returns.  Until the counter, a 32-bit \<^verbatim>\<open>int\<close>, reaches its largest value, it keeps the process identifiers unique, whether or not it finds
  an entry and a page for the kernel stack; the entry it returns was unused, is an embryo with an
  identifier no other entry has and with a kernel stack taken from the free list, and no other entry
  changes.
\<close>

theorem allocproc_fresh_pid:
  assumes "kgood s" "kfree_lk Lptable s" "kfree_lk Lkmem s" "kmem_inv xs s" "pid_inv s" "nextpid s < 2147483647"
  shows "\<exists>r t. allocproc s = Ret r t \<and> pid_inv t \<and> kmem_inv (if r = None then xs else tl xs) t
    \<and> (r = None \<longleftrightarrow> xs = [] \<or> (\<forall>p\<in>set (procs s). p_state p \<noteq> UNUSED))
    \<and> (\<forall>i. r = Some i \<longrightarrow> i < length (procs s) \<and> p_state (procs s ! i) = UNUSED \<and> p_state (procs t ! i) = EMBRYO
        \<and> p_kstack (procs t ! i) = hd xs \<and> c_eip (p_context (procs t ! i)) = forkret_addr s
        \<and> (\<forall>j<length (procs s). j \<noteq> i \<longrightarrow> procs t ! j = procs s ! j \<and> p_pid (procs t ! j) \<noteq> p_pid (procs t ! i)))"
proof (cases "find_idx (\<lambda>p. p_state p = UNUSED) (procs s)")
  case None
  have "pid_inv (ksettle s)" "kmem_inv xs (ksettle s)" using assms by (simp_all add: pid_inv_def kmem_inv_def kmem_ready_def)
  moreover have "allocproc s = Ret None (ksettle s)" using None allocproc_net[OF assms(1-4)] by (simp del: find_idx_None_iff)
  ultimately show ?thesis using None by (intro exI[of _ None] exI[of _ "ksettle s"]) simp
next
  case (Some i)
  note F = find_idx_SomeD[OF Some]
  then have un: "\<not> (\<forall>p\<in>set (procs s). p_state p \<noteq> UNUSED)" using nth_mem by blast
  show ?thesis
  proof (cases xs)
    case Nil
    let ?t = "ksettle (upd_proc i (\<lambda>p. p\<lparr>p_pid := nextpid s, p_priority := 10, p_kstack := 0, p_state := UNUSED\<rparr>)
                      (s\<lparr>nextpid := int32 (nextpid s + 1)\<rparr>))"
    have "pid_inv ?t" by (rule pid_inv_set_next[OF assms(5,6)]) (use F in \<open>simp_all add: upd_proc_def\<close>)
    moreover have "kmem_inv xs ?t" using assms(1,4) by (simp add: kmem_inv_def kmem_ready_def)
    ultimately show ?thesis using Nil allocproc_net[OF assms(1-4)] Some by simp
  next
    case (Cons x ys)
    let ?t = "ksettle (upd_proc i (newborn s x) (s\<lparr>nextpid := int32 (nextpid s + 1), kfreelist := unat (load4 (pmem s) (kfreelist s))\<rparr>))"
    have p: "pid_inv ?t" by (rule pid_inv_set_next[OF assms(5,6)]) (use F in \<open>simp_all add: upd_proc_def newborn_def\<close>)
    have "kmem_inv ys ?t" using assms(1,3,4) Cons by (auto simp: kmem_inv_def kmem_ready_def)
    moreover have "p_pid (procs s ! j) \<noteq> nextpid s" if "j < length (procs s)" for j
      using assms(5) that unfolding pid_inv_def by force
    ultimately show ?thesis using Cons allocproc_net[OF assms(1-4)] Some F p un
      by (intro exI[of _ "Some i"] exI[of _ ?t]) (simp add: newborn_def upd_proc_def)
  qed
qed

theorem allocproc_fresh_pid_witness:
  "\<exists>t. allocproc (kpr0 (run_cpu True (Some 0)) [proc0\<lparr>p_state := RUNNING, p_pid := 2\<rparr>, proc0]) = Ret (Some 1) t
     \<and> p_pid (procs t ! 0) \<noteq> p_pid (procs t ! 1) \<and> p_state (procs t ! 1) = EMBRYO"
proof -
  let ?s = "kpr0 (run_cpu True (Some 0)) [proc0\<lparr>p_state := RUNNING, p_pid := 2\<rparr>, proc0]"
  note k = kmem_inv_kpr0[of True "Some 0" "[proc0\<lparr>p_state := RUNNING, p_pid := 2\<rparr>, proc0]"]
  have p: "pid_inv ?s" by (auto simp: pid_inv_def kpr0_def proc0_def less_Suc_eq)
  have np: "nextpid ?s < 2147483647" by (simp add: kpr0_def)
  obtain r t where R: "allocproc ?s = Ret r t" "r \<noteq> None"
     "\<forall>i. r = Some i \<longrightarrow> i < length (procs ?s) \<and> p_state (procs ?s ! i) = UNUSED \<and> p_state (procs t ! i) = EMBRYO
        \<and> (\<forall>j<length (procs ?s). j \<noteq> i \<longrightarrow> p_pid (procs t ! j) \<noteq> p_pid (procs t ! i))"
    using allocproc_fresh_pid[OF _ _ _ k p np] by (auto simp: proc0_def)
  then obtain i where i: "r = Some i" "i < 2" "p_state (procs ?s ! i) = UNUSED" by auto
  then have "i = 1" by (auto simp: less_2_cases_iff)
  then show ?thesis using R i by auto
qed


lemma sint_small: "x \<le> 32767 \<Longrightarrow> sint (x :: u32) = uint x"
proof -
  assume "x \<le> 32767"
  then have "uint x < 2 ^ 31" by (simp add: word_le_def)
  moreover have "- (2 ^ 31) \<le> uint x" by (rule order_trans[OF _ uint_ge_0]) simp
  ultimately have "signed_take_bit 31 (uint x) = uint x" by (intro signed_take_bit_int_eq_self) simp_all
  then show ?thesis by (simp add: sint_uint)
qed

lemma id_out_of_range_net:
  assumes "kgood s" "kfree_lk Lptable s" "kfree_lk Lcons s" "what = ''uid'' \<or> what = ''gid''"
  shows "\<exists>out. id_out_of_range what x (klock Lptable s) = Ret (-1) (ksettle (s\<lparr>cout := cout s @ out\<rparr>))"
proof -
  have "\<exists>out. cprintf_text (bytes_of (unesc (''Error: %d is out of bounds. '' @ what @ '' will not be changed.^n''))) [ANum x] = Some out"
    using assms(4) by (elim disjE) (simp_all add: bytes_of_def)
  then obtain out where o: "cprintf_text (bytes_of (unesc (''Error: %d is out of bounds. '' @ what @ '' will not be changed.^n''))) [ANum x] = Some out" ..
  show ?thesis
    using cprintf_good[of "klock Lptable s", OF _ _ o] assms
    by (cases "cons_locking s") (auto simp: id_out_of_range_def print_def kdefs settle_if_def simp del: append.simps)
qed

text \<open>
  \<^verbatim>\<open>setuid\<close> and \<^verbatim>\<open>setgid\<close> accept exactly the numbers up to 32767: such a number becomes the
  caller's identifier and is returned, and nothing else in the process table changes; for any other
  argument they return -1 and the table is unchanged.  Both release the table lock.
\<close>

theorem setid_range:
  assumes "kgood s" "kfree_lk Lptable s" "kfree_lk Lcons s" "cur s = Some i" "i < length (procs s)"
  shows "(\<exists>r t. setuid x s = Ret r t \<and> kfree_lk Lptable t \<and> kgood t
      \<and> (if x \<le> 32767 then r = uint x \<and> procs t = (procs s)[i := (procs s ! i)\<lparr>p_uid := x\<rparr>] else r = -1 \<and> procs t = procs s))
    \<and> (\<exists>r t. setgid x s = Ret r t \<and> kfree_lk Lptable t \<and> kgood t
      \<and> (if x \<le> 32767 then r = uint x \<and> procs t = (procs s)[i := (procs s ! i)\<lparr>p_gid := x\<rparr>] else r = -1 \<and> procs t = procs s))"
proof -
  obtain o1 where o1: "id_out_of_range ''uid'' x (klock Lptable s) = Ret (-1) (ksettle (s\<lparr>cout := cout s @ o1\<rparr>))"
    using id_out_of_range_net[OF assms(1-3)] by blast
  obtain o2 where o2: "id_out_of_range ''gid'' x (klock Lptable s) = Ret (-1) (ksettle (s\<lparr>cout := cout s @ o2\<rparr>))"
    using id_out_of_range_net[OF assms(1-3)] by blast
  have "(\<exists>r t. setuid x s = Ret r t \<and> kfree_lk Lptable t \<and> kgood t
      \<and> (if x \<le> 32767 then r = uint x \<and> procs t = (procs s)[i := (procs s ! i)\<lparr>p_uid := x\<rparr>] else r = -1 \<and> procs t = procs s))"
    using assms o1 by (cases "x \<le> 32767") (simp_all add: setuid_def kdefs sint_small, simp add: upd_proc_def)
  moreover have "(\<exists>r t. setgid x s = Ret r t \<and> kfree_lk Lptable t \<and> kgood t
      \<and> (if x \<le> 32767 then r = uint x \<and> procs t = (procs s)[i := (procs s ! i)\<lparr>p_gid := x\<rparr>] else r = -1 \<and> procs t = procs s))"
    using assms o2 by (cases "x \<le> 32767") (simp_all add: setgid_def kdefs sint_small, simp add: upd_proc_def)
  ultimately show ?thesis by (rule conjI)
qed

theorem setid_range_witness:
  "(\<exists>t. setuid 40000 (kpr0 (run_cpu True (Some 0)) [proc0\<lparr>p_state := RUNNING, p_uid := 5\<rparr>]) = Ret (-1) t \<and> p_uid (procs t ! 0) = 5)
   \<and> (\<exists>t. setgid 77 (kpr0 (run_cpu True (Some 0)) [proc0\<lparr>p_state := RUNNING, p_gid := 5\<rparr>]) = Ret 77 t \<and> p_gid (procs t ! 0) = 77)"
  using setid_range[of "kpr0 (run_cpu True (Some 0)) [proc0\<lparr>p_state := RUNNING, p_uid := 5\<rparr>]" 0 40000]
    setid_range[of "kpr0 (run_cpu True (Some 0)) [proc0\<lparr>p_state := RUNNING, p_gid := 5\<rparr>]" 0 77]
  by auto

text \<open>
  \<^verbatim>\<open>kill\<close> does not look at the state of an entry: identifier 0 matches the first unused slot, whose
  killed flag \<^verbatim>\<open>allocproc\<close> does not clear, so the next process made in it starts out killed.
\<close>

lemma kill_unused_slot:
  "\<exists>t u. kill 0 (kpr0 (run_cpu True (Some 0)) [proc0\<lparr>p_state := RUNNING, p_pid := 2\<rparr>, proc0]) = Ret 0 t
     \<and> allocproc t = Ret (Some 1) u \<and> p_killed (procs u ! 1)"
proof -
  let ?s = "kpr0 (run_cpu True (Some 0)) [proc0\<lparr>p_state := RUNNING, p_pid := 2\<rparr>, proc0]"
  let ?t = "ksettle (upd_proc 1 (\<lambda>p. p\<lparr>p_killed := True, p_state := (if p_state p = SLEEPING then RUNNABLE else p_state p)\<rparr>) ?s)"
  have k: "kmem_inv [0x80200000] ?t"
    using kmem_inv_kpr0[of True "Some 0" "[proc0\<lparr>p_state := RUNNING, p_pid := 2\<rparr>, proc0]"]
    by (simp add: kmem_inv_def kmem_ready_def)
  have "kill 0 ?s = Ret 0 ?t" by (simp add: kill_net) (simp add: proc0_def)
  moreover have "\<exists>u. allocproc ?t = Ret (Some 1) u \<and> p_killed (procs u ! 1)"
    using allocproc_net[OF _ _ _ k] by (simp add: upd_proc_def proc0_def newborn_def)
  ultimately show ?thesis by blast
qed

end
