(* ===== verification/Device.thy ===== *)
theory Device
  imports Proc
begin

unbundle bit_operations_syntax

text \<open>
  Port input and output (\<^verbatim>\<open>x86.h\<close>) and the simple devices behind it: the interrupt controllers
  (\<^verbatim>\<open>picirq.c\<close>, \<^verbatim>\<open>ioapic.c\<close>, \<^verbatim>\<open>lapic.c\<close>), the real-time clock, the serial port (\<^verbatim>\<open>uart.c\<close>), the keyboard
  (\<^verbatim>\<open>kbd.c\<close>, \<^verbatim>\<open>kbd.h\<close>), and the search for the multiprocessor tables (\<^verbatim>\<open>mp.c\<close>, \<^verbatim>\<open>mp.h\<close>).
  What a device sends on a port is the finite list \<open>inports\<close>; a read beyond its end waits for
  ever (\<open>Spin\<close>).  What the kernel sends is recorded in \<open>outs\<close> in order.
\<close>

record kdev = kpr +
  inports :: "nat \<Rightarrow> byte list"
  outs :: "(nat \<times> byte) list"
  ioapic :: "nat \<Rightarrow> u32"
  lapic :: "(nat \<Rightarrow> u32) option"
  ioapicid :: byte
  uart :: bool
  kbd_shift :: u32

definition inb :: "nat \<Rightarrow> ('z kdev_scheme, byte) K" where
  "inb port s =
     (case inports s port of
        [] \<Rightarrow> Spin
      | b # bs \<Rightarrow> Ret b (s\<lparr>inports := (inports s)(port := bs)\<rparr>))"

definition outb :: "nat \<Rightarrow> byte \<Rightarrow> ('z kdev_scheme, unit) K" where
  "outb port b = kmod (\<lambda>s. s\<lparr>outs := outs s @ [(port, b)]\<rparr>)"

definition insl :: "nat \<Rightarrow> nat \<Rightarrow> ('z kdev_scheme, byte list) K" where
  "insl port cnt = kreplicate (4 * cnt) (inb port)"

definition outsl :: "nat \<Rightarrow> byte list \<Rightarrow> ('z kdev_scheme, unit) K" where
  "outsl port bs = kfor bs (outb port)"

section \<open>Interrupt controllers\<close>

definition picinit :: "('z kdev_scheme, unit) K" where
  "picinit = kthen (outb 0x21 0xFF) (outb 0xA1 0xFF)"

definition ioapicread :: "nat \<Rightarrow> ('z kdev_scheme, u32) K" where
  "ioapicread reg = kget (\<lambda>s. ioapic s reg)"

definition ioapicwrite :: "nat \<Rightarrow> u32 \<Rightarrow> ('z kdev_scheme, unit) K" where
  "ioapicwrite reg data = kmod (\<lambda>s. s\<lparr>ioapic := (ioapic s)(reg := data)\<rparr>)"

definition ioapicinit :: "('z kdev_scheme, unit) K" where
  "ioapicinit =
     kbind (ioapicread 1) (\<lambda>ver.
     let maxintr = unat (drop_bit 16 ver AND 0xFF) in
     kbind (ioapicread 0) (\<lambda>r.
     kbind (kget ioapicid) (\<lambda>me.
     kthen (kwhen (drop_bit 24 r \<noteq> ucast me) (print ''ioapicinit: id isn't equal to ioapicid; not a MP^n'' []))
       (kfor [0..<Suc maxintr] (\<lambda>i.
          kthen (ioapicwrite (0x10 + 2 * i) (0x00010000 OR of_nat (32 + i)))
            (ioapicwrite (0x10 + 2 * i + 1) 0))))))"

definition ioapicenable :: "nat \<Rightarrow> nat \<Rightarrow> ('z kdev_scheme, unit) K" where
  "ioapicenable irq cpunum =
     kthen (ioapicwrite (0x10 + 2 * irq) (of_nat (32 + irq)))
       (ioapicwrite (0x10 + 2 * irq + 1) (push_bit 24 (of_nat cpunum)))"

text \<open>The registers of the local APIC by index; the pointer is null until the tables have been read.\<close>

definition lapicw :: "nat \<Rightarrow> u32 \<Rightarrow> ('z kdev_scheme, unit) K" where
  "lapicw index value =
     kbind (kget lapic) (\<lambda>l. kderef l (\<lambda>r. kmod (\<lambda>s. s\<lparr>lapic := Some (r(index := value))\<rparr>)))"

definition lapicinit :: "('z kdev_scheme, unit) K" where
  "lapicinit =
     kbind (kget lapic) (\<lambda>l.
     case l of
       None \<Rightarrow> kret ()
     | Some r \<Rightarrow>
         kthen (kfor [(0x3C, 0x100 OR 63), (0xF8, 0xB), (0xC8, 0x20000 OR 32), (0xE0, 10000000),
                      (0xD4, 0x10000), (0xD8, 0x10000)] (\<lambda>(i, v). lapicw i v)) (
         kthen (kwhen (drop_bit 16 (r 0xC) AND 0xFF \<ge> 4) (lapicw 0xD0 0x10000)) (
         kthen (kfor [(0xDC, 51), (0xA0, 0), (0xA0, 0), (0x2C, 0), (0xC4, 0), (0xC0, 0x80000 OR 0x500 OR 0x8000)]
                  (\<lambda>(i, v). lapicw i v)) (
         kbind (kget lapic) (\<lambda>l'. kderef l' (\<lambda>r'.
         if r' 0xC0 AND 0x1000 \<noteq> 0 then (\<lambda>_. Spin) else lapicw 0x20 0))))))"

definition lapic_id :: "('z kdev_scheme, u32) K" where
  "lapic_id = kget (\<lambda>s. case lapic s of None \<Rightarrow> 0 | Some r \<Rightarrow> drop_bit 24 (r 8))"

definition lapiceoi :: "('z kdev_scheme, unit) K" where
  "lapiceoi = kbind (kget lapic) (\<lambda>l. kwhen (l \<noteq> None) (lapicw 0x2C 0))"

definition lapicstartap :: "byte \<Rightarrow> u32 \<Rightarrow> ('z kdev_scheme, unit) K" where
  "lapicstartap apic addr =
     kthen (outb 0x70 0xF) (
     kthen (outb 0x71 0x0A) (
     kthen (kmod (\<lambda>s. s\<lparr>pmem := put_bytes (pmem s) (P2V 0x467)
         [0, 0, ucast (drop_bit 4 addr), ucast (drop_bit 12 addr)]\<rparr>)) (
     kthen (lapicw 0xC4 (push_bit 24 (ucast apic))) (
     kthen (lapicw 0xC0 (0x500 OR 0x8000 OR 0x4000)) (
     kthen (lapicw 0xC0 (0x500 OR 0x8000))
       (kfor [0..<2] (\<lambda>_ :: nat.
          kthen (lapicw 0xC4 (push_bit 24 (ucast apic)))
            (lapicw 0xC0 (0x600 OR drop_bit 12 addr)))))))))"

section \<open>The clock\<close>

record rtcdate =
  second :: u32
  minute :: u32
  hour :: u32
  day :: u32
  month :: u32
  year :: u32

definition cmos_read :: "byte \<Rightarrow> ('z kdev_scheme, u32) K" where
  "cmos_read reg = kthen (outb 0x70 reg) (kbind (inb 0x71) (\<lambda>b. kret (ucast b)))"

definition fill_rtcdate :: "('z kdev_scheme, rtcdate) K" where
  "fill_rtcdate =
     kbind (cmos_read 0) (\<lambda>sec. kbind (cmos_read 2) (\<lambda>mi. kbind (cmos_read 4) (\<lambda>h.
     kbind (cmos_read 7) (\<lambda>d. kbind (cmos_read 8) (\<lambda>mo. kbind (cmos_read 9) (\<lambda>y.
     kret \<lparr>second = sec, minute = mi, hour = h, day = d, month = mo, year = y\<rparr>))))))"

text \<open>Every turn of the loop reads the data port, so the input left bounds the number of turns.\<close>

primrec cmos_loop :: "nat \<Rightarrow> ('z kdev_scheme, rtcdate) K" where
  "cmos_loop 0 = (\<lambda>_. Spin)"
| "cmos_loop (Suc fuel) =
     kbind fill_rtcdate (\<lambda>t1.
     kbind (cmos_read 0x0A) (\<lambda>a.
     if a AND 0x80 \<noteq> 0 then cmos_loop fuel
     else
       kbind fill_rtcdate (\<lambda>t2.
       if t1 = t2 then kret t1 else cmos_loop fuel)))"

definition conv :: "u32 \<Rightarrow> u32" where
  "conv x = drop_bit 4 x * 10 + (x AND 0xF)"

definition cmostime :: "('z kdev_scheme, rtcdate) K" where
  "cmostime =
     kbind (cmos_read 0x0B) (\<lambda>sb.
     kbind (kget (\<lambda>s. length (inports s 0x71))) (\<lambda>fuel.
     kbind (cmos_loop (Suc fuel)) (\<lambda>t1.
     let t = (if sb AND 4 = 0
              then \<lparr>second = conv (second t1), minute = conv (minute t1), hour = conv (hour t1), day = conv (day t1),
                    month = conv (month t1), year = conv (year t1)\<rparr>
              else t1)
     in kret (t\<lparr>year := year t + 2000\<rparr>))))"

section \<open>The serial port\<close>

primrec uart_wait :: "nat \<Rightarrow> ('z kdev_scheme, unit) K" where
  "uart_wait 0 = kret ()"
| "uart_wait (Suc n) = kbind (inb 0x3FD) (\<lambda>st. if st AND 0x20 \<noteq> 0 then kret () else uart_wait n)"

definition uartputc :: "byte \<Rightarrow> ('z kdev_scheme, unit) K" where
  "uartputc c =
     kbind (kget uart) (\<lambda>u. kwhen u (kthen (uart_wait 128) (outb 0x3F8 c)))"

definition uartinit :: "('z kdev_scheme, unit) K" where
  "uartinit =
     kthen (kfor [(0x3FA, 0), (0x3FB, 0x80), (0x3F8, 12), (0x3F9, 0), (0x3FB, 3), (0x3FC, 0), (0x3F9, 1)]
              (\<lambda>(p, b). outb p b)) (
     kbind (inb 0x3FD) (\<lambda>st.
     if st = 0xFF then kret ()
     else
       kthen (kmod (\<lambda>s. s\<lparr>uart := True\<rparr>)) (
       kthen (inb 0x3FA) (
       kthen (inb 0x3F8) (
       kthen (ioapicenable 4 0)
         (kfor (bytes_of (unesc ''xv6...^n'')) uartputc))))))"

definition uartgetc :: "('z kdev_scheme, int) K" where
  "uartgetc =
     kbind (kget uart) (\<lambda>u.
     if \<not> u then kret (-1)
     else
       kbind (inb 0x3FD) (\<lambda>st.
       if st AND 1 = 0 then kret (-1) else kbind (inb 0x3F8) (\<lambda>c. kret (uint c))))"

section \<open>The keyboard\<close>

text \<open>The tables of \<^verbatim>\<open>kbd.h\<close>: the leading entries in order, then the designated ones; all others are 0.\<close>

definition key_table :: "byte list \<Rightarrow> (nat \<times> byte) list \<Rightarrow> nat \<Rightarrow> byte" where
  "key_table row extra i =
     (case map_of extra i of Some v \<Rightarrow> v | None \<Rightarrow> if i < length row then row ! i else 0)"

definition shiftcode :: "nat \<Rightarrow> byte" where
  "shiftcode = key_table
    []
    [(0x1D, 2), (0x2A, 1), (0x36, 1), (0x38, 4), (0x9D, 2), (0xB8, 4)]"

definition togglecode :: "nat \<Rightarrow> byte" where
  "togglecode = key_table
    []
    [(0x3A, 8), (0x45, 16), (0x46, 32)]"

definition normalmap :: "nat \<Rightarrow> byte" where
  "normalmap = key_table
    [
       0, 27, 49, 50, 51, 52, 53, 54, 55, 56, 57, 48, 45, 61, 8, 9,
       113, 119, 101, 114, 116, 121, 117, 105, 111, 112, 91, 93, 10, 0, 97, 115,
       100, 102, 103, 104, 106, 107, 108, 59, 39, 96, 0, 92, 122, 120, 99, 118,
       98, 110, 109, 44, 46, 47, 0, 42, 0, 32, 0, 0, 0, 0, 0, 0,
       0, 0, 0, 0, 0, 0, 0, 55, 56, 57, 45, 52, 53, 54, 43, 49,
       50, 51, 48, 46, 0, 0, 0, 0]
    [(0x9C, 10), (0xB5, 47), (0xC8, 226), (0xD0, 227), (0xC9, 230), (0xD1, 231), (0xCB, 228), (0xCD, 229),
     (0x97, 224), (0xCF, 225), (0xD2, 232), (0xD3, 233)]"

definition shiftmap :: "nat \<Rightarrow> byte" where
  "shiftmap = key_table
    [
       0, 27, 33, 64, 35, 36, 37, 94, 38, 42, 40, 41, 95, 43, 8, 9,
       81, 87, 69, 82, 84, 89, 85, 73, 79, 80, 123, 125, 10, 0, 65, 83,
       68, 70, 71, 72, 74, 75, 76, 58, 34, 126, 0, 124, 90, 88, 67, 86,
       66, 78, 77, 60, 62, 63, 0, 42, 0, 32, 0, 0, 0, 0, 0, 0,
       0, 0, 0, 0, 0, 0, 0, 55, 56, 57, 45, 52, 53, 54, 43, 49,
       50, 51, 48, 46, 0, 0, 0, 0]
    [(0x9C, 10), (0xB5, 47), (0xC8, 226), (0xD0, 227), (0xC9, 230), (0xD1, 231), (0xCB, 228), (0xCD, 229),
     (0x97, 224), (0xCF, 225), (0xD2, 232), (0xD3, 233)]"

definition ctlmap :: "nat \<Rightarrow> byte" where
  "ctlmap = key_table
    [
       0, 0, 0, 0, 0, 0, 0, 0, 0, 0, 0, 0, 0, 0, 0, 0,
       17, 23, 5, 18, 20, 25, 21, 9, 15, 16, 0, 0, 13, 0, 1, 19,
       4, 6, 7, 8, 10, 11, 12, 0, 0, 0, 0, 28, 26, 24, 3, 22,
       2, 14, 13, 0, 0, 239, 0, 0]
    [(0x9C, 13), (0xB5, 239), (0xC8, 226), (0xD0, 227), (0xC9, 230), (0xD1, 231), (0xCB, 228), (0xCD, 229),
     (0x97, 224), (0xCF, 225), (0xD2, 232), (0xD3, 233)]"

definition charcode :: "nat \<Rightarrow> nat \<Rightarrow> byte" where
  "charcode k = [normalmap, shiftmap, ctlmap, ctlmap] ! k"

definition kbdgetc :: "('z kdev_scheme, int) K" where
  "kbdgetc =
     kbind (inb 0x64) (\<lambda>st.
     if st AND 1 = 0 then kret (-1)
     else
       kbind (inb 0x60) (\<lambda>code.
       kbind (kget kbd_shift) (\<lambda>shift.
       if code = 0xE0 then kthen (kmod (\<lambda>s. s\<lparr>kbd_shift := shift OR 0x40\<rparr>)) (kret 0)
       else if code AND 0x80 \<noteq> 0 then
         (let data = (if shift AND 0x40 \<noteq> 0 then code else code AND 0x7F) in
          kthen (kmod (\<lambda>s. s\<lparr>kbd_shift := shift AND NOT (ucast (shiftcode (unat data)) OR 0x40)\<rparr>)) (kret 0))
       else
         (let data = (if shift AND 0x40 \<noteq> 0 then code OR 0x80 else code);
              sh0 = (if shift AND 0x40 \<noteq> 0 then shift AND NOT 0x40 else shift);
              sh1 = sh0 OR ucast (shiftcode (unat data));
              sh2 = sh1 XOR ucast (togglecode (unat data));
              c = charcode (unat (sh2 AND 3)) (unat data);
              c' = (if sh2 AND 8 \<noteq> 0
                    then (if 97 \<le> c \<and> c \<le> 122 then c - 32 else if 65 \<le> c \<and> c \<le> 90 then c + 32 else c)
                    else c)
          in kthen (kmod (\<lambda>s. s\<lparr>kbd_shift := sh2\<rparr>)) (kret (uint c'))))))"

section \<open>Finding the processors\<close>

definition byte_sum :: "memory \<Rightarrow> nat \<Rightarrow> nat \<Rightarrow> byte" where
  "byte_sum m a len = sum_list (get_bytes m a len)"

definition load2 :: "memory \<Rightarrow> nat \<Rightarrow> nat" where
  "load2 m a = unat (m a) + 256 * unat (m (a + 1))"

definition mpsearch1 :: "memory \<Rightarrow> nat \<Rightarrow> nat \<Rightarrow> nat option" where
  "mpsearch1 m a len =
     find (\<lambda>p. get_bytes m p 4 = bytes_of ''_MP_'' \<and> byte_sum m p 16 = 0)
       (map (\<lambda>k. P2V a + 16 * k) [0..<(len + 15) div 16])"

definition mpsearch :: "memory \<Rightarrow> nat option" where
  "mpsearch m =
     (let bda = P2V 0x400;
          p = (256 * unat (m (bda + 0x0F)) + unat (m (bda + 0x0E))) * 16;
          q = (256 * unat (m (bda + 0x14)) + unat (m (bda + 0x13))) * 1024;
          hit = (if p \<noteq> 0 then mpsearch1 m p 1024 else mpsearch1 m ((q + 2 ^ 32 - 1024) mod 2 ^ 32) 1024)
      in case hit of Some mp \<Rightarrow> Some mp | None \<Rightarrow> mpsearch1 m 0xF0000 0x10000)"

text \<open>The floating pointer and the configuration table, if there is an acceptable one.\<close>

definition mpconfig :: "memory \<Rightarrow> (nat \<times> nat) option" where
  "mpconfig m =
     (case mpsearch m of
        None \<Rightarrow> None
      | Some mp \<Rightarrow>
          (let pa = unat (load4 m (mp + 4)); conf = P2V pa in
           if pa = 0 then None
           else if get_bytes m conf 4 \<noteq> bytes_of ''PCMP'' then None
           else if m (conf + 6) \<noteq> 1 \<and> m (conf + 6) \<noteq> 4 then None
           else if byte_sum m conf (load2 m (conf + 4)) \<noteq> 0 then None
           else Some (mp, conf)))"

text \<open>
  The loop over the table's entries; a run that does not end is \<open>None\<close>.  The \<^verbatim>\<open>break\<close> of the default case leaves the \<^verbatim>\<open>switch\<close>,
  not the loop, and does not advance \<^verbatim>\<open>p\<close>.
\<close>

definition new_cpu :: "byte \<Rightarrow> cpu" where
  "new_cpu a = \<lparr>apicid = unat a, ncli = 0, intena = False, cproc = None\<rparr>"

definition add_cpu :: "byte \<Rightarrow> 'z ksys_scheme \<Rightarrow> 'z ksys_scheme" where
  "add_cpu a s = (if length (cpus (khw s)) < 8 then s\<lparr>khw := (khw s)\<lparr>cpus := cpus (khw s) @ [new_cpu a]\<rparr>\<rparr> else s)"

partial_function (option) mp_scan :: "memory \<Rightarrow> nat \<Rightarrow> nat \<Rightarrow> bool \<Rightarrow> 'z kdev_scheme \<Rightarrow> (bool \<times> 'z kdev_scheme) option" where
  "mp_scan m p e ismp s =
     (if p < e then
        if m p = 0 then mp_scan m (p + 20) e ismp (add_cpu (m (p + 1)) s)
        else if m p = 2 then mp_scan m (p + 8) e ismp (s\<lparr>ioapicid := m (p + 1)\<rparr>)
        else if m p = 1 \<or> m p = 3 \<or> m p = 4 then mp_scan m (p + 8) e ismp s
        else mp_scan m p e False s
      else Some (ismp, s))"

definition mpinit :: "(nat \<Rightarrow> u32) \<Rightarrow> ('z kdev_scheme, unit) K" where
  "mpinit regs =
     kbind (kget pmem) (\<lambda>m.
     case mpconfig m of
       None \<Rightarrow> kpanic ''Expect to run on an SMP''
     | Some (mp, conf) \<Rightarrow>
         kthen (kmod (\<lambda>s. s\<lparr>lapic := (if load4 m (conf + 36) = 0 then None else Some regs)\<rparr>)) (
         kbind (\<lambda>s. case mp_scan m (conf + 44) (conf + load2 m (conf + 4)) True s of None \<Rightarrow> Spin | Some (ismp, t) \<Rightarrow> Ret ismp t) (\<lambda>ismp.
         if \<not> ismp then kpanic ''Didn't find a suitable machine''
         else
           kwhen (m (mp + 12) \<noteq> 0)
             (kthen (outb 0x22 0x70) (kbind (inb 0x23) (\<lambda>b. outb 0x23 (b OR 1)))))))"

section \<open>Reading the clock\<close>

lemma inb_Cons [simp]: "inports s p = b # bs \<Longrightarrow> inb p s = Ret b (s\<lparr>inports := (inports s)(p := bs)\<rparr>)"
  by (simp add: inb_def)

definition date_of :: "byte list \<Rightarrow> rtcdate" where
  "date_of d = \<lparr>second = ucast (d ! 0), minute = ucast (d ! 1), hour = ucast (d ! 2), day = ucast (d ! 3),
     month = ucast (d ! 4), year = ucast (d ! 5)\<rparr>"

lemma length6: "length d = 6 \<longleftrightarrow> (\<exists>a b c e f g. d = [a, b, c, e, f, g])"
  by (auto simp: length_Suc_conv numeral_eq_Suc)

lemma fill_rtcdate_net:
  assumes "inports s 0x71 = d @ rest" "length d = 6"
  shows "\<exists>t. fill_rtcdate s = Ret (date_of d) t \<and> inports t 0x71 = rest"
  using assms by (auto simp: length6 fill_rtcdate_def kdefs cmos_read_def outb_def date_of_def)

lemma cmos_read_net: "inports s 0x71 = b # rest \<Longrightarrow> \<exists>t. cmos_read r s = Ret (ucast b) t \<and> inports t 0x71 = rest"
  by (simp add: cmos_read_def kdefs outb_def)

lemma byte_u32_inj: "(ucast a :: u32) = ucast b \<longleftrightarrow> a = b" for a b :: byte
  by (transfer, simp)

lemma date_of_inj:
  assumes "length d = 6" "length d' = 6"
  shows "date_of d = date_of d' \<longleftrightarrow> d = d'"
  using assms by (auto simp: length6 date_of_def byte_u32_inj)

text \<open>
  What the clock delivers in one turn of the loop that does not end it: a date and a status with
  the update flag set, or two different dates around a status with the flag clear.
\<close>

definition stale :: "byte list \<Rightarrow> bool" where
  "stale x \<longleftrightarrow> (length x = 7 \<and> x ! 6 AND 0x80 \<noteq> 0) \<or>
     (length x = 13 \<and> x ! 6 AND 0x80 = 0 \<and> take 6 x \<noteq> drop 7 x)"

lemma ucast_and_80: "(ucast a :: u32) AND 0x80 = 0 \<longleftrightarrow> a AND 0x80 = 0" for a :: byte
proof -
  have "(ucast a :: u32) AND 0x80 = ucast (a AND 0x80)" by (simp add: unsigned_and_eq)
  then show ?thesis using byte_u32_inj[of "a AND 0x80" 0] by simp
qed

lemma cmos_loop_fresh:
  assumes "inports s 0x71 = d @ [a] @ d @ rest" "length d = 6" "a AND 0x80 = 0"
  shows "\<exists>t. cmos_loop (Suc n) s = Ret (date_of d) t \<and> inports t 0x71 = rest"
proof -
  obtain t1 where t1: "fill_rtcdate s = Ret (date_of d) t1" "inports t1 0x71 = [a] @ d @ rest"
    using fill_rtcdate_net[OF assms(1,2)] by blast
  obtain t2 where t2: "cmos_read 0x0A t1 = Ret (ucast a) t2" "inports t2 0x71 = d @ rest"
    using cmos_read_net[of t1 a "d @ rest"] t1(2) by auto
  obtain t3 where t3: "fill_rtcdate t2 = Ret (date_of d) t3" "inports t3 0x71 = rest"
    using fill_rtcdate_net[OF t2(2) assms(2)] by blast
  show ?thesis using t1 t2 t3 assms(3) by (simp add: kdefs ucast_and_80)
qed

lemma cmos_loop_stale:
  assumes "inports s 0x71 = x @ rest" "stale x"
  shows "\<exists>t. cmos_loop (Suc n) s = cmos_loop n t \<and> inports t 0x71 = rest"
proof -
  have lx: "6 < length x" using assms(2) by (auto simp: stale_def)
  have sp: "x = take 6 x @ [x ! 6] @ drop 7 x" using id_take_nth_drop[OF lx] by simp
  have l6: "length (take 6 x) = 6" using lx by simp
  obtain t1 where t1: "fill_rtcdate s = Ret (date_of (take 6 x)) t1" "inports t1 0x71 = [x ! 6] @ drop 7 x @ rest"
    using fill_rtcdate_net[of s "take 6 x" "[x ! 6] @ drop 7 x @ rest"] assms(1) sp l6 by (metis append.assoc)
  obtain t2 where t2: "cmos_read 0x0A t1 = Ret (ucast (x ! 6)) t2" "inports t2 0x71 = drop 7 x @ rest"
    using cmos_read_net[of t1 "x ! 6" "drop 7 x @ rest"] t1(2) by auto
  show ?thesis
  proof (cases "x ! 6 AND 0x80 = 0")
    case False
    then have "drop 7 x = []" using assms(2) by (auto simp: stale_def)
    then show ?thesis using t1 t2 False by (intro exI[of _ t2]) (simp add: kdefs ucast_and_80)
  next
    case True
    then have l: "length (drop 7 x) = 6" "take 6 x \<noteq> drop 7 x" using assms(2) by (auto simp: stale_def)
    obtain t3 where t3: "fill_rtcdate t2 = Ret (date_of (drop 7 x)) t3" "inports t3 0x71 = rest"
      using fill_rtcdate_net[OF t2(2) l(1)] by blast
    show ?thesis using t1 t2 t3 True l date_of_inj[OF l6 l(1)] by (intro exI[of _ t3]) (simp add: kdefs ucast_and_80)
  qed
qed

lemma cmos_loop_net:
  assumes "inports s 0x71 = concat xs @ d @ [a] @ d @ rest" "\<forall>x\<in>set xs. stale x" "length d = 6" "a AND 0x80 = 0" "length xs < n"
  shows "\<exists>t. cmos_loop n s = Ret (date_of d) t \<and> inports t 0x71 = rest"
  using assms
proof (induction xs arbitrary: s n)
  case Nil
  then show ?case using cmos_loop_fresh[of s d a rest "n - 1"] by (cases n) auto
next
  case (Cons x xs)
  then obtain m where n: "n = Suc m" by (cases n) auto
  obtain t where t: "cmos_loop (Suc m) s = cmos_loop m t" "inports t 0x71 = concat xs @ d @ [a] @ d @ rest"
    using cmos_loop_stale[of s x "concat xs @ d @ [a] @ d @ rest" m] Cons.prems(1,2) by auto
  show ?case using Cons.IH[OF t(2), of m] Cons.prems n t(1) by simp
qed

lemma length_stale_concat: "\<forall>x\<in>set xs. stale x \<Longrightarrow> length xs \<le> length (concat xs)"
  by (induction xs) (auto simp: stale_def)

section \<open>The processor table\<close>

datatype mpentry = MpProc byte "byte list" | MpIoapic byte "byte list" | MpOther byte "byte list"

fun mp_bytes :: "mpentry \<Rightarrow> byte list" where
  "mp_bytes (MpProc a r) = 0 # a # r"
| "mp_bytes (MpIoapic a r) = 2 # a # r"
| "mp_bytes (MpOther k r) = k # r"

fun mp_ok :: "mpentry \<Rightarrow> bool" where
  "mp_ok (MpProc a r) \<longleftrightarrow> length r = 18"
| "mp_ok (MpIoapic a r) \<longleftrightarrow> length r = 6"
| "mp_ok (MpOther k r) \<longleftrightarrow> length r = 7 \<and> (k = 1 \<or> k = 3 \<or> k = 4)"

fun mp_apply :: "mpentry \<Rightarrow> 'z kdev_scheme \<Rightarrow> 'z kdev_scheme" where
  "mp_apply (MpProc a r) s = add_cpu a s"
| "mp_apply (MpIoapic a r) s = s\<lparr>ioapicid := a\<rparr>"
| "mp_apply (MpOther k r) s = s"

lemma get_bytes_append: "get_bytes m p (a + b) = get_bytes m p a @ get_bytes m (p + a) b"
proof -
  have "[0..<a + b] = [0..<a] @ map (\<lambda>i. i + a) [0..<b]"
    using upt_add_eq_append[of 0 a b] map_add_upt[of a b] by (simp add: add.commute)
  then show ?thesis by (simp add: get_bytes_def ac_simps)
qed

lemma mp_scan_step:
  assumes "mp_ok e" "get_bytes m p (length (mp_bytes e)) = mp_bytes e" "p < q"
  shows "mp_scan m p q b s = mp_scan m (p + length (mp_bytes e)) q b (mp_apply e s)"
proof -
  have n0: "m p = mp_bytes e ! 0"
    using assms(2) nth_get_bytes[of 0 "length (mp_bytes e)" m p] by (cases e) auto
  have n1: "m (p + 1) = mp_bytes e ! 1" if "1 < length (mp_bytes e)"
    using assms(2) nth_get_bytes[of 1 "length (mp_bytes e)" m p] that by auto
  show ?thesis
    using assms(1,3) n0 n1 by (cases e) (auto simp: mp_scan.simps[of m p q b s])
qed

lemma mp_scan_entries:
  assumes "\<forall>e\<in>set es. mp_ok e" "get_bytes m p (length (concat (map mp_bytes es))) = concat (map mp_bytes es)"
    and "p + length (concat (map mp_bytes es)) \<le> q"
  shows "mp_scan m p q b s = mp_scan m (p + length (concat (map mp_bytes es))) q b (foldl (\<lambda>s e. mp_apply e s) s es)"
  using assms
proof (induction es arbitrary: p s)
  case (Cons e es)
  let ?n = "length (mp_bytes e)" and ?r = "concat (map mp_bytes es)"
  have g: "get_bytes m p ?n = mp_bytes e" "get_bytes m (p + ?n) (length ?r) = ?r"
    using Cons.prems(2) by (simp_all add: get_bytes_append)
  have "0 < ?n" by (cases e) auto
  then have "p < q" using Cons.prems(3) by (simp del: length_greater_0_conv)
  then have "mp_scan m p q b s = mp_scan m (p + ?n) q b (mp_apply e s)"
    using Cons.prems(1) by (intro mp_scan_step g) auto
  then show ?case using Cons.IH[OF _ g(2), of "mp_apply e s"] Cons.prems(1,3) by (simp add: add.assoc)
qed simp

text \<open>At an entry of unknown type the loop makes no progress.\<close>

lemma mp_scan_stuck:
  assumes "mp_scan m p e b s = Some r"
  shows "\<not> (p < e \<and> 4 < m p)"
proof (rule mp_scan.raw_induct[where P = "\<lambda>m p e b s r. \<not> (p < e \<and> 4 < m p)", OF _ assms])
  fix scan m p e b s r
  assume IH: "\<And>m p e b s r. scan m p e b s = Some r \<Longrightarrow> \<not> (p < e \<and> 4 < m p)"
    and r: "(if p < e then
        if m p = 0 then scan m (p + 20) e b (add_cpu (m (p + 1)) s)
        else if m p = 2 then scan m (p + 8) e b (s\<lparr>ioapicid := m (p + 1)\<rparr>)
        else if m p = 1 \<or> m p = 3 \<or> m p = 4 then scan m (p + 8) e b s
        else scan m p e False s
      else Some (b, s)) = Some r"
  have "m p \<notin> {0, 1, 2, 3, 4}" if "4 < m p" using that by auto
  then show "\<not> (p < e \<and> 4 < m p)" using IH[of m p e False s r] r by (auto split: if_splits)
qed

fun mp_cpu :: "mpentry \<Rightarrow> cpu list" where
  "mp_cpu (MpProc a r) = [new_cpu a]"
| "mp_cpu _ = []"

lemma mp_apply_cpus:
  assumes "length (cpus (khw s)) \<le> 8"
  shows "cpus (khw (foldl (\<lambda>s e. mp_apply e s) s es)) = take 8 (cpus (khw s) @ concat (map mp_cpu es))"
  using assms
proof (induction es arbitrary: s)
  case (Cons e es)
  show ?case using Cons.IH[of "mp_apply e s"] Cons.prems by (cases e) (auto simp: add_cpu_def take_Cons')
qed simp

section \<open>Properties\<close>

text \<open>
  \<^verbatim>\<open>cmostime\<close> returns a consistent date: whatever number of torn readings the clock delivers
  first (an update in progress, or two readings that differ), as soon as two equal readings around a
  status without the update flag come, the loop ends with exactly that date, decoded from BCD
  when the status register says so, and with the century added.
\<close>

theorem cmostime_snapshot:
  assumes "inports s 0x71 = sb # concat xs @ d @ [a] @ d @ rest" "\<forall>x\<in>set xs. stale x" "length d = 6" "a AND 0x80 = 0"
  shows "\<exists>t. cmostime s = Ret (let f = (if sb AND 4 = 0 then conv else (\<lambda>x. x)) in
      \<lparr>second = f (ucast (d ! 0)), minute = f (ucast (d ! 1)), hour = f (ucast (d ! 2)), day = f (ucast (d ! 3)),
       month = f (ucast (d ! 4)), year = f (ucast (d ! 5)) + 2000\<rparr>) t \<and> inports t 0x71 = rest"
proof -
  obtain t1 where t1: "cmos_read 0x0B s = Ret (ucast sb) t1" "inports t1 0x71 = concat xs @ d @ [a] @ d @ rest"
    using cmos_read_net[OF assms(1)] by blast
  have "length xs < Suc (length (inports t1 0x71))" using length_stale_concat[OF assms(2)] t1(2) by simp
  from cmos_loop_net[OF t1(2) assms(2-4) this] obtain t2 where
    t2: "cmos_loop (Suc (length (inports t1 0x71))) t1 = Ret (date_of d) t2" "inports t2 0x71 = rest" by blast
  have "(ucast sb :: u32) AND 4 = ucast (sb AND 4)" by (simp add: unsigned_and_eq)
  then have "(ucast sb :: u32) AND 4 = 0 \<longleftrightarrow> sb AND 4 = 0" using byte_u32_inj[of "sb AND 4" 0] by simp
  then show ?thesis using t1 t2 by (simp add: cmostime_def kdefs date_of_def Let_def del: cmos_loop.simps)
qed

definition kdev0 :: "(nat \<Rightarrow> byte list) \<Rightarrow> memory \<Rightarrow> kdev" where
  "kdev0 ins m = kpr.extend ((kpr0 (two_cpus\<lparr>cpus := []\<rparr>) [])\<lparr>pmem := m\<rparr>)
     \<lparr>inports = ins, outs = [], ioapic = \<lambda>_. 0, lapic = None, ioapicid = 0, uart = False, kbd_shift = 0\<rparr>"

lemma kdev0_simps [simp]:
  "inports (kdev0 ins m) = ins" "cpus (khw (kdev0 ins m)) = []" "kbd_shift (kdev0 ins m) = 0" "pmem (kdev0 ins m) = m"
  by (simp_all add: kdev0_def kpr0_def kpr.defs)

theorem cmostime_snapshot_witness:
  "\<exists>t. cmostime (kdev0 (\<lambda>p. if p = 0x71 then [0, 0x59, 0x59, 0x23, 0x31, 0x12, 0x19, 0x80,
       0, 0, 0, 1, 1, 0x20, 0, 0, 0, 0, 1, 1, 0x20] else []) (\<lambda>_. 0))
     = Ret \<lparr>second = 0, minute = 0, hour = 0, day = 1, month = 1, year = 2020\<rparr> t"
proof -
  let ?s = "kdev0 (\<lambda>p. if p = 0x71 then [0, 0x59, 0x59, 0x23, 0x31, 0x12, 0x19, 0x80,
       0, 0, 0, 1, 1, 0x20, 0, 0, 0, 0, 1, 1, 0x20] else []) (\<lambda>_. 0)"
  have i: "inports ?s 0x71 = 0 # concat [[0x59, 0x59, 0x23, 0x31, 0x12, 0x19, 0x80]] @ [0, 0, 0, 1, 1, 0x20] @ [0] @ [0, 0, 0, 1, 1, 0x20] @ []"
    by simp
  have st: "\<forall>x\<in>set [[0x59, 0x59, 0x23, 0x31, 0x12, 0x19, 0x80 :: byte]]. stale x" by (simp add: stale_def)
  have c: "conv 0 = 0" "conv 1 = 1" "conv 0x20 = 20" by (simp_all add: conv_def)
  show ?thesis using cmostime_snapshot[OF i st] c by (auto simp: Let_def)
qed

text \<open>
  C35: \<^verbatim>\<open>mpinit\<close>'s scan of a table that starts with well-formed entries passes over all of them, and has then registered their
  processors in table order, up to the limit of eight, whatever other entries lie between them.  If that is the
  whole table the scan ends there with success; if an entry of unknown type follows, the scan never ends.
\<close>

theorem mp_scan_processors:
  assumes "\<forall>e\<in>set es. mp_ok e" "get_bytes m p (length (concat (map mp_bytes es))) = concat (map mp_bytes es)"
    and "length (cpus (khw s)) \<le> 8"
  defines "q \<equiv> p + length (concat (map mp_bytes es))"
  shows "(\<exists>t. mp_scan m p q True s = Some (True, t) \<and> cpus (khw t) = take 8 (cpus (khw s) @ concat (map mp_cpu es)))
    \<and> (\<forall>e > q. 4 < m q \<longrightarrow> mp_scan m p e True s = None)"
proof -
  let ?t = "foldl (\<lambda>s e. mp_apply e s) s es"
  have run: "mp_scan m p e True s = mp_scan m q e True ?t" if "q \<le> e" for e
    using that mp_scan_entries[OF assms(1,2)] by (simp add: q_def)
  have "mp_scan m q e True ?t = None" if "q < e" "4 < m q" for e
    using that mp_scan_stuck[of m q e True ?t] by (cases "mp_scan m q e True ?t") auto
  moreover have "mp_scan m q q True ?t = Some (True, ?t)" by (subst mp_scan.simps) simp
  ultimately show ?thesis using run mp_apply_cpus[OF assms(3), of es] by simp
qed

theorem mp_scan_processors_witness:
  "(\<exists>t. mp_scan (put_bytes (\<lambda>_. 9) 100 (0 # 5 # replicate 18 0)) 100 120 True (kdev0 (\<lambda>_. []) (\<lambda>_. 0)) = Some (True, t)
     \<and> cpus (khw t) = [new_cpu 5])
   \<and> mp_scan (put_bytes (\<lambda>_. 9) 100 (0 # 5 # replicate 18 0)) 100 128 True (kdev0 (\<lambda>_. []) (\<lambda>_. 0)) = None"
proof -
  let ?m = "put_bytes (\<lambda>_. 9) 100 (0 # 5 # replicate 18 (0 :: byte))"
  have g: "get_bytes ?m 100 (length (concat (map mp_bytes [MpProc 5 (replicate 18 0)]))) = concat (map mp_bytes [MpProc 5 (replicate 18 0)])"
    using get_put_bytes[of "\<lambda>_. 9" 100 "0 # 5 # replicate 18 0"] by simp
  have "?m 120 = 9" by (simp add: put_bytes_def)
  then show ?thesis using mp_scan_processors[OF _ g, of "kdev0 (\<lambda>_. []) (\<lambda>_. 0)"] by simp
qed

text \<open>
  Shift and release.  With no modifier active, pressing a shift key, then a key that is not a
  modifier, then releasing shift delivers nothing, the key's character of the shift table, and
  nothing, and leaves the modifier state as it was.
\<close>

theorem kbd_shift_roundtrip:
  assumes "kbd_shift s = 0" "inports s 0x64 = 1 # 1 # 1 # r" "inports s 0x60 = 0x2A # k # 0xAA # q" "k AND 0x80 = 0"
    and "shiftcode (unat k) = 0" "togglecode (unat k) = 0"
  shows "\<exists>t. kreplicate 3 kbdgetc s = Ret [0, uint (shiftmap (unat k)), 0] t \<and> kbd_shift t = 0 \<and> inports t 0x60 = q"
proof -
  have k: "k \<noteq> 0xE0" using assms(4) by auto
  have t: "shiftcode 0x2A = 1" "togglecode 0x2A = 0" "shiftmap 0x2A = 0"
    by (simp_all add: shiftcode_def togglecode_def shiftmap_def key_table_def)
  show ?thesis
    using assms k t by (simp add: numeral_3_eq_3 kdefs kbdgetc_def Let_def charcode_def)
qed

theorem kbd_shift_roundtrip_witness:
  "\<exists>t. kreplicate 3 kbdgetc (kdev0 (\<lambda>p. if p = 0x64 then [1, 1, 1] else [0x2A, 0x1E, 0xAA]) (\<lambda>_. 0)) = Ret [0, 65, 0] t"
proof -
  have t: "shiftcode 0x1E = 0" "togglecode 0x1E = 0" "shiftmap 0x1E = 65"
    by (simp_all add: shiftcode_def togglecode_def shiftmap_def key_table_def)
  show ?thesis
    using kbd_shift_roundtrip[of "kdev0 (\<lambda>p. if p = 0x64 then [1, 1, 1] else [0x2A, 0x1E, 0xAA]) (\<lambda>_. 0)" "[]" "0x1E" "[]"] t by auto
qed

end
