(* ===== verification/Sleeplock.thy ===== *)
theory Sleeplock
  imports Device
begin

text \<open>
  Sleep locks (\<^verbatim>\<open>sleeplock.c\<close>).  A process that finds the lock taken sleeps on it: that run ends in
  \<open>Blocked\<close>, and \<open>acquiresleep_resume\<close> is what it does when it is scheduled again.  The theory also
  introduces \<open>kidle\<close>, the state in which this CPU holds no spin lock, from which the file system
  code starts and to which it returns.
\<close>

record sleeplock =
  sl_locked :: bool
  sl_pid :: int

record kslp = kdev +
  slocks :: "slid \<Rightarrow> sleeplock"

definition upd_slock :: "slid \<Rightarrow> (sleeplock \<Rightarrow> sleeplock) \<Rightarrow> 'z kslp_scheme \<Rightarrow> 'z kslp_scheme" where
  "upd_slock l f s = s\<lparr>slocks := (slocks s)(l := f (slocks s l))\<rparr>"

definition initsleeplock :: "slid \<Rightarrow> ('z kslp_scheme, unit) K" where
  "initsleeplock l =
     kthen (onhw (initlock (Lsleep l)))
       (kmod (upd_slock l (\<lambda>_. \<lparr>sl_locked = False, sl_pid = 0\<rparr>)))"

definition acquiresleep_loop :: "slid \<Rightarrow> ('z kslp_scheme, unit) K" where
  "acquiresleep_loop l =
     kbind (kget (\<lambda>s. sl_locked (slocks s l))) (\<lambda>busy.
     if busy then sleep (Some (ChanSleep l)) (Some (Lsleep l))
     else
       kthen (kmod (upd_slock l (\<lambda>x. x\<lparr>sl_locked := True\<rparr>))) (
       kbind myproc (\<lambda>p. kderef p (\<lambda>i.
       kbind (the_proc i) (\<lambda>q.
       kthen (kmod (upd_slock l (\<lambda>x. x\<lparr>sl_pid := p_pid q\<rparr>)))
         (krelease (Lsleep l)))))))"

definition acquiresleep :: "slid \<Rightarrow> ('z kslp_scheme, unit) K" where
  "acquiresleep l = kthen (kacquire (Lsleep l)) (acquiresleep_loop l)"

definition acquiresleep_resume :: "bool \<Rightarrow> nat \<Rightarrow> slid \<Rightarrow> ('z kslp_scheme, unit) K" where
  "acquiresleep_resume ie i l = kthen (sleep_resume ie i (Lsleep l)) (acquiresleep_loop l)"

definition releasesleep :: "slid \<Rightarrow> ('z kslp_scheme, unit) K" where
  "releasesleep l =
     kthen (kacquire (Lsleep l)) (
     kthen (kmod (upd_slock l (\<lambda>x. x\<lparr>sl_locked := False, sl_pid := 0\<rparr>))) (
     kthen (wakeup (Some (ChanSleep l)))
       (krelease (Lsleep l))))"

definition holdingsleep :: "slid \<Rightarrow> ('z kslp_scheme, bool) K" where
  "holdingsleep l =
     kthen (kacquire (Lsleep l)) (
     kbind (kget (\<lambda>s. sl_locked (slocks s l))) (\<lambda>r.
     kthen (krelease (Lsleep l)) (kret r)))"

section \<open>States without spin locks\<close>

definition hidle :: "hw \<Rightarrow> bool" where
  "hidle h \<longleftrightarrow> hwgood h \<and> settle h = h \<and> (\<forall>lk. lkfree lk h)"

abbreviation kidle :: "'z ksys_scheme \<Rightarrow> bool" where
  "kidle s \<equiv> hidle (khw s)"

lemma kidleD [simp]: "kidle s \<Longrightarrow> kgood s" "kidle s \<Longrightarrow> kfree_lk lk s" "kidle s \<Longrightarrow> ksettle s = s"
  by (simp_all add: hidle_def kgood_def kfree_lk_def ksettle_def)

text \<open>The effect of a wake-up on the process table.\<close>

definition awaken :: "chan option \<Rightarrow> 'z kpr_scheme \<Rightarrow> 'z kpr_scheme" where
  "awaken ch s = s\<lparr>procs := map (\<lambda>p. if p_state p = SLEEPING \<and> p_chan p = ch then p\<lparr>p_state := RUNNABLE\<rparr> else p) (procs s)\<rparr>"

lemma wakeup_awaken: "kgood s \<Longrightarrow> kfree_lk Lptable s \<Longrightarrow> wakeup ch s = Ret () (ksettle (awaken ch s))"
  by (simp add: wakeup_net awaken_def)

lemma awaken_simps [simp]:
  "khw (awaken ch s) = khw s" "kgood (awaken ch s) = kgood s" "kfree_lk lk (awaken ch s) = kfree_lk lk s"
  "awaken ch (klock lk s) = klock lk (awaken ch s)" "awaken ch (ksettle s) = ksettle (awaken ch s)"
  "length (procs (awaken ch s)) = length (procs s)" "cur (awaken ch s) = cur s"
  by (simp_all add: awaken_def)

lemma slock_simps [simp]:
  "slocks (klock lk s) = slocks s" "slocks (ksettle s) = slocks s" "slocks (awaken ch s) = slocks s"
  "(klock lk s)\<lparr>slocks := x\<rparr> = klock lk (s\<lparr>slocks := x\<rparr>)" "(ksettle s)\<lparr>slocks := x\<rparr> = ksettle (s\<lparr>slocks := x\<rparr>)"
  "kgood (s\<lparr>slocks := x\<rparr>) = kgood s" "kfree_lk lk (s\<lparr>slocks := x\<rparr>) = kfree_lk lk s" "cur (s\<lparr>slocks := x\<rparr>) = cur s"
  by (simp_all add: klock_def ksettle_def awaken_def kgood_def kfree_lk_def cur_def)

lemma upd_slock_simps [simp]:
  "khw (upd_slock l f s) = khw s" "procs (upd_slock l f s) = procs s" "cur (upd_slock l f s) = cur s"
  "slocks (upd_slock l f s) = (slocks s)(l := f (slocks s l))"
  "upd_slock l f (klock lk s) = klock lk (upd_slock l f s)" "upd_slock l f (ksettle s) = ksettle (upd_slock l f s)"
  "kgood (upd_slock l f s) = kgood s" "kfree_lk lk (upd_slock l f s) = kfree_lk lk s"
  by (simp_all add: upd_slock_def)

lemma upd_slock_twice [simp]: "upd_slock l g (upd_slock l f s) = upd_slock l (\<lambda>x. g (f x)) s"
  by (simp add: upd_slock_def)

lemma acquiresleep_net:
  "kidle s \<Longrightarrow> cur s = Some i \<Longrightarrow> \<not> sl_locked (slocks s l) \<Longrightarrow>
   acquiresleep l s = Ret () (upd_slock l (\<lambda>x. x\<lparr>sl_locked := True, sl_pid := p_pid (procs s ! i)\<rparr>) s)"
  by (simp add: acquiresleep_def acquiresleep_loop_def kdefs the_proc_def)

lemma releasesleep_net:
  "kidle s \<Longrightarrow>
   releasesleep l s = Ret () (awaken (Some (ChanSleep l)) (upd_slock l (\<lambda>x. x\<lparr>sl_locked := False, sl_pid := 0\<rparr>) s))"
  by (simp add: releasesleep_def kdefs wakeup_awaken)

lemma holdingsleep_net: "kidle s \<Longrightarrow> holdingsleep l s = Ret (sl_locked (slocks s l)) s"
  by (simp add: holdingsleep_def kdefs)

text \<open>A taken lock: the caller goes to sleep on it, with its spin lock free again.\<close>

lemma acquiresleep_blocks:
  "kidle s \<Longrightarrow> kdepth s = 0 \<Longrightarrow> cur s = Some i \<Longrightarrow> i < length (procs s) \<Longrightarrow> sl_locked (slocks s l) \<Longrightarrow>
   acquiresleep l s = Blocked (klock Lptable (upd_proc i (\<lambda>p. p\<lparr>p_chan := Some (ChanSleep l), p_state := SLEEPING\<rparr>) s))"
  by (simp add: acquiresleep_def acquiresleep_loop_def kdefs sleep_net)


section \<open>Going to sleep and coming back\<close>

text \<open>A state in which process \<open>i\<close> runs kernel code and holds no lock.\<close>

definition running :: "nat \<Rightarrow> 'z kpr_scheme \<Rightarrow> bool" where
  "running i s \<longleftrightarrow> kidle s \<and> kdepth s = 0 \<and> cur s = Some i \<and> i < length (procs s)"

lemma runningD: "running i s \<Longrightarrow> kidle s" "running i s \<Longrightarrow> kdepth s = 0" "running i s \<Longrightarrow> cur s = Some i" "running i s \<Longrightarrow> i < length (procs s)"
  by (simp_all add: running_def)

lemma running_upd [simp]: "kdepth (awaken ch s) = kdepth s" "running i (awaken ch s) = running i s" "running i (upd_proc j f s) = running i s"
  by (simp_all add: running_def kdepth_def)

abbreviation asleep :: "nat \<Rightarrow> chan \<Rightarrow> 'z kpr_scheme \<Rightarrow> 'z kpr_scheme" where
  "asleep i ch s \<equiv> klock Lptable (upd_proc i (\<lambda>p. p\<lparr>p_chan := Some ch, p_state := SLEEPING\<rparr>) s)"

lemma sleep_asleep: "running i s \<Longrightarrow> sleep (Some ch) (Some lk) (klock lk s) = Blocked (asleep i ch s)"
  by (rule sleep_net) (simp_all add: running_def)

text \<open>
  Coming back from \<open>sleep\<close>: the scheduler switches to the process with the table lock held.
\<close>

lemma intena_id: "intena c = b \<Longrightarrow> c\<lparr>intena := b\<rparr> = (c :: cpu)"
  by (cases c) simp

lemma sched_resume_net:
  assumes "kidle s" "kdepth s = 0"
  shows "sched_resume (readeflags_if (khw s)) (klock lk s) = Ret () (klock lk s)"
proof -
  have g: "hwgood (khw s)" using assms(1) by (simp add: hidle_def)
  then obtain c where c: "this_cpu (khw s) = Some c" "c < length (cpus (khw s))" by (rule hwgoodE)
  let ?h = "enter lk (khw s)"
  have m: "mycpu ?h = Ret c ?h" using c by (simp add: mycpu_off)
  have n: "ncli (cpus (khw s) ! c) = 0" using assms(2) c by (simp add: kdepth_def)
  have "intena (cpus ?h ! c) = readeflags_if (khw s)" using c n by (simp add: enter_def pushed_def settle_def upd_cpu_def)
  then have "(cpus ?h ! c)\<lparr>intena := readeflags_if (khw s)\<rparr> = cpus ?h ! c" by (rule intena_id)
  then have "upd_cpu c (\<lambda>x. x\<lparr>intena := readeflags_if (khw s)\<rparr>) ?h = ?h" by (simp add: upd_cpu_def)
  then show ?thesis using m by (simp add: sched_resume_def kdefs onhw_def klock_def)
qed

lemma sleep_resume_net:
  assumes "running i s" "lk \<noteq> Lptable"
  shows "sleep_resume (readeflags_if (khw s)) i lk (klock Lptable s) = Ret () (klock lk (upd_proc i (\<lambda>p. p\<lparr>p_chan := None\<rparr>) s))"
  using runningD[OF assms(1)] assms(2) by (simp add: sleep_resume_def kdefs sched_resume_net)

section \<open>Properties\<close>

definition kslp0 :: "hw \<Rightarrow> proc list \<Rightarrow> kslp" where
  "kslp0 h ps = kdev.extend (kpr.extend (kpr0 h ps)
     \<lparr>inports = \<lambda>_. [], outs = [], ioapic = \<lambda>_. 0, lapic = None, ioapicid = 0, uart = False, kbd_shift = 0\<rparr>) \<lparr>slocks = \<lambda>_. \<lparr>sl_locked = False, sl_pid = 0\<rparr>\<rparr>"

lemma kslp0_simps [simp]:
  "khw (kslp0 h ps) = h" "procs (kslp0 h ps) = ps" "slocks (kslp0 h ps) l = \<lparr>sl_locked = False, sl_pid = 0\<rparr>"
  by (simp_all add: kslp0_def kpr0_def kpr.defs kdev.defs)

definition idle_cpu :: "nat option \<Rightarrow> hw" where
  "idle_cpu p = settle (run_cpu True p)"

lemma idle_cpu_simps [simp]:
  "hidle (idle_cpu p)" "cproc (cpus (idle_cpu p) ! the (this_cpu (idle_cpu p))) = p"
  "ncli (cpus (idle_cpu p) ! the (this_cpu (idle_cpu p))) = 0"
  by (simp_all add: hidle_def idle_cpu_def)
    (simp_all add: settle_def run_cpu_def two_cpus_def lkfree_def hwgood_def this_cpu_def readeflags_if_def upd_cpu_def)

text \<open>
  C27: The contract of a sleep lock.  Taking a free lock returns with the lock held under the caller's
  pid.  Any process that then tries to take it goes to sleep on its channel, holding no spin lock but
  the table's; when the holder releases it, the lock is free and that process is runnable again.
\<close>

theorem sleeplock_handover:
  fixes s :: "'z kslp_scheme"
  assumes "kidle s" "cur s = Some i" "\<not> sl_locked (slocks s l)"
  shows "\<exists>t. acquiresleep l s = Ret () t \<and> kidle t \<and> holdingsleep l t = Ret True t
    \<and> sl_pid (slocks t l) = p_pid (procs s ! i) \<and> (\<forall>k. k \<noteq> l \<longrightarrow> slocks t k = slocks s k)
    \<and> (\<forall>(t' :: 'z kslp_scheme) j. kidle t' \<longrightarrow> slocks t' = slocks t \<longrightarrow> kdepth t' = 0 \<longrightarrow> cur t' = Some j \<longrightarrow> j < length (procs t') \<longrightarrow>
        (\<exists>u. acquiresleep l t' = Blocked u \<and> p_state (procs u ! j) = SLEEPING \<and> p_chan (procs u ! j) = Some (ChanSleep l)
          \<and> (\<forall>lk. lk \<noteq> Lptable \<longrightarrow> kfree_lk lk u)
          \<and> (\<forall>v :: 'z kslp_scheme. kidle v \<longrightarrow> procs v = procs u \<longrightarrow>
              (\<exists>w. releasesleep l v = Ret () w \<and> kidle w \<and> \<not> sl_locked (slocks w l) \<and> p_state (procs w ! j) = RUNNABLE))))"
proof -
  let ?t = "upd_slock l (\<lambda>x. x\<lparr>sl_locked := True, sl_pid := p_pid (procs s ! i)\<rparr>) s"
  have "\<exists>w. releasesleep l v = Ret () w \<and> kidle w \<and> \<not> sl_locked (slocks w l) \<and> p_state (procs w ! j) = RUNNABLE"
    if "kidle v" "procs v = procs (upd_proc j (\<lambda>p. p\<lparr>p_chan := Some (ChanSleep l), p_state := SLEEPING\<rparr>) t')" "j < length (procs t')"
    for v t' :: "'z kslp_scheme" and j
    using that by (simp add: releasesleep_net) (simp add: awaken_def)
  then show ?thesis using assms
    by (intro exI[of _ ?t]) (auto simp: acquiresleep_net holdingsleep_net acquiresleep_blocks)
qed

theorem sleeplock_handover_witness:
  "\<exists>t. acquiresleep (SLbuf 3) (kslp0 (idle_cpu (Some 0)) [proc0\<lparr>p_state := RUNNING, p_pid := 7\<rparr>]) = Ret () t
     \<and> sl_locked (slocks t (SLbuf 3)) \<and> sl_pid (slocks t (SLbuf 3)) = 7"
proof -
  let ?s = "kslp0 (idle_cpu (Some 0)) [proc0\<lparr>p_state := RUNNING, p_pid := 7\<rparr>]"
  have "cur ?s = Some 0" by (simp add: cur_def)
  then obtain t where "acquiresleep (SLbuf 3) ?s = Ret () t" "kidle t" "holdingsleep (SLbuf 3) t = Ret True t"
    "sl_pid (slocks t (SLbuf 3)) = 7"
    using sleeplock_handover[of ?s 0 "SLbuf 3"] by auto
  then show ?thesis by (simp add: holdingsleep_net)
qed

end
