(* ===== verification/Bio.thy ===== *)
theory Bio
  imports Sleeplock
begin

text \<open>
  The buffer cache (\<^verbatim>\<open>bio.c\<close>, \<^verbatim>\<open>buf.h\<close>) over the synchronous disk of \<^verbatim>\<open>memide.c\<close>.  A buffer is named by
  its index in \<^verbatim>\<open>bcache.buf\<close>; the list head is index \<open>HEAD\<close>, one past the last.  The most-recently-used
  list is kept as the code keeps it, in the \<^verbatim>\<open>next\<close> and \<^verbatim>\<open>prev\<close> fields, and its loops carry fuel: a walk
  that does not come back to the head within \<open>NBUF + 1\<close> steps is an endless loop (\<open>Spin\<close>).
  \<open>dwrites\<close> is a history of the block writes that have reached the disk; no code reads it.
\<close>

abbreviation "NBUF \<equiv> (30 :: nat)"
abbreviation "BSIZE \<equiv> (512 :: nat)"
abbreviation "HEAD \<equiv> (30 :: nat)"

record buf =
  b_valid :: bool
  b_dirty :: bool
  b_dev :: u32
  b_blockno :: nat
  b_refcnt :: u32
  b_prev :: nat
  b_next :: nat
  b_data :: "byte list"

record kbio = kslp +
  bufs :: "nat \<Rightarrow> buf"
  memdisk :: memory
  disksize :: nat
  dwrites :: "(nat \<times> byte list) list"

definition upd_buf :: "nat \<Rightarrow> (buf \<Rightarrow> buf) \<Rightarrow> 'z kbio_scheme \<Rightarrow> 'z kbio_scheme" where
  "upd_buf i f s = s\<lparr>bufs := (bufs s)(i := f (bufs s i))\<rparr>"

section \<open>The disk in memory\<close>

definition ideinit_mem :: "nat \<Rightarrow> memory \<Rightarrow> ('z kbio_scheme, unit) K" where
  "ideinit_mem sz img = kmod (\<lambda>s. s\<lparr>memdisk := img, disksize := sz div BSIZE\<rparr>)"

definition ideintr_mem :: "('z kbio_scheme, unit) K" where
  "ideintr_mem = kret ()"

definition iderw :: "nat \<Rightarrow> ('z kbio_scheme, unit) K" where
  "iderw i =
     kbind (holdingsleep (SLbuf i)) (\<lambda>h.
     if \<not> h then kpanic ''iderw: buf not locked''
     else
       kbind (kget (\<lambda>s. bufs s i)) (\<lambda>b.
       kbind (kget disksize) (\<lambda>n.
       if b_valid b \<and> \<not> b_dirty b then kpanic ''iderw: nothing to do''
       else if b_dev b \<noteq> 1 then kpanic ''iderw: request not for disk 1''
       else if b_blockno b \<ge> n then kpanic ''iderw: block out of range''
       else
         let p = b_blockno b * BSIZE in
         kthen
           (if b_dirty b
            then kthen (kmod (upd_buf i (\<lambda>b. b\<lparr>b_dirty := False\<rparr>)))
                   (kmod (\<lambda>s. s\<lparr>memdisk := put_bytes (memdisk s) p (b_data b), dwrites := dwrites s @ [(b_blockno b, b_data b)]\<rparr>))
            else kmod (\<lambda>s. upd_buf i (\<lambda>b. b\<lparr>b_data := get_bytes (memdisk s) p BSIZE\<rparr>) s))
           (kmod (upd_buf i (\<lambda>b. b\<lparr>b_valid := True\<rparr>))))))"

section \<open>The cache\<close>

definition binit_link :: "nat \<Rightarrow> ('z kbio_scheme, unit) K" where
  "binit_link b =
     kthen (kmod (\<lambda>s. upd_buf b (\<lambda>x. x\<lparr>b_next := b_next (bufs s HEAD)\<rparr>) s)) (
     kthen (kmod (upd_buf b (\<lambda>x. x\<lparr>b_prev := HEAD\<rparr>))) (
     kthen (initsleeplock (SLbuf b)) (
     kthen (kmod (\<lambda>s. upd_buf (b_next (bufs s HEAD)) (\<lambda>x. x\<lparr>b_prev := b\<rparr>) s))
       (kmod (upd_buf HEAD (\<lambda>x. x\<lparr>b_next := b\<rparr>))))))"

definition binit :: "('z kbio_scheme, unit) K" where
  "binit =
     kthen (onhw (initlock Lbcache)) (
     kthen (kmod (upd_buf HEAD (\<lambda>x. x\<lparr>b_prev := HEAD\<rparr>))) (
     kthen (kmod (upd_buf HEAD (\<lambda>x. x\<lparr>b_next := HEAD\<rparr>)))
       (kfor [0..<NBUF] binit_link)))"

fun bscan :: "(buf \<Rightarrow> nat) \<Rightarrow> (buf \<Rightarrow> bool) \<Rightarrow> nat \<Rightarrow> nat \<Rightarrow> ('z kbio_scheme, nat option) K" where
  "bscan step P 0 b = (\<lambda>_. Spin)"
| "bscan step P (Suc fuel) b =
     (if b = HEAD then kret None
      else kbind (kget (\<lambda>s. bufs s b)) (\<lambda>x. if P x then kret (Some b) else bscan step P fuel (step x)))"

definition bget :: "u32 \<Rightarrow> nat \<Rightarrow> ('z kbio_scheme, nat) K" where
  "bget dev blockno =
     kthen (kacquire Lbcache) (
     kbind (kget (\<lambda>s. b_next (bufs s HEAD))) (\<lambda>first.
     kbind (bscan b_next (\<lambda>b. b_dev b = dev \<and> b_blockno b = blockno) (NBUF + 1) first) (\<lambda>hit.
     case hit of
       Some b \<Rightarrow>
         kthen (kmod (upd_buf b (\<lambda>x. x\<lparr>b_refcnt := b_refcnt x + 1\<rparr>))) (
         kthen (krelease Lbcache) (
         kthen (acquiresleep (SLbuf b)) (kret b)))
     | None \<Rightarrow>
         kbind (kget (\<lambda>s. b_prev (bufs s HEAD))) (\<lambda>last.
         kbind (bscan b_prev (\<lambda>b. b_refcnt b = 0 \<and> \<not> b_dirty b) (NBUF + 1) last) (\<lambda>victim.
         case victim of
           Some b \<Rightarrow>
             kthen (kmod (upd_buf b (\<lambda>x. x\<lparr>b_dev := dev, b_blockno := blockno, b_valid := False, b_dirty := False, b_refcnt := 1\<rparr>))) (
             kthen (krelease Lbcache) (
             kthen (acquiresleep (SLbuf b)) (kret b)))
         | None \<Rightarrow> kpanic ''bget: no buffers'')))))"

definition bread :: "u32 \<Rightarrow> nat \<Rightarrow> ('z kbio_scheme, nat) K" where
  "bread dev blockno =
     kbind (bget dev blockno) (\<lambda>b.
     kbind (kget (\<lambda>s. b_valid (bufs s b))) (\<lambda>v.
     kthen (kwhen (\<not> v) (iderw b)) (kret b)))"

definition bwrite :: "nat \<Rightarrow> ('z kbio_scheme, unit) K" where
  "bwrite b =
     kbind (holdingsleep (SLbuf b)) (\<lambda>h.
     if \<not> h then kpanic ''bwrite''
     else kthen (kmod (upd_buf b (\<lambda>x. x\<lparr>b_dirty := True\<rparr>))) (iderw b))"

definition bunlink_front :: "nat \<Rightarrow> ('z kbio_scheme, unit) K" where
  "bunlink_front b =
     kthen (kmod (\<lambda>s. upd_buf (b_next (bufs s b)) (\<lambda>x. x\<lparr>b_prev := b_prev (bufs s b)\<rparr>) s)) (
     kthen (kmod (\<lambda>s. upd_buf (b_prev (bufs s b)) (\<lambda>x. x\<lparr>b_next := b_next (bufs s b)\<rparr>) s)) (
     kthen (kmod (\<lambda>s. upd_buf b (\<lambda>x. x\<lparr>b_next := b_next (bufs s HEAD)\<rparr>) s)) (
     kthen (kmod (upd_buf b (\<lambda>x. x\<lparr>b_prev := HEAD\<rparr>))) (
     kthen (kmod (\<lambda>s. upd_buf (b_next (bufs s HEAD)) (\<lambda>x. x\<lparr>b_prev := b\<rparr>) s))
       (kmod (upd_buf HEAD (\<lambda>x. x\<lparr>b_next := b\<rparr>)))))))"

definition brelse :: "nat \<Rightarrow> ('z kbio_scheme, unit) K" where
  "brelse b =
     kbind (holdingsleep (SLbuf b)) (\<lambda>h.
     if \<not> h then kpanic ''brelse''
     else
       kthen (releasesleep (SLbuf b)) (
       kthen (kacquire Lbcache) (
       kthen (kmod (upd_buf b (\<lambda>x. x\<lparr>b_refcnt := b_refcnt x - 1\<rparr>))) (
       kbind (kget (\<lambda>s. b_refcnt (bufs s b))) (\<lambda>r.
       kthen (kwhen (r = 0) (bunlink_front b))
         (krelease Lbcache))))))"

section \<open>The list through the buffers\<close>

fun chain :: "(nat \<Rightarrow> nat) \<Rightarrow> nat \<Rightarrow> nat list \<Rightarrow> nat \<Rightarrow> bool" where
  "chain nx a [] e \<longleftrightarrow> nx a = e"
| "chain nx a (x # xs) e \<longleftrightarrow> nx a = x \<and> chain nx x xs e"

lemma chain_append: "chain nx a (xs @ ys) e \<longleftrightarrow> (\<exists>b. chain nx a xs b \<and> (case ys of [] \<Rightarrow> b = e | y # ys' \<Rightarrow> b = y \<and> chain nx y ys' e))"
  by (induction xs arbitrary: a) (auto split: list.splits)

lemma chain_mid: "chain nx a (xs @ y # ys) e \<longleftrightarrow> chain nx a xs y \<and> chain nx y ys e"
  by (auto simp: chain_append)

lemma chain_frame: "x \<notin> set (a # xs) \<Longrightarrow> chain (nx(x := v)) a xs e = chain nx a xs e"
  by (induction xs arbitrary: a) auto

lemma chain_upd_last: "distinct (a # xs) \<Longrightarrow> chain nx a xs b \<Longrightarrow> chain (nx(last (a # xs) := c)) a xs c"
  by (induction xs arbitrary: a) auto

lemma chain_next: "chain nx a xs e \<Longrightarrow> nx a = hd (xs @ [e])"
  by (cases xs) auto

lemma chain_pred: "chain nx a (xs @ y # ys) e \<Longrightarrow> nx (last (a # xs)) = y"
  by (induction xs arbitrary: a) auto

definition blinks :: "(nat \<Rightarrow> nat) \<Rightarrow> (nat \<Rightarrow> nat) \<Rightarrow> nat list \<Rightarrow> bool" where
  "blinks nx pv xs \<longleftrightarrow> chain nx HEAD xs HEAD \<and> chain pv HEAD (rev xs) HEAD \<and> distinct (HEAD # xs)"

text \<open>Unlinking a node from one direction of the ring.\<close>

lemma chain_unlink:
  assumes "chain nx a (xs @ b # ys) a" "distinct (a # xs @ b # ys)"
  shows "chain (nx(last (a # xs) := nx b)) a (xs @ ys) a"
proof -
  from assms(1) have c: "chain nx a xs b" "chain nx b ys a" by (simp_all add: chain_mid)
  have l: "chain (nx(last (a # xs) := nx b)) a xs (nx b)"
    using c(1) assms(2) by (intro chain_upd_last[where b = b]) auto
  show ?thesis
  proof (cases ys)
    case Nil
    then show ?thesis using l c(2) by simp
  next
    case (Cons y ys')
    have ns: "last (a # xs) \<notin> set (y # ys')"
      using assms(2) Cons last_in_set[of "a # xs"] by auto
    show ?thesis using l c(2) Cons ns by (simp add: chain_mid chain_frame)
  qed
qed

lemma chain_insert_front: "chain nx a zs a \<Longrightarrow> b \<notin> set (a # zs) \<Longrightarrow> a \<notin> set zs \<Longrightarrow> chain ((nx(b := nx a))(a := b)) a (b # zs) a"
  by (cases zs) (auto simp: chain_frame)

lemma chain_insert_back:
  assumes "chain pv a zs a" "b \<notin> set (a # zs)" "distinct (a # zs)"
  shows "chain ((pv(b := a))(last (a # zs) := b)) a (zs @ [b]) a"
proof -
  have "b \<noteq> last (a # zs)" using assms(2) last_in_set[of "a # zs"] by (metis list.distinct(1))
  moreover have "chain (pv(b := a)) a zs a" using assms by (simp add: chain_frame)
  ultimately show ?thesis using chain_upd_last[OF assms(3)] by (simp add: chain_mid)
qed


text \<open>The state with the links of all buffers replaced.\<close>

definition relink :: "(nat \<Rightarrow> nat) \<Rightarrow> (nat \<Rightarrow> nat) \<Rightarrow> 'z kbio_scheme \<Rightarrow> 'z kbio_scheme" where
  "relink nx pv s = s\<lparr>bufs := \<lambda>i. (bufs s i)\<lparr>b_prev := pv i, b_next := nx i\<rparr>\<rparr>"

definition nxt :: "'z kbio_scheme \<Rightarrow> nat \<Rightarrow> nat" where "nxt s i = b_next (bufs s i)"
definition prv :: "'z kbio_scheme \<Rightarrow> nat \<Rightarrow> nat" where "prv s i = b_prev (bufs s i)"

lemma relink_self: "relink (nxt s) (prv s) s = s"
  by (simp add: relink_def nxt_def prv_def)

lemma relink_simps:
  "b_next (bufs (relink nx pv s) i) = nx i" "b_prev (bufs (relink nx pv s) i) = pv i"
  "upd_buf i (\<lambda>x. x\<lparr>b_next := v\<rparr>) (relink nx pv s) = relink (nx(i := v)) pv s"
  "upd_buf i (\<lambda>x. x\<lparr>b_prev := v\<rparr>) (relink nx pv s) = relink nx (pv(i := v)) s"
  by (simp_all add: relink_def upd_buf_def fun_eq_iff)

lemma bunlink_front_relink:
  assumes "nx b \<noteq> b" "pv b \<noteq> b" "b \<noteq> HEAD"
  shows "bunlink_front b (relink nx pv s) = Ret () (relink
     (((nx(pv b := nx b))(b := (nx(pv b := nx b)) HEAD))(HEAD := b))
     (((pv(nx b := pv b))(b := HEAD))((nx(pv b := nx b)) HEAD := b)) s)"
  using assms by (simp add: bunlink_front_def kdefs relink_simps)

lemma blinks_move_front:
  assumes "blinks nx pv (xs @ b # ys)"
  shows "blinks (((nx(pv b := nx b))(b := (nx(pv b := nx b)) HEAD))(HEAD := b))
     (((pv(nx b := pv b))(b := HEAD))((nx(pv b := nx b)) HEAD := b)) (b # xs @ ys)"
    and "nx b \<noteq> b" "pv b \<noteq> b" "b \<noteq> HEAD"
proof -
  let ?nx = "nx(pv b := nx b)" and ?pv = "pv(nx b := pv b)"
  have d: "distinct (HEAD # xs @ b # ys)" and cn: "chain nx HEAD (xs @ b # ys) HEAD"
    and cp: "chain pv HEAD (rev ys @ b # rev xs) HEAD"
    using assms by (simp_all add: blinks_def)
  have nb: "nx b = hd (ys @ [HEAD])" using cn by (auto simp: chain_mid dest: chain_next)
  have pb: "pv b = hd (rev xs @ [HEAD])" using cp by (auto simp: chain_mid dest: chain_next)
  have lx: "last (HEAD # xs) = pv b" using pb by (simp add: hd_rev)
  have ly: "last (HEAD # rev ys) = nx b" using nb by (cases ys) simp_all
  have dn: "distinct (HEAD # rev ys @ b # rev xs)" using d by auto
  have n1: "chain ?nx HEAD (xs @ ys) HEAD" using chain_unlink[OF cn] d lx by simp
  have p1: "chain ?pv HEAD (rev (xs @ ys)) HEAD" using chain_unlink[OF cp dn] ly by simp
  have h: "?nx HEAD = last (HEAD # rev (xs @ ys))"
    using chain_next[OF n1] by (cases "xs @ ys") simp_all
  have bo: "b \<notin> set (HEAD # xs @ ys)" using d by auto
  show "nx b \<noteq> b" "pv b \<noteq> b" "b \<noteq> HEAD" using nb pb d by (auto simp: hd_append hd_rev dest: hd_in_set last_in_set)
  have n2: "chain ((?nx(b := ?nx HEAD))(HEAD := b)) HEAD (b # xs @ ys) HEAD"
    using bo d by (intro chain_insert_front n1) auto
  have p2: "chain ((?pv(b := HEAD))(last (HEAD # rev (xs @ ys)) := b)) HEAD (rev (xs @ ys) @ [b]) HEAD"
    using bo d by (intro chain_insert_back p1) auto
  show "blinks ((?nx(b := ?nx HEAD))(HEAD := b)) ((?pv(b := HEAD))(?nx HEAD := b)) (b # xs @ ys)"
    using n2 p2 d unfolding h blinks_def by auto
qed

lemma bunlink_front_net:
  assumes "blinks (nxt s) (prv s) xs" "b \<in> set xs"
  shows "\<exists>nx pv. bunlink_front b s = Ret () (relink nx pv s) \<and> blinks nx pv (b # remove1 b xs)"
proof -
  obtain us ys where x: "xs = us @ b # ys" "b \<notin> set us" using split_list_first[OF assms(2)] by blast
  have m: "remove1 b xs = us @ ys" using x by (simp add: remove1_append)
  note M = blinks_move_front[OF assms(1)[unfolded x(1)]]
  show ?thesis
    using bunlink_front_relink[where nx = "nxt s" and pv = "prv s" and s = s, OF M(2-4)] M(1) unfolding relink_self m by blast
qed

section \<open>Walking the list\<close>

lemma bscan_net:
  assumes "chain (\<lambda>i. step (bufs s i)) a xs HEAD" "HEAD \<notin> set xs" "length xs < n"
  shows "bscan step P n (step (bufs s a)) s = Ret (find (\<lambda>i. P (bufs s i)) xs) s"
  using assms
proof (induction xs arbitrary: a n)
  case Nil
  then show ?case by (cases n) simp_all
next
  case (Cons x xs)
  then obtain m where n: "n = Suc m" by (cases n) auto
  show ?case using Cons.IH[of x m] Cons.prems n by (auto simp: kdefs)
qed

lemma bscan_next:
  "blinks (nxt s) (prv s) xs \<Longrightarrow> length xs \<le> NBUF \<Longrightarrow>
   bscan b_next P 31 (b_next (bufs s HEAD)) s = Ret (find (\<lambda>i. P (bufs s i)) xs) s"
  by (rule bscan_net[where a = HEAD]) (auto simp: blinks_def nxt_def[abs_def])

lemma bscan_prev:
  "blinks (nxt s) (prv s) xs \<Longrightarrow> length xs \<le> NBUF \<Longrightarrow>
   bscan b_prev P 31 (b_prev (bufs s HEAD)) s = Ret (find (\<lambda>i. P (bufs s i)) (rev xs)) s"
  by (rule bscan_net[where a = HEAD]) (auto simp: blinks_def prv_def[abs_def])


section \<open>What the cache holds\<close>

definition blk :: "memory \<Rightarrow> nat \<Rightarrow> byte list" where
  "blk d n = get_bytes d (n * BSIZE) BSIZE"

lemma length_blk [simp]: "length (blk d n) = BSIZE"
  by (simp add: blk_def)

lemma blk_put_bytes:
  assumes "length x = BSIZE"
  shows "blk (put_bytes d (n * BSIZE) x) m = (if m = n then x else blk d m)"
proof (cases "m = n")
  case True
  then show ?thesis using assms get_put_bytes[of d "n * BSIZE" x] by (simp add: blk_def)
next
  case False
  then have "m * BSIZE + i < n * BSIZE \<or> n * BSIZE + BSIZE \<le> m * BSIZE + i" if "i < BSIZE" for i
    using that by (cases m n rule: linorder_cases) auto
  then show ?thesis using False assms by (auto simp: blk_def get_bytes_def put_bytes_def)
qed

text \<open>The logical content of block \<open>n\<close>: the cached copy if there is one, the disk block otherwise.\<close>

definition lblk :: "'z kbio_scheme \<Rightarrow> nat \<Rightarrow> byte list" where
  "lblk s n =
     (case find_idx (\<lambda>i. b_dev (bufs s i) = 1 \<and> b_blockno (bufs s i) = n \<and> b_valid (bufs s i)) [0..<NBUF] of
        Some i \<Rightarrow> b_data (bufs s i)
      | None \<Rightarrow> blk (memdisk s) n)"

text \<open>
  The invariant between system calls of one CPU, with the list order \<open>xs\<close> and the buffers \<open>H\<close> that are
  checked out: the list threads all buffers; a block is cached at most once; exactly the
  buffers of \<open>H\<close> are referenced and locked; buffers of the disk are valid; a buffer that is
  neither checked out nor dirty agrees with the disk.
\<close>

definition bslot :: "nat set \<Rightarrow> 'z kbio_scheme \<Rightarrow> nat \<Rightarrow> bool" where
  "bslot H s i \<longleftrightarrow> (let b = bufs s i in
     length (b_data b) = BSIZE \<and> b_refcnt b = (if i \<in> H then 1 else 0) \<and> sl_locked (slocks s (SLbuf i)) = (i \<in> H)
   \<and> b_valid b = (b_dev b = 1) \<and> (b_dev b = 1 \<longrightarrow> b_blockno b < disksize s) \<and> (i \<in> H \<or> b_dirty b \<longrightarrow> b_dev b = 1)
   \<and> (i \<notin> H \<longrightarrow> b_valid b \<longrightarrow> \<not> b_dirty b \<longrightarrow> b_data b = blk (memdisk s) (b_blockno b)))"

definition buniq :: "'z kbio_scheme \<Rightarrow> bool" where
  "buniq s \<longleftrightarrow> (\<forall>i<NBUF. \<forall>j<NBUF. b_dev (bufs s i) = 1 \<longrightarrow> b_dev (bufs s j) = 1 \<longrightarrow>
     b_blockno (bufs s i) = b_blockno (bufs s j) \<longrightarrow> i = j)"

definition bc_inv :: "nat list \<Rightarrow> nat set \<Rightarrow> 'z kbio_scheme \<Rightarrow> bool" where
  "bc_inv xs H s \<longleftrightarrow>
     blinks (nxt s) (prv s) xs \<and> set xs = {..<NBUF} \<and> H \<subseteq> {..<NBUF} \<and> buniq s \<and> (\<forall>i<NBUF. bslot H s i)"

lemma bc_invI:
  "blinks (nxt s) (prv s) xs \<Longrightarrow> set xs = {..<NBUF} \<Longrightarrow> H \<subseteq> {..<NBUF} \<Longrightarrow> buniq s \<Longrightarrow> (\<And>i. i < NBUF \<Longrightarrow> bslot H s i) \<Longrightarrow>
   bc_inv xs H s"
  by (simp add: bc_inv_def)

lemma bslotD: "bc_inv xs H s \<Longrightarrow> i < NBUF \<Longrightarrow> bslot H s i"
  by (simp add: bc_inv_def)

lemma bc_invD:
  assumes "bc_inv xs H s"
  shows "blinks (nxt s) (prv s) xs" "set xs = {..<NBUF}" "H \<subseteq> {..<NBUF}" "length xs = NBUF"
    "i < NBUF \<Longrightarrow> j < NBUF \<Longrightarrow> b_dev (bufs s i) = 1 \<Longrightarrow> b_dev (bufs s j) = 1 \<Longrightarrow> b_blockno (bufs s i) = b_blockno (bufs s j) \<Longrightarrow> i = j"
    "i < NBUF \<Longrightarrow> length (b_data (bufs s i)) = BSIZE"
    "i < NBUF \<Longrightarrow> b_refcnt (bufs s i) = (if i \<in> H then 1 else 0)"
    "i < NBUF \<Longrightarrow> sl_locked (slocks s (SLbuf i)) = (i \<in> H)"
    "i < NBUF \<Longrightarrow> b_valid (bufs s i) = (b_dev (bufs s i) = 1)"
    "i < NBUF \<Longrightarrow> b_dev (bufs s i) = 1 \<Longrightarrow> b_blockno (bufs s i) < disksize s"
    "i \<in> H \<Longrightarrow> b_dev (bufs s i) = 1" "i < NBUF \<Longrightarrow> b_dirty (bufs s i) \<Longrightarrow> b_dev (bufs s i) = 1"
    "i < NBUF \<Longrightarrow> i \<notin> H \<Longrightarrow> b_valid (bufs s i) \<Longrightarrow> \<not> b_dirty (bufs s i) \<Longrightarrow> b_data (bufs s i) = blk (memdisk s) (b_blockno (bufs s i))"
proof -
  have d: "distinct xs" and st: "set xs = {..<NBUF}" using assms by (simp_all add: bc_inv_def blinks_def)
  show "length xs = NBUF" using distinct_card[OF d] st by simp
  show "H \<subseteq> {..<NBUF}" using assms by (simp add: bc_inv_def)
  then show "i \<in> H \<Longrightarrow> b_dev (bufs s i) = 1" using bslotD[OF assms, of i] by (auto simp: bslot_def Let_def)
qed (use assms in \<open>auto simp: bc_inv_def bslot_def buniq_def Let_def\<close>)

lemma lblk_cached:
  assumes "bc_inv xs H s" "i < NBUF" "b_dev (bufs s i) = 1"
  shows "lblk s (b_blockno (bufs s i)) = b_data (bufs s i)"
proof -
  let ?P = "\<lambda>j. b_dev (bufs s j) = 1 \<and> b_blockno (bufs s j) = b_blockno (bufs s i) \<and> b_valid (bufs s j)"
  have "i \<in> set [0..<NBUF]" "?P i" using assms bc_invD(9)[OF assms(1)] by auto
  then obtain k where k: "find_idx ?P [0..<NBUF] = Some k" using find_idx_Some_ex[of i "[0..<NBUF]" ?P] by blast
  have "k < NBUF" "?P ([0..<NBUF] ! k)" using find_idx_SomeD[OF k] by auto
  then have "k = i" using bc_invD(5)[OF assms(1), of k i] assms by simp
  then show ?thesis using k by (simp add: lblk_def)
qed

lemma lblk_uncached: "\<forall>i<NBUF. b_dev (bufs s i) = 1 \<longrightarrow> b_blockno (bufs s i) \<noteq> n \<Longrightarrow> lblk s n = blk (memdisk s) n"
proof -
  assume "\<forall>i<NBUF. b_dev (bufs s i) = 1 \<longrightarrow> b_blockno (bufs s i) \<noteq> n"
  then have "find_idx (\<lambda>i. b_dev (bufs s i) = 1 \<and> b_blockno (bufs s i) = n \<and> b_valid (bufs s i)) [0..<NBUF] = None" by auto
  then show ?thesis by (simp add: lblk_def del: find_idx_None_iff)
qed

lemma length_lblk: "bc_inv xs H s \<Longrightarrow> length (lblk s n) = BSIZE"
proof (cases "\<exists>i<NBUF. b_dev (bufs s i) = 1 \<and> b_blockno (bufs s i) = n")
  case True
  assume I: "bc_inv xs H s"
  from True obtain i where i: "i < NBUF" "b_dev (bufs s i) = 1" "b_blockno (bufs s i) = n" by blast
  show ?thesis using lblk_cached[OF I i(1,2)] i bc_invD(6)[OF I i(1)] by simp
next
  case False
  then show ?thesis by (subst lblk_uncached) auto
qed

text \<open>Two caches that agree on the copies of a block, or of which one only has the disk's copy.\<close>

lemma lblk_eqI:
  assumes I: "bc_inv xs H s" and J: "bc_inv ys G t"
    and "\<And>i. i < NBUF \<Longrightarrow> b_dev (bufs s i) = 1 \<Longrightarrow> b_blockno (bufs s i) = n \<Longrightarrow>
      (b_dev (bufs t i) = 1 \<and> b_blockno (bufs t i) = n \<and> b_data (bufs t i) = b_data (bufs s i))
      \<or> (b_data (bufs s i) = blk (memdisk t) n \<and> (\<forall>j<NBUF. b_dev (bufs t j) = 1 \<longrightarrow> b_blockno (bufs t j) \<noteq> n))"
    and "(\<forall>i<NBUF. b_dev (bufs s i) = 1 \<longrightarrow> b_blockno (bufs s i) \<noteq> n) \<Longrightarrow> lblk t n = blk (memdisk s) n"
  shows "lblk t n = lblk s n"
proof (cases "\<exists>i<NBUF. b_dev (bufs s i) = 1 \<and> b_blockno (bufs s i) = n")
  case True
  then obtain i where i: "i < NBUF" "b_dev (bufs s i) = 1" "b_blockno (bufs s i) = n" by blast
  then have e: "lblk s n = b_data (bufs s i)" using lblk_cached[OF I] by auto
  from assms(3)[OF i] show ?thesis
    using e lblk_cached[OF J i(1)] lblk_uncached[of t n] by (elim disjE) auto
next
  case False
  then show ?thesis using assms(4) lblk_uncached[of s n] by auto
qed


section \<open>Net effects\<close>

lemma bio_simps [simp]:
  "bufs (klock lk s) = bufs s" "memdisk (klock lk s) = memdisk s" "disksize (klock lk s) = disksize s" "dwrites (klock lk s) = dwrites s"
  "bufs (ksettle s) = bufs s" "memdisk (ksettle s) = memdisk s" "disksize (ksettle s) = disksize s" "dwrites (ksettle s) = dwrites s"
  "bufs (awaken ch s) = bufs s" "memdisk (awaken ch s) = memdisk s" "disksize (awaken ch s) = disksize s" "dwrites (awaken ch s) = dwrites s"
  "bufs (upd_slock l f s) = bufs s" "memdisk (upd_slock l f s) = memdisk s" "disksize (upd_slock l f s) = disksize s"
  "dwrites (upd_slock l f s) = dwrites s"
  "nxt (klock lk s) = nxt s" "prv (klock lk s) = prv s" "nxt (awaken ch s) = nxt s" "prv (awaken ch s) = prv s"
  "nxt (upd_slock l f s) = nxt s" "prv (upd_slock l f s) = prv s"
  by (simp_all add: klock_def ksettle_def awaken_def upd_slock_def nxt_def[abs_def] prv_def[abs_def])

lemma upd_buf_simps [simp]:
  "khw (upd_buf i f s) = khw s" "procs (upd_buf i f s) = procs s" "slocks (upd_buf i f s) = slocks s" "cur (upd_buf i f s) = cur s"
  "memdisk (upd_buf i f s) = memdisk s" "disksize (upd_buf i f s) = disksize s" "dwrites (upd_buf i f s) = dwrites s"
  "bufs (upd_buf i f s) = (bufs s)(i := f (bufs s i))"
  "upd_buf i f (klock lk s) = klock lk (upd_buf i f s)" "upd_buf i f (ksettle s) = ksettle (upd_buf i f s)"
  "upd_buf i f (upd_slock l g s) = upd_slock l g (upd_buf i f s)" "upd_buf i f (awaken ch s) = awaken ch (upd_buf i f s)"
  "kgood (upd_buf i f s) = kgood s" "kfree_lk lk (upd_buf i f s) = kfree_lk lk s"
  by (simp_all add: upd_buf_def cur_def klock_def ksettle_def upd_slock_def awaken_def kgood_def kfree_lk_def)

lemma upd_buf_twice [simp]: "upd_buf i g (upd_buf i f s) = upd_buf i (\<lambda>x. g (f x)) s"
  by (simp add: upd_buf_def)

text \<open>Taking the sleep lock of buffer \<open>i\<close>, and the state in which it has been given back.\<close>

definition hold :: "nat \<Rightarrow> 'z kslp_scheme \<Rightarrow> 'z kslp_scheme" where
  "hold i s = upd_slock (SLbuf i) (\<lambda>x. x\<lparr>sl_locked := True, sl_pid := p_pid (procs s ! the (cur s))\<rparr>) s"

definition unhold :: "nat \<Rightarrow> 'z kslp_scheme \<Rightarrow> 'z kslp_scheme" where
  "unhold i s = awaken (Some (ChanSleep (SLbuf i))) (upd_slock (SLbuf i) (\<lambda>x. x\<lparr>sl_locked := False, sl_pid := 0\<rparr>) s)"

lemma hold_simps [simp]:
  "bufs (hold i s) = bufs s" "memdisk (hold i s) = memdisk s" "disksize (hold i s) = disksize s" "khw (hold i s) = khw s"
  "procs (hold i s) = procs s" "sl_locked (slocks (hold i s) (SLbuf j)) = (j = i \<or> sl_locked (slocks s (SLbuf j)))"
  "upd_buf i f (hold j s) = hold j (upd_buf i f s)"
  by (auto simp: hold_def)

lemma unhold_simps [simp]:
  "bufs (unhold i s) = bufs s" "memdisk (unhold i s) = memdisk s" "disksize (unhold i s) = disksize s" "khw (unhold i s) = khw s"
  "sl_locked (slocks (unhold i s) (SLbuf j)) = (j \<noteq> i \<and> sl_locked (slocks s (SLbuf j)))"
  "nxt (unhold i s) = nxt s" "prv (unhold i s) = prv s"
  by (auto simp: unhold_def)

lemma find_eq_Some: "find P xs = Some x \<Longrightarrow> x \<in> set xs \<and> P x"
  by (induction xs) (auto split: if_splits)

lemma find_eq_None: "find P xs = None \<longleftrightarrow> (\<forall>x\<in>set xs. \<not> P x)"
  by (induction xs) auto

lemma bget_hit:
  assumes "kidle s" "cur s = Some c" "bc_inv xs H s" "i < NBUF" "i \<notin> H" "b_dev (bufs s i) = 1" "b_blockno (bufs s i) = n"
  shows "bget 1 n s = Ret i (hold i (upd_buf i (\<lambda>x. x\<lparr>b_refcnt := 1\<rparr>) s))"
proof -
  note I = bc_invD[OF assms(3)]
  have "find (\<lambda>i. b_dev (bufs s i) = 1 \<and> b_blockno (bufs s i) = n) xs \<noteq> None"
    using assms(4,6,7) I(2) by (auto simp: find_eq_None)
  then obtain j where j: "find (\<lambda>i. b_dev (bufs s i) = 1 \<and> b_blockno (bufs s i) = n) xs = Some j" by blast
  have "j = i" using find_eq_Some[OF j] I(2) I(5)[of j i] assms(4-7) by auto
  then have f: "bscan b_next (\<lambda>b. b_dev b = 1 \<and> b_blockno b = n) 31 (b_next (bufs s HEAD)) (klock Lbcache s) = Ret (Some i) (klock Lbcache s)"
    using bscan_next[of "klock Lbcache s" xs "\<lambda>b. b_dev b = 1 \<and> b_blockno b = n"] I(1,4) j by simp
  have e: "upd_buf i (\<lambda>x. x\<lparr>b_refcnt := b_refcnt x + 1\<rparr>) s = upd_buf i (\<lambda>x. x\<lparr>b_refcnt := 1\<rparr>) s"
    using I(7)[of i] assms by (simp add: upd_buf_def)
  show ?thesis
    using assms f I(8)[of i] by (simp add: bget_def kdefs acquiresleep_net hold_def e)
qed

lemma bget_miss:
  assumes "kidle s" "cur s = Some c" "bc_inv xs H s" "\<forall>i<NBUF. b_dev (bufs s i) = 1 \<longrightarrow> b_blockno (bufs s i) \<noteq> n"
    and "\<exists>i<NBUF. i \<notin> H \<and> \<not> b_dirty (bufs s i)"
  shows "\<exists>v<NBUF. v \<notin> H \<and> \<not> b_dirty (bufs s v) \<and>
    bget 1 n s = Ret v (hold v (upd_buf v (\<lambda>x. x\<lparr>b_dev := 1, b_blockno := n, b_valid := False, b_dirty := False, b_refcnt := 1\<rparr>) s))"
proof -
  note I = bc_invD[OF assms(3)]
  have "find (\<lambda>i. b_dev (bufs s i) = 1 \<and> b_blockno (bufs s i) = n) xs = None"
    using assms(4) I(2) by (auto simp: find_eq_None)
  then have f: "bscan b_next (\<lambda>b. b_dev b = 1 \<and> b_blockno b = n) 31 (b_next (bufs s HEAD)) (klock Lbcache s) = Ret None (klock Lbcache s)"
    using bscan_next[of "klock Lbcache s" xs "\<lambda>b. b_dev b = 1 \<and> b_blockno b = n"] I(1,4) by simp
  have "find (\<lambda>i. b_refcnt (bufs s i) = 0 \<and> \<not> b_dirty (bufs s i)) (rev xs) \<noteq> None"
    using assms(5) I(2,7) by (auto simp: find_eq_None)
  then obtain v where v: "find (\<lambda>i. b_refcnt (bufs s i) = 0 \<and> \<not> b_dirty (bufs s i)) (rev xs) = Some v" by blast
  have g: "bscan b_prev (\<lambda>b. b_refcnt b = 0 \<and> \<not> b_dirty b) 31 (b_prev (bufs s HEAD)) (klock Lbcache s) = Ret (Some v) (klock Lbcache s)"
    using bscan_prev[of "klock Lbcache s" xs "\<lambda>b. b_refcnt b = 0 \<and> \<not> b_dirty b"] I(1,4) v by simp
  have V: "v < NBUF" "v \<notin> H" "\<not> b_dirty (bufs s v)" using find_eq_Some[OF v] I(2) I(7)[of v] by (auto split: if_splits)
  then show ?thesis
    using assms f g I(8)[of v] by (intro exI[of _ v]) (simp add: bget_def kdefs acquiresleep_net hold_def)
qed

lemma bget_full:
  assumes "kidle s" "bc_inv xs H s" "\<forall>i<NBUF. b_dev (bufs s i) = 1 \<longrightarrow> b_blockno (bufs s i) \<noteq> n"
    and "\<forall>i<NBUF. i \<in> H \<or> b_dirty (bufs s i)"
  shows "bget 1 n s = Panic ''bget: no buffers''"
proof -
  note I = bc_invD[OF assms(2)]
  have "find (\<lambda>i. b_dev (bufs s i) = 1 \<and> b_blockno (bufs s i) = n) xs = None"
    using assms(3) I(2) by (auto simp: find_eq_None)
  then have f: "bscan b_next (\<lambda>b. b_dev b = 1 \<and> b_blockno b = n) 31 (b_next (bufs s HEAD)) (klock Lbcache s) = Ret None (klock Lbcache s)"
    using bscan_next[of "klock Lbcache s" xs "\<lambda>b. b_dev b = 1 \<and> b_blockno b = n"] I(1,4) by simp
  have "find (\<lambda>i. b_refcnt (bufs s i) = 0 \<and> \<not> b_dirty (bufs s i)) (rev xs) = None"
    using assms(4) I(2,7) by (auto simp: find_eq_None)
  then have "bscan b_prev (\<lambda>b. b_refcnt b = 0 \<and> \<not> b_dirty b) 31 (b_prev (bufs s HEAD)) (klock Lbcache s) = Ret None (klock Lbcache s)"
    using bscan_prev[of "klock Lbcache s" xs "\<lambda>b. b_refcnt b = 0 \<and> \<not> b_dirty b"] I(1,4) by simp
  then show ?thesis using assms f by (simp add: bget_def kdefs)
qed


lemma iderw_read:
  assumes "kidle s" "sl_locked (slocks s (SLbuf i))" "\<not> b_valid (bufs s i)" "\<not> b_dirty (bufs s i)" "b_dev (bufs s i) = 1"
    "b_blockno (bufs s i) < disksize s"
  shows "iderw i s = Ret () (upd_buf i (\<lambda>b. b\<lparr>b_data := blk (memdisk s) (b_blockno (bufs s i)), b_valid := True\<rparr>) s)"
  using assms by (simp add: iderw_def kdefs holdingsleep_net Let_def blk_def)

lemma iderw_write:
  assumes "kidle s" "sl_locked (slocks s (SLbuf i))" "b_dirty (bufs s i)" "b_dev (bufs s i) = 1"
    "b_blockno (bufs s i) < disksize s"
  shows "iderw i s = Ret () (upd_buf i (\<lambda>b. b\<lparr>b_dirty := False, b_valid := True\<rparr>) (s\<lparr>
     memdisk := put_bytes (memdisk s) (b_blockno (bufs s i) * BSIZE) (b_data (bufs s i)),
     dwrites := dwrites s @ [(b_blockno (bufs s i), b_data (bufs s i))]\<rparr>))"
  using assms by (simp add: iderw_def kdefs holdingsleep_net Let_def) (simp add: upd_buf_def)

text \<open>What a disk operation may touch besides the disk: the buffers, their locks, and the states of processes it wakes.\<close>

definition woken :: "proc list \<Rightarrow> proc list \<Rightarrow> bool" where
  "woken ps qs \<longleftrightarrow> list_all2 (\<lambda>p q. q = p \<or> p_state p = SLEEPING \<and> q = p\<lparr>p_state := RUNNABLE\<rparr>) ps qs"

lemma woken_refl [simp]: "woken ps ps"
  by (simp add: woken_def list_all2_refl)

lemma woken_trans: "woken ps qs \<Longrightarrow> woken qs rs \<Longrightarrow> woken ps rs"
  unfolding woken_def list_all2_conv_all_nth by force

lemma woken_awaken: "woken (procs s) (procs (awaken ch s))"
  by (auto simp: woken_def awaken_def list_all2_conv_all_nth)

definition bframe :: "'z kbio_scheme \<Rightarrow> 'z kbio_scheme \<Rightarrow> bool" where
  "bframe s t \<longleftrightarrow> t = s\<lparr>procs := procs t, slocks := slocks t, bufs := bufs t\<rparr> \<and> woken (procs s) (procs t)
     \<and> (\<forall>k. slocks t (SLinode k) = slocks s (SLinode k))"

lemma bframe_trans: "bframe s t \<Longrightarrow> bframe t u \<Longrightarrow> bframe s u"
  unfolding bframe_def
proof (elim conjE, intro conjI)
  assume a: "t = s\<lparr>procs := procs t, slocks := slocks t, bufs := bufs t\<rparr>" "u = t\<lparr>procs := procs u, slocks := slocks u, bufs := bufs u\<rparr>"
  have "u = (s\<lparr>procs := procs t, slocks := slocks t, bufs := bufs t\<rparr>)\<lparr>procs := procs u, slocks := slocks u, bufs := bufs u\<rparr>"
    using a by metis
  then show "u = s\<lparr>procs := procs u, slocks := slocks u, bufs := bufs u\<rparr>" by simp
qed (auto intro: woken_trans)

lemma bframe_refl [simp]: "bframe s s"
  by (simp add: bframe_def)

lemma bframeD: "bframe s t \<Longrightarrow> khw t = khw s" "bframe s t \<Longrightarrow> memdisk t = memdisk s" "bframe s t \<Longrightarrow> disksize t = disksize s"
  "bframe s t \<Longrightarrow> dwrites t = dwrites s" "bframe s t \<Longrightarrow> pmem t = pmem s"
  unfolding bframe_def by (elim conjE, erule ssubst, simp)+

lemma bframe_cur: "bframe s t \<Longrightarrow> cur t = cur s"
  by (simp add: cur_def bframeD(1))

lemma bframe_hold: "bframe s (hold i (upd_buf i f s))"
  by (simp add: bframe_def hold_def upd_slock_def upd_buf_def)

lemma bframe_upd: "bframe s (upd_buf i f s)"
  by (simp add: bframe_def upd_buf_def)

lemma bframe_relink: "bframe s (relink nx pv s)"
  by (simp add: bframe_def relink_def)

lemma bframe_unhold: "bframe s (unhold i s)"
  using woken_awaken[of "upd_slock (SLbuf i) (\<lambda>x. x\<lparr>sl_locked := False, sl_pid := 0\<rparr>) s"]
  by (auto simp: bframe_def unhold_def awaken_def upd_slock_def)

text \<open>Reading a block through the cache.\<close>

lemma bc_inv_checkout:
  assumes I: "bc_inv xs H s" and v: "v < NBUF" "v \<notin> H"
    and b: "b_dev b = 1" "b_valid b" "b_refcnt b = 1" "length (b_data b) = BSIZE" "b_blockno b < disksize s"
      "b_next b = b_next (bufs s v)" "b_prev b = b_prev (bufs s v)"
    and u: "\<forall>i<NBUF. b_dev (bufs s i) = 1 \<longrightarrow> b_blockno (bufs s i) = b_blockno b \<longrightarrow> i = v"
    and t: "bufs t = (bufs s)(v := b)" "memdisk t = memdisk s" "disksize t = disksize s"
      "\<And>i. sl_locked (slocks t (SLbuf i)) = (i = v \<or> sl_locked (slocks s (SLbuf i)))"
  shows "bc_inv xs (insert v H) t"
proof -
  have "nxt t = nxt s" "prv t = prv s" using t b by (auto simp: nxt_def prv_def fun_eq_iff)
  then have l: "blinks (nxt t) (prv t) xs" "set xs = {..<NBUF}" "insert v H \<subseteq> {..<NBUF}" using bc_invD(1-3)[OF I] v by auto
  have "buniq t" using bc_invD(5)[OF I] u unfolding buniq_def t(1) by (metis fun_upd_apply)
  moreover have "bslot (insert v H) t i" if "i < NBUF" for i
    using bslotD[OF I that] v b t by (cases "i = v") (auto simp: bslot_def Let_def)
  ultimately show ?thesis using l by (intro bc_invI)
qed

lemma bread_ok:
  assumes k: "kidle s" "cur s = Some c" and I: "bc_inv xs H s" and n: "n < disksize s"
    and h: "\<forall>i\<in>H. b_blockno (bufs s i) \<noteq> n"
    and room: "(\<exists>i<NBUF. b_dev (bufs s i) = 1 \<and> b_blockno (bufs s i) = n) \<or> (\<exists>i<NBUF. i \<notin> H \<and> \<not> b_dirty (bufs s i))"
  shows "\<exists>i t. bread 1 n s = Ret i t \<and> i < NBUF \<and> i \<notin> H \<and> bc_inv xs (insert i H) t \<and> bframe s t
    \<and> b_blockno (bufs t i) = n \<and> b_data (bufs t i) = lblk s n \<and> lblk t = lblk s
    \<and> (\<forall>j. j \<noteq> i \<longrightarrow> bufs t j = bufs s j) \<and> (b_dirty (bufs t i) \<longrightarrow> bufs t i = (bufs s i)\<lparr>b_refcnt := 1\<rparr>)
    \<and> (\<not> b_dirty (bufs t i) \<longrightarrow> \<not> b_dirty (bufs s i) \<and> b_data (bufs t i) = blk (memdisk t) n)"
proof (cases "\<exists>i<NBUF. b_dev (bufs s i) = 1 \<and> b_blockno (bufs s i) = n")
  case True
  then obtain i where i: "i < NBUF" "b_dev (bufs s i) = 1" "b_blockno (bufs s i) = n" by blast
  note ID = bc_invD[OF I]
  have iH: "i \<notin> H" using h i by blast
  let ?t = "hold i (upd_buf i (\<lambda>x. x\<lparr>b_refcnt := 1\<rparr>) s)"
  have bt: "bufs ?t = (bufs s)(i := (bufs s i)\<lparr>b_refcnt := 1\<rparr>)" by (simp add: hold_def)
  have "bread 1 n s = Ret i ?t"
    using bget_hit[OF k I i(1) iH i(2,3)] ID(9)[OF i(1)] i by (simp add: bread_def kdefs bt)
  moreover have J: "bc_inv xs (insert i H) ?t"
  proof (rule bc_inv_checkout[OF I i(1) iH, of "(bufs s i)\<lparr>b_refcnt := 1\<rparr>"])
    show "\<forall>k<NBUF. b_dev (bufs s k) = 1 \<longrightarrow> b_blockno (bufs s k) = b_blockno ((bufs s i)\<lparr>b_refcnt := 1\<rparr>) \<longrightarrow> k = i"
      using ID(5)[OF _ i(1)] i(2) by simp
  qed (use i ID(9)[OF i(1)] ID(6)[OF i(1)] n in simp_all)
  moreover have "lblk ?t = lblk s"
    by (rule ext, rule lblk_eqI[OF I J]) (auto simp: bt, subst lblk_uncached, auto simp: bt hold_def)
  moreover have "b_data (bufs s i) = lblk s n" using lblk_cached[OF I i(1,2)] i(3) by simp
  ultimately show ?thesis
    using i iH bframe_hold[of s i] ID(9)[OF i(1)] ID(13)[OF i(1) iH] by (intro exI[of _ i] exI[of _ ?t]) (simp add: bt hold_def)
next
  case False
  then have nc: "\<forall>i<NBUF. b_dev (bufs s i) = 1 \<longrightarrow> b_blockno (bufs s i) \<noteq> n" by blast
  note ID = bc_invD[OF I]
  obtain v where v: "v < NBUF" "v \<notin> H" "\<not> b_dirty (bufs s v)"
    and g: "bget 1 n s = Ret v (hold v (upd_buf v (\<lambda>x. x\<lparr>b_dev := 1, b_blockno := n, b_valid := False, b_dirty := False, b_refcnt := 1\<rparr>) s))"
    using bget_miss[OF k I nc] room False by blast
  let ?b = "(bufs s v)\<lparr>b_dev := 1, b_blockno := n, b_dirty := False, b_refcnt := 1, b_data := blk (memdisk s) n, b_valid := True\<rparr>"
  let ?t = "hold v (upd_buf v (\<lambda>_. ?b) s)"
  have bt: "bufs ?t = (bufs s)(v := ?b)" "memdisk ?t = memdisk s" by simp_all
  have "bread 1 n s = Ret v ?t"
    using g k n by (simp add: bread_def kdefs iderw_read) (simp add: upd_buf_def)
  moreover have J: "bc_inv xs (insert v H) ?t"
  proof (rule bc_inv_checkout[OF I v(1,2), of ?b])
    show "\<forall>k<NBUF. b_dev (bufs s k) = 1 \<longrightarrow> b_blockno (bufs s k) = b_blockno ?b \<longrightarrow> k = v" using nc by simp
  qed (use n in simp_all)
  moreover have "lblk ?t m = lblk s m" for m
  proof (rule lblk_eqI[OF I J])
    fix i assume i: "i < NBUF" "b_dev (bufs s i) = 1" "b_blockno (bufs s i) = m"
    then have mn: "m \<noteq> n" using nc by blast
    show "(b_dev (bufs ?t i) = 1 \<and> b_blockno (bufs ?t i) = m \<and> b_data (bufs ?t i) = b_data (bufs s i))
      \<or> (b_data (bufs s i) = blk (memdisk ?t) m \<and> (\<forall>j<NBUF. b_dev (bufs ?t j) = 1 \<longrightarrow> b_blockno (bufs ?t j) \<noteq> m))"
    proof (cases "i = v")
      case True
      have "b_blockno (bufs ?t j) \<noteq> m" if "j < NBUF" "b_dev (bufs ?t j) = 1" for j
        using that i mn True ID(5)[OF that(1) i(1)] by (cases "j = v") (auto simp: bt)
      moreover have "b_data (bufs s i) = blk (memdisk ?t) m"
        using ID(13)[OF i(1)] ID(9)[OF i(1)] i True v by (simp add: bt)
      ultimately show ?thesis by blast
    next
      case False
      then show ?thesis using i by (simp add: bt)
    qed
  next
    assume u: "\<forall>i<NBUF. b_dev (bufs s i) = 1 \<longrightarrow> b_blockno (bufs s i) \<noteq> m"
    show "lblk ?t m = blk (memdisk s) m"
    proof (cases "m = n")
      case True
      then show ?thesis using lblk_cached[OF J v(1)] by (simp add: bt)
    next
      case False
      then show ?thesis using u by (subst lblk_uncached) (auto simp: bt)
    qed
  qed
  moreover have "lblk s n = blk (memdisk s) n" by (rule lblk_uncached[OF nc])
  ultimately show ?thesis
    using v bframe_hold[of s v] by (intro exI[of _ v] exI[of _ ?t]) (auto simp: bt)
qed


text \<open>Giving a buffer back that is dirty or agrees with the disk.\<close>

lemma brelse_net:
  assumes "kidle s" "bc_inv xs H s" "i \<in> H"
  shows "\<exists>nx pv. brelse i s = Ret () (relink nx pv (unhold i (upd_buf i (\<lambda>x. x\<lparr>b_refcnt := 0\<rparr>) s)))
     \<and> blinks nx pv (i # remove1 i xs)"
proof -
  note I = bc_invD[OF assms(2)]
  have i: "i < NBUF" "b_refcnt (bufs s i) = 1" "sl_locked (slocks s (SLbuf i))" using I(3,7,8)  assms(3) by auto
  let ?u = "unhold i (upd_buf i (\<lambda>x. x\<lparr>b_refcnt := b_refcnt x - 1\<rparr>) s)"
  have e: "?u = unhold i (upd_buf i (\<lambda>x. x\<lparr>b_refcnt := 0\<rparr>) s)" using i(2) by (simp add: upd_buf_def)
  have ln: "nxt (klock Lbcache ?u) = nxt s" "prv (klock Lbcache ?u) = prv s"
    by (simp_all add: nxt_def prv_def fun_eq_iff)
  obtain nx pv where b: "bunlink_front i (klock Lbcache ?u) = Ret () (relink nx pv (klock Lbcache ?u))" "blinks nx pv (i # remove1 i xs)"
    using bunlink_front_net[of "klock Lbcache ?u" xs i] I(1,2) i(1) unfolding ln by auto
  have "upd_buf i (\<lambda>x. x\<lparr>b_refcnt := b_refcnt x - 1\<rparr>) (klock Lbcache (unhold i s)) = klock Lbcache ?u"
    by (simp add: unhold_def)
  moreover have "relink nx pv (klock Lbcache ?u) = klock Lbcache (relink nx pv ?u)" by (simp add: relink_def klock_def)
  moreover have "kidle (relink nx pv ?u)" using assms(1) by (simp add: relink_def)
  ultimately have "brelse i s = Ret () (relink nx pv ?u)"
    using assms(1) i b(1) by (simp add: brelse_def kdefs holdingsleep_net releasesleep_net flip: unhold_def)
  then show ?thesis using b(2) e by auto
qed

lemma brelse_ok:
  assumes k: "kidle s" and I: "bc_inv xs H s" and i: "i \<in> H"
    and c: "b_dirty (bufs s i) \<or> b_data (bufs s i) = blk (memdisk s) (b_blockno (bufs s i))"
  shows "\<exists>t. brelse i s = Ret () t \<and> bc_inv (i # remove1 i xs) (H - {i}) t \<and> bframe s t \<and> lblk t = lblk s
    \<and> (\<forall>j. b_dirty (bufs t j) = b_dirty (bufs s j) \<and> b_blockno (bufs t j) = b_blockno (bufs s j)
         \<and> b_dev (bufs t j) = b_dev (bufs s j) \<and> b_data (bufs t j) = b_data (bufs s j))"
proof -
  obtain nx pv where r: "brelse i s = Ret () (relink nx pv (unhold i (upd_buf i (\<lambda>x. x\<lparr>b_refcnt := 0\<rparr>) s)))"
    and l: "blinks nx pv (i # remove1 i xs)" using brelse_net[OF k I i] by blast
  let ?t = "relink nx pv (unhold i (upd_buf i (\<lambda>x. x\<lparr>b_refcnt := 0\<rparr>) s))"
  have bt: "bufs ?t j = (bufs s j)\<lparr>b_refcnt := (if j = i then 0 else b_refcnt (bufs s j)), b_prev := pv j, b_next := nx j\<rparr>" for j
    by (simp add: relink_def)
  have ot: "memdisk ?t = memdisk s" "disksize ?t = disksize s"
    "sl_locked (slocks ?t (SLbuf j)) = (j \<noteq> i \<and> sl_locked (slocks s (SLbuf j)))" for j
    using unhold_simps(5)[of i "upd_buf i (\<lambda>x. x\<lparr>b_refcnt := 0\<rparr>) s" j] by (simp_all add: relink_def)
  have J: "bc_inv (i # remove1 i xs) (H - {i}) ?t"
  proof (rule bc_invI)
    have "nxt ?t = nx" "prv ?t = pv" by (simp_all add: nxt_def prv_def bt fun_eq_iff)
    then show "blinks (nxt ?t) (prv ?t) (i # remove1 i xs)" using l by simp
    show "set (i # remove1 i xs) = {..<NBUF}" "H - {i} \<subseteq> {..<NBUF}"
      using bc_invD(1,2,3)[OF I] i by (auto simp: blinks_def)
    show "buniq ?t" using I by (simp add: buniq_def bt bc_inv_def)
    show "bslot (H - {i}) ?t j" if "j < NBUF" for j
      using bslotD[OF I that] c i by (auto simp: bslot_def bt ot Let_def split: if_splits)
  qed
  have "lblk ?t = lblk s"
    by (rule ext, rule lblk_eqI[OF I J]) (auto simp: bt ot, subst lblk_uncached, auto simp: bt ot)
  moreover have "bframe s ?t"
    by (rule bframe_trans[OF bframe_trans[OF bframe_upd bframe_unhold] bframe_relink])
  ultimately show ?thesis using r J by (intro exI[of _ ?t]) (simp add: bt)
qed

text \<open>Changing the data of a buffer that is checked out changes the logical block and nothing else.\<close>

lemma set_data_ok:
  assumes I: "bc_inv xs H s" and i: "i \<in> H" and x: "length x = BSIZE"
    and t: "t = upd_buf i (\<lambda>b. b\<lparr>b_data := x, b_dirty := d\<rparr>) s"
  shows "bc_inv xs H t" "lblk t = (lblk s)(b_blockno (bufs s i) := x)"
proof -
  have iN: "i < NBUF" and i1: "b_dev (bufs s i) = 1" using bc_invD(3,11)[OF I] i by auto
  have bt: "bufs t j = (if j = i then (bufs s i)\<lparr>b_data := x, b_dirty := d\<rparr> else bufs s j)" for j by (simp add: t)
  have ot: "memdisk t = memdisk s" "disksize t = disksize s" "slocks t = slocks s" by (simp_all add: t)
  show J: "bc_inv xs H t"
  proof (rule bc_invI)
    have "nxt t = nxt s" "prv t = prv s" by (simp_all add: nxt_def prv_def bt fun_eq_iff)
    then show "blinks (nxt t) (prv t) xs" using bc_invD(1)[OF I] by simp
    show "set xs = {..<NBUF}" "H \<subseteq> {..<NBUF}" using bc_invD(2,3)[OF I] by auto
    show "buniq t" using bc_invD(5)[OF I] by (auto simp: buniq_def bt split: if_splits)
    show "bslot H t j" if "j < NBUF" for j
      using bslotD[OF I that] i x i1 by (auto simp: bslot_def bt ot Let_def)
  qed
  show "lblk t = (lblk s)(b_blockno (bufs s i) := x)"
  proof (rule ext)
    fix m
    show "lblk t m = ((lblk s)(b_blockno (bufs s i) := x)) m"
    proof (cases "m = b_blockno (bufs s i)")
      case True
      then show ?thesis using lblk_cached[OF J iN] i1 by (simp add: bt)
    next
      case False
      have "lblk t m = lblk s m"
        using False by (intro lblk_eqI[OF I J]) (auto simp: bt, subst lblk_uncached, auto simp: bt ot)
      then show ?thesis using False by simp
    qed
  qed
qed


text \<open>Writing a buffer through to the disk.\<close>

lemma bwrite_ok:
  assumes k: "kidle s" and I: "bc_inv xs H s" and i: "i \<in> H"
  shows "\<exists>t. bwrite i s = Ret () t \<and> bc_inv xs H t \<and> lblk t = lblk s
    \<and> t = s\<lparr>memdisk := put_bytes (memdisk s) (b_blockno (bufs s i) * BSIZE) (b_data (bufs s i)),
          dwrites := dwrites s @ [(b_blockno (bufs s i), b_data (bufs s i))],
          bufs := (bufs s)(i := (bufs s i)\<lparr>b_dirty := False\<rparr>)\<rparr>
    \<and> (\<forall>m. blk (memdisk t) m = (if m = b_blockno (bufs s i) then b_data (bufs s i) else blk (memdisk s) m))"
proof -
  note ID = bc_invD[OF I]
  have iN: "i < NBUF" using ID(3) i by auto
  have i1: "b_dev (bufs s i) = 1" "b_valid (bufs s i)" "sl_locked (slocks s (SLbuf i))" "b_blockno (bufs s i) < disksize s"
    "length (b_data (bufs s i)) = BSIZE"
    using ID(11)[OF i] ID(6,8,9,10)[OF iN] i by simp_all
  let ?t = "s\<lparr>memdisk := put_bytes (memdisk s) (b_blockno (bufs s i) * BSIZE) (b_data (bufs s i)),
          dwrites := dwrites s @ [(b_blockno (bufs s i), b_data (bufs s i))],
          bufs := (bufs s)(i := (bufs s i)\<lparr>b_dirty := False\<rparr>)\<rparr>"
  have v: "(bufs s i)\<lparr>b_dirty := False, b_valid := True\<rparr> = (bufs s i)\<lparr>b_dirty := False\<rparr>"
    using i1(2) by (cases "bufs s i") simp
  have w: "bwrite i s = Ret () ?t"
    using k i1 by (simp add: bwrite_def kdefs holdingsleep_net iderw_write) (simp add: upd_buf_def v)
  have D: "blk (memdisk ?t) m = (if m = b_blockno (bufs s i) then b_data (bufs s i) else blk (memdisk s) m)" for m
    using blk_put_bytes[OF i1(5)] by simp
  have J: "bc_inv xs H ?t"
  proof (rule bc_invI)
    have "nxt ?t = nxt s" "prv ?t = prv s" by (simp_all add: nxt_def prv_def fun_eq_iff)
    then show "blinks (nxt ?t) (prv ?t) xs" using ID(1) by simp
    show "set xs = {..<NBUF}" "H \<subseteq> {..<NBUF}" using ID(2,3) by auto
    show "buniq ?t" using ID(5) by (auto simp: buniq_def split: if_splits)
    show "bslot H ?t j" if "j < NBUF" for j
      using bslotD[OF I that] i i1 ID(5)[OF that iN] D[of "b_blockno (bufs s j)"] by (auto simp: bslot_def Let_def)
  qed
  have "lblk ?t m = lblk s m" for m
    using i1 iN D[of m]
    by (intro lblk_eqI[OF I J]) (auto, subst lblk_uncached, auto)
  then show ?thesis using w J D by (intro exI[of _ ?t]) auto
qed


section \<open>Setting the cache up\<close>

lemma initlock_idle [simp]: "kidle s \<Longrightarrow> onhw (initlock lk) s = Ret () s"
  by (simp add: onhw_def initlock_def hidle_def lkfree_def fun_upd_idem)

lemma binit_link_relink:
  assumes "kidle s" "b \<noteq> HEAD"
  shows "binit_link b (relink nx pv s) = Ret () (relink ((nx(b := nx HEAD))(HEAD := b)) ((pv(b := HEAD))(nx HEAD := b))
     (upd_slock (SLbuf b) (\<lambda>_. \<lparr>sl_locked = False, sl_pid = 0\<rparr>) s))"
proof -
  have "kidle (relink nx pv s)" for nx pv using assms(1) by (simp add: relink_def)
  moreover have "upd_slock l f (relink nx pv s) = relink nx pv (upd_slock l f s)" for l f nx pv
    by (simp add: relink_def upd_slock_def)
  ultimately show ?thesis using assms(2) by (simp add: binit_link_def initsleeplock_def kdefs relink_simps)
qed

lemma binit_loop:
  assumes "kidle s" "blinks nx pv xs" "distinct bs" "HEAD \<notin> set bs" "set bs \<inter> set xs = {}"
  shows "\<exists>nx' pv'. kfor bs binit_link (relink nx pv s) = Ret () (relink nx' pv'
      (foldl (\<lambda>s b. upd_slock (SLbuf b) (\<lambda>_. \<lparr>sl_locked = False, sl_pid = 0\<rparr>) s) s bs)) \<and> blinks nx' pv' (rev bs @ xs)"
  using assms
proof (induction bs arbitrary: s nx pv xs)
  case Nil
  then show ?case by auto
next
  case (Cons b bs)
  define nx1 where "nx1 = (nx(b := nx HEAD))(HEAD := b)"
  define pv1 where "pv1 = (pv(b := HEAD))(nx HEAD := b)"
  let ?s = "upd_slock (SLbuf b) (\<lambda>_. \<lparr>sl_locked = False, sl_pid = 0\<rparr>) s"
  have c: "chain nx HEAD xs HEAD" "chain pv HEAD (rev xs) HEAD" "distinct (HEAD # xs)" using Cons.prems(2) by (simp_all add: blinks_def)
  have l: "nx HEAD = last (HEAD # rev xs)" using chain_next[OF c(1)] by (cases xs) simp_all
  have bo: "b \<notin> set (HEAD # xs)" using Cons.prems by auto
  have "chain nx1 HEAD (b # xs) HEAD" unfolding nx1_def using bo c by (intro chain_insert_front c) auto
  moreover have "chain pv1 HEAD (rev (b # xs)) HEAD" using chain_insert_back[OF c(2), of b] bo c(3) unfolding pv1_def l by simp
  ultimately have B: "blinks nx1 pv1 (b # xs)" using bo c(3) by (simp add: blinks_def)
  have g: "kidle ?s" using Cons.prems(1) by simp
  have "kfor (b # bs) binit_link (relink nx pv s) = kfor bs binit_link (relink nx1 pv1 ?s)"
    using Cons.prems by (simp add: kdefs binit_link_relink nx1_def pv1_def)
  moreover have "distinct bs" "HEAD \<notin> set bs" "set bs \<inter> set (b # xs) = {}" using Cons.prems by auto
  note Cons.IH[of ?s nx1 pv1 "b # xs", OF g B this]
  ultimately show ?case by simp
qed

lemma foldl_unlock:
  fixes s :: "'z kbio_scheme"
  defines "r \<equiv> (\<lambda>bs. foldl (\<lambda>(s :: 'z kbio_scheme) b. upd_slock (SLbuf b) (\<lambda>_. \<lparr>sl_locked = False, sl_pid = 0\<rparr>) s) s bs)"
  shows "bufs (r bs) = bufs s" "memdisk (r bs) = memdisk s" "disksize (r bs) = disksize s" "khw (r bs) = khw s"
    "b \<in> set bs \<Longrightarrow> \<not> sl_locked (slocks (r bs) (SLbuf b))"
proof -
  show "bufs (r bs) = bufs s" "memdisk (r bs) = memdisk s" "disksize (r bs) = disksize s" "khw (r bs) = khw s"
    unfolding r_def by (induction bs rule: rev_induct) simp_all
  show "b \<in> set bs \<Longrightarrow> \<not> sl_locked (slocks (r bs) (SLbuf b))"
    unfolding r_def by (induction bs rule: rev_induct) auto
qed

lemma bframe_unlock: "bframe s (foldl (\<lambda>s b. upd_slock (SLbuf b) (\<lambda>_. \<lparr>sl_locked = False, sl_pid = 0\<rparr>) s) s bs)"
proof (induction bs rule: rev_induct)
  case (snoc b bs)
  have "bframe u (upd_slock (SLbuf b) f u)" for f and u :: "'a kbio_scheme" by (simp add: bframe_def upd_slock_def)
  then show ?case using bframe_trans[OF snoc] by simp
qed simp

lemma binit_ok:
  assumes "kidle s" and z: "\<forall>i<NBUF. b_dev (bufs s i) = 0 \<and> \<not> b_valid (bufs s i) \<and> \<not> b_dirty (bufs s i) \<and> b_refcnt (bufs s i) = 0
    \<and> length (b_data (bufs s i)) = BSIZE"
  shows "\<exists>t. binit s = Ret () t \<and> kidle t \<and> bc_inv (rev [0..<NBUF]) {} t \<and> (\<forall>n. lblk t n = blk (memdisk s) n)
    \<and> cur t = cur s \<and> memdisk t = memdisk s \<and> disksize t = disksize s \<and> (\<forall>i<NBUF. \<not> b_dirty (bufs t i))
    \<and> bframe s t"
proof -
  let ?nx = "(nxt s)(HEAD := HEAD)" and ?pv = "(prv s)(HEAD := HEAD)"
  define bs where "bs = [0..<NBUF]"
  define u where "u = foldl (\<lambda>s b. upd_slock (SLbuf b) (\<lambda>_. \<lparr>sl_locked = False, sl_pid = 0\<rparr>) s) s bs"
  have st: "upd_buf HEAD (\<lambda>x. x\<lparr>b_prev := HEAD, b_next := HEAD\<rparr>) s = relink ?nx ?pv s"
    by (simp add: upd_buf_def relink_def nxt_def prv_def fun_eq_iff)
  have "blinks ?nx ?pv []" by (simp add: blinks_def)
  then obtain nx pv where L: "kfor bs binit_link (relink ?nx ?pv s) = Ret () (relink nx pv u)" "blinks nx pv (rev bs)"
    using binit_loop[of s ?nx ?pv "[]" bs] assms(1) by (auto simp: bs_def u_def)
  let ?t = "relink nx pv u"
  have bt: "bufs ?t i = (bufs s i)\<lparr>b_prev := pv i, b_next := nx i\<rparr>" "memdisk ?t = memdisk s" for i
    using foldl_unlock(1-4)[of s bs] by (simp_all add: relink_def u_def)
  have r: "binit s = Ret () ?t" using assms(1) L(1) st by (simp add: binit_def kdefs bs_def)
  have "bc_inv (rev bs) {} ?t"
  proof (rule bc_invI)
    have "nxt ?t = nx" "prv ?t = pv" by (simp_all add: nxt_def prv_def bt fun_eq_iff)
    then show "blinks (nxt ?t) (prv ?t) (rev bs)" using L(2) by simp
    show "set (rev bs) = {..<NBUF}" by (auto simp: bs_def)
    show "buniq ?t" using z by (simp add: buniq_def bt)
    show "bslot {} ?t i" if "i < NBUF" for i
      using z that foldl_unlock(5)[where s = s and b = i and bs = bs] by (simp add: bslot_def bt Let_def) (simp add: relink_def u_def bs_def)
  qed simp
  moreover have "lblk ?t n = blk (memdisk s) n" for n using z by (subst lblk_uncached) (simp_all add: bt)
  moreover have "kidle ?t" "cur ?t = cur s" "disksize ?t = disksize s"
    using assms(1) foldl_unlock(3,4)[of s bs] by (simp_all add: relink_def u_def cur_def)
  moreover have "bframe s ?t" unfolding u_def by (rule bframe_trans[OF bframe_unlock bframe_relink])
  ultimately show ?thesis using r z by (intro exI[of _ ?t]) (simp add: bs_def bt)
qed


section \<open>Properties\<close>

definition kbio0 :: "nat option \<Rightarrow> memory \<Rightarrow> kbio" where
  "kbio0 p d = kslp.extend (kslp0 (idle_cpu p) [proc0\<lparr>p_state := RUNNING, p_pid := 2\<rparr>])
     \<lparr>bufs = \<lambda>_. \<lparr>b_valid = False, b_dirty = False, b_dev = 0, b_blockno = 0, b_refcnt = 0, b_prev = 0, b_next = 0, b_data = replicate 512 0\<rparr>,
      memdisk = d, disksize = 1000, dwrites = []\<rparr>"

lemma kbio0_simps [simp]:
  "kidle (kbio0 p d)" "memdisk (kbio0 p d) = d" "disksize (kbio0 p d) = 1000" "dwrites (kbio0 p d) = []" "cur (kbio0 p d) = p"
  "bufs (kbio0 p d) i = \<lparr>b_valid = False, b_dirty = False, b_dev = 0, b_blockno = 0, b_refcnt = 0, b_prev = 0, b_next = 0, b_data = replicate 512 0\<rparr>"
  using idle_cpu_simps[of p] by (simp_all add: kbio0_def kslp0_def kpr0_def kslp.defs kpr.defs kdev.defs cur_def)

text \<open>
  C20: \<^verbatim>\<open>bread\<close> of a block that is not checked out returns, provided the block is cached or
  some buffer is neither checked out nor dirty.  It returns a locked buffer that holds the current content of
  the block (the cached copy, dirty or not, else the disk's), the content of no block
  changes, and the cache invariant holds with that buffer checked out.  The walks of the
  list end within \<open>NBUF + 1\<close> steps.
\<close>

theorem bread_current:
  assumes "kidle s" "cur s = Some c" "bc_inv xs H s" "n < disksize s" "\<forall>i\<in>H. b_blockno (bufs s i) \<noteq> n"
    and "(\<exists>i<NBUF. b_dev (bufs s i) = 1 \<and> b_blockno (bufs s i) = n) \<or> (\<exists>i<NBUF. i \<notin> H \<and> \<not> b_dirty (bufs s i))"
  shows "\<exists>i t. bread 1 n s = Ret i t \<and> i \<notin> H \<and> bc_inv xs (insert i H) t \<and> sl_locked (slocks t (SLbuf i))
    \<and> b_blockno (bufs t i) = n \<and> b_data (bufs t i) = lblk s n \<and> (\<forall>m. lblk t m = lblk s m)
    \<and> memdisk t = memdisk s \<and> dwrites t = dwrites s \<and> (\<forall>j. j \<noteq> i \<longrightarrow> bufs t j = bufs s j)"
proof -
  obtain i t where "bread 1 n s = Ret i t" "i \<notin> H" "bc_inv xs (insert i H) t" "bframe s t" "i < NBUF"
    "b_blockno (bufs t i) = n" "b_data (bufs t i) = lblk s n" "lblk t = lblk s" "\<forall>j. j \<noteq> i \<longrightarrow> bufs t j = bufs s j"
    using bread_ok[OF assms] by blast
  then show ?thesis using bc_invD(8)[of xs "insert i H" t i] bframeD[of s t] by (intro exI[of _ i] exI[of _ t]) simp
qed

theorem bread_current_witness:
  "\<exists>s i t. binit (kbio0 (Some 0) (\<lambda>a. if a = 5 * 512 then 7 else 0)) = Ret () s \<and> bread 1 5 s = Ret i t \<and> hd (b_data (bufs t i)) = 7"
proof -
  let ?d = "\<lambda>a. if a = 5 * 512 then 7 else 0 :: byte"
  obtain s where s: "binit (kbio0 (Some 0) ?d) = Ret () s" "kidle s" "bc_inv (rev [0..<NBUF]) {} s" "\<forall>n. lblk s n = blk ?d n"
      "cur s = Some 0" "disksize s = 1000" "\<forall>i<NBUF. \<not> b_dirty (bufs s i)"
    using binit_ok[of "kbio0 (Some 0) ?d"] by auto
  have room: "\<exists>i<NBUF. i \<notin> {} \<and> \<not> b_dirty (bufs s i)" using s(7) by (intro exI[of _ 0]) simp
  obtain i t where "bread 1 5 s = Ret i t" "b_data (bufs t i) = lblk s 5"
    using bread_current[OF s(2,5,3), of 5] s(6) room by auto
  moreover have "hd (blk ?d 5) = 7" by (simp add: blk_def get_bytes_def hd_map)
  ultimately show ?thesis using s by auto
qed


text \<open>
  C34: \<^verbatim>\<open>brelse\<close> implements the most-recently-used order.  If the \<^verbatim>\<open>next\<close> and \<^verbatim>\<open>prev\<close> fields thread the buffers
  in the order \<open>xs\<close>, then after the pointer updates of \<^verbatim>\<open>brelse\<close> they thread the released buffer in front of the
  others, in both directions, and the buffer is unlocked and unreferenced.
\<close>

theorem brelse_moves_to_front:
  assumes "kidle s" "bc_inv xs H s" "i \<in> H"
  shows "\<exists>t. brelse i s = Ret () t \<and> blinks (nxt t) (prv t) (i # remove1 i xs)
    \<and> b_refcnt (bufs t i) = 0 \<and> \<not> sl_locked (slocks t (SLbuf i))
    \<and> (\<forall>j. b_data (bufs t j) = b_data (bufs s j) \<and> b_dirty (bufs t j) = b_dirty (bufs s j))"
proof -
  obtain nx pv where r: "brelse i s = Ret () (relink nx pv (unhold i (upd_buf i (\<lambda>x. x\<lparr>b_refcnt := 0\<rparr>) s)))"
    and l: "blinks nx pv (i # remove1 i xs)" using brelse_net[OF assms] by blast
  let ?t = "relink nx pv (unhold i (upd_buf i (\<lambda>x. x\<lparr>b_refcnt := 0\<rparr>) s))"
  have "nxt ?t = nx" "prv ?t = pv" by (simp_all add: nxt_def prv_def relink_simps fun_eq_iff)
  moreover have "\<not> sl_locked (slocks ?t (SLbuf i))"
    using unhold_simps(5)[of i "upd_buf i (\<lambda>x. x\<lparr>b_refcnt := 0\<rparr>) s" i] by (simp add: relink_def)
  ultimately show ?thesis using r l by (intro exI[of _ ?t]) (simp add: relink_def)
qed

theorem brelse_moves_to_front_witness:
  "\<exists>s i t u. binit (kbio0 (Some 0) (\<lambda>_. 0)) = Ret () s \<and> bread 1 5 s = Ret i t \<and> brelse i t = Ret () u
     \<and> blinks (nxt u) (prv u) (i # remove1 i (rev [0..<NBUF]))"
proof -
  obtain s where s: "binit (kbio0 (Some 0) (\<lambda>_. 0)) = Ret () s" "kidle s" "bc_inv (rev [0..<NBUF]) {} s"
      "cur s = Some 0" "disksize s = 1000" "\<forall>i<NBUF. \<not> b_dirty (bufs s i)"
    using binit_ok[of "kbio0 (Some 0) (\<lambda>_. 0)"] by auto
  have room: "\<exists>i<NBUF. i \<notin> {} \<and> \<not> b_dirty (bufs s i)" using s(6) by (intro exI[of _ 0]) simp
  obtain i t where t: "bread 1 5 s = Ret i t" "bc_inv (rev [0..<NBUF]) (insert i {}) t" "bframe s t"
    using bread_ok[OF s(2,4,3), of 5] s(5) room by auto
  have "kidle t" using bframeD(1)[OF t(3)] s(2) by simp
  then show ?thesis using s(1) t brelse_moves_to_front[OF _ t(2), of i] by auto
qed

end
