(* ===== verification/Ide.thy ===== *)
theory Ide
  imports Bio
begin

unbundle bit_operations_syntax

text \<open>
  The interrupt-driven disk driver (\<^verbatim>\<open>ide.c\<close>).  The request queue through \<^verbatim>\<open>qnext\<close> is the list of buffer
  indices \<open>idequeue\<close>.  A process that waits for its request blocks; \<open>iderw_wait_resume\<close> is its
  continuation, and \<open>ideintr\<close> runs when the controller interrupts.
\<close>

record kide = kbio +
  idequeue :: "nat list"
  havedisk1 :: bool

text \<open>The polling loop; every turn reads the status port, so the input left bounds it.\<close>

primrec idewait_loop :: "nat \<Rightarrow> ('z kide_scheme, byte) K" where
  "idewait_loop 0 = (\<lambda>_. Spin)"
| "idewait_loop (Suc fuel) =
     kbind (inb 0x1F7) (\<lambda>r. if r AND (0x80 OR 0x40) \<noteq> 0x40 then idewait_loop fuel else kret r)"

definition idewait :: "bool \<Rightarrow> ('z kide_scheme, int) K" where
  "idewait checkerr =
     kbind (kget (\<lambda>s. length (inports s 0x1F7))) (\<lambda>n.
     kbind (idewait_loop (Suc n)) (\<lambda>r.
     kret (if checkerr \<and> r AND (0x20 OR 0x01) \<noteq> 0 then -1 else 0)))"

primrec probe_disk1 :: "nat \<Rightarrow> ('z kide_scheme, unit) K" where
  "probe_disk1 0 = kret ()"
| "probe_disk1 (Suc n) =
     kbind (inb 0x1F7) (\<lambda>b. if b \<noteq> 0 then kmod (\<lambda>s. s\<lparr>havedisk1 := True\<rparr>) else probe_disk1 n)"

definition ideinit :: "('z kide_scheme, unit) K" where
  "ideinit =
     kthen (onhw (initlock Lide)) (
     kbind (kget (\<lambda>s. length (cpus (khw s)))) (\<lambda>ncpu.
     kthen (ioapicenable 14 (ncpu - 1)) (
     kthen (idewait False) (
     kthen (outb 0x1F6 (0xE0 OR 0x10)) (
     kthen (probe_disk1 1000)
       (outb 0x1F6 0xE0))))))"

definition idestart :: "nat option \<Rightarrow> ('z kide_scheme, unit) K" where
  "idestart q =
     (case q of
        None \<Rightarrow> kpanic ''idestart''
      | Some i \<Rightarrow>
          kbind (kget (\<lambda>s. bufs s i)) (\<lambda>b.
          if b_blockno b \<ge> 1000 then kpanic ''incorrect blockno''
          else
            let sector = of_nat (b_blockno b) :: u32 in
            kthen (idewait False) (
            kthen (outb 0x3F6 0) (
            kthen (outb 0x1F2 1) (
            kthen (outb 0x1F3 (ucast sector)) (
            kthen (outb 0x1F4 (ucast (drop_bit 8 sector))) (
            kthen (outb 0x1F5 (ucast (drop_bit 16 sector))) (
            kthen (outb 0x1F6 (0xE0 OR push_bit 4 (ucast (b_dev b) AND 1) OR (ucast (drop_bit 24 sector) AND 0x0F)))
              (if b_dirty b then kthen (outb 0x1F7 0x30) (outsl 0x1F0 (b_data b))
               else outb 0x1F7 0x20)))))))))"

definition ideintr :: "('z kide_scheme, unit) K" where
  "ideintr =
     kthen (kacquire Lide) (
     kbind (kget idequeue) (\<lambda>q.
     case q of
       [] \<Rightarrow> krelease Lide
     | i # rest \<Rightarrow>
         kthen (kmod (\<lambda>s. s\<lparr>idequeue := rest\<rparr>)) (
         kbind (kget (\<lambda>s. bufs s i)) (\<lambda>b.
         kthen (kwhen (\<not> b_dirty b)
             (kbind (idewait True) (\<lambda>r.
              kwhen (r \<ge> 0) (kbind (insl 0x1F0 (BSIZE div 4)) (\<lambda>d. kmod (upd_buf i (\<lambda>b. b\<lparr>b_data := d\<rparr>))))))) (
         kthen (kmod (upd_buf i (\<lambda>b. b\<lparr>b_valid := True\<rparr>))) (
         kthen (kmod (upd_buf i (\<lambda>b. b\<lparr>b_dirty := False\<rparr>))) (
         kthen (wakeup (Some (ChanBuf i))) (
         kthen (case rest of [] \<Rightarrow> kret () | j # _ \<Rightarrow> idestart (Some j))
           (krelease Lide)))))))))"

definition iderw_wait :: "nat \<Rightarrow> ('z kide_scheme, unit) K" where
  "iderw_wait i =
     kbind (kget (\<lambda>s. bufs s i)) (\<lambda>b.
     if b_valid b \<and> \<not> b_dirty b then krelease Lide
     else sleep (Some (ChanBuf i)) (Some Lide))"

definition iderw_wait_resume :: "bool \<Rightarrow> nat \<Rightarrow> nat \<Rightarrow> ('z kide_scheme, unit) K" where
  "iderw_wait_resume ie p i = kthen (sleep_resume ie p Lide) (iderw_wait i)"

definition iderw_ide :: "nat \<Rightarrow> ('z kide_scheme, unit) K" where
  "iderw_ide i =
     kbind (holdingsleep (SLbuf i)) (\<lambda>h.
     if \<not> h then kpanic ''iderw: buf not locked''
     else
       kbind (kget (\<lambda>s. bufs s i)) (\<lambda>b.
       kbind (kget havedisk1) (\<lambda>d1.
       if b_valid b \<and> \<not> b_dirty b then kpanic ''iderw: nothing to do''
       else if b_dev b \<noteq> 0 \<and> \<not> d1 then kpanic ''iderw: ide disk 1 not present''
       else
         kthen (kacquire Lide) (
         kthen (kmod (\<lambda>s. s\<lparr>idequeue := idequeue s @ [i]\<rparr>)) (
         kbind (kget idequeue) (\<lambda>q.
         kthen (kwhen (hd q = i) (idestart (Some i)))
           (iderw_wait i)))))))"

section \<open>The controller's answers\<close>

lemma kdev_lock_simps [simp]:
  "inports (klock lk s) = inports s" "outs (klock lk s) = outs s"
  "(klock lk s)\<lparr>inports := x\<rparr> = klock lk (s\<lparr>inports := x\<rparr>)" "(klock lk s)\<lparr>outs := y\<rparr> = klock lk (s\<lparr>outs := y\<rparr>)"
  by (simp_all add: klock_def)

lemma kide_lock_simps [simp]:
  "idequeue (klock lk s) = idequeue s" "havedisk1 (klock lk s) = havedisk1 s"
  "(klock lk s)\<lparr>idequeue := q\<rparr> = klock lk (s\<lparr>idequeue := q\<rparr>)"
  by (simp_all add: klock_def)

text \<open>The controller is ready at once, with status \<open>st\<close>.\<close>

definition ready :: "byte \<Rightarrow> bool" where
  "ready st \<longleftrightarrow> st AND 0xC0 = 0x40"

lemma idewait_ready:
  assumes "inports s 0x1F7 = st # r" "ready st"
  shows "idewait e s = Ret (if e \<and> st AND 0x21 \<noteq> 0 then -1 else 0) (s\<lparr>inports := (inports s)(0x1F7 := r)\<rparr>)"
  using assms by (simp add: idewait_def kdefs ready_def)

lemma kreplicate_inb:
  "inports s p = ds @ r \<Longrightarrow> kreplicate (length ds) (inb p) s = Ret ds (s\<lparr>inports := (inports s)(p := r)\<rparr>)"
proof (induction ds arbitrary: s)
  case Nil
  then have "(inports s)(p := r) = inports s" by auto
  then show ?case by simp
next
  case (Cons d ds)
  define t where "t = s\<lparr>inports := (inports s)(p := ds @ r)\<rparr>"
  have "inb p s = Ret d t" using Cons.prems by (simp add: t_def)
  moreover have "kreplicate (length ds) (inb p) t = Ret ds (t\<lparr>inports := (inports t)(p := r)\<rparr>)"
    by (rule Cons.IH) (simp add: t_def)
  moreover have "t\<lparr>inports := (inports t)(p := r)\<rparr> = s\<lparr>inports := (inports s)(p := r)\<rparr>" by (simp add: t_def)
  ultimately show ?case by (simp only: list.size(4) add_Suc_right add_0_right kreplicate.simps kbind_apply outcome.case kret_apply)
qed

lemma insl_net:
  "inports s p = ds @ r \<Longrightarrow> length ds = 4 * n \<Longrightarrow> insl p n s = Ret ds (s\<lparr>inports := (inports s)(p := r)\<rparr>)"
  using kreplicate_inb[of s p ds r] by (simp add: insl_def)

lemma outsl_net: "outsl p bs s = Ret () (s\<lparr>outs := outs s @ map (Pair p) bs\<rparr>)"
  unfolding outsl_def by (induction bs arbitrary: s) (simp_all add: kdefs outb_def)

text \<open>The bytes \<^verbatim>\<open>idestart\<close> sends to the controller for a buffer.\<close>

definition command :: "buf \<Rightarrow> (nat \<times> byte) list" where
  "command b =
     (let sector = of_nat (b_blockno b) :: u32 in
      [(0x3F6, 0), (0x1F2, 1), (0x1F3, ucast sector), (0x1F4, ucast (drop_bit 8 sector)), (0x1F5, ucast (drop_bit 16 sector)),
       (0x1F6, 0xE0 OR push_bit 4 (ucast (b_dev b) AND 1) OR (ucast (drop_bit 24 sector) AND 0x0F))]
      @ (if b_dirty b then (0x1F7, 0x30) # map (Pair 0x1F0) (b_data b) else [(0x1F7, 0x20)]))"

lemma idestart_net:
  assumes "inports s 0x1F7 = st # r" "ready st" "b_blockno (bufs s i) < 1000"
  shows "idestart (Some i) s = Ret () (s\<lparr>inports := (inports s)(0x1F7 := r), outs := outs s @ command (bufs s i)\<rparr>)"
  using assms by (simp add: idestart_def Let_def kdefs idewait_ready outb_def outsl_net command_def)

section \<open>Properties\<close>

text \<open>The next request of the queue can be started: the controller is ready and the block number is in range.\<close>

definition can_start :: "nat list \<Rightarrow> byte list \<Rightarrow> 'z kide_scheme \<Rightarrow> bool" where
  "can_start q sts s \<longleftrightarrow> (case q of [] \<Rightarrow> True | j # _ \<Rightarrow> (case sts of [] \<Rightarrow> False | st # _ \<Rightarrow> ready st \<and> b_blockno (bufs s j) < 1000))"

definition started :: "nat list \<Rightarrow> 'z kide_scheme \<Rightarrow> (nat \<times> byte) list" where
  "started q s = (case q of [] \<Rightarrow> [] | j # _ \<Rightarrow> command (bufs s j))"

text \<open>The interrupt of a read that was delivered without error.\<close>

lemma ideintr_read_net:
  fixes v :: "'z kide_scheme"
  assumes "kidle v" "idequeue v = i # rest" "\<not> b_dirty (bufs v i)" "inports v 0x1F7 = st # r" "ready st" "st AND 0x21 = 0"
    and "inports v 0x1F0 = d @ d'" "length d = BSIZE" "can_start rest r v"
  shows "\<exists>w. ideintr v = Ret () w \<and> khw w = khw v \<and> idequeue w = rest \<and> procs w = procs (awaken (Some (ChanBuf i)) v)
    \<and> bufs w = (bufs v)(i := (bufs v i)\<lparr>b_data := d, b_valid := True, b_dirty := False\<rparr>) \<and> outs w = outs v @ started rest w"
proof -
  let ?v1 = "klock Lide (v\<lparr>idequeue := rest\<rparr>)"
  let ?v2 = "klock Lide (v\<lparr>idequeue := rest, inports := (inports v)(0x1F7 := r)\<rparr>)"
  let ?v3 = "v\<lparr>idequeue := rest, inports := ((inports v)(0x1F7 := r))(0x1F0 := d')\<rparr>"
  let ?v4 = "awaken (Some (ChanBuf i)) (upd_buf i (\<lambda>b. b\<lparr>b_data := d, b_valid := True, b_dirty := False\<rparr>) ?v3)"
  have a: "idewait True ?v1 = Ret 0 ?v2" using assms by (subst idewait_ready[where st = st and r = r]) simp_all
  have b: "insl 0x1F0 128 ?v2 = Ret d (klock Lide ?v3)" using assms by (subst insl_net[where r = d']) simp_all
  show ?thesis
  proof (cases rest)
    case Nil
    then have "ideintr v = Ret () ?v4" using assms(1-3) a b by (simp add: ideintr_def kdefs wakeup_awaken)
    then show ?thesis using Nil by (intro exI[of _ ?v4]) (simp add: started_def awaken_def upd_buf_def)
  next
    case (Cons j q)
    obtain st2 r2 where st2: "r = st2 # r2" "ready st2" "b_blockno (bufs v j) < 1000"
      using assms(9) Cons by (auto simp: can_start_def split: list.splits)
    let ?w = "?v4\<lparr>inports := (inports ?v4)(0x1F7 := r2), outs := outs ?v4 @ command (bufs ?v4 j)\<rparr>"
    have "idestart (Some j) (klock Lide ?v4) = Ret () (klock Lide ?w)"
      using st2 by (subst idestart_net[where st = st2 and r = r2]) (auto simp: awaken_def upd_buf_def)
    then have "ideintr v = Ret () ?w" using assms(1-3) a b Cons by (simp add: ideintr_def kdefs wakeup_awaken)
    then show ?thesis using Cons by (intro exI[of _ ?w]) (simp add: started_def awaken_def upd_buf_def)
  qed
qed

text \<open>
  C24: A read through the interrupt-driven driver has the effect of the synchronous one.  With the
  queue empty and the controller ready, \<^verbatim>\<open>iderw\<close> of an invalid buffer sends the read command
  for its block, queues the buffer and puts the caller to sleep on it.  When the controller then
  interrupts and delivers the block, whatever other requests have been queued behind it,
  \<^verbatim>\<open>ideintr\<close> leaves the buffer valid and clean with the delivered bytes and the caller runnable, takes
  the request off the queue and starts the next one.  When the scheduler switches back to the caller,
  \<^verbatim>\<open>iderw\<close> returns with no spin lock held and the buffers as they are.
\<close>

theorem ide_read_completes:
  fixes s :: "'z kide_scheme"
  assumes "running p s" "sl_locked (slocks s (SLbuf i))"
    and "\<not> b_valid (bufs s i)" "\<not> b_dirty (bufs s i)" "b_dev (bufs s i) = 0 \<or> havedisk1 s" "b_blockno (bufs s i) < 1000"
    and "idequeue s = []" "inports s 0x1F7 = st # r" "ready st"
  shows "\<exists>u. iderw_ide i s = Blocked u \<and> idequeue u = [i] \<and> outs u = outs s @ command (bufs s i) \<and> bufs u = bufs s \<and> kfree_lk Lide u
    \<and> p_state (procs u ! p) = SLEEPING \<and> p_chan (procs u ! p) = Some (ChanBuf i)
    \<and> (\<forall>(v :: 'z kide_scheme) rest st' r' d d'. kidle v \<longrightarrow> p < length (procs v) \<longrightarrow> procs v ! p = procs u ! p \<longrightarrow> bufs v i = bufs u i \<longrightarrow>
        idequeue v = i # rest \<longrightarrow> inports v 0x1F7 = st' # r' \<longrightarrow> ready st' \<longrightarrow> st' AND 0x21 = 0 \<longrightarrow>
        inports v 0x1F0 = d @ d' \<longrightarrow> length d = BSIZE \<longrightarrow> can_start rest r' v \<longrightarrow>
        (\<exists>w. ideintr v = Ret () w \<and> kidle w \<and> idequeue w = rest \<and> outs w = outs v @ started rest w \<and> p_state (procs w ! p) = RUNNABLE
          \<and> bufs w i = (bufs s i)\<lparr>b_data := d, b_valid := True, b_dirty := False\<rparr> \<and> (\<forall>j. j \<noteq> i \<longrightarrow> bufs w j = bufs v j)
          \<and> (\<forall>x :: 'z kide_scheme. running p x \<longrightarrow> bufs x i = bufs w i \<longrightarrow>
              (\<exists>z. iderw_wait_resume (readeflags_if (khw x)) p i (klock Lptable x) = Ret () z \<and> running p z \<and> bufs z = bufs x))))"
proof -
  let ?s1 = "s\<lparr>idequeue := [i]\<rparr>"
  let ?s2 = "?s1\<lparr>inports := (inports s)(0x1F7 := r), outs := outs s @ command (bufs s i)\<rparr>"
  let ?u = "asleep p (ChanBuf i) ?s2"
  note run = runningD[OF assms(1)]
  have st: "idestart (Some i) (klock Lide ?s1) = Ret () (klock Lide ?s2)"
    using assms by (subst idestart_net[where st = st and r = r]) simp_all
  have sl: "sleep (Some (ChanBuf i)) (Some Lide) (klock Lide ?s2) = Blocked ?u"
    using assms(1) by (intro sleep_asleep) (simp add: running_def kdepth_def cur_def)
  have "iderw_ide i s = Blocked ?u" "idequeue ?u = [i]" "outs ?u = outs s @ command (bufs s i)" "bufs ?u = bufs s" "kfree_lk Lide ?u"
    "p_state (procs ?u ! p) = SLEEPING" "p_chan (procs ?u ! p) = Some (ChanBuf i)"
    using assms run st sl by (simp_all add: iderw_ide_def kdefs holdingsleep_net iderw_wait_def upd_proc_def kfree_lk_def hidle_def)
  then obtain u where u: "iderw_ide i s = Blocked u" "idequeue u = [i]" "outs u = outs s @ command (bufs s i)" "bufs u = bufs s" "kfree_lk Lide u"
    "p_state (procs u ! p) = SLEEPING" "p_chan (procs u ! p) = Some (ChanBuf i)" by blast
  have ret: "\<exists>z. iderw_wait_resume (readeflags_if (khw x)) p i (klock Lptable x) = Ret () z \<and> running p z \<and> bufs z = bufs x"
    if "running p x" "b_valid (bufs x i)" "\<not> b_dirty (bufs x i)" for x :: "'z kide_scheme"
    using that runningD(1)[OF that(1)] by (simp add: iderw_wait_resume_def kdefs sleep_resume_net iderw_wait_def) (simp add: upd_proc_def)
  have "\<exists>w. ideintr v = Ret () w \<and> kidle w \<and> idequeue w = rest \<and> outs w = outs v @ started rest w \<and> p_state (procs w ! p) = RUNNABLE
          \<and> bufs w i = (bufs s i)\<lparr>b_data := d, b_valid := True, b_dirty := False\<rparr> \<and> (\<forall>j. j \<noteq> i \<longrightarrow> bufs w j = bufs v j)
          \<and> (\<forall>x :: 'z kide_scheme. running p x \<longrightarrow> bufs x i = bufs w i \<longrightarrow>
              (\<exists>z. iderw_wait_resume (readeflags_if (khw x)) p i (klock Lptable x) = Ret () z \<and> running p z \<and> bufs z = bufs x))"
    if v: "kidle v" "p < length (procs v)" "procs v ! p = procs u ! p" "bufs v i = bufs u i" "idequeue v = i # rest"
      "inports v 0x1F7 = st' # r'" "ready st'" "st' AND 0x21 = 0" "inports v 0x1F0 = d @ d'" "length d = BSIZE" "can_start rest r' v"
    for v :: "'z kide_scheme" and rest st' r' d d'
  proof -
    have c: "\<not> b_dirty (bufs v i)" using v(4) u(4) assms(4) by simp
    obtain w where w: "ideintr v = Ret () w" "khw w = khw v" "idequeue w = rest" "procs w = procs (awaken (Some (ChanBuf i)) v)"
      "bufs w = (bufs v)(i := (bufs v i)\<lparr>b_data := d, b_valid := True, b_dirty := False\<rparr>)" "outs w = outs v @ started rest w"
      using ideintr_read_net[OF v(1,5) c v(6-11)] by blast
    have "p_state (procs w ! p) = RUNNABLE" using v(2,3) u(6,7) by (simp add: w(4) awaken_def)
    moreover have "bufs w i = (bufs s i)\<lparr>b_data := d, b_valid := True, b_dirty := False\<rparr>" "b_valid (bufs w i)" "\<not> b_dirty (bufs w i)"
      "\<forall>j. j \<noteq> i \<longrightarrow> bufs w j = bufs v j" using v(4) u(4) by (simp_all add: w(5))
    ultimately show ?thesis using w(1,2,3,6) v(1) by (intro exI[of _ w]) (simp add: ret)
  qed
  then show ?thesis using u by blast
qed

definition kide0 :: kide where
  "kide0 = kbio.extend ((kbio0 (Some 0) (\<lambda>_. 0))\<lparr>slocks := \<lambda>_. \<lparr>sl_locked = True, sl_pid = 2\<rparr>\<rparr>) \<lparr>idequeue = [], havedisk1 = True\<rparr>"

theorem ide_read_completes_witness:
  "\<exists>u. iderw_ide 3 (kide0\<lparr>inports := \<lambda>p. if p = 0x1F7 then [0x40] else []\<rparr>) = Blocked u \<and> idequeue u = [3]
     \<and> outs u = [(0x3F6, 0), (0x1F2, 1), (0x1F3, 0), (0x1F4, 0), (0x1F5, 0), (0x1F6, 0xE0), (0x1F7, 0x20)]"
proof -
  let ?s = "kide0\<lparr>inports := \<lambda>p. if p = 0x1F7 then [0x40] else []\<rparr>"
  have s: "khw ?s = idle_cpu (Some 0)" "slocks ?s = (\<lambda>_. \<lparr>sl_locked = True, sl_pid = 2\<rparr>)" "idequeue ?s = []"
    "outs ?s = []" "length (procs ?s) = 1" "inports ?s 0x1F7 = 0x40 # []" "havedisk1 ?s"
    "bufs ?s 3 = \<lparr>b_valid = False, b_dirty = False, b_dev = 0, b_blockno = 0, b_refcnt = 0, b_prev = 0, b_next = 0, b_data = replicate 512 0\<rparr>"
    by (simp_all add: kide0_def kbio0_def kslp0_def kpr0_def kbio.defs kslp.defs kdev.defs kpr.defs)
  have c: "kidle ?s" "kdepth ?s = 0" "cur ?s = Some 0" using s(1) idle_cpu_simps[of "Some 0"] by (simp_all add: kdepth_def cur_def)
  have p: "0 < length (procs ?s)" "sl_locked (slocks ?s (SLbuf 3))" "\<not> b_valid (bufs ?s 3)" "\<not> b_dirty (bufs ?s 3)"
    "b_dev (bufs ?s 3) = 0 \<or> havedisk1 ?s" "b_blockno (bufs ?s 3) < 1000" "ready 0x40"
    unfolding s(2,8) using s(5) by (simp_all add: ready_def)
  have run: "running 0 ?s" using c p(1) by (simp add: running_def)
  have "\<exists>u. iderw_ide 3 ?s = Blocked u \<and> idequeue u = [3] \<and> outs u = outs ?s @ command (bufs ?s 3)"
    using ide_read_completes[OF run p(2-6) s(3,6) p(7)] by blast
  moreover have "command (bufs ?s 3) = [(0x3F6, 0), (0x1F2, 1), (0x1F3, 0), (0x1F4, 0), (0x1F5, 0), (0x1F6, 0xE0), (0x1F7, 0x20)]"
    unfolding s(8) by (simp add: command_def)
  ultimately show ?thesis using s(4) by simp
qed

end
