(* ===== verification/Fsformat.thy ===== *)
theory Fsformat
  imports Bio
begin

unbundle bit_operations_syntax

text \<open>
  The on-disk format (\<^verbatim>\<open>fs.h\<close>, \<^verbatim>\<open>stat.h\<close>): little-endian numbers inside blocks, the super block, disk inodes
  and directory entries, with the layout the C compiler gives the structures.  Reading a field back
  after writing it returns it, and fields at disjoint offsets do not disturb each other.
\<close>

section \<open>Fields of a block\<close>

definition sub_bytes :: "byte list \<Rightarrow> nat \<Rightarrow> nat \<Rightarrow> byte list" where
  "sub_bytes bs off n = take n (drop off bs)"

definition upd_bytes :: "byte list \<Rightarrow> nat \<Rightarrow> byte list \<Rightarrow> byte list" where
  "upd_bytes bs off xs = take off bs @ xs @ drop (off + length xs) bs"

definition le2 :: "u16 \<Rightarrow> byte list" where
  "le2 w = [ucast w, ucast (drop_bit 8 w)]"

definition le4 :: "u32 \<Rightarrow> byte list" where
  "le4 w = [ucast w, ucast (drop_bit 8 w), ucast (drop_bit 16 w), ucast (drop_bit 24 w)]"

definition of_le2 :: "byte list \<Rightarrow> u16" where
  "of_le2 bs = ucast (bs ! 0) OR push_bit 8 (ucast (bs ! 1))"

definition of_le4 :: "byte list \<Rightarrow> u32" where
  "of_le4 bs = ucast (bs ! 0) OR push_bit 8 (ucast (bs ! 1)) OR push_bit 16 (ucast (bs ! 2)) OR push_bit 24 (ucast (bs ! 3))"

definition ld2 :: "byte list \<Rightarrow> nat \<Rightarrow> u16" where "ld2 bs off = of_le2 (sub_bytes bs off 2)"
definition ld4 :: "byte list \<Rightarrow> nat \<Rightarrow> u32" where "ld4 bs off = of_le4 (sub_bytes bs off 4)"
definition st2 :: "byte list \<Rightarrow> nat \<Rightarrow> u16 \<Rightarrow> byte list" where "st2 bs off w = upd_bytes bs off (le2 w)"
definition st4 :: "byte list \<Rightarrow> nat \<Rightarrow> u32 \<Rightarrow> byte list" where "st4 bs off w = upd_bytes bs off (le4 w)"

lemma length_sub_bytes [simp]: "off + n \<le> length bs \<Longrightarrow> length (sub_bytes bs off n) = n"
  by (simp add: sub_bytes_def)

lemma length_upd_bytes [simp]: "off + length xs \<le> length bs \<Longrightarrow> length (upd_bytes bs off xs) = length bs"
  by (simp add: upd_bytes_def)

lemma nth_upd_bytes:
  "off + length xs \<le> length bs \<Longrightarrow> i < length bs \<Longrightarrow>
   upd_bytes bs off xs ! i = (if off \<le> i \<and> i < off + length xs then xs ! (i - off) else bs ! i)"
  by (auto simp: upd_bytes_def nth_append)

lemma nth_sub_bytes: "i < n \<Longrightarrow> off + n \<le> length bs \<Longrightarrow> sub_bytes bs off n ! i = bs ! (off + i)"
  by (simp add: sub_bytes_def)

lemma sub_upd_same [simp]: "off + length xs \<le> length bs \<Longrightarrow> length xs = n \<Longrightarrow> sub_bytes (upd_bytes bs off xs) off n = xs"
  by (simp add: sub_bytes_def upd_bytes_def)

lemma sub_upd_other:
  assumes "off + length xs \<le> length bs" "a + n \<le> length bs" "a + n \<le> off \<or> off + length xs \<le> a"
  shows "sub_bytes (upd_bytes bs off xs) a n = sub_bytes bs a n"
  using assms by (intro nth_equalityI) (auto simp: nth_sub_bytes nth_upd_bytes)

lemma length_le [simp]: "length (le2 v) = 2" "length (le4 w) = 4"
  by (simp_all add: le2_def le4_def)

lemma of_le4_le4 [simp]: "of_le4 (le4 w) = w"
proof (rule bit_word_eqI)
  fix n assume "n < LENGTH(32)"
  then have "n < 32" by simp
  then consider "n < 8" | "8 \<le> n" "n < 16" | "16 \<le> n" "n < 24" | "24 \<le> n" "n < 32" by linarith
  then show "bit (of_le4 (le4 w)) n = bit w n"
    by cases (auto simp: of_le4_def le4_def bit_or_iff bit_push_bit_iff bit_ucast_iff bit_drop_bit_eq)
qed

lemma of_le2_le2 [simp]: "of_le2 (le2 w) = w"
proof (rule bit_word_eqI)
  fix n assume "n < LENGTH(16)"
  then have "n < 16" by simp
  then consider "n < 8" | "8 \<le> n" "n < 16" by linarith
  then show "bit (of_le2 (le2 w)) n = bit w n"
    by cases (auto simp: of_le2_def le2_def bit_or_iff bit_push_bit_iff bit_ucast_iff bit_drop_bit_eq)
qed

lemma ld_st_same [simp]:
  "off + 2 \<le> length bs \<Longrightarrow> ld2 (st2 bs off v) off = v" "off + 4 \<le> length bs \<Longrightarrow> ld4 (st4 bs off w) off = w"
  by (simp_all add: ld2_def st2_def ld4_def st4_def)

lemma length_st [simp]:
  "off + 2 \<le> length bs \<Longrightarrow> length (st2 bs off v) = length bs" "off + 4 \<le> length bs \<Longrightarrow> length (st4 bs off w) = length bs"
  by (simp_all add: st2_def st4_def)

lemma ld_st_other:
  "off + 4 \<le> length bs \<Longrightarrow> a + 4 \<le> length bs \<Longrightarrow> a + 4 \<le> off \<or> off + 4 \<le> a \<Longrightarrow> ld4 (st4 bs off w) a = ld4 bs a"
  by (simp add: ld4_def st4_def sub_upd_other)

section \<open>Structures\<close>

record superblock =
  sb_size :: u32
  sb_nblocks :: u32
  sb_ninodes :: u32
  sb_nlog :: u32
  sb_logstart :: u32
  sb_inodestart :: u32
  sb_bmapstart :: u32

definition sb_of :: "byte list \<Rightarrow> superblock" where
  "sb_of bs = \<lparr>sb_size = ld4 bs 0, sb_nblocks = ld4 bs 4, sb_ninodes = ld4 bs 8, sb_nlog = ld4 bs 12,
     sb_logstart = ld4 bs 16, sb_inodestart = ld4 bs 20, sb_bmapstart = ld4 bs 24\<rparr>"

definition sb_bytes :: "superblock \<Rightarrow> byte list" where
  "sb_bytes s = le4 (sb_size s) @ le4 (sb_nblocks s) @ le4 (sb_ninodes s) @ le4 (sb_nlog s) @ le4 (sb_logstart s)
     @ le4 (sb_inodestart s) @ le4 (sb_bmapstart s)"

record dinode =
  di_type :: u16
  di_major :: u16
  di_minor :: u16
  di_nlink :: u16
  di_size :: u32
  di_addrs :: "u32 list"

abbreviation "NDIRECT \<equiv> (12 :: nat)"
abbreviation "NINDIRECT \<equiv> (128 :: nat)"
abbreviation "MAXFILE \<equiv> (140 :: nat)"
abbreviation "DINODE_SIZE \<equiv> (64 :: nat)"
abbreviation "IPB \<equiv> (8 :: nat)"
abbreviation "BPB \<equiv> (4096 :: nat)"
abbreviation "DIRSIZ \<equiv> (14 :: nat)"
abbreviation "DIRENT_SIZE \<equiv> (16 :: nat)"

abbreviation "T_DIR \<equiv> (1 :: u16)"
abbreviation "T_FILE \<equiv> (2 :: u16)"
abbreviation "T_DEV \<equiv> (3 :: u16)"

definition IBLOCK :: "nat \<Rightarrow> superblock \<Rightarrow> nat" where
  "IBLOCK i sb = i div IPB + unat (sb_inodestart sb)"

definition BBLOCK :: "nat \<Rightarrow> superblock \<Rightarrow> nat" where
  "BBLOCK b sb = b div BPB + unat (sb_bmapstart sb)"

definition dinode_bytes :: "dinode \<Rightarrow> byte list" where
  "dinode_bytes d = le2 (di_type d) @ le2 (di_major d) @ le2 (di_minor d) @ le2 (di_nlink d) @ le4 (di_size d)
     @ concat (map le4 (di_addrs d))"

definition dinode_of :: "byte list \<Rightarrow> dinode" where
  "dinode_of bs = \<lparr>di_type = ld2 bs 0, di_major = ld2 bs 2, di_minor = ld2 bs 4, di_nlink = ld2 bs 6, di_size = ld4 bs 8,
     di_addrs = map (\<lambda>i. ld4 bs (12 + 4 * i)) [0..<13]\<rparr>"

definition get_dinode :: "byte list \<Rightarrow> nat \<Rightarrow> dinode" where
  "get_dinode bl i = dinode_of (sub_bytes bl (DINODE_SIZE * i) DINODE_SIZE)"

definition put_dinode :: "byte list \<Rightarrow> nat \<Rightarrow> dinode \<Rightarrow> byte list" where
  "put_dinode bl i d = upd_bytes bl (DINODE_SIZE * i) (dinode_bytes d)"

record dirent =
  de_inum :: u16
  de_name :: "byte list"

definition dirent_bytes :: "dirent \<Rightarrow> byte list" where
  "dirent_bytes d = le2 (de_inum d) @ de_name d"

definition dirent_of :: "byte list \<Rightarrow> dirent" where
  "dirent_of bs = \<lparr>de_inum = ld2 bs 0, de_name = sub_bytes bs 2 DIRSIZ\<rparr>"

record stat =
  st_type :: u16
  st_dev :: u32
  st_ino :: u32
  st_nlink :: u16
  st_size :: u32
  st_uid :: u32
  st_gid :: u32
  st_mode :: u32

section \<open>Round trips\<close>

lemma sub_bytes_append_left: "off + n \<le> length xs \<Longrightarrow> sub_bytes (xs @ ys) off n = sub_bytes xs off n"
  by (simp add: sub_bytes_def)

lemma sub_bytes_append_right: "length xs \<le> off \<Longrightarrow> sub_bytes (xs @ ys) off n = sub_bytes ys (off - length xs) n"
  by (simp add: sub_bytes_def)

lemma sub_bytes_all: "n = length xs \<Longrightarrow> sub_bytes xs 0 n = xs"
  by (simp add: sub_bytes_def)

lemmas sub_bytes_simps = sub_bytes_append_left sub_bytes_append_right sub_bytes_all

lemma length_le4s [simp]: "length (concat (map le4 ws)) = 4 * length ws"
  by (induction ws) simp_all

lemma ld4_le4s: "i < length ws \<Longrightarrow> sub_bytes (concat (map le4 ws)) (4 * i) 4 = le4 (ws ! i)"
proof (induction ws arbitrary: i)
  case (Cons w ws)
  then show ?case by (cases i) (simp_all add: sub_bytes_simps)
qed simp

lemma dinode_of_bytes [simp]:
  assumes "length (di_addrs d) = 13"
  shows "dinode_of (dinode_bytes d) = d"
proof -
  have a: "ld4 (dinode_bytes d) (12 + 4 * i) = di_addrs d ! i" if "i < 13" for i
    using ld4_le4s[of i "di_addrs d"] that assms by (simp add: ld4_def dinode_bytes_def sub_bytes_simps)
  have "map (\<lambda>i. ld4 (dinode_bytes d) (12 + 4 * i)) [0..<13] = di_addrs d"
    using a assms by (intro nth_equalityI) auto
  moreover have "ld2 (dinode_bytes d) 0 = di_type d" "ld2 (dinode_bytes d) 2 = di_major d" "ld2 (dinode_bytes d) 4 = di_minor d"
    "ld2 (dinode_bytes d) 6 = di_nlink d" "ld4 (dinode_bytes d) 8 = di_size d"
    by (simp_all add: ld2_def ld4_def dinode_bytes_def sub_bytes_simps)
  ultimately show ?thesis by (simp add: dinode_of_def)
qed

lemma length_dinode_bytes [simp]: "length (di_addrs d) = 13 \<Longrightarrow> length (dinode_bytes d) = DINODE_SIZE"
  by (simp add: dinode_bytes_def)

lemma get_put_dinode:
  assumes "length bl = BSIZE" "i < IPB" "j < IPB" "length (di_addrs d) = 13"
  shows "get_dinode (put_dinode bl i d) j = (if j = i then d else get_dinode bl j)"
proof -
  have "DINODE_SIZE * j + DINODE_SIZE \<le> DINODE_SIZE * i \<or> DINODE_SIZE * i + DINODE_SIZE \<le> DINODE_SIZE * j" if "j \<noteq> i"
    using that by (cases i j rule: linorder_cases) auto
  then show ?thesis using assms by (auto simp: get_dinode_def put_dinode_def sub_upd_other)
qed

lemma length_put_dinode [simp]: "length bl = BSIZE \<Longrightarrow> i < IPB \<Longrightarrow> length (di_addrs d) = 13 \<Longrightarrow> length (put_dinode bl i d) = BSIZE"
  by (simp add: put_dinode_def)

lemma length_get_dinode_addrs [simp]: "length (di_addrs (get_dinode bl i)) = 13"
  by (simp add: get_dinode_def dinode_of_def)

lemma dirent_of_bytes [simp]: "length (de_name d) = DIRSIZ \<Longrightarrow> dirent_of (dirent_bytes d) = d"
  by (simp add: dirent_of_def dirent_bytes_def ld2_def sub_bytes_simps)

lemma sb_of_bytes: "sb_of (sb_bytes s @ rest) = s"
  by (simp add: sb_of_def sb_bytes_def ld4_def sub_bytes_simps)

section \<open>Properties\<close>



end
