(* ===== verification/Log.thy ===== *)
theory Log
  imports Fsformat
begin

text \<open>
  The log (\<^verbatim>\<open>log.c\<close>) and \<^verbatim>\<open>readsb\<close> of \<^verbatim>\<open>fs.c\<close>.  The in-memory header \<^verbatim>\<open>log.lh\<close> is the list \<open>lh\<close> of block
  numbers, its length is \<^verbatim>\<open>log.lh.n\<close>; reading a header that claims more than \<open>LOGSIZE\<close>
  blocks overruns the C array (\<open>Fault\<close>).
\<close>

abbreviation "MAXOPBLOCKS \<equiv> (10 :: nat)"
abbreviation "LOGSIZE \<equiv> (30 :: nat)"

record klog = kbio +
  log_start :: nat
  log_size :: nat
  log_outstanding :: int
  log_committing :: bool
  log_dev :: u32
  lh :: "nat list"

definition bdata :: "nat \<Rightarrow> ('z kbio_scheme, byte list) K" where
  "bdata b = kget (\<lambda>s. b_data (bufs s b))"

definition set_bdata :: "nat \<Rightarrow> byte list \<Rightarrow> ('z kbio_scheme, unit) K" where
  "set_bdata b x = kmod (upd_buf b (\<lambda>y. y\<lparr>b_data := x\<rparr>))"

definition readsb :: "u32 \<Rightarrow> ('z kbio_scheme, superblock) K" where
  "readsb dev =
     kbind (bread dev 1) (\<lambda>bp.
     kbind (bdata bp) (\<lambda>d.
     kthen (brelse bp) (kret (sb_of d))))"

definition install_one :: "nat \<Rightarrow> ('z klog_scheme, unit) K" where
  "install_one tail =
     kbind (kget log_dev) (\<lambda>dev. kbind (kget log_start) (\<lambda>start. kbind (kget lh) (\<lambda>bs.
     kbind (bread dev (start + tail + 1)) (\<lambda>lbuf.
     kbind (bread dev (bs ! tail)) (\<lambda>dbuf.
     kbind (bdata lbuf) (\<lambda>d.
     kthen (set_bdata dbuf d) (
     kthen (bwrite dbuf) (
     kthen (brelse lbuf)
       (brelse dbuf)))))))))"

definition install_trans :: "('z klog_scheme, unit) K" where
  "install_trans = kbind (kget lh) (\<lambda>bs. kfor [0..<length bs] install_one)"

definition head_of :: "byte list \<Rightarrow> nat list" where
  "head_of d = map (\<lambda>i. unat (ld4 d (4 + 4 * i))) [0..<nat (sint (ld4 d 0))]"

definition read_head :: "('z klog_scheme, unit) K" where
  "read_head =
     kbind (kget log_dev) (\<lambda>dev. kbind (kget log_start) (\<lambda>start.
     kbind (bread dev start) (\<lambda>buf.
     kbind (bdata buf) (\<lambda>d.
     if sint (ld4 d 0) > int LOGSIZE then kfault
     else kthen (kmod (\<lambda>s. s\<lparr>lh := head_of d\<rparr>)) (brelse buf)))))"

definition put_head :: "nat list \<Rightarrow> byte list \<Rightarrow> byte list" where
  "put_head bs d = foldl (\<lambda>d i. st4 d (4 + 4 * i) (of_nat (bs ! i))) (st4 d 0 (of_nat (length bs))) [0..<length bs]"

definition write_head :: "('z klog_scheme, unit) K" where
  "write_head =
     kbind (kget log_dev) (\<lambda>dev. kbind (kget log_start) (\<lambda>start. kbind (kget lh) (\<lambda>bs.
     kbind (bread dev start) (\<lambda>buf.
     kbind (bdata buf) (\<lambda>d.
     kthen (set_bdata buf (put_head bs d)) (
     kthen (bwrite buf)
       (brelse buf)))))))"

definition recover_from_log :: "('z klog_scheme, unit) K" where
  "recover_from_log =
     kthen read_head (
     kthen install_trans (
     kthen (kmod (\<lambda>s. s\<lparr>lh := []\<rparr>))
       write_head))"

definition initlog :: "u32 \<Rightarrow> ('z klog_scheme, unit) K" where
  "initlog dev =
     kthen (onhw (initlock Llog)) (
     kbind (readsb dev) (\<lambda>sb.
     kthen (kmod (\<lambda>s. s\<lparr>log_start := unat (sb_logstart sb), log_size := unat (sb_nlog sb), log_dev := dev\<rparr>))
       recover_from_log))"

definition begin_op_loop :: "('z klog_scheme, unit) K" where
  "begin_op_loop =
     kbind (kget log_committing) (\<lambda>c.
     kbind (kget (\<lambda>s. int (length (lh s)) + (log_outstanding s + 1) * int MAXOPBLOCKS > int LOGSIZE)) (\<lambda>full.
     if c then sleep (Some ChanLog) (Some Llog)
     else if full then sleep (Some ChanLog) (Some Llog)
     else
       kthen (kmod (\<lambda>s. s\<lparr>log_outstanding := log_outstanding s + 1\<rparr>))
         (krelease Llog)))"

definition begin_op :: "('z klog_scheme, unit) K" where
  "begin_op = kthen (kacquire Llog) begin_op_loop"

definition begin_op_resume :: "bool \<Rightarrow> nat \<Rightarrow> ('z klog_scheme, unit) K" where
  "begin_op_resume ie i = kthen (sleep_resume ie i Llog) begin_op_loop"

definition write_log_one :: "nat \<Rightarrow> ('z klog_scheme, unit) K" where
  "write_log_one tail =
     kbind (kget log_dev) (\<lambda>dev. kbind (kget log_start) (\<lambda>start. kbind (kget lh) (\<lambda>bs.
     kbind (bread dev (start + tail + 1)) (\<lambda>to.
     kbind (bread dev (bs ! tail)) (\<lambda>from.
     kbind (bdata from) (\<lambda>d.
     kthen (set_bdata to d) (
     kthen (bwrite to) (
     kthen (brelse from)
       (brelse to)))))))))"

definition write_log :: "('z klog_scheme, unit) K" where
  "write_log = kbind (kget lh) (\<lambda>bs. kfor [0..<length bs] write_log_one)"

definition commit :: "('z klog_scheme, unit) K" where
  "commit =
     kbind (kget lh) (\<lambda>bs.
     kwhen (length bs > 0) (
       kthen write_log (
       kthen write_head (
       kthen install_trans (
       kthen (kmod (\<lambda>s. s\<lparr>lh := []\<rparr>))
         write_head)))))"

definition end_op :: "('z klog_scheme, unit) K" where
  "end_op =
     kthen (kacquire Llog) (
     kthen (kmod (\<lambda>s. s\<lparr>log_outstanding := log_outstanding s - 1\<rparr>)) (
     kbind (kget log_committing) (\<lambda>c.
     if c then kpanic ''log.committing''
     else
       kbind (kget (\<lambda>s. log_outstanding s = 0)) (\<lambda>do_commit.
       kthen (if do_commit then kmod (\<lambda>s. s\<lparr>log_committing := True\<rparr>) else wakeup (Some ChanLog)) (
       kthen (krelease Llog)
         (kwhen do_commit (
            kthen commit (
            kthen (kacquire Llog) (
            kthen (kmod (\<lambda>s. s\<lparr>log_committing := False\<rparr>)) (
            kthen (wakeup (Some ChanLog))
              (krelease Llog)))))))))))"

definition log_write :: "nat \<Rightarrow> ('z klog_scheme, unit) K" where
  "log_write b =
     kbind (kget (\<lambda>s. int (length (lh s)) \<ge> int LOGSIZE \<or> int (length (lh s)) \<ge> int (log_size s) - 1)) (\<lambda>big.
     if big then kpanic ''too big a transaction''
     else
       kbind (kget log_outstanding) (\<lambda>nout.
       if nout < 1 then kpanic ''log_write outside of trans''
       else
         kthen (kacquire Llog) (
         kbind (kget (\<lambda>s. b_blockno (bufs s b))) (\<lambda>n.
         kthen (kmod (\<lambda>s. case find_idx (\<lambda>m. m = n) (lh s) of
             Some i \<Rightarrow> s\<lparr>lh := (lh s)[i := n]\<rparr>
           | None \<Rightarrow> s\<lparr>lh := lh s @ [n]\<rparr>)) (
         kthen (kmod (upd_buf b (\<lambda>x. x\<lparr>b_dirty := True\<rparr>)))
           (krelease Llog))))))"

section \<open>The cache as a map from block numbers to contents\<close>

definition dirties :: "'z kbio_scheme \<Rightarrow> nat set" where
  "dirties s = (\<lambda>i. b_blockno (bufs s i)) ` {i. i < NBUF \<and> b_dirty (bufs s i)}"

text \<open>No spin lock is held, a process runs, and exactly the buffers \<open>H\<close> are checked out.\<close>

definition bok :: "nat set \<Rightarrow> 'z kbio_scheme \<Rightarrow> bool" where
  "bok H s \<longleftrightarrow> kidle s \<and> cur s \<noteq> None \<and> (\<exists>xs. bc_inv xs H s)"

definition hblk :: "nat set \<Rightarrow> 'z kbio_scheme \<Rightarrow> nat set" where
  "hblk H s = (\<lambda>i. b_blockno (bufs s i)) ` H"

text \<open>Enough buffers are left for one more block.\<close>

definition spare :: "nat set \<Rightarrow> 'z kbio_scheme \<Rightarrow> bool" where
  "spare H s \<longleftrightarrow> card (dirties s) + card H < NBUF"

definition wframe :: "'z kbio_scheme \<Rightarrow> 'z kbio_scheme \<Rightarrow> bool" where
  "wframe s t \<longleftrightarrow> t = s\<lparr>procs := procs t, slocks := slocks t, bufs := bufs t, memdisk := memdisk t, dwrites := dwrites t\<rparr>
     \<and> woken (procs s) (procs t) \<and> (\<forall>k. slocks t (SLinode k) = slocks s (SLinode k))"

lemma wframe_refl [simp]: "wframe s s"
  by (simp add: wframe_def)

lemma wframe_trans: "wframe s t \<Longrightarrow> wframe t u \<Longrightarrow> wframe s u"
  unfolding wframe_def
proof (elim conjE, intro conjI)
  assume a: "t = s\<lparr>procs := procs t, slocks := slocks t, bufs := bufs t, memdisk := memdisk t, dwrites := dwrites t\<rparr>"
    "u = t\<lparr>procs := procs u, slocks := slocks u, bufs := bufs u, memdisk := memdisk u, dwrites := dwrites u\<rparr>"
  have "u = (s\<lparr>procs := procs t, slocks := slocks t, bufs := bufs t, memdisk := memdisk t, dwrites := dwrites t\<rparr>)\<lparr>procs := procs u, slocks := slocks u, bufs := bufs u, memdisk := memdisk u, dwrites := dwrites u\<rparr>"
    using a by metis
  then show "u = s\<lparr>procs := procs u, slocks := slocks u, bufs := bufs u, memdisk := memdisk u, dwrites := dwrites u\<rparr>" by simp
qed (auto intro: woken_trans)

lemma bframe_wframe: "bframe s t \<Longrightarrow> wframe s t"
proof -
  assume f: "bframe s t"
  then have "t = s\<lparr>procs := procs t, slocks := slocks t, bufs := bufs t\<rparr>" by (simp add: bframe_def)
  moreover have "s\<lparr>procs := procs t, slocks := slocks t, bufs := bufs t\<rparr>
      = s\<lparr>procs := procs t, slocks := slocks t, bufs := bufs t, memdisk := memdisk t, dwrites := dwrites t\<rparr>"
    using bframeD(2,4)[OF f] by simp
  ultimately show "wframe s t" using f by (simp add: wframe_def bframe_def)
qed

lemma wframeD: "wframe s t \<Longrightarrow> khw t = khw s" "wframe s t \<Longrightarrow> disksize t = disksize s" "wframe s t \<Longrightarrow> pmem t = pmem s"
  unfolding wframe_def by (elim conjE, erule ssubst, simp)+

lemma wframe_log:
  "wframe s t \<Longrightarrow> lh t = lh s" "wframe s t \<Longrightarrow> log_start t = log_start s" "wframe s t \<Longrightarrow> log_size t = log_size s"
  "wframe s t \<Longrightarrow> log_dev t = log_dev s" "wframe s t \<Longrightarrow> log_outstanding t = log_outstanding s"
  "wframe s t \<Longrightarrow> log_committing t = log_committing s"
  unfolding wframe_def by (elim conjE, erule ssubst, simp)+

lemma finite_dirties [simp]: "finite (dirties s)"
  by (simp add: dirties_def)

lemma spare_room:
  assumes "bc_inv xs H s" "spare H s"
  shows "\<exists>i<NBUF. i \<notin> H \<and> \<not> b_dirty (bufs s i)"
proof (rule ccontr)
  let ?D = "{i. i < NBUF \<and> b_dirty (bufs s i)}"
  assume "\<not> ?thesis"
  then have "{..<NBUF} \<subseteq> H \<union> ?D" by auto
  moreover have "finite H" using bc_invD(3)[OF assms(1)] finite_subset by blast
  ultimately have "NBUF \<le> card (H \<union> ?D)" using card_mono[of "H \<union> ?D" "{..<NBUF}"] by simp
  also have "\<dots> \<le> card H + card ?D" by (rule card_Un_le)
  also have "card ?D = card (dirties s)"
    unfolding dirties_def using bc_invD(5,12)[OF assms(1)] by (intro card_image[symmetric] inj_onI) auto
  finally show False using assms(2) by (simp add: spare_def)
qed

lemma bok_frame: "bok H s \<Longrightarrow> wframe s t \<Longrightarrow> bc_inv xs H' t \<Longrightarrow> bok H' t"
  by (auto simp: bok_def wframeD cur_def)

lemma dirtiesI: "i < NBUF \<Longrightarrow> b_dirty (bufs s i) \<Longrightarrow> b_blockno (bufs s i) \<in> dirties s"
  by (auto simp: dirties_def)

lemma dirties_eq:
  "(\<And>j. j < NBUF \<Longrightarrow> b_dirty (bufs t j) = b_dirty (bufs s j) \<and> (b_dirty (bufs s j) \<longrightarrow> b_blockno (bufs t j) = b_blockno (bufs s j))) \<Longrightarrow>
   dirties t = dirties s"
  unfolding dirties_def by (rule image_cong) auto

lemma not_dirty_buf:
  assumes "bc_inv xs H s" "i < NBUF" "b_dev (bufs s i) = 1" "b_blockno (bufs s i) \<notin> dirties s"
  shows "\<not> b_dirty (bufs s i)"
  using assms dirtiesI by blast

lemma dirty_buf:
  assumes "bc_inv xs H s" "i < NBUF" "b_dev (bufs s i) = 1" "b_blockno (bufs s i) \<in> dirties s"
  shows "b_dirty (bufs s i)"
proof -
  obtain j where j: "j < NBUF" "b_dirty (bufs s j)" "b_blockno (bufs s j) = b_blockno (bufs s i)"
    using assms(4) by (auto simp: dirties_def)
  then have "j = i" using bc_invD(5)[OF assms(1), of j i] bc_invD(12)[OF assms(1), of j] assms by auto
  then show ?thesis using j by simp
qed

lemma bread_view:
  assumes "bok H s" "n < disksize s" "n \<notin> hblk H s" "spare H s"
  shows "\<exists>i t. bread 1 n s = Ret i t \<and> i \<notin> H \<and> bok (insert i H) t \<and> bframe s t \<and> b_blockno (bufs t i) = n
    \<and> b_data (bufs t i) = lblk s n \<and> lblk t = lblk s \<and> dirties t = dirties s \<and> (\<forall>j\<in>H. b_blockno (bufs t j) = b_blockno (bufs s j))
    \<and> (n \<notin> dirties s \<longrightarrow> lblk s n = blk (memdisk s) n)"
proof -
  obtain xs c where I: "bc_inv xs H s" "kidle s" "cur s = Some c" using assms(1) by (auto simp: bok_def)
  have h: "\<forall>i\<in>H. b_blockno (bufs s i) \<noteq> n" using assms(3) by (auto simp: hblk_def)
  obtain i t where B: "bread 1 n s = Ret i t" "i < NBUF" "i \<notin> H" "bc_inv xs (insert i H) t" "bframe s t"
    "b_blockno (bufs t i) = n" "b_data (bufs t i) = lblk s n" "lblk t = lblk s" "\<forall>j. j \<noteq> i \<longrightarrow> bufs t j = bufs s j"
    "b_dirty (bufs t i) \<longrightarrow> bufs t i = (bufs s i)\<lparr>b_refcnt := 1\<rparr>"
    "\<not> b_dirty (bufs t i) \<longrightarrow> \<not> b_dirty (bufs s i) \<and> b_data (bufs t i) = blk (memdisk t) n"
    using bread_ok[OF I(2,3,1) assms(2) h] spare_room[OF I(1) assms(4)] by blast
  have d: "dirties t = dirties s"
  proof (rule dirties_eq)
    show "b_dirty (bufs t j) = b_dirty (bufs s j) \<and> (b_dirty (bufs s j) \<longrightarrow> b_blockno (bufs t j) = b_blockno (bufs s j))" if "j < NBUF" for j
      using B(9-11) by (cases "j = i"; cases "b_dirty (bufs t i)") (auto dest: arg_cong[of _ _ b_dirty])
  qed
  have "lblk s n = blk (memdisk s) n" if "n \<notin> dirties s"
    using that B(2,6,7,11) dirtiesI[of i t] d bframeD(2)[OF B(5)] by auto
  moreover have "bok (insert i H) t" by (rule bok_frame[OF assms(1) bframe_wframe[OF B(5)] B(4)])
  moreover have "\<forall>j\<in>H. b_blockno (bufs t j) = b_blockno (bufs s j)" using B(3,9) by (metis)
  ultimately show ?thesis using B d by (intro exI[of _ i] exI[of _ t]) simp
qed

lemma held_buf:
  assumes "bok H s" "i \<in> H"
  shows "i < NBUF" "b_dev (bufs s i) = 1" "b_data (bufs s i) = lblk s (b_blockno (bufs s i))" "b_blockno (bufs s i) < disksize s"
    "finite H"
proof -
  obtain xs where I: "bc_inv xs H s" using assms(1) by (auto simp: bok_def)
  show 1: "i < NBUF" "b_dev (bufs s i) = 1" using bc_invD(3,11)[OF I] assms(2) by auto
  show "b_data (bufs s i) = lblk s (b_blockno (bufs s i))" using lblk_cached[OF I 1] by simp
  show "b_blockno (bufs s i) < disksize s" using bc_invD(10)[OF I 1] by simp
  show "finite H" using bc_invD(3)[OF I] finite_subset by blast
qed

lemma brelse_view:
  assumes "bok H s" "i \<in> H" "b_blockno (bufs s i) = n" "n \<in> dirties s \<or> lblk s n = blk (memdisk s) n"
  shows "\<exists>t. brelse i s = Ret () t \<and> bok (H - {i}) t \<and> bframe s t \<and> lblk t = lblk s \<and> dirties t = dirties s
    \<and> (\<forall>j. b_blockno (bufs t j) = b_blockno (bufs s j))"
proof -
  obtain xs where I: "bc_inv xs H s" "kidle s" using assms(1) by (auto simp: bok_def)
  note h = held_buf[OF assms(1,2)]
  have c: "b_dirty (bufs s i) \<or> b_data (bufs s i) = blk (memdisk s) (b_blockno (bufs s i))"
    using assms(3,4) h(3) dirty_buf[OF I(1) h(1,2)] by auto
  obtain t where t: "brelse i s = Ret () t" "bc_inv (i # remove1 i xs) (H - {i}) t" "bframe s t" "lblk t = lblk s"
    "\<forall>j. b_dirty (bufs t j) = b_dirty (bufs s j) \<and> b_blockno (bufs t j) = b_blockno (bufs s j)"
    using brelse_ok[OF I(2,1) assms(2) c] by blast
  moreover have "dirties t = dirties s" using t(5) by (intro dirties_eq) simp
  moreover have "bok (H - {i}) t" by (rule bok_frame[OF assms(1) bframe_wframe[OF t(3)] t(2)])
  ultimately show ?thesis by auto
qed

lemma set_bdata_view:
  assumes "bok H s" "i \<in> H" "b_blockno (bufs s i) = n" "length x = BSIZE"
  shows "\<exists>t. set_bdata i x s = Ret () t \<and> bok H t \<and> bframe s t \<and> lblk t = (lblk s)(n := x) \<and> dirties t = dirties s
    \<and> (\<forall>j. b_blockno (bufs t j) = b_blockno (bufs s j))"
proof -
  obtain xs where I: "bc_inv xs H s" using assms(1) by (auto simp: bok_def)
  let ?t = "upd_buf i (\<lambda>b. b\<lparr>b_data := x, b_dirty := b_dirty (bufs s i)\<rparr>) s"
  have e: "upd_buf i (\<lambda>y. y\<lparr>b_data := x\<rparr>) s = ?t" by (simp add: upd_buf_def)
  note S = set_data_ok[OF I assms(2,4) refl, of "b_dirty (bufs s i)"]
  have f: "bframe s ?t" by (rule bframe_upd)
  have "bok H ?t" by (rule bok_frame[OF assms(1) bframe_wframe[OF f] S(1)])
  moreover have "dirties ?t = dirties s" by (rule dirties_eq) simp
  ultimately show ?thesis using S(2) f assms(3) e by (simp add: set_bdata_def)
qed

lemma bwrite_view:
  assumes "bok H s" "i \<in> H" "b_blockno (bufs s i) = n"
  shows "\<exists>t. bwrite i s = Ret () t \<and> bok H t \<and> wframe s t \<and> lblk t = lblk s \<and> dirties t = dirties s - {n}
    \<and> (\<forall>j. b_blockno (bufs t j) = b_blockno (bufs s j)) \<and> blk (memdisk t) = (blk (memdisk s))(n := lblk s n)
    \<and> dwrites t = dwrites s @ [(n, lblk s n)]"
proof -
  obtain xs where I: "bc_inv xs H s" "kidle s" using assms(1) by (auto simp: bok_def)
  note h = held_buf[OF assms(1,2)]
  obtain t where t: "bwrite i s = Ret () t" "bc_inv xs H t" "lblk t = lblk s"
    "t = s\<lparr>memdisk := put_bytes (memdisk s) (b_blockno (bufs s i) * BSIZE) (b_data (bufs s i)),
          dwrites := dwrites s @ [(b_blockno (bufs s i), b_data (bufs s i))],
          bufs := (bufs s)(i := (bufs s i)\<lparr>b_dirty := False\<rparr>)\<rparr>"
    "\<forall>m. blk (memdisk t) m = (if m = b_blockno (bufs s i) then b_data (bufs s i) else blk (memdisk s) m)"
    using bwrite_ok[OF I(2,1) assms(2)] by blast
  have f: "wframe s t" by (simp add: wframe_def t(4))
  have "dirties t = dirties s - {n}"
  proof (intro set_eqI iffI)
    fix m assume "m \<in> dirties t"
    then obtain j where j: "j < NBUF" "j \<noteq> i" "b_dirty (bufs s j)" "m = b_blockno (bufs s j)"
      by (auto simp: dirties_def t(4) split: if_splits)
    moreover have "m \<noteq> n" using bc_invD(5)[OF I(1) j(1) h(1)] bc_invD(12)[OF I(1) j(1,3)] h(2) j(2,4) assms(3) by auto
    ultimately show "m \<in> dirties s - {n}" by (auto intro: dirtiesI)
  next
    fix m assume "m \<in> dirties s - {n}"
    then show "m \<in> dirties t" using assms(3) by (force simp: dirties_def t(4))
  qed
  moreover have "blk (memdisk t) = (blk (memdisk s))(n := lblk s n)" using t(5) assms(3) h(3) by (auto simp: fun_eq_iff)
  moreover have "bok H t" by (rule bok_frame[OF assms(1) f t(2)])
  moreover have "dwrites t = dwrites s @ [(n, lblk s n)]" "\<forall>j. b_blockno (bufs t j) = b_blockno (bufs s j)"
    using assms(3) h(3) by (simp_all add: t(4))
  ultimately show ?thesis using t(1,3) f by auto
qed

section \<open>Moving blocks\<close>

text \<open>A run of code that leaves no buffer checked out and writes \<open>x\<close> through to block \<open>n\<close>.\<close>

definition wrote :: "nat \<Rightarrow> byte list \<Rightarrow> 'z kbio_scheme \<Rightarrow> 'z kbio_scheme \<Rightarrow> bool" where
  "wrote n x s t \<longleftrightarrow> bok {} t \<and> wframe s t \<and> lblk t = (lblk s)(n := x) \<and> blk (memdisk t) = (blk (memdisk s))(n := x)
     \<and> dirties t = dirties s - {n} \<and> dwrites t = dwrites s @ [(n, x)]"

lemma hblk_insert [simp]: "hblk (insert i H) s = insert (b_blockno (bufs s i)) (hblk H s)" "hblk {} s = {}"
  by (simp_all add: hblk_def)

lemma spare_mono: "spare H s \<Longrightarrow> dirties t = dirties s \<Longrightarrow> spare H t"
  by (simp add: spare_def)

text \<open>Two blocks checked out, the second one's content replaced by the first one's and written, both released.\<close>

lemma copy_write:
  fixes s :: "'z kbio_scheme"
  assumes ok: "bok {i, j} s" and ij: "i \<noteq> j" and a: "b_blockno (bufs s i) = a" and b: "b_blockno (bufs s j) = b" and ab: "a \<noteq> b"
    and ca: "a \<in> dirties s \<or> lblk s a = blk (memdisk s) a"
  shows "\<exists>t u v. set_bdata j (lblk s a) s = Ret () t \<and> bwrite j t = Ret () u
    \<and> kthen (brelse i) (brelse j) u = Ret () v \<and> wrote b (lblk s a) s v"
    "\<exists>t u v. set_bdata j (lblk s a) s = Ret () t \<and> bwrite j t = Ret () u
    \<and> kthen (brelse j) (brelse i) u = Ret () v \<and> wrote b (lblk s a) s v"
proof -
  obtain xs where I: "bc_inv xs {i, j} s" using ok by (auto simp: bok_def)
  obtain t where t: "set_bdata j (lblk s a) s = Ret () t" "bok {i, j} t" "bframe s t" "lblk t = (lblk s)(b := lblk s a)"
    "dirties t = dirties s" "\<forall>j. b_blockno (bufs t j) = b_blockno (bufs s j)"
    using set_bdata_view[OF ok _ b length_lblk[OF I, of a]] by auto
  have tb: "b_blockno (bufs t j) = b" using t(6) b by simp
  obtain u where u: "bwrite j t = Ret () u" "bok {i, j} u" "wframe t u" "lblk u = lblk t" "dirties u = dirties t - {b}"
    "\<forall>j. b_blockno (bufs u j) = b_blockno (bufs t j)" "blk (memdisk u) = (blk (memdisk t))(b := lblk t b)"
    "dwrites u = dwrites t @ [(b, lblk t b)]"
    using bwrite_view[OF t(2) _ tb] by auto
  have ua: "b_blockno (bufs u i) = a" and ub: "b_blockno (bufs u j) = b" using u(6) t(6) a b by simp_all
  have ka: "a \<in> dirties u \<or> lblk u a = blk (memdisk u) a"
    using ca ab t(4,5) u(4,5,7) bframeD(2)[OF t(3)] by auto
  have kb: "b \<in> dirties u \<or> lblk u b = blk (memdisk u) b" using t(4) u(4,7) by simp
  have fin: "wrote b (lblk s a) s v" if "bok {} v" "wframe u v" "lblk v = lblk u" "dirties v = dirties u" "memdisk v = memdisk u" "dwrites v = dwrites u" for v
    using that t u bframeD(2,4)[OF t(3)] wframe_trans[OF wframe_trans[OF bframe_wframe[OF t(3)] u(3)] that(2)] by (simp add: wrote_def)
  have rel: "\<exists>v. kthen (brelse p) (brelse q) u = Ret () v \<and> wrote b (lblk s a) s v"
    if pq: "{p, q} = {i, j}" "p \<noteq> q" "b_blockno (bufs u p) = np" "b_blockno (bufs u q) = nq"
      "np \<in> dirties u \<or> lblk u np = blk (memdisk u) np" "nq \<in> dirties u \<or> lblk u nq = blk (memdisk u) nq" for p q np nq
  proof -
    have okpq: "bok {p, q} u" using u(2) pq(1) by simp
    obtain w where w: "brelse p u = Ret () w" "bok ({p, q} - {p}) w" "bframe u w" "lblk w = lblk u" "dirties w = dirties u"
      "\<forall>j. b_blockno (bufs w j) = b_blockno (bufs u j)"
      using brelse_view[OF okpq _ pq(3,5)] by auto
    have q: "q \<in> {p, q} - {p}" "b_blockno (bufs w q) = nq" "nq \<in> dirties w \<or> lblk w nq = blk (memdisk w) nq"
      using pq w(4-6) bframeD(2)[OF w(3)] by auto
    obtain v where v: "brelse q w = Ret () v" "bok ({p, q} - {p} - {q}) v" "bframe w v" "lblk v = lblk w" "dirties v = dirties w"
      using brelse_view[OF w(2) q] by auto
    have "{p, q} - {p} - {q} = {}" by auto
    with v(2) have "bok {} v" by metis
    then show ?thesis
      using w v fin[of v] bframeD(2,4)[OF w(3)] bframeD(2,4)[OF v(3)] wframe_trans[OF bframe_wframe[OF w(3)] bframe_wframe[OF v(3)]]
      by (simp add: kdefs)
  qed
  have jj: "{j, i} = {i, j}" by auto
  show "\<exists>t u v. set_bdata j (lblk s a) s = Ret () t \<and> bwrite j t = Ret () u
    \<and> kthen (brelse i) (brelse j) u = Ret () v \<and> wrote b (lblk s a) s v"
    using t(1) u(1) rel[OF refl ij ua ub ka kb] by blast
  show "\<exists>t u v. set_bdata j (lblk s a) s = Ret () t \<and> bwrite j t = Ret () u
    \<and> kthen (brelse j) (brelse i) u = Ret () v \<and> wrote b (lblk s a) s v"
    using t(1) u(1) rel[OF jj ij[symmetric] ub ua kb ka] by blast
qed

text \<open>Two different blocks checked out one after the other.\<close>

lemma bread_two:
  assumes "bok {} s" "a < disksize s" "b < disksize s" "a \<noteq> b" "card (dirties s) + 1 < NBUF"
  shows "\<exists>i t j u. bread 1 a s = Ret i t \<and> bread 1 b t = Ret j u \<and> i \<noteq> j \<and> bok {i, j} u \<and> bframe s u \<and> lblk u = lblk s
    \<and> dirties u = dirties s \<and> b_blockno (bufs u i) = a \<and> b_blockno (bufs u j) = b \<and> b_data (bufs u i) = lblk s a \<and> b_data (bufs u j) = lblk s b
    \<and> bframe s t
    \<and> (a \<in> dirties u \<or> lblk u a = blk (memdisk u) a) \<and> (b \<in> dirties u \<or> lblk u b = blk (memdisk u) b)"
proof -
  obtain i t where t: "bread 1 a s = Ret i t" "bok {i} t" "bframe s t" "b_blockno (bufs t i) = a" "lblk t = lblk s"
    "dirties t = dirties s" "a \<notin> dirties s \<longrightarrow> lblk s a = blk (memdisk s) a"
    using bread_view[OF assms(1,2)] assms(5) by (auto simp: spare_def)
  obtain j u where u: "bread 1 b t = Ret j u" "j \<notin> {i}" "bok (insert j {i}) u" "bframe t u" "b_blockno (bufs u j) = b" "lblk u = lblk t"
    "dirties u = dirties t" "\<forall>k\<in>{i}. b_blockno (bufs u k) = b_blockno (bufs t k)" "b \<notin> dirties t \<longrightarrow> lblk t b = blk (memdisk t) b"
    using bread_view[OF t(2), of b] t(3,4,6) assms(3,4,5) bframeD(3)[OF t(3)] by (auto simp: spare_def)
  have ok: "bok {i, j} u" using u(3) by (simp add: insert_commute)
  show ?thesis
    using t u ok held_buf(3)[OF ok, of i] held_buf(3)[OF ok, of j] bframeD(2)[OF t(3)] bframeD(2)[OF u(4)]
      bframe_trans[OF t(3) u(4)]
    by (intro exI[of _ i] exI[of _ t] exI[of _ j] exI[of _ u]) auto
qed

lemma install_one_net:
  assumes "bok {} s" "log_dev s = 1" "log_start s + tail + 1 < disksize s" "lh s ! tail < disksize s"
    "log_start s + tail + 1 \<noteq> lh s ! tail" "card (dirties s) + 1 < NBUF"
  shows "\<exists>t. install_one tail s = Ret () t \<and> wrote (lh s ! tail) (lblk s (log_start s + tail + 1)) s t"
proof -
  let ?a = "log_start s + tail + 1" and ?b = "lh s ! tail"
  obtain i t j u where B: "bread 1 ?a s = Ret i t" "bread 1 ?b t = Ret j u" "i \<noteq> j" "bok {i, j} u" "bframe s u" "lblk u = lblk s"
    "dirties u = dirties s" "b_blockno (bufs u i) = ?a" "b_blockno (bufs u j) = ?b" "b_data (bufs u i) = lblk s ?a" "bframe s t"
    "?a \<in> dirties u \<or> lblk u ?a = blk (memdisk u) ?a"
    using bread_two[OF assms(1,3-6)] by blast
  obtain v w x where C: "set_bdata j (lblk u ?a) u = Ret () v" "bwrite j v = Ret () w" "kthen (brelse i) (brelse j) w = Ret () x"
    "wrote ?b (lblk u ?a) u x"
    using copy_write(1)[OF B(4,3,8,9) assms(5) B(12)] by blast
  have "install_one tail s = Ret () x"
    using assms(2) B C by (simp add: install_one_def kbind_apply bdata_def kthen_apply)
  moreover have "wrote ?b (lblk s ?a) s x"
    using C(4) B(6,7) bframeD(2,4)[OF B(5)] wframe_trans[OF bframe_wframe[OF B(5)], of x] by (simp add: wrote_def)
  ultimately show ?thesis by blast
qed

lemma write_log_one_net:
  assumes "bok {} s" "log_dev s = 1" "log_start s + tail + 1 < disksize s" "lh s ! tail < disksize s"
    "log_start s + tail + 1 \<noteq> lh s ! tail" "card (dirties s) + 1 < NBUF"
  shows "\<exists>t. write_log_one tail s = Ret () t \<and> wrote (log_start s + tail + 1) (lblk s (lh s ! tail)) s t"
proof -
  let ?a = "log_start s + tail + 1" and ?b = "lh s ! tail"
  obtain i t j u where B: "bread 1 ?a s = Ret i t" "bread 1 ?b t = Ret j u" "i \<noteq> j" "bok {i, j} u" "bframe s u" "lblk u = lblk s"
    "dirties u = dirties s" "b_blockno (bufs u i) = ?a" "b_blockno (bufs u j) = ?b" "b_data (bufs u j) = lblk s ?b" "bframe s t"
    "?b \<in> dirties u \<or> lblk u ?b = blk (memdisk u) ?b"
    using bread_two[OF assms(1,3-6)] by blast
  have ok: "bok {j, i} u" using B(4) by (simp add: insert_commute)
  obtain v w x where C: "set_bdata i (lblk u ?b) u = Ret () v" "bwrite i v = Ret () w" "kthen (brelse j) (brelse i) w = Ret () x"
    "wrote ?a (lblk u ?b) u x"
    using copy_write(1)[OF ok B(3)[symmetric] B(9,8) assms(5)[symmetric] B(12)] by blast
  have "write_log_one tail s = Ret () x"
    using assms(2) B C by (simp add: write_log_one_def kbind_apply bdata_def kthen_apply)
  moreover have "wrote ?a (lblk s ?b) s x"
    using C(4) B(6,7) bframeD(2,4)[OF B(5)] wframe_trans[OF bframe_wframe[OF B(5)], of x] by (simp add: wrote_def)
  ultimately show ?thesis by blast
qed

lemma length_put_head [simp]:
  assumes "length d = BSIZE" "length bs \<le> LOGSIZE"
  shows "length (put_head bs d) = BSIZE"
proof -
  have "length (foldl (\<lambda>d i. st4 d (4 + 4 * i) (of_nat (bs ! i))) e is) = BSIZE" if "length e = BSIZE" "\<forall>i\<in>set is. i < LOGSIZE" for e "is"
    using that by (induction "is" arbitrary: e) auto
  then show ?thesis using assms by (simp add: put_head_def)
qed

lemma write_head_net:
  assumes "bok {} s" "log_dev s = 1" "log_start s < disksize s" "length (lh s) \<le> LOGSIZE" "card (dirties s) < NBUF"
  shows "\<exists>t. write_head s = Ret () t \<and> wrote (log_start s) (put_head (lh s) (lblk s (log_start s))) s t"
proof -
  let ?n = "log_start s"
  obtain xs where I: "bc_inv xs {} s" using assms(1) by (auto simp: bok_def)
  obtain i t where t: "bread 1 ?n s = Ret i t" "bok {i} t" "bframe s t" "b_blockno (bufs t i) = ?n" "lblk t = lblk s"
    "dirties t = dirties s" "b_data (bufs t i) = lblk s ?n"
    using bread_view[OF assms(1,3)] assms(5) by (auto simp: spare_def)
  have l: "length (put_head (lh s) (lblk s ?n)) = BSIZE" using length_lblk[OF I] assms(4) by simp
  obtain u where u: "set_bdata i (put_head (lh s) (lblk s ?n)) t = Ret () u" "bok {i} u" "bframe t u"
    "lblk u = (lblk t)(?n := put_head (lh s) (lblk s ?n))" "dirties u = dirties t" "\<forall>j. b_blockno (bufs u j) = b_blockno (bufs t j)"
    using set_bdata_view[OF t(2) _ t(4) l] by auto
  have un: "b_blockno (bufs u i) = ?n" using u(6) t(4) by simp
  obtain v where v: "bwrite i u = Ret () v" "bok {i} v" "wframe u v" "lblk v = lblk u" "dirties v = dirties u - {?n}"
    "\<forall>j. b_blockno (bufs v j) = b_blockno (bufs u j)" "blk (memdisk v) = (blk (memdisk u))(?n := lblk u ?n)"
    "dwrites v = dwrites u @ [(?n, lblk u ?n)]"
    using bwrite_view[OF u(2) _ un] by auto
  have vn: "b_blockno (bufs v i) = ?n" "?n \<in> dirties v \<or> lblk v ?n = blk (memdisk v) ?n" using v(4,6,7) un by simp_all
  obtain w where w: "brelse i v = Ret () w" "bok ({i} - {i}) w" "bframe v w" "lblk w = lblk v" "dirties w = dirties v"
    using brelse_view[OF v(2) _ vn] by auto
  have "write_head s = Ret () w"
    using assms(2) t u v w by (simp add: write_head_def kbind_apply bdata_def kthen_apply)
  moreover have "wrote ?n (put_head (lh s) (lblk s ?n)) s w"
    using t u v w bframeD(2,4)[OF t(3)] bframeD(2,4)[OF u(3)] bframeD(2,4)[OF w(3)]
      wframe_trans[OF wframe_trans[OF bframe_wframe[OF bframe_trans[OF t(3) u(3)]] v(3)] bframe_wframe[OF w(3)]]
    by (simp add: wrote_def)
  ultimately show ?thesis by blast
qed

section \<open>Sequences of block writes\<close>

definition put_all :: "(nat \<times> byte list) list \<Rightarrow> (nat \<Rightarrow> byte list) \<Rightarrow> nat \<Rightarrow> byte list" where
  "put_all ws d = foldl (\<lambda>d (n, x). d(n := x)) d ws"

definition wrotes :: "(nat \<times> byte list) list \<Rightarrow> 'z kbio_scheme \<Rightarrow> 'z kbio_scheme \<Rightarrow> bool" where
  "wrotes ws s t \<longleftrightarrow> bok {} t \<and> wframe s t \<and> lblk t = put_all ws (lblk s) \<and> blk (memdisk t) = put_all ws (blk (memdisk s))
     \<and> dirties t = dirties s - fst ` set ws \<and> dwrites t = dwrites s @ ws"

lemma put_all_simps [simp]: "put_all [] d = d" "put_all (ws @ [(n, x)]) d = (put_all ws d)(n := x)"
  "put_all (ws @ vs) d = put_all vs (put_all ws d)" "put_all ((n, x) # ws) d = put_all ws (d(n := x))"
  by (simp_all add: put_all_def)

lemma put_all_other: "n \<notin> fst ` set ws \<Longrightarrow> put_all ws d n = d n"
  by (induction ws rule: rev_induct) auto

lemma put_all_at: "distinct (map fst ws) \<Longrightarrow> (n, x) \<in> set ws \<Longrightarrow> put_all ws d n = x"
proof (induction ws rule: rev_induct)
  case (snoc w ws)
  obtain m y where w: "w = (m, y)" by (cases w)
  show ?case using snoc w by (auto simp: put_all_other image_iff)
qed simp

lemma wrotes_Nil: "bok {} s \<Longrightarrow> wrotes [] s s"
  by (simp add: wrotes_def)

lemma wrotes_snoc: "wrotes ws s t \<Longrightarrow> wrote n x t u \<Longrightarrow> wrotes (ws @ [(n, x)]) s u"
  by (auto simp: wrotes_def wrote_def intro: wframe_trans)

lemma wrotes_append: "wrotes ws s t \<Longrightarrow> wrotes vs t u \<Longrightarrow> wrotes (ws @ vs) s u"
  by (auto simp: wrotes_def intro: wframe_trans)

lemma wrotesD: "wrotes ws s t \<Longrightarrow> bok {} t" "wrotes ws s t \<Longrightarrow> wframe s t" "wrotes ws s t \<Longrightarrow> dirties t \<subseteq> dirties s"
  "wrotes ws s t \<Longrightarrow> lblk t = put_all ws (lblk s)"
  by (auto simp: wrotes_def)

lemma kfor_snoc: "kfor (xs @ [x]) f s = kthen (kfor xs f) (f x) s"
  by (induction xs arbitrary: s) (auto simp: kdefs split: outcome.splits)

text \<open>A transaction in the log: its blocks are different, lie outside the log, and fit.\<close>

definition trans_ok :: "'z klog_scheme \<Rightarrow> bool" where
  "trans_ok s \<longleftrightarrow> log_dev s = 1 \<and> distinct (lh s) \<and> length (lh s) \<le> LOGSIZE \<and> log_start s + length (lh s) < disksize s
     \<and> (\<forall>b\<in>set (lh s). b < disksize s \<and> (b < log_start s \<or> log_start s + length (lh s) < b))"

lemma trans_ok_frame: "wframe s t \<Longrightarrow> trans_ok t = trans_ok s"
  by (simp add: trans_ok_def wframe_log wframeD)

lemma trans_ok_nth:
  assumes "trans_ok s" "k < length (lh s)"
  shows "log_dev s = 1" "log_start s + k + 1 < disksize s" "lh s ! k < disksize s" "i < length (lh s) \<Longrightarrow> log_start s + i + 1 \<noteq> lh s ! k"
    "lh s ! k \<noteq> log_start s"
proof -
  have "lh s ! k \<in> set (lh s)" using assms(2) by simp
  then have b: "lh s ! k < disksize s" "lh s ! k < log_start s \<or> log_start s + length (lh s) < lh s ! k"
    using assms(1) by (auto simp: trans_ok_def)
  show "log_dev s = 1" "lh s ! k < disksize s" using assms(1) b by (simp_all add: trans_ok_def)
  show "log_start s + k + 1 < disksize s" using assms by (simp add: trans_ok_def)
  show "i < length (lh s) \<Longrightarrow> log_start s + i + 1 \<noteq> lh s ! k" "lh s ! k \<noteq> log_start s" using b(2) by linarith+
qed

definition log_writes :: "nat \<Rightarrow> nat list \<Rightarrow> (nat \<Rightarrow> byte list) \<Rightarrow> nat \<Rightarrow> (nat \<times> byte list) list" where
  "log_writes start bs c k = map (\<lambda>i. (start + i + 1, c (bs ! i))) [0..<k]"

definition install_writes :: "nat \<Rightarrow> nat list \<Rightarrow> (nat \<Rightarrow> byte list) \<Rightarrow> nat \<Rightarrow> (nat \<times> byte list) list" where
  "install_writes start bs c k = map (\<lambda>i. (bs ! i, c (start + i + 1))) [0..<k]"

lemma card_dirties_mono: "dirties t \<subseteq> dirties s \<Longrightarrow> card (dirties s) + 1 < NBUF \<Longrightarrow> card (dirties t) + 1 < NBUF"
  using card_mono[OF finite_dirties[of s]] by (meson add_le_mono1 le_less_trans)

lemma write_log_loop:
  assumes "bok {} s" "trans_ok s" "card (dirties s) + 1 < NBUF" "k \<le> length (lh s)"
  shows "\<exists>t. kfor [0..<k] write_log_one s = Ret () t \<and> wrotes (log_writes (log_start s) (lh s) (lblk s) k) s t"
  using assms(4)
proof (induction k)
  case 0
  then show ?case using assms(1) by (simp add: log_writes_def wrotes_Nil)
next
  case (Suc k)
  then obtain t where t: "kfor [0..<k] write_log_one s = Ret () t" "wrotes (log_writes (log_start s) (lh s) (lblk s) k) s t" by auto
  note w = wrotesD[OF t(2)]
  note f = wframe_log[OF w(2)] wframeD(2)[OF w(2)]
  have k: "k < length (lh s)" using Suc.prems by simp
  note N = trans_ok_nth[OF assms(2) k]
  have T: "log_dev t = 1" "log_start t + k + 1 < disksize t" "lh t ! k < disksize t" "log_start t + k + 1 \<noteq> lh t ! k"
    unfolding f using N k by simp_all
  obtain u where u: "write_log_one k t = Ret () u" "wrote (log_start t + k + 1) (lblk t (lh t ! k)) t u"
    using write_log_one_net[OF w(1) T card_dirties_mono[OF w(3) assms(3)]] by blast
  have "lh s ! k \<noteq> log_start s + i + 1" if "i < k" for i using N(4)[of i] that k by simp
  then have "lh s ! k \<notin> fst ` set (log_writes (log_start s) (lh s) (lblk s) k)" by (simp add: log_writes_def image_iff)
  then have e: "lblk t (lh s ! k) = lblk s (lh s ! k)" using w(4) by (simp add: put_all_other)
  have "wrotes (log_writes (log_start s) (lh s) (lblk s) (Suc k)) s u"
    using wrotes_snoc[OF t(2) u(2)] f e by (simp add: log_writes_def)
  then show ?case using t(1) u(1) by (simp add: kfor_snoc kdefs)
qed

lemma install_loop:
  assumes "bok {} s" "trans_ok s" "card (dirties s) + 1 < NBUF" "k \<le> length (lh s)"
  shows "\<exists>t. kfor [0..<k] install_one s = Ret () t \<and> wrotes (install_writes (log_start s) (lh s) (lblk s) k) s t"
  using assms(4)
proof (induction k)
  case 0
  then show ?case using assms(1) by (simp add: install_writes_def wrotes_Nil)
next
  case (Suc k)
  then obtain t where t: "kfor [0..<k] install_one s = Ret () t" "wrotes (install_writes (log_start s) (lh s) (lblk s) k) s t" by auto
  note w = wrotesD[OF t(2)]
  note f = wframe_log[OF w(2)] wframeD(2)[OF w(2)]
  have k: "k < length (lh s)" using Suc.prems by simp
  note N = trans_ok_nth[OF assms(2) k]
  have T: "log_dev t = 1" "log_start t + k + 1 < disksize t" "lh t ! k < disksize t" "log_start t + k + 1 \<noteq> lh t ! k"
    unfolding f using N k by simp_all
  obtain u where u: "install_one k t = Ret () u" "wrote (lh t ! k) (lblk t (log_start t + k + 1)) t u"
    using install_one_net[OF w(1) T card_dirties_mono[OF w(3) assms(3)]] by blast
  have "log_start s + k + 1 \<noteq> lh s ! i" if "i < k" for i
    using trans_ok_nth(4)[OF assms(2), of i k] that k by simp
  then have "log_start s + k + 1 \<notin> fst ` set (install_writes (log_start s) (lh s) (lblk s) k)" by (simp add: install_writes_def image_iff)
  then have e: "lblk t (log_start s + k + 1) = lblk s (log_start s + k + 1)" using w(4) by (simp add: put_all_other)
  have "wrotes (install_writes (log_start s) (lh s) (lblk s) (Suc k)) s u"
    using wrotes_snoc[OF t(2) u(2)] f e by (simp add: install_writes_def)
  then show ?case using t(1) u(1) by (simp add: kfor_snoc kdefs)
qed

section \<open>Headers\<close>

lemma ld4_fold_st4:
  assumes "length d = BSIZE" "distinct is" "\<forall>i\<in>set is. i < LOGSIZE" "a < LOGSIZE"
  shows "ld4 (foldl (\<lambda>d i. st4 d (4 + 4 * i) (f i)) d is) (4 + 4 * a) = (if a \<in> set is then f a else ld4 d (4 + 4 * a))"
    "ld4 (foldl (\<lambda>d i. st4 d (4 + 4 * i) (f i)) d is) 0 = ld4 d 0"
proof -
  have l: "length (foldl (\<lambda>d i. st4 d (4 + 4 * i) (f i)) d js) = BSIZE" if "\<forall>i\<in>set js. i < LOGSIZE" for js
    using that assms(1) by (induction js rule: rev_induct) auto
  show "ld4 (foldl (\<lambda>d i. st4 d (4 + 4 * i) (f i)) d is) (4 + 4 * a) = (if a \<in> set is then f a else ld4 d (4 + 4 * a))"
    using assms(2,3)
  proof (induction "is" rule: rev_induct)
    case (snoc i js)
    define e where "e = foldl (\<lambda>d i. st4 d (4 + 4 * i) (f i)) d js"
    have le: "length e = BSIZE" using l[of js] snoc.prems by (simp add: e_def)
    have i: "i < LOGSIZE" using snoc.prems by simp
    have "ld4 (st4 e (4 + 4 * i) (f i)) (4 + 4 * a) = (if a = i then f i else ld4 e (4 + 4 * a))"
    proof (cases "a = i")
      case False
      then have "4 + 4 * a + 4 \<le> 4 + 4 * i \<or> 4 + 4 * i + 4 \<le> 4 + 4 * a" by linarith
      then show ?thesis using False le i assms(4) by (subst ld_st_other) auto
    qed (use le i in simp)
    then show ?case using snoc by (auto simp: e_def[symmetric])
  qed simp
  show "ld4 (foldl (\<lambda>d i. st4 d (4 + 4 * i) (f i)) d is) 0 = ld4 d 0"
    using assms(3)
  proof (induction "is" rule: rev_induct)
    case (snoc i js)
    define e where "e = foldl (\<lambda>d i. st4 d (4 + 4 * i) (f i)) d js"
    have "length e = BSIZE" using l[of js] snoc.prems by (simp add: e_def)
    then show ?case using snoc ld_st_other[of "4 + 4 * i" e 0] by (simp add: e_def[symmetric])
  qed simp
qed

lemma sint_of_nat_small: "n \<le> LOGSIZE \<Longrightarrow> sint (of_nat n :: u32) = int n"
proof -
  assume n: "n \<le> LOGSIZE"
  then have u: "uint (of_nat n :: u32) = int n" by (simp add: unsigned_of_nat take_bit_nat_eq_self)
  have "signed_take_bit 31 (int n) = int n" using n by (intro signed_take_bit_int_eq_self) auto
  then show ?thesis by (simp add: sint_uint u)
qed

lemma head_of_put_head:
  assumes "length d = BSIZE" "length bs \<le> LOGSIZE" "\<forall>b\<in>set bs. b < 2 ^ 32"
  shows "head_of (put_head bs d) = bs" "sint (ld4 (put_head bs d) 0) = int (length bs)"
proof -
  let ?d = "st4 d 0 (of_nat (length bs))"
  have ld: "length ?d = BSIZE" using assms(1) by simp
  have i: "\<forall>i\<in>set [0..<length bs]. i < LOGSIZE" using assms(2) by auto
  have n: "ld4 (put_head bs d) 0 = of_nat (length bs)"
    unfolding put_head_def ld4_fold_st4(2)[OF ld distinct_upt i, of 0, simplified] using assms(1) by simp
  show s: "sint (ld4 (put_head bs d) 0) = int (length bs)" using n sint_of_nat_small[OF assms(2)] by simp
  have "unat (ld4 (put_head bs d) (4 + 4 * a)) = bs ! a" if "a < length bs" for a
  proof -
    have "ld4 (put_head bs d) (4 + 4 * a) = of_nat (bs ! a)"
      unfolding put_head_def using ld4_fold_st4(1)[OF ld distinct_upt i, of a] that assms(2) by simp
    moreover have "bs ! a < 2 ^ 32" using assms(3) that by simp
    ultimately show ?thesis by (simp add: unsigned_of_nat take_bit_nat_eq_self)
  qed
  then show "head_of (put_head bs d) = bs" by (auto simp: head_of_def s intro!: nth_equalityI)
qed

lemma head_of_cleared: "length d = BSIZE \<Longrightarrow> head_of (put_head [] d) = []"
  using head_of_put_head(1)[of d "[]"] by simp

section \<open>Commit and recovery\<close>

lemma lh_upd [simp]:
  "lblk (s\<lparr>lh := x\<rparr>) = lblk s" "dirties (s\<lparr>lh := x\<rparr>) = dirties s" "bok H (s\<lparr>lh := x\<rparr>) = bok H s" "bframe s t \<Longrightarrow> lh t = lh s"
proof -
  have "nxt (s\<lparr>lh := x\<rparr>) = nxt s" "prv (s\<lparr>lh := x\<rparr>) = prv s" by (simp_all add: nxt_def prv_def fun_eq_iff)
  then show "bok H (s\<lparr>lh := x\<rparr>) = bok H s" by (simp add: bok_def bc_inv_def bslot_def buniq_def cur_def Let_def)
  show "lblk (s\<lparr>lh := x\<rparr>) = lblk s" by (simp add: lblk_def fun_eq_iff cong: option.case_cong)
  show "dirties (s\<lparr>lh := x\<rparr>) = dirties s" by (simp add: dirties_def)
  show "bframe s t \<Longrightarrow> lh t = lh s" by (simp add: wframe_log bframe_wframe)
qed

lemma lblk_clean:
  assumes "bok {} s" "n \<notin> dirties s"
  shows "lblk s n = blk (memdisk s) n"
proof -
  obtain xs where I: "bc_inv xs {} s" using assms(1) by (auto simp: bok_def)
  show ?thesis
  proof (cases "\<exists>i<NBUF. b_dev (bufs s i) = 1 \<and> b_blockno (bufs s i) = n")
    case True
    then obtain i where i: "i < NBUF" "b_dev (bufs s i) = 1" "b_blockno (bufs s i) = n" by blast
    then have "\<not> b_dirty (bufs s i)" using not_dirty_buf[OF I i(1,2)] assms(2) by simp
    then show ?thesis using lblk_cached[OF I i(1,2)] bc_invD(13)[OF I i(1)] bc_invD(9)[OF I i(1)] i by simp
  next
    case False
    then show ?thesis by (intro lblk_uncached) blast
  qed
qed

definition commit_writes :: "nat \<Rightarrow> nat list \<Rightarrow> (nat \<Rightarrow> byte list) \<Rightarrow> (nat \<times> byte list) list" where
  "commit_writes st bs c = log_writes st bs c (length bs) @ [(st, put_head bs (c st))] @ map (\<lambda>b. (b, c b)) bs
     @ [(st, put_head [] (put_head bs (c st)))]"

lemma distinct_log_writes: "distinct (map fst (log_writes st bs c k))"
  by (simp add: log_writes_def distinct_map inj_on_def comp_def)

lemma log_block_after:
  "i < k \<Longrightarrow> put_all (log_writes st bs c k) d (st + i + 1) = c (bs ! i)"
  by (rule put_all_at[OF distinct_log_writes]) (auto simp: log_writes_def)

lemma fst_log_writes: "fst ` set (log_writes st bs c k) = (\<lambda>i. st + i + 1) ` {..<k}"
  by (simp add: log_writes_def image_image atLeast0LessThan)

lemma wframe_lh:
  assumes f: "wframe (s\<lparr>lh := y\<rparr>) t"
  shows "wframe s (t\<lparr>lh := lh s\<rparr>)"
proof -
  let ?s = "s\<lparr>lh := y\<rparr>" and ?t = "t\<lparr>lh := lh s\<rparr>"
  have "t = ?s\<lparr>procs := procs t, slocks := slocks t, bufs := bufs t, memdisk := memdisk t, dwrites := dwrites t\<rparr>"
    using f by (simp add: wframe_def)
  then have "?t = ?s\<lparr>procs := procs t, slocks := slocks t, bufs := bufs t, memdisk := memdisk t, dwrites := dwrites t\<rparr>\<lparr>lh := lh s\<rparr>" by metis
  also have "\<dots> = s\<lparr>procs := procs t, slocks := slocks t, bufs := bufs t, memdisk := memdisk t, dwrites := dwrites t\<rparr>" by simp
  finally show ?thesis using f by (simp add: wframe_def)
qed

lemma wrotes_lh: "wrotes ws (s\<lparr>lh := y\<rparr>) t \<Longrightarrow> wrotes ws s (t\<lparr>lh := lh s\<rparr>)"
  using wframe_lh[where s = s and y = y and t = t] by (simp add: wrotes_def)

lemma wrote_lh: "wrote n x (s\<lparr>lh := y\<rparr>) t \<Longrightarrow> wrote n x s (t\<lparr>lh := lh s\<rparr>)"
  using wrotes_lh[where ws = "[(n, x)]" and s = s and y = y and t = t] by (simp add: wrotes_def wrote_def)

lemma commit_net:
  assumes ok: "bok {} s" and T: "trans_ok s" and r: "card (dirties s) + 1 < NBUF" and ne: "lh s \<noteq> []"
  shows "\<exists>t. commit s = Ret () (t\<lparr>lh := []\<rparr>)
    \<and> wrotes (commit_writes (log_start s) (lh s) (lblk s)) s t"
proof -
  let ?st = "log_start s" and ?bs = "lh s" and ?n = "length (lh s)"
  obtain s1 where s1: "kfor [0..<?n] write_log_one s = Ret () s1" "wrotes (log_writes ?st ?bs (lblk s) ?n) s s1"
    using write_log_loop[OF ok T r order_refl] by blast
  note w1 = wrotesD[OF s1(2)]
  note f1 = wframe_log[OF w1(2)] wframeD(2)[OF w1(2)]
  have sd: "?st < disksize s" "?n \<le> LOGSIZE" "log_dev s = 1" using T by (auto simp: trans_ok_def)
  have r1: "card (dirties s1) + 1 < NBUF" by (rule card_dirties_mono[OF w1(3) r])
  have "?st \<notin> fst ` set (log_writes ?st ?bs (lblk s) ?n)" unfolding fst_log_writes by auto
  then have "lblk s1 ?st = lblk s ?st" using w1(4) by (simp add: put_all_other)
  then obtain s2 where s2: "write_head s1 = Ret () s2" "wrote ?st (put_head ?bs (lblk s ?st)) s1 s2"
    using write_head_net[OF w1(1)] f1 sd r1 by auto
  have W2: "wrotes (log_writes ?st ?bs (lblk s) ?n @ [(?st, put_head ?bs (lblk s ?st))]) s s2" by (rule wrotes_snoc[OF s1(2) s2(2)])
  note w2 = wrotesD[OF W2]
  note f2 = wframe_log[OF w2(2)] wframeD(2)[OF w2(2)]
  have T2: "trans_ok s2" using trans_ok_frame[OF w2(2)] T by simp
  have r2: "card (dirties s2) + 1 < NBUF" by (rule card_dirties_mono[OF w2(3) r])
  obtain s3 where s3: "kfor [0..<?n] install_one s2 = Ret () s3" "wrotes (install_writes ?st ?bs (lblk s2) ?n) s2 s3"
    using install_loop[OF w2(1) T2 r2 order_refl] f2 by auto
  have "lblk s2 (?st + i + 1) = lblk s (?bs ! i)" if "i < ?n" for i
    using w2(4) log_block_after[OF that] by simp
  then have i3: "install_writes ?st ?bs (lblk s2) ?n = map (\<lambda>b. (b, lblk s b)) ?bs"
    by (auto simp: install_writes_def intro!: nth_equalityI)
  note w3 = wrotesD[OF wrotes_append[OF W2 s3(2)]]
  note f3 = wframe_log[OF w3(2)] wframeD(2)[OF w3(2)]
  let ?t3 = "s3\<lparr>lh := []\<rparr>"
  have "?st \<notin> fst ` set (map (\<lambda>b. (b, lblk s b)) ?bs)" using T by (auto simp: trans_ok_def)
  then have "lblk s3 ?st = put_head ?bs (lblk s ?st)" using w2(4) wrotesD(4)[OF s3(2)] i3 by (simp add: put_all_other)
  then obtain s4 where s4: "write_head ?t3 = Ret () s4" "wrote ?st (put_head [] (put_head ?bs (lblk s ?st))) ?t3 s4"
    using write_head_net[of ?t3] w3(1) f3 sd card_dirties_mono[OF w3(3) r] by auto
  have h: "lh s4 = []" using s4(2) wframe_log(1)[of ?t3 s4] by (simp add: wrote_def)
  let ?t = "s4\<lparr>lh := lh s3\<rparr>"
  have "wrote ?st (put_head [] (put_head ?bs (lblk s ?st))) s3 ?t" by (rule wrote_lh[OF s4(2)])
  from wrotes_snoc[OF wrotes_append[OF W2 s3(2)] this]
  have W: "wrotes (commit_writes ?st ?bs (lblk s)) s ?t" by (simp add: commit_writes_def i3)
  have "commit s = Ret () s4"
    using ne s1(1) s2(1) s3(1) s4(1) f2(1) by (simp add: commit_def write_log_def install_trans_def kdefs)
  moreover have "s4 = ?t\<lparr>lh := []\<rparr>" using h by simp
  ultimately show ?thesis using W by metis
qed

definition recover_writes :: "nat \<Rightarrow> nat list \<Rightarrow> (nat \<Rightarrow> byte list) \<Rightarrow> (nat \<times> byte list) list" where
  "recover_writes st bs d = install_writes st bs d (length bs) @ [(st, put_head [] (d st))]"

lemma read_head_net:
  assumes "bok {} s" "log_dev s = 1" "log_start s < disksize s" "card (dirties s) < NBUF" "sint (ld4 (lblk s (log_start s)) 0) \<le> int LOGSIZE"
  shows "\<exists>t. read_head s = Ret () (t\<lparr>lh := head_of (lblk s (log_start s))\<rparr>) \<and> wrotes [] s t"
proof -
  let ?n = "log_start s"
  obtain i t where t: "bread 1 ?n s = Ret i t" "bok {i} t" "bframe s t" "b_blockno (bufs t i) = ?n" "lblk t = lblk s"
    "dirties t = dirties s" "b_data (bufs t i) = lblk s ?n" "?n \<notin> dirties s \<longrightarrow> lblk s ?n = blk (memdisk s) ?n"
    using bread_view[OF assms(1,3)] assms(4) by (auto simp: spare_def)
  let ?u = "t\<lparr>lh := head_of (lblk s ?n)\<rparr>"
  have u: "bok {i} ?u" "b_blockno (bufs ?u i) = ?n" "?n \<in> dirties ?u \<or> lblk ?u ?n = blk (memdisk ?u) ?n"
    using t bframeD(2)[OF t(3)] by auto
  obtain w where w: "brelse i ?u = Ret () w" "bok ({i} - {i}) w" "bframe ?u w" "lblk w = lblk ?u" "dirties w = dirties ?u"
    using brelse_view[OF u(1) _ u(2,3)] by auto
  have lw: "lh w = head_of (lblk s ?n)" using lh_upd(4)[OF w(3)] by simp
  let ?v = "w\<lparr>lh := lh t\<rparr>"
  have F: "wframe s ?v" by (rule wframe_trans[OF bframe_wframe[OF t(3)] wframe_lh[OF bframe_wframe[OF w(3)]]])
  have "wrotes [] s ?v" using w t F bframeD(2,4)[OF t(3)] bframeD(2,4)[OF w(3)] by (simp add: wrotes_def)
  moreover have "read_head s = Ret () w" using assms(2,5) t w(1) by (simp add: read_head_def kbind_apply bdata_def kthen_apply)
  moreover have "?v\<lparr>lh := head_of (lblk s ?n)\<rparr> = w" using lw by simp
  ultimately show ?thesis by metis
qed

lemma recover_net:
  assumes ok: "bok {} s" and n: "sint (ld4 (lblk s (log_start s)) 0) \<le> int LOGSIZE" and r: "card (dirties s) + 1 < NBUF"
    and T: "trans_ok (s\<lparr>lh := head_of (lblk s (log_start s))\<rparr>)"
  shows "\<exists>t. recover_from_log s = Ret () (t\<lparr>lh := []\<rparr>)
    \<and> wrotes (recover_writes (log_start s) (head_of (lblk s (log_start s))) (lblk s)) s t"
proof -
  let ?st = "log_start s" and ?bs = "head_of (lblk s (log_start s))"
  have a: "log_dev s = 1" "?st < disksize s" "card (dirties s) < NBUF" using T r by (auto simp: trans_ok_def)
  obtain s1 where s1: "read_head s = Ret () (s1\<lparr>lh := ?bs\<rparr>)" "wrotes [] s s1" using read_head_net[OF ok a n] by blast
  note w1 = wrotesD[OF s1(2)]
  note f1 = wframe_log[OF w1(2)] wframeD(2)[OF w1(2)]
  let ?s1 = "s1\<lparr>lh := ?bs\<rparr>"
  have T1: "trans_ok ?s1" using T f1 by (simp add: trans_ok_def)
  obtain s2 where s2: "kfor [0..<length ?bs] install_one ?s1 = Ret () s2" "wrotes (install_writes ?st ?bs (lblk s) (length ?bs)) ?s1 s2"
    using install_loop[of ?s1 "length ?bs"] w1(1,4) T1 card_dirties_mono[OF w1(3) r] f1 by auto
  note w2 = wrotesD[OF s2(2)]
  note f2 = wframe_log[OF w2(2)] wframeD(2)[OF w2(2)]
  have "dirties s2 \<subseteq> dirties s" using w2(3) w1(3) by auto
  then have d2: "card (dirties s2) < NBUF" using card_dirties_mono[OF _ r, of s2] by simp
  have "?st \<noteq> ?bs ! i" if "i < length ?bs" for i using trans_ok_nth(5)[OF T, of i] that by simp
  then have "?st \<notin> fst ` set (install_writes ?st ?bs (lblk s) (length ?bs))" by (simp add: install_writes_def image_iff)
  then have "lblk s2 ?st = lblk s ?st" using w2(4) w1(4) by (simp add: put_all_other)
  then obtain s3 where s3: "write_head (s2\<lparr>lh := []\<rparr>) = Ret () s3" "wrote ?st (put_head [] (lblk s ?st)) (s2\<lparr>lh := []\<rparr>) s3"
    using write_head_net[of "s2\<lparr>lh := []\<rparr>"] w2(1) f1 f2 a d2 by auto
  have h: "lh s3 = []" using s3(2) wframe_log(1)[of "s2\<lparr>lh := []\<rparr>" s3] by (simp add: wrote_def)
  have W: "wrotes (recover_writes ?st ?bs (lblk s)) ?s1 (s3\<lparr>lh := lh s2\<rparr>)"
    unfolding recover_writes_def by (rule wrotes_snoc[OF s2(2) wrote_lh[OF s3(2)]])
  have "wrotes (recover_writes ?st ?bs (lblk s)) s1 (s3\<lparr>lh := lh s1\<rparr>)" using wrotes_lh[OF W] by simp
  then have "wrotes (recover_writes ?st ?bs (lblk s)) s (s3\<lparr>lh := lh s1\<rparr>)" using wrotes_append[OF s1(2)] by fastforce
  moreover have "recover_from_log s = Ret () s3"
    using s1(1) s2(1) s3(1) by (simp add: recover_from_log_def install_trans_def kdefs)
  moreover have "(s3\<lparr>lh := lh s1\<rparr>)\<lparr>lh := []\<rparr> = s3" using h by simp
  ultimately show ?thesis by metis
qed

section \<open>Crashes\<close>

text \<open>
  The disk after the first \<open>k\<close> writes of a commit, and what recovery makes of it.  Before the header is
  written the header on disk is empty and recovery changes nothing outside the log; from then on the log
  holds the new contents and recovery installs all of them.
\<close>

definition committing :: "nat \<Rightarrow> nat list \<Rightarrow> (nat \<Rightarrow> byte list) \<Rightarrow> (nat \<Rightarrow> byte list) \<Rightarrow> bool" where
  "committing st bs d0 c \<longleftrightarrow> distinct bs \<and> length bs \<le> LOGSIZE \<and> (\<forall>b\<in>set bs. b < 2 ^ 32)
     \<and> (\<forall>b\<in>set bs. b < st \<or> st + length bs < b) \<and> (\<forall>n. length (d0 n) = BSIZE) \<and> c st = d0 st \<and> head_of (d0 st) = []"

abbreviation in_log :: "nat \<Rightarrow> nat list \<Rightarrow> nat \<Rightarrow> bool" where
  "in_log st bs n \<equiv> st \<le> n \<and> n \<le> st + length bs"

lemma committingD:
  assumes "committing st bs d0 c"
  shows "distinct bs" "length bs \<le> LOGSIZE" "\<forall>b\<in>set bs. b < 2 ^ 32" "\<forall>b\<in>set bs. b < st \<or> st + length bs < b"
    "length (d0 n) = BSIZE" "c st = d0 st" "head_of (d0 st) = []"
  using assms by (simp_all add: committing_def)

lemma commit_head:
  assumes "committing st bs d0 c"
  shows "head_of (put_head bs (c st)) = bs" "length (put_head bs (c st)) = BSIZE"
  using head_of_put_head(1)[OF _ committingD(2,3)[OF assms]] committingD(2,5,6)[OF assms] by simp_all

lemma not_in_log: "committing st bs d0 c \<Longrightarrow> b \<in> set bs \<Longrightarrow> \<not> in_log st bs b"
  by (fastforce simp: committing_def)

lemma commit_early:
  assumes X: "committing st bs d0 c" and A: "k \<le> length bs" "d = put_all (take k (commit_writes st bs c)) d0"
  shows "head_of (d st) = []" "\<not> in_log st bs n \<Longrightarrow> d n = d0 n"
proof -
  have w: "take k (commit_writes st bs c) = log_writes st bs c k"
    using A(1) by (simp add: commit_writes_def log_writes_def take_map)
  have "st \<notin> fst ` set (take k (commit_writes st bs c))" unfolding w fst_log_writes by auto
  then show "head_of (d st) = []" using committingD(7)[OF X] by (simp add: A(2) put_all_other)
  have "n \<notin> fst ` set (take k (commit_writes st bs c))" if "\<not> in_log st bs n" using that A(1) unfolding w fst_log_writes by auto
  then show "\<not> in_log st bs n \<Longrightarrow> d n = d0 n" by (simp add: A(2) put_all_other)
qed

lemma commit_middle:
  assumes X: "committing st bs d0 c" and A: "j \<le> length bs" "d = put_all (take (length bs + 1 + j) (commit_writes st bs c)) d0"
  shows "head_of (d st) = bs" "i < length bs \<Longrightarrow> d (st + i + 1) = c (bs ! i)"
    "\<not> in_log st bs n \<Longrightarrow> n \<notin> set bs \<Longrightarrow> d n = d0 n" "length (d st) = BSIZE"
proof -
  let ?L = "log_writes st bs c (length bs)" and ?I = "map (\<lambda>b. (b, c b)) (take j bs)"
  have w: "take (length bs + 1 + j) (commit_writes st bs c) = ?L @ [(st, (put_head bs (c st)))] @ ?I"
    using A(1) by (simp add: commit_writes_def log_writes_def take_map)
  have D: "d = put_all ?I ((put_all ?L d0)(st := (put_head bs (c st))))" unfolding A(2) w by simp
  have o: "m \<notin> fst ` set ?I" if "in_log st bs m \<or> m \<notin> set bs" for m
    using that not_in_log[OF X] set_take_subset[of j bs] by (auto simp: image_image)
  have "d st = (put_head bs (c st))" unfolding D using o[of st] by (simp add: put_all_other)
  then show "head_of (d st) = bs" "length (d st) = BSIZE" using commit_head[OF X] by simp_all
  show "d (st + i + 1) = c (bs ! i)" if "i < length bs"
    unfolding D using o[of "st + i + 1"] that log_block_after[OF that, of st bs c d0] by (simp add: put_all_other)
  show "d n = d0 n" if "\<not> in_log st bs n" "n \<notin> set bs"
  proof -
    have "n \<notin> fst ` set ?L" "n \<noteq> st" using that(1) unfolding fst_log_writes by auto
    then show ?thesis unfolding D using o[of n] that by (simp add: put_all_other)
  qed
qed

lemma commit_late:
  assumes X: "committing st bs d0 c" and A: "d = put_all (commit_writes st bs c) d0"
  shows "head_of (d st) = []" "b \<in> set bs \<Longrightarrow> d b = c b" "\<not> in_log st bs n \<Longrightarrow> n \<notin> set bs \<Longrightarrow> d n = d0 n"
proof -
  let ?e = "put_all (take (length bs + 1 + length bs) (commit_writes st bs c)) d0"
  have w: "(commit_writes st bs c) = take (length bs + 1 + length bs) (commit_writes st bs c) @ [(st, put_head [] (put_head bs (c st)))]"
    by (simp add: commit_writes_def log_writes_def)
  have D: "d = ?e(st := put_head [] (put_head bs (c st)))" unfolding A by (subst w) simp
  show "head_of (d st) = []" unfolding D using head_of_cleared[OF commit_head(2)[OF X]] by simp
  show "d n = d0 n" if "\<not> in_log st bs n" "n \<notin> set bs"
    unfolding D using commit_middle(3)[OF X order_refl refl that] that by auto
  show "d b = c b" if "b \<in> set bs"
  proof -
    let ?I = "map (\<lambda>b. (b, c b)) bs"
    have "take (length bs + 1 + length bs) (commit_writes st bs c) = (log_writes st bs c (length bs) @ [(st, (put_head bs (c st)))]) @ ?I"
      by (simp add: commit_writes_def log_writes_def)
    moreover have "put_all ?I z b = c b" for z using committingD(1)[OF X] that by (intro put_all_at) (auto simp: comp_def)
    ultimately have "?e b = c b" by simp
    then show ?thesis unfolding D using not_in_log[OF X that] by auto
  qed
qed

text \<open>What recovery leaves outside the log.\<close>

lemma commit_recovered:
  assumes X: "committing st bs d0 c" and A: "k \<le> length (commit_writes st bs c)" "d = put_all (take k (commit_writes st bs c)) d0" "\<not> in_log st bs n"
  shows "put_all (recover_writes st (head_of (d st)) d) d n = (if k \<le> length bs then d0 n else if n \<in> set bs then c n else d0 n)"
proof -
  have n: "n \<noteq> st" using A(3) by auto
  have nil: "put_all (recover_writes st [] d) d n = d n" using n by (simp add: recover_writes_def install_writes_def)
  have lw: "length (commit_writes st bs c) = 2 * length bs + 2" by (simp add: commit_writes_def log_writes_def)
  consider "k \<le> length bs" | j where "k = length bs + 1 + j" "j \<le> length bs" | "k = length (commit_writes st bs c)" "length bs < k"
    using A(1) unfolding lw by (cases "k \<le> length bs"; cases "k = 2 * length bs + 2") (auto dest!: not_le_imp_less less_imp_Suc_add)
  then show ?thesis
  proof cases
    case 1
    then show ?thesis using commit_early[OF X 1 A(2)] A(3) nil by simp
  next
    case (2 j)
    note M = commit_middle[OF X 2(2) A(2)[unfolded 2(1)]]
    have I: "install_writes st bs d (length bs) = map (\<lambda>b. (b, c b)) bs"
      using M(2) by (auto simp: install_writes_def intro!: nth_equalityI)
    have "put_all (map (\<lambda>b. (b, c b)) bs) d n = (if n \<in> set bs then c n else d0 n)"
    proof (cases "n \<in> set bs")
      case True
      then show ?thesis using committingD(1)[OF X] by (subst put_all_at[where x = "c n"]) (auto simp: comp_def)
    next
      case False
      then show ?thesis using M(3)[OF A(3) False] by (subst put_all_other) auto
    qed
    then show ?thesis using 2 M(1) n by (simp add: recover_writes_def I)
  next
    case 3
    then have "d = put_all (commit_writes st bs c) d0" using A(2) by simp
    from commit_late[OF X this] show ?thesis using 3 A(3) nil by auto
  qed
qed

lemma commit_recovered_head:
  assumes X: "committing st bs d0 c" and A: "k \<le> length (commit_writes st bs c)" "d = put_all (take k (commit_writes st bs c)) d0"
  shows "head_of (d st) = (if length bs < k \<and> k < length (commit_writes st bs c) then bs else [])"
proof -
  have lw: "length (commit_writes st bs c) = 2 * length bs + 2" by (simp add: commit_writes_def log_writes_def)
  consider "k \<le> length bs" | "length bs < k" "k < length (commit_writes st bs c)" | "k = length (commit_writes st bs c)" "length bs < k"
    using A(1) lw by linarith
  then show ?thesis
  proof cases
    case 1
    then show ?thesis using commit_early(1)[OF X 1 A(2)] by simp
  next
    case 2
    then obtain j where j: "k = length bs + 1 + j" "j \<le> length bs" unfolding lw by (auto dest!: less_imp_Suc_add)
    then show ?thesis using 2 commit_middle(1)[OF X j(2) A(2)[unfolded j(1)]] by simp
  next
    case 3
    then have "d = put_all (commit_writes st bs c) d0" using A(2) by simp
    then show ?thesis using 3 commit_late(1)[OF X] by simp
  qed
qed

section \<open>Recording a block\<close>

lemma log_lock_simps [simp]:
  "lh (klock lk s) = lh s" "(klock lk s)\<lparr>lh := x\<rparr> = klock lk (s\<lparr>lh := x\<rparr>)"
  "log_outstanding (klock lk s) = log_outstanding s" "(klock lk s)\<lparr>log_outstanding := o'\<rparr> = klock lk (s\<lparr>log_outstanding := o'\<rparr>)"
  "log_committing (klock lk s) = log_committing s" "(klock lk s)\<lparr>log_committing := c\<rparr> = klock lk (s\<lparr>log_committing := c\<rparr>)"
  "upd_buf i f (s\<lparr>lh := x\<rparr>) = (upd_buf i f s)\<lparr>lh := x\<rparr>" "(upd_buf i f s)\<lparr>lh := lh s\<rparr> = upd_buf i f s"
  by (simp_all add: klock_def upd_buf_def)

definition absorb :: "nat \<Rightarrow> nat list \<Rightarrow> nat list" where
  "absorb n bs = (if n \<in> set bs then bs else bs @ [n])"

lemma log_write_net:
  assumes "kidle s" "length (lh s) < LOGSIZE" "int (length (lh s)) < int (log_size s) - 1" "1 \<le> log_outstanding s"
  shows "log_write i s = Ret () ((upd_buf i (\<lambda>x. x\<lparr>b_dirty := True\<rparr>) s)\<lparr>lh := absorb (b_blockno (bufs s i)) (lh s)\<rparr>)"
proof (cases "find_idx (\<lambda>m. m = b_blockno (bufs s i)) (lh s)")
  case None
  then have "b_blockno (bufs s i) \<notin> set (lh s)" by auto
  then show ?thesis using assms None by (simp add: log_write_def kdefs absorb_def del: find_idx_None_iff)
next
  case (Some k)
  have "lh s ! k = b_blockno (bufs s i)" "k < length (lh s)" using find_idx_SomeD[OF Some] by auto
  then have "(lh s)[k := b_blockno (bufs s i)] = lh s" "b_blockno (bufs s i) \<in> set (lh s)" by (metis list_update_id, metis nth_mem)
  then show ?thesis using assms Some by (simp add: log_write_def kdefs absorb_def)
qed

lemma log_write_view:
  assumes "bok H s" "i \<in> H" "b_blockno (bufs s i) = n" "length (lh s) < LOGSIZE" "int (length (lh s)) < int (log_size s) - 1" "1 \<le> log_outstanding s"
  shows "\<exists>t. log_write i s = Ret () (t\<lparr>lh := absorb n (lh s)\<rparr>) \<and> bok H t \<and> bframe s t \<and> lblk t = lblk s \<and> dirties t = insert n (dirties s)
    \<and> (\<forall>j. b_blockno (bufs t j) = b_blockno (bufs s j))"
proof -
  obtain xs where I: "bc_inv xs H s" "kidle s" using assms(1) by (auto simp: bok_def)
  note h = held_buf[OF assms(1,2)]
  let ?t = "upd_buf i (\<lambda>x. x\<lparr>b_dirty := True\<rparr>) s"
  have e: "?t = upd_buf i (\<lambda>b. b\<lparr>b_data := b_data (bufs s i), b_dirty := True\<rparr>) s" by (simp add: upd_buf_def)
  note S = set_data_ok[OF I(1) assms(2) bc_invD(6)[OF I(1) h(1)] e]
  have f: "bframe s ?t" by (rule bframe_upd)
  have "bok H ?t" by (rule bok_frame[OF assms(1) bframe_wframe[OF f] S(1)])
  moreover have "lblk ?t = lblk s" using S(2) h(3) by simp
  moreover have "dirties ?t = insert n (dirties s)"
    using assms(3) h(1) by (auto simp: dirties_def image_iff split: if_splits)
  ultimately show ?thesis using log_write_net[OF I(2) assms(4-6), of i] f assms(3) by (intro exI[of _ ?t]) simp
qed

section \<open>Blocks inside a transaction\<close>

text \<open>
  The two ways the file system uses a block between \<^verbatim>\<open>begin_op\<close> and \<^verbatim>\<open>end_op\<close>: read its content, or change
  it and record the change in the log.
\<close>

definition read_block :: "u32 \<Rightarrow> nat \<Rightarrow> ('z kbio_scheme, byte list) K" where
  "read_block dev n = kbind (bread dev n) (\<lambda>b. kbind (bdata b) (\<lambda>d. kthen (brelse b) (kret d)))"

definition modify_block :: "u32 \<Rightarrow> nat \<Rightarrow> (byte list \<Rightarrow> byte list) \<Rightarrow> ('z klog_scheme, unit) K" where
  "modify_block dev n f =
     kbind (bread dev n) (\<lambda>b. kbind (bdata b) (\<lambda>d. kthen (set_bdata b (f d)) (kthen (log_write b) (brelse b))))"

text \<open>In a transaction the dirty buffers are the recorded blocks.\<close>

definition txok :: "nat set \<Rightarrow> 'z klog_scheme \<Rightarrow> bool" where
  "txok H s \<longleftrightarrow> bok H s \<and> dirties s = set (lh s) \<and> distinct (lh s) \<and> 1 \<le> log_outstanding s"

text \<open>There is room for \<open>k\<close> more blocks in the log and in the cache.\<close>

definition txroom :: "nat set \<Rightarrow> nat \<Rightarrow> 'z klog_scheme \<Rightarrow> bool" where
  "txroom H k s \<longleftrightarrow> length (lh s) + k + card H < LOGSIZE \<and> length (lh s) + k < log_size s"

definition lframe :: "'z klog_scheme \<Rightarrow> 'z klog_scheme \<Rightarrow> bool" where
  "lframe s t \<longleftrightarrow> t = s\<lparr>procs := procs t, slocks := slocks t, bufs := bufs t, lh := lh t\<rparr> \<and> woken (procs s) (procs t)
     \<and> (\<forall>k. slocks t (SLinode k) = slocks s (SLinode k))"

lemma lframe_trans: "lframe s t \<Longrightarrow> lframe t u \<Longrightarrow> lframe s u"
  unfolding lframe_def
proof (elim conjE, intro conjI)
  assume a: "t = s\<lparr>procs := procs t, slocks := slocks t, bufs := bufs t, lh := lh t\<rparr>" "u = t\<lparr>procs := procs u, slocks := slocks u, bufs := bufs u, lh := lh u\<rparr>"
  have "u = (s\<lparr>procs := procs t, slocks := slocks t, bufs := bufs t, lh := lh t\<rparr>)\<lparr>procs := procs u, slocks := slocks u, bufs := bufs u, lh := lh u\<rparr>"
    using a by metis
  then show "u = s\<lparr>procs := procs u, slocks := slocks u, bufs := bufs u, lh := lh u\<rparr>" by simp
qed (auto intro: woken_trans)

lemma lframe_refl [simp]: "lframe s s"
  by (simp add: lframe_def)

lemma bframe_lframe: "bframe s t \<Longrightarrow> lframe s t"
proof -
  assume f: "bframe s t"
  then have e: "t = s\<lparr>procs := procs t, slocks := slocks t, bufs := bufs t\<rparr>" by (simp add: bframe_def)
  have "lh t = lh s" using f by simp
  then have "s\<lparr>procs := procs t, slocks := slocks t, bufs := bufs t, lh := lh t\<rparr> = s\<lparr>procs := procs t, slocks := slocks t, bufs := bufs t\<rparr>" by simp
  then have "t = s\<lparr>procs := procs t, slocks := slocks t, bufs := bufs t, lh := lh t\<rparr>" using e by (rule trans[OF _ sym, rotated])
  then show ?thesis using f unfolding lframe_def bframe_def by blast
qed

lemma lframe_lh: "lframe s t \<Longrightarrow> lframe s (t\<lparr>lh := x\<rparr>)"
proof -
  assume f: "lframe s t"
  then have "t = s\<lparr>procs := procs t, slocks := slocks t, bufs := bufs t, lh := lh t\<rparr>" by (simp add: lframe_def)
  then have "t\<lparr>lh := x\<rparr> = s\<lparr>procs := procs t, slocks := slocks t, bufs := bufs t, lh := lh t\<rparr>\<lparr>lh := x\<rparr>" by metis
  then have "t\<lparr>lh := x\<rparr> = s\<lparr>procs := procs t, slocks := slocks t, bufs := bufs t, lh := x\<rparr>" by simp
  moreover have "procs (t\<lparr>lh := x\<rparr>) = procs t" "slocks (t\<lparr>lh := x\<rparr>) = slocks t" "bufs (t\<lparr>lh := x\<rparr>) = bufs t" "lh (t\<lparr>lh := x\<rparr>) = x" by simp_all
  ultimately show ?thesis using f unfolding lframe_def by presburger
qed

lemma lframeD: "lframe s t \<Longrightarrow> khw t = khw s" "lframe s t \<Longrightarrow> disksize t = disksize s" "lframe s t \<Longrightarrow> pmem t = pmem s"
  "lframe s t \<Longrightarrow> memdisk t = memdisk s" "lframe s t \<Longrightarrow> dwrites t = dwrites s" "lframe s t \<Longrightarrow> log_size t = log_size s"
  "lframe s t \<Longrightarrow> log_outstanding t = log_outstanding s" "lframe s t \<Longrightarrow> log_dev t = log_dev s" "lframe s t \<Longrightarrow> log_start t = log_start s"
  unfolding lframe_def by (elim conjE, erule ssubst, simp)+

lemma txok_spare: "txok H s \<Longrightarrow> txroom H k s \<Longrightarrow> spare H s"
  by (simp add: txok_def txroom_def spare_def distinct_card)

lemma read_block_view:
  assumes "bok H s" "n < disksize s" "n \<notin> hblk H s" "spare H s"
  shows "\<exists>t. read_block 1 n s = Ret (lblk s n) t \<and> bok H t \<and> lblk t = lblk s \<and> bframe s t \<and> dirties t = dirties s
    \<and> (\<forall>j\<in>H. b_blockno (bufs t j) = b_blockno (bufs s j))"
proof -
  obtain i t where t: "bread 1 n s = Ret i t" "i \<notin> H" "bok (insert i H) t" "bframe s t" "b_blockno (bufs t i) = n"
    "b_data (bufs t i) = lblk s n" "lblk t = lblk s" "dirties t = dirties s" "\<forall>j\<in>H. b_blockno (bufs t j) = b_blockno (bufs s j)"
    "n \<notin> dirties s \<longrightarrow> lblk s n = blk (memdisk s) n"
    using bread_view[OF assms] by blast
  have c: "n \<in> dirties t \<or> lblk t n = blk (memdisk t) n" using t(7,8,10) bframeD(2)[OF t(4)] by auto
  obtain u where u: "brelse i t = Ret () u" "bok (insert i H - {i}) u" "bframe t u" "lblk u = lblk t" "dirties u = dirties t"
    "\<forall>j. b_blockno (bufs u j) = b_blockno (bufs t j)"
    using brelse_view[OF t(3) insertI1 t(5) c] by blast
  have e: "insert i H - {i} = H" using t(2) by simp
  show ?thesis
    using t u e bframe_trans[OF t(4) u(3)]
    by (intro exI[of _ u]) (simp add: read_block_def kbind_apply kthen_apply bdata_def)
qed

lemma read_block_net:
  assumes "txok H s" "n < disksize s" "n \<notin> hblk H s" "txroom H k s"
  shows "\<exists>t. read_block 1 n s = Ret (lblk s n) t \<and> txok H t \<and> lblk t = lblk s \<and> bframe s t
    \<and> (\<forall>j\<in>H. b_blockno (bufs t j) = b_blockno (bufs s j))"
proof -
  have ok: "bok H s" using assms(1) by (simp add: txok_def)
  obtain t where t: "read_block 1 n s = Ret (lblk s n) t" "bok H t" "lblk t = lblk s" "bframe s t" "dirties t = dirties s"
    "\<forall>j\<in>H. b_blockno (bufs t j) = b_blockno (bufs s j)"
    using read_block_view[OF ok assms(2,3) txok_spare[OF assms(1,4)]] by blast
  have "log_outstanding t = log_outstanding s" "lh t = lh s" using lframeD(7)[OF bframe_lframe[OF t(4)]] lh_upd(4)[OF t(4)] .
  then have "txok H t" using assms(1) t(2,5) by (simp add: txok_def)
  then show ?thesis using t by blast
qed

lemma set_absorb: "set (absorb n bs) = insert n (set bs)" "distinct bs \<Longrightarrow> distinct (absorb n bs)" "length (absorb n bs) \<le> Suc (length bs)"
  by (auto simp: absorb_def)

text \<open>Change a checked-out buffer, record it, release it.\<close>

lemma write_back_net:
  assumes "txok H s" "i \<in> H" "b_blockno (bufs s i) = n" "txroom (H - {i}) 1 s" "length x = BSIZE"
  shows "\<exists>t. kthen (set_bdata i x) (kthen (log_write i) (brelse i)) s = Ret () t \<and> txok (H - {i}) t \<and> lblk t = (lblk s)(n := x) \<and> lframe s t
    \<and> lh t = absorb n (lh s) \<and> (\<forall>j. b_blockno (bufs t j) = b_blockno (bufs s j))"
proof -
  have ok: "bok H s" using assms(1) by (simp add: txok_def)
  obtain u where u: "set_bdata i x s = Ret () u" "bok H u" "bframe s u" "lblk u = (lblk s)(n := x)"
    "dirties u = dirties s" "\<forall>j. b_blockno (bufs u j) = b_blockno (bufs s j)"
    using set_bdata_view[OF ok assms(2,3,5)] by blast
  have un: "b_blockno (bufs u i) = n" using u(6) assms(3) by simp
  have lu: "lh u = lh s" using lh_upd(4)[OF u(3)] .
  have c: "length (lh u) < LOGSIZE" "int (length (lh u)) < int (log_size u) - 1" "1 \<le> log_outstanding u"
    using assms(1,4) lframeD(6,7)[OF bframe_lframe[OF u(3)]] lu by (simp_all add: txroom_def txok_def)
  obtain v where v: "log_write i u = Ret () (v\<lparr>lh := absorb n (lh u)\<rparr>)" "bok H v" "bframe u v" "lblk v = lblk u"
    "dirties v = insert n (dirties u)" "\<forall>j. b_blockno (bufs v j) = b_blockno (bufs u j)"
    using log_write_view[OF u(2) assms(2) un c] by blast
  let ?v = "v\<lparr>lh := absorb n (lh u)\<rparr>"
  have vn: "b_blockno (bufs ?v i) = n" "n \<in> dirties ?v \<or> lblk ?v n = blk (memdisk ?v) n" using v(5,6) un by simp_all
  have vok: "bok H ?v" using v(2) by simp
  obtain w where w: "brelse i ?v = Ret () w" "bok (H - {i}) w" "bframe ?v w" "lblk w = lblk ?v" "dirties w = dirties ?v"
    "\<forall>j. b_blockno (bufs w j) = b_blockno (bufs ?v j)"
    using brelse_view[OF vok assms(2) vn] by blast
  have lw: "lh w = absorb n (lh s)" using lh_upd(4)[OF w(3)] lu by simp
  have F: "lframe s w" by (rule lframe_trans[OF lframe_lh[OF bframe_lframe[OF bframe_trans[OF u(3) v(3)]]] bframe_lframe[OF w(3)]])
  have "txok (H - {i}) w"
    using assms(1) w(2,5) v(5) u(5) lw lframeD(7)[OF F] by (simp add: txok_def set_absorb)
  then show ?thesis using u(1) v(1) lw F w v(4,6) u(4,6) by (intro exI[of _ w]) (simp add: kthen_apply)
qed

lemma modify_block_net:
  assumes "txok H s" "n < disksize s" "n \<notin> hblk H s" "txroom H 1 s" "length (f (lblk s n)) = BSIZE"
  shows "\<exists>t. modify_block 1 n f s = Ret () t \<and> txok H t \<and> lblk t = (lblk s)(n := f (lblk s n)) \<and> lframe s t
    \<and> lh t = absorb n (lh s) \<and> (\<forall>j\<in>H. b_blockno (bufs t j) = b_blockno (bufs s j))"
proof -
  have ok: "bok H s" using assms(1) by (simp add: txok_def)
  obtain i t where t: "bread 1 n s = Ret i t" "i \<notin> H" "bok (insert i H) t" "bframe s t" "b_blockno (bufs t i) = n"
    "b_data (bufs t i) = lblk s n" "lblk t = lblk s" "dirties t = dirties s" "\<forall>j\<in>H. b_blockno (bufs t j) = b_blockno (bufs s j)"
    using bread_view[OF ok assms(2,3) txok_spare[OF assms(1,4)]] by blast
  have e: "insert i H - {i} = H" and lt: "lh t = lh s" using t(2) lh_upd(4)[OF t(4)] by simp_all
  have T: "txok (insert i H) t" "txroom (insert i H - {i}) 1 t"
    using assms(1,4) t(3,8) lt e lframeD(6,7)[OF bframe_lframe[OF t(4)]] by (simp_all add: txok_def txroom_def)
  obtain w where w: "kthen (set_bdata i (f (lblk s n))) (kthen (log_write i) (brelse i)) t = Ret () w" "txok H w" "lblk w = (lblk s)(n := f (lblk s n))"
    "lframe t w" "lh w = absorb n (lh s)" "\<forall>j. b_blockno (bufs w j) = b_blockno (bufs t j)"
    using write_back_net[OF T(1) insertI1 t(5) T(2) assms(5)] e lt t(7) by auto
  have "modify_block 1 n f s = Ret () w" using t(1,6) w(1) by (simp add: modify_block_def kbind_apply bdata_def)
  then show ?thesis using w t(9) lframe_trans[OF bframe_lframe[OF t(4)] w(4)] by (intro exI[of _ w]) simp
qed

section \<open>Properties\<close>

text \<open>
  C1: Crash atomicity.  A commit of the blocks in the log writes them to their places, empties the log
  and leaves no dirty buffer.  If the machine stops after any number \<open>k\<close> of its disk writes and recovery
  runs on what the disk then holds, recovery returns, the log is empty, and the blocks outside the log are
  all as before the commit when the header had not been written yet (\<open>k\<close> at most the number of blocks), and
  all as committed otherwise.
\<close>

theorem commit_crash_atomic:
  fixes s :: "'z klog_scheme"
  assumes "bok {} s" "trans_ok s" "disksize s \<le> 2 ^ 32" "card (dirties s) + 1 < NBUF" "lh s \<noteq> []" "dirties s = set (lh s)"
    "head_of (blk (memdisk s) (log_start s)) = []"
  shows "\<exists>t ws. commit s = Ret () t \<and> lh t = [] \<and> dirties t = {} \<and> dwrites t = dwrites s @ ws
    \<and> (\<forall>n. \<not> in_log (log_start s) (lh s) n \<longrightarrow> blk (memdisk t) n = lblk s n)
    \<and> (\<forall>k\<le>length ws. \<forall>r :: 'z klog_scheme. bok {} r \<longrightarrow> dirties r = {} \<longrightarrow> log_dev r = 1 \<longrightarrow> log_start r = log_start s \<longrightarrow>
        disksize r = disksize s \<longrightarrow> blk (memdisk r) = put_all (take k ws) (blk (memdisk s)) \<longrightarrow>
        (\<exists>r'. recover_from_log r = Ret () r' \<and> head_of (blk (memdisk r') (log_start s)) = []
          \<and> (\<forall>n. \<not> in_log (log_start s) (lh s) n \<longrightarrow>
               blk (memdisk r') n = (if k \<le> length (lh s) then blk (memdisk s) n else lblk s n))))"
proof -
  let ?st = "log_start s" and ?bs = "lh s" and ?d = "blk (memdisk s)"
  have nd: "?st \<notin> set ?bs" using assms(2) by (auto simp: trans_ok_def)
  have cl: "lblk s n = ?d n" if "n \<notin> set ?bs" for n using lblk_clean[OF assms(1)] assms(6) that by simp
  have C: "committing ?st ?bs ?d (lblk s)"
    using assms(2,3,7) cl[OF nd] by (auto simp: committing_def trans_ok_def)
  obtain t where t: "commit s = Ret () (t\<lparr>lh := []\<rparr>)" "wrotes (commit_writes ?st ?bs (lblk s)) s t"
    using commit_net[OF assms(1,2,4,5)] by blast
  let ?ws = "commit_writes ?st ?bs (lblk s)"
  have "set ?bs \<subseteq> fst ` set ?ws" by (force simp: commit_writes_def)
  then have D: "dirties t = {}" using t(2) assms(6) by (auto simp: wrotes_def)
  have B: "blk (memdisk t) n = lblk s n" if "\<not> in_log ?st ?bs n" for n
    using commit_late(2,3)[OF C refl] cl that t(2) by (cases "n \<in> set ?bs") (auto simp: wrotes_def)
  have R: "\<exists>r'. recover_from_log r = Ret () r' \<and> head_of (blk (memdisk r') ?st) = []
      \<and> (\<forall>n. \<not> in_log ?st ?bs n \<longrightarrow> blk (memdisk r') n = (if k \<le> length ?bs then ?d n else lblk s n))"
    if r: "k \<le> length ?ws" "bok {} r" "dirties r = {}" "log_dev r = 1" "log_start r = ?st" "disksize r = disksize s"
      "blk (memdisk r) = put_all (take k ?ws) ?d" for k and r :: "'z klog_scheme"
  proof -
    have lr: "lblk r = blk (memdisk r)" using lblk_clean[OF r(2)] r(3) by auto
    note H = commit_recovered_head[OF C r(1,7)]
    have hl: "head_of (lblk r ?st) = ?bs \<or> head_of (lblk r ?st) = []" using H lr by (auto split: if_splits)
    then have "length (head_of (lblk r ?st)) \<le> LOGSIZE" using assms(2) by (auto simp: trans_ok_def)
    then have n: "sint (ld4 (lblk r (log_start r)) 0) \<le> int LOGSIZE" using r(5) by (simp add: head_of_def)
    have T: "trans_ok (r\<lparr>lh := head_of (lblk r (log_start r))\<rparr>)"
      using hl assms(2) r(4-6) by (elim disjE) (simp_all add: trans_ok_def)
    obtain u where u: "recover_from_log r = Ret () (u\<lparr>lh := []\<rparr>)"
      "wrotes (recover_writes ?st (head_of (lblk r ?st)) (lblk r)) r u"
      using recover_net[OF r(2) n _ T] r(3,5) by auto
    have bu: "blk (memdisk u) = put_all (recover_writes ?st (head_of (blk (memdisk r) ?st)) (blk (memdisk r))) (blk (memdisk r))"
      using u(2) lr by (simp add: wrotes_def)
    have "head_of (blk (memdisk u) ?st) = []" unfolding bu by (simp add: recover_writes_def head_of_cleared)
    moreover have "blk (memdisk u) n = (if k \<le> length ?bs then ?d n else lblk s n)" if "\<not> in_log ?st ?bs n" for n
      using commit_recovered[OF C r(1,7) that] cl[of n] unfolding bu by auto
    ultimately show ?thesis using u(1) by (intro exI[of _ "u\<lparr>lh := []\<rparr>"]) simp
  qed
  show ?thesis using t D B R by (intro exI[of _ "t\<lparr>lh := []\<rparr>"] exI[of _ ?ws]) (simp add: wrotes_def)
qed

text \<open>A machine with an empty log and one operation under way.\<close>

definition klog0 :: "memory \<Rightarrow> klog" where
  "klog0 d = kbio.extend (kbio0 (Some 0) d)
     \<lparr>log_start = 2, log_size = 30, log_outstanding = 1, log_committing = False, log_dev = 1, lh = []\<rparr>"

lemma klog0_simps [simp]:
  "kidle (klog0 d)" "memdisk (klog0 d) = d" "disksize (klog0 d) = 1000" "cur (klog0 d) = Some 0" "log_start (klog0 d) = 2" "log_size (klog0 d) = 30"
  "log_outstanding (klog0 d) = 1" "log_dev (klog0 d) = 1" "lh (klog0 d) = []" "log_committing (klog0 d) = False" "length (procs (klog0 d)) = 1" "kdepth (klog0 d) = 0"
  "bufs (klog0 d) i = \<lparr>b_valid = False, b_dirty = False, b_dev = 0, b_blockno = 0, b_refcnt = 0, b_prev = 0, b_next = 0, b_data = replicate 512 0\<rparr>"
  using idle_cpu_simps[of "Some 0"]
  by (simp_all add: klog0_def kbio.defs kbio0_def kslp0_def kpr0_def kslp.defs kpr.defs kdev.defs cur_def kdepth_def idle_cpu_def this_cpu_def)

lemma binit_txok:
  assumes "kidle s" "cur s = Some p" "lh s = []" "1 \<le> log_outstanding s"
    and "\<forall>i<NBUF. b_dev (bufs s i) = 0 \<and> \<not> b_valid (bufs s i) \<and> \<not> b_dirty (bufs s i) \<and> b_refcnt (bufs s i) = 0 \<and> length (b_data (bufs s i)) = BSIZE"
  shows "\<exists>t. binit s = Ret () t \<and> txok {} t \<and> lframe s t \<and> lh t = [] \<and> lblk t = blk (memdisk s)"
proof -
  obtain t where t: "binit s = Ret () t" "kidle t" "bc_inv (rev [0..<NBUF]) {} t" "\<forall>n. lblk t n = blk (memdisk s) n" "cur t = cur s"
    "\<forall>i<NBUF. \<not> b_dirty (bufs t i)" "bframe s t"
    using binit_ok[OF assms(1,5)] by blast
  have "lh t = []" "log_outstanding t = log_outstanding s" using lh_upd(4)[OF t(7)] lframeD(7)[OF bframe_lframe[OF t(7)]] assms(3) by simp_all
  then show ?thesis using t assms(2,4) bframe_lframe[OF t(7)] by (auto simp: txok_def bok_def dirties_def fun_eq_iff)
qed

lemma klog0_binit: "\<exists>s. binit (klog0 d) = Ret () s \<and> txok {} s \<and> lframe (klog0 d) s \<and> lh s = [] \<and> lblk s = blk d"
  using binit_txok[of "klog0 d"] by simp

lemma blk_zero: "blk (\<lambda>_. 0) n = replicate BSIZE 0"
  by (simp add: blk_def get_bytes_def map_replicate_const)

lemma head_of_zero: "head_of (replicate BSIZE 0) = []"
  by (simp add: head_of_def ld4_def sub_bytes_def of_le4_def)

theorem commit_crash_atomic_witness:
  "\<exists>s1 s t r. binit (klog0 (\<lambda>_. 0)) = Ret () s1 \<and> modify_block 1 50 (\<lambda>_. replicate BSIZE 7) s1 = Ret () s \<and> commit s = Ret () t
     \<and> blk (memdisk t) 50 = replicate BSIZE 7 \<and> recover_from_log s1 = Ret () r \<and> blk (memdisk r) 50 = replicate BSIZE 0"
proof -
  obtain s1 where s1: "binit (klog0 (\<lambda>_. 0)) = Ret () s1" "txok {} s1" "lframe (klog0 (\<lambda>_. 0)) s1" "lh s1 = []" "lblk s1 = blk (\<lambda>_. 0)"
    using klog0_binit by blast
  note d = lframeD[OF s1(3)]
  have "txroom {} 1 s1" using d s1(4) by (simp add: txroom_def)
  then obtain s where s: "modify_block 1 50 (\<lambda>_. replicate BSIZE 7) s1 = Ret () s" "txok {} s" "lblk s = (lblk s1)(50 := replicate BSIZE 7)"
    "lframe s1 s" "lh s = absorb 50 (lh s1)"
    using modify_block_net[OF s1(2), of 50 "\<lambda>_. replicate BSIZE 7"] d by (auto simp: hblk_def)
  note e = lframeD[OF s(4)]
  have l: "lh s = [50]" "dirties s = {50}" using s(2,5) s1(4) by (simp_all add: absorb_def txok_def)
  have m: "memdisk s = (\<lambda>_. 0)" "memdisk s1 = (\<lambda>_. 0)" "log_start s = 2" using d e by simp_all
  have h: "bok {} s" "trans_ok s" "disksize s \<le> 2 ^ 32" "card (dirties s) + 1 < NBUF" "lh s \<noteq> []" "dirties s = set (lh s)"
    "head_of (blk (memdisk s) (log_start s)) = []"
    using s(2) d e l by (simp_all add: txok_def trans_ok_def blk_zero head_of_zero)
  have r: "bok {} s1" "dirties s1 = {}" "log_dev s1 = 1" "log_start s1 = log_start s" "disksize s1 = disksize s"
    "blk (memdisk s1) = put_all (take 0 ws) (blk (memdisk s))" for ws
    using s1(2,4) d e by (simp_all add: txok_def)
  have n: "\<not> in_log (log_start s) (lh s) 50" using l m by simp
  obtain t ws where t: "commit s = Ret () t" "blk (memdisk t) 50 = lblk s 50"
    and R: "\<exists>r'. recover_from_log s1 = Ret () r' \<and> (\<forall>n. \<not> in_log (log_start s) (lh s) n \<longrightarrow> blk (memdisk r') n = blk (memdisk s) n)"
    using commit_crash_atomic[OF h] n r by (metis le0)
  then show ?thesis using s1(1) s(1,3) n m by (auto simp: blk_zero)
qed

text \<open>
  C23: \<^verbatim>\<open>begin_op\<close> reserves log space.  It lets the caller in exactly when no commit is under way and
  \<^verbatim>\<open>MAXOPBLOCKS\<close> blocks for it and for every operation already inside fit in the log together with
  the blocks recorded so far; it then only counts the operation, and the reservation of all operations inside holds.
  Otherwise the caller goes to sleep on the log with the log's lock free.
\<close>

theorem begin_op_reserves:
  assumes "kidle s" "kdepth s = 0" "cur s = Some i" "i < length (procs s)"
  shows "(\<exists>t. begin_op s = Ret () t \<and> t = s\<lparr>log_outstanding := log_outstanding s + 1\<rparr> \<and> \<not> log_committing s
           \<and> int (length (lh t)) + log_outstanding t * int MAXOPBLOCKS \<le> int LOGSIZE)
    \<or> (\<exists>t. begin_op s = Blocked t \<and> kfree_lk Llog t \<and> p_state (procs t ! i) = SLEEPING \<and> p_chan (procs t ! i) = Some ChanLog
         \<and> (log_committing s \<or> int (length (lh s)) + (log_outstanding s + 1) * int MAXOPBLOCKS > int LOGSIZE))"
proof (cases "log_committing s \<or> int (length (lh s)) + (log_outstanding s + 1) * int MAXOPBLOCKS > int LOGSIZE")
  case True
  let ?t = "klock Lptable (upd_proc i (\<lambda>p. p\<lparr>p_chan := Some ChanLog, p_state := SLEEPING\<rparr>) s)"
  have "sleep (Some ChanLog) (Some Llog) (klock Llog s) = Blocked ?t" using assms by (intro sleep_net) simp_all
  then have "begin_op s = Blocked ?t" using True assms by (auto simp: begin_op_def begin_op_loop_def kdefs)
  then show ?thesis using True assms by (intro disjI2 exI[of _ ?t]) simp
next
  case False
  then show ?thesis using assms by (intro disjI1) (simp add: begin_op_def begin_op_loop_def kdefs)
qed

theorem begin_op_reserves_witness:
  "\<exists>t. begin_op (klog0 (\<lambda>_. 0)) = Ret () t \<and> log_outstanding t = 2"
  using begin_op_reserves[of "klog0 (\<lambda>_. 0)" 0] by (auto simp: begin_op_def)

end
