(* ===== verification/Balloc.thy ===== *)
theory Balloc
  imports Log
begin

text \<open>
  The block layer of the file system (\<^verbatim>\<open>fs.c\<close>: \<^verbatim>\<open>bzero\<close>, \<^verbatim>\<open>balloc\<close>, \<^verbatim>\<open>bfree\<close>) and the state the file system adds,
  the super block and the cache of in-memory inodes (\<^verbatim>\<open>struct inode\<close> of \<^verbatim>\<open>file.h\<close>).  The lemmas describe the
  operations by what they do to the content of blocks as the buffer cache shows it, with the bitmap
  read as a set of blocks in use.
\<close>

abbreviation "NINODE \<equiv> (50 :: nat)"
abbreviation "ROOTDEV \<equiv> (1 :: u32)"
abbreviation "ROOTINO \<equiv> (1 :: u32)"

record inode =
  i_dev :: u32
  i_inum :: u32
  i_ref :: int
  i_valid :: bool
  i_type :: u16
  i_major :: u16
  i_minor :: u16
  i_nlink :: u16
  i_size :: u32
  i_addrs :: "u32 list"
  i_uid :: u32
  i_gid :: u32
  i_mode :: u32

record kfs = klog +
  ksb :: superblock
  icache :: "nat \<Rightarrow> inode"

definition upd_inode :: "nat \<Rightarrow> (inode \<Rightarrow> inode) \<Rightarrow> 'z kfs_scheme \<Rightarrow> 'z kfs_scheme" where
  "upd_inode ip f s = s\<lparr>icache := (icache s)(ip := f (icache s ip))\<rparr>"

definition the_inode :: "nat \<Rightarrow> ('z kfs_scheme, inode) K" where
  "the_inode ip = kget (\<lambda>s. icache s ip)"

section \<open>Blocks\<close>

definition bzero :: "u32 \<Rightarrow> nat \<Rightarrow> ('z kfs_scheme, unit) K" where
  "bzero dev bno =
     kbind (bread dev bno) (\<lambda>bp.
     kthen (set_bdata bp (replicate BSIZE 0)) (
     kthen (log_write bp)
       (brelse bp)))"

definition bitmask :: "nat \<Rightarrow> byte" where
  "bitmask bi = push_bit (bi mod 8) 1"

definition bit_clear :: "byte list \<Rightarrow> nat \<Rightarrow> bool" where
  "bit_clear d bi \<longleftrightarrow> and (d ! (bi div 8)) (bitmask bi) = 0"

definition balloc_block :: "u32 \<Rightarrow> superblock \<Rightarrow> nat \<Rightarrow> ('z kfs_scheme, nat option) K" where
  "balloc_block dev sb b =
     kbind (bread dev (BBLOCK b sb)) (\<lambda>bp.
     kbind (bdata bp) (\<lambda>d.
     case find (bit_clear d) [0..<min BPB (unat (sb_size sb) - b)] of
       Some bi \<Rightarrow>
         kthen (set_bdata bp (d[bi div 8 := or (d ! (bi div 8)) (bitmask bi)])) (
         kthen (log_write bp) (
         kthen (brelse bp) (
         kthen (bzero dev (b + bi))
           (kret (Some (b + bi))))))
     | None \<Rightarrow> kthen (brelse bp) (kret None)))"

definition balloc :: "u32 \<Rightarrow> ('z kfs_scheme, u32) K" where
  "balloc dev =
     kbind (kget ksb) (\<lambda>sb.
     kbind (kfor_ret (map (\<lambda>k. k * BPB) [0..<(unat (sb_size sb) + BPB - 1) div BPB]) (balloc_block dev sb)) (\<lambda>r.
     case r of
       Some n \<Rightarrow> kret (of_nat n)
     | None \<Rightarrow> kpanic ''balloc: out of blocks''))"

definition bfree :: "u32 \<Rightarrow> u32 \<Rightarrow> ('z kfs_scheme, unit) K" where
  "bfree dev b =
     kbind (readsb dev) (\<lambda>sb.
     kthen (kmod (\<lambda>s. s\<lparr>ksb := sb\<rparr>)) (
     kbind (bread dev (BBLOCK (unat b) sb)) (\<lambda>bp.
     kbind (bdata bp) (\<lambda>d.
     let bi = unat b mod BPB in
     if bit_clear d bi then kpanic ''freeing free block''
     else
       kthen (set_bdata bp (d[bi div 8 := and (d ! (bi div 8)) (not (bitmask bi))])) (
       kthen (log_write bp)
         (brelse bp))))))"

section \<open>Frames\<close>

lemma lframe_fs: "lframe s t \<Longrightarrow> icache t = icache s" "lframe s t \<Longrightarrow> ksb t = ksb s"
  "lframe s t \<Longrightarrow> cons_locking t = cons_locking s" "lframe s t \<Longrightarrow> cout t = cout s"
  unfolding lframe_def by (elim conjE, erule ssubst, simp)+

lemma fs_upd [simp]:
  "lblk (s\<lparr>icache := x\<rparr>) = lblk s" "dirties (s\<lparr>icache := x\<rparr>) = dirties s" "bok H (s\<lparr>icache := x\<rparr>) = bok H s" "hblk H (s\<lparr>icache := x\<rparr>) = hblk H s"
  "txok H (s\<lparr>icache := x\<rparr>) = txok H s" "txroom H k (s\<lparr>icache := x\<rparr>) = txroom H k s"
  "lblk (s\<lparr>ksb := y\<rparr>) = lblk s" "dirties (s\<lparr>ksb := y\<rparr>) = dirties s" "bok H (s\<lparr>ksb := y\<rparr>) = bok H s" "hblk H (s\<lparr>ksb := y\<rparr>) = hblk H s"
  "txok H (s\<lparr>ksb := y\<rparr>) = txok H s" "txroom H k (s\<lparr>ksb := y\<rparr>) = txroom H k s"
proof -
  have "nxt (s\<lparr>icache := x\<rparr>) = nxt s" "prv (s\<lparr>icache := x\<rparr>) = prv s" "nxt (s\<lparr>ksb := y\<rparr>) = nxt s" "prv (s\<lparr>ksb := y\<rparr>) = prv s"
    by (simp_all add: nxt_def prv_def fun_eq_iff)
  then show b: "bok H (s\<lparr>icache := x\<rparr>) = bok H s" "bok H (s\<lparr>ksb := y\<rparr>) = bok H s"
    by (simp_all add: bok_def bc_inv_def bslot_def buniq_def cur_def Let_def)
  show "lblk (s\<lparr>icache := x\<rparr>) = lblk s" "lblk (s\<lparr>ksb := y\<rparr>) = lblk s" by (simp_all add: lblk_def fun_eq_iff cong: option.case_cong)
  show d: "dirties (s\<lparr>icache := x\<rparr>) = dirties s" "dirties (s\<lparr>ksb := y\<rparr>) = dirties s" by (simp_all add: dirties_def)
  show "hblk H (s\<lparr>icache := x\<rparr>) = hblk H s" "hblk H (s\<lparr>ksb := y\<rparr>) = hblk H s" by (simp_all add: hblk_def)
  show "txok H (s\<lparr>icache := x\<rparr>) = txok H s" "txok H (s\<lparr>ksb := y\<rparr>) = txok H s" using b d by (simp_all add: txok_def)
  show "txroom H k (s\<lparr>icache := x\<rparr>) = txroom H k s" "txroom H k (s\<lparr>ksb := y\<rparr>) = txroom H k s" by (simp_all add: txroom_def)
qed

lemma inode_simps [simp]:
  "icache (klock lk s) = icache s" "icache (ksettle s) = icache s" "ksb (klock lk s) = ksb s" "ksb (ksettle s) = ksb s"
  "(klock lk s)\<lparr>icache := x\<rparr> = klock lk (s\<lparr>icache := x\<rparr>)" "(ksettle s)\<lparr>icache := x\<rparr> = ksettle (s\<lparr>icache := x\<rparr>)"
  "kgood (s\<lparr>icache := x\<rparr>) = kgood s" "kfree_lk lk (s\<lparr>icache := x\<rparr>) = kfree_lk lk s" "cur (s\<lparr>icache := x\<rparr>) = cur s"
  by (simp_all add: klock_def ksettle_def kgood_def kfree_lk_def cur_def)

lemma upd_inode_simps [simp]:
  "khw (upd_inode i f s) = khw s" "procs (upd_inode i f s) = procs s" "cur (upd_inode i f s) = cur s" "slocks (upd_inode i f s) = slocks s"
  "ksb (upd_inode i f s) = ksb s" "disksize (upd_inode i f s) = disksize s" "bufs (upd_inode i f s) = bufs s" "lh (upd_inode i f s) = lh s"
  "icache (upd_inode i f s) = (icache s)(i := f (icache s i))"
  "upd_inode i f (klock lk s) = klock lk (upd_inode i f s)" "upd_inode i f (ksettle s) = ksettle (upd_inode i f s)"
  "lblk (upd_inode i f s) = lblk s" "dirties (upd_inode i f s) = dirties s" "bok H (upd_inode i f s) = bok H s" "hblk H (upd_inode i f s) = hblk H s"
  "txok H (upd_inode i f s) = txok H s" "txroom H k (upd_inode i f s) = txroom H k s"
  by (simp_all add: upd_inode_def)

lemma upd_inode_twice [simp]: "upd_inode i g (upd_inode i f s) = upd_inode i (\<lambda>x. g (f x)) s"
  by (simp add: upd_inode_def)

section \<open>The free-block bitmap\<close>

lemma bit_clear_iff: "bit_clear d bi \<longleftrightarrow> \<not> bit (d ! (bi div 8)) (bi mod 8)"
proof -
  have m: "bi mod 8 < 8" by simp
  have "and w (push_bit k 1) = 0 \<longleftrightarrow> \<not> bit w k" if "k < 8" for w :: byte and k
    using that by (auto simp: bit_eq_iff[where 'a = byte] bit_and_iff bit_exp_iff possible_bit_word)
  then show ?thesis using m by (simp add: bit_clear_def bitmask_def)
qed

lemma bitmask_bit: "bit (bitmask bi) j \<longleftrightarrow> j = bi mod 8"
proof -
  have "bi mod 8 < 8" by simp
  then show ?thesis by (auto simp: bitmask_def bit_exp_iff possible_bit_word)
qed

lemma bit_clear_set:
  assumes "length d = BSIZE" "bi < BPB" "bj < BPB"
  shows "bit_clear (d[bi div 8 := or (d ! (bi div 8)) (bitmask bi)]) bj \<longleftrightarrow> bit_clear d bj \<and> bj \<noteq> bi"
proof -
  have "bj = bi \<longleftrightarrow> bj div 8 = bi div 8 \<and> bj mod 8 = bi mod 8" by (metis div_mult_mod_eq)
  then show ?thesis using assms by (auto simp: bit_clear_iff nth_list_update bit_or_iff bitmask_bit)
qed

lemma bit_clear_reset:
  assumes "length d = BSIZE" "bi < BPB" "bj < BPB"
  shows "bit_clear (d[bi div 8 := and (d ! (bi div 8)) (not (bitmask bi))]) bj \<longleftrightarrow> bit_clear d bj \<or> bj = bi"
proof -
  have "bj = bi \<longleftrightarrow> bj div 8 = bi div 8 \<and> bj mod 8 = bi mod 8" by (metis div_mult_mod_eq)
  moreover have "bj mod 8 < 8" by simp
  ultimately show ?thesis using assms by (auto simp: bit_clear_iff nth_list_update bit_and_iff bit_not_iff bitmask_bit)
qed

text \<open>Block \<open>k\<close> is marked in use, when the blocks have the contents \<open>c\<close>.\<close>

definition bused :: "superblock \<Rightarrow> (nat \<Rightarrow> byte list) \<Rightarrow> nat \<Rightarrow> bool" where
  "bused sb c k \<longleftrightarrow> \<not> bit_clear (c (BBLOCK k sb)) (k mod BPB)"

text \<open>The bitmap lies on the disk and its blocks are marked in use.\<close>

definition bitmap_ok :: "superblock \<Rightarrow> nat \<Rightarrow> (nat \<Rightarrow> byte list) \<Rightarrow> bool" where
  "bitmap_ok sb ds c \<longleftrightarrow> unat (sb_size sb) \<le> ds \<and> (\<forall>n. length (c n) = BSIZE)
     \<and> (\<forall>k<unat (sb_size sb). BBLOCK k sb < unat (sb_size sb) \<and> bused sb c (BBLOCK k sb))"

definition mark_bit :: "nat \<Rightarrow> byte list \<Rightarrow> byte list" where
  "mark_bit k d = d[k mod BPB div 8 := or (d ! (k mod BPB div 8)) (bitmask (k mod BPB))]"

definition clear_bit :: "nat \<Rightarrow> byte list \<Rightarrow> byte list" where
  "clear_bit k d = d[k mod BPB div 8 := and (d ! (k mod BPB div 8)) (not (bitmask (k mod BPB)))]"

lemma BBLOCK_eq_iff: "BBLOCK k sb = BBLOCK j sb \<longleftrightarrow> k div BPB = j div BPB"
  by (simp add: BBLOCK_def)

lemma bused_set:
  assumes "length (c (BBLOCK n sb)) = BSIZE"
  shows "bused sb (c(BBLOCK n sb := mark_bit n (c (BBLOCK n sb)))) k \<longleftrightarrow> bused sb c k \<or> k = n"
proof (cases "BBLOCK k sb = BBLOCK n sb")
  case True
  then have "k = n \<longleftrightarrow> k mod BPB = n mod BPB" using BBLOCK_eq_iff[of k sb n] by (metis div_mult_mod_eq)
  with True show ?thesis using bit_clear_set[OF assms, of "n mod BPB" "k mod BPB"] by (simp add: bused_def mark_bit_def)
qed (auto simp: bused_def)

lemma bused_reset:
  assumes "length (c (BBLOCK n sb)) = BSIZE"
  shows "bused sb (c(BBLOCK n sb := clear_bit n (c (BBLOCK n sb)))) k \<longleftrightarrow> bused sb c k \<and> k \<noteq> n"
proof (cases "BBLOCK k sb = BBLOCK n sb")
  case True
  then have "k = n \<longleftrightarrow> k mod BPB = n mod BPB" using BBLOCK_eq_iff[of k sb n] by (metis div_mult_mod_eq)
  with True show ?thesis using bit_clear_reset[OF assms, of "n mod BPB" "k mod BPB"] by (simp add: bused_def clear_bit_def)
qed (auto simp: bused_def)

lemma bused_other: "(\<And>k. k < N \<Longrightarrow> n \<noteq> BBLOCK k sb) \<Longrightarrow> k < N \<Longrightarrow> bused sb (c(n := x)) k = bused sb c k"
  by (auto simp: bused_def)

section \<open>Block allocation\<close>

lemma kfor_ret_skip:
  "(\<And>x s. x \<in> set xs \<Longrightarrow> I s \<Longrightarrow> \<exists>t. body x s = Ret None t \<and> I t) \<Longrightarrow> I s \<Longrightarrow> \<exists>t. kfor_ret xs body s = Ret None t \<and> I t"
proof (induction xs arbitrary: s)
  case (Cons x xs)
  obtain t where "body x s = Ret None t" "I t" using Cons.prems by (metis list.set_intros(1))
  then show ?case using Cons.IH[of t] Cons.prems(1) by (simp add: kbind_apply)
qed simp

lemma kfor_ret_append: "kfor_ret xs body s = Ret None t \<Longrightarrow> kfor_ret (xs @ ys) body s = kfor_ret ys body t"
proof (induction xs arbitrary: s)
  case (Cons x xs)
  then obtain r u where u: "body x s = Ret r u" "(case r of None \<Rightarrow> kfor_ret xs body | Some y \<Rightarrow> kret (Some y)) u = Ret None t"
    by (auto simp: kbind_Ret_iff)
  then show ?case using Cons.IH by (cases r) (simp_all add: kbind_apply)
qed simp

lemma find_upt: "k < m \<Longrightarrow> P k \<Longrightarrow> (\<And>j. j < k \<Longrightarrow> \<not> P j) \<Longrightarrow> find P [0..<m] = Some k"
  by (auto simp: find_Some_iff intro!: exI[of _ k])

lemma txroom_absorb: "lh t = absorb n (lh s) \<Longrightarrow> lframe s t \<Longrightarrow> txroom H (Suc k) s \<Longrightarrow> txroom H k t"
  using set_absorb(3)[of n "lh s"] by (simp add: txroom_def lframeD)

lemma txroom_frame: "bframe s t \<Longrightarrow> txroom H k t = txroom H k s"
  using lframeD(6)[OF bframe_lframe] lh_upd(4) by (fastforce simp: txroom_def)

lemma txroom_mono: "txroom H k s \<Longrightarrow> j \<le> k \<Longrightarrow> txroom H j s"
  by (simp add: txroom_def)

lemma hblk_cong: "\<forall>j\<in>H. b_blockno (bufs t j) = b_blockno (bufs s j) \<Longrightarrow> hblk H t = hblk H s"
  by (simp add: hblk_def)

lemma bread_data:
  assumes "txok H s" "n < disksize s" "n \<notin> hblk H s" "txroom H k s"
  obtains i t where "bread 1 n s = Ret i t" "b_data (bufs t i) = lblk s n"
  using bread_view[OF _ assms(2,3) txok_spare[OF assms(1,4)]] assms(1) by (auto simp: txok_def)

lemma bzero_modify: "bzero dev n s = modify_block dev n (\<lambda>_. replicate BSIZE 0) s"
  by (simp add: bzero_def modify_block_def bdata_def kdefs split: outcome.split)

text \<open>The block of the bitmap in which \<open>balloc\<close> stops.\<close>

lemma balloc_block_cases:
  assumes "txok H s" "BBLOCK b sb < disksize s" "BBLOCK b sb \<notin> hblk H s" "txroom H k s" and b: "b = q * BPB"
  shows "balloc_block 1 sb b s =
     (case find (bit_clear (lblk s (BBLOCK b sb))) [0..<min BPB (unat (sb_size sb) - b)] of
        Some bi \<Rightarrow> kthen (modify_block 1 (BBLOCK b sb) (mark_bit (b + bi))) (kthen (bzero 1 (b + bi)) (kret (Some (b + bi)))) s
      | None \<Rightarrow> kthen (read_block 1 (BBLOCK b sb)) (kret None) s)"
proof -
  obtain i t where t: "bread 1 (BBLOCK b sb) s = Ret i t" "b_data (bufs t i) = lblk s (BBLOCK b sb)" using bread_data[OF assms(1-4)] .
  have "bi mod BPB = bi" if "find P [0..<min BPB m] = Some bi" for bi P m using that by (auto simp: find_Some_iff)
  then show ?thesis
    using t by (simp add: balloc_block_def modify_block_def read_block_def bdata_def mark_bit_def b kdefs split: option.split outcome.split)
qed

text \<open>What holds while the bitmap is searched.\<close>

definition searching :: "nat set \<Rightarrow> 'z kfs_scheme \<Rightarrow> 'z kfs_scheme \<Rightarrow> bool" where
  "searching H s t \<longleftrightarrow> txok H t \<and> lblk t = lblk s \<and> bframe s t \<and> (\<forall>j\<in>H. b_blockno (bufs t j) = b_blockno (bufs s j))"

lemma searching_refl: "txok H s \<Longrightarrow> searching H s s"
  by (simp add: searching_def)

lemma searching_read:
  assumes "searching H s t" "n < disksize s" "n \<notin> hblk H s" "txroom H k s"
  shows "\<exists>u. read_block 1 n t = Ret (lblk s n) u \<and> searching H s u"
proof -
  note t = assms(1)[unfolded searching_def]
  then have f: "bframe s t" by blast
  have "hblk H t = hblk H s" "disksize t = disksize s" "txroom H k t" using t assms(4) bframeD(3)[OF f] txroom_frame[OF f] by (simp_all add: hblk_cong)
  then obtain u where "read_block 1 n t = Ret (lblk t n) u" "txok H u" "lblk u = lblk t" "bframe t u"
    "\<forall>j\<in>H. b_blockno (bufs u j) = b_blockno (bufs t j)"
    using read_block_net[of H t n k] t assms(2,3) by auto
  then show ?thesis using t bframe_trans by (intro exI[of _ u]) (auto simp: searching_def)
qed

lemma searchingD:
  assumes "searching H s t"
  shows "txok H t" "lblk t = lblk s" "hblk H t = hblk H s" "disksize t = disksize s" "txroom H k t = txroom H k s" "lframe s t"
    "\<forall>j\<in>H. b_blockno (bufs t j) = b_blockno (bufs s j)"
  using assms bframeD(3) txroom_frame bframe_lframe hblk_cong unfolding searching_def by blast+

lemma balloc_block_full:
  assumes t: "searching H s t" and B: "bitmap_ok sb (disksize s) (lblk s)" and r: "txroom H k s" and x: "x = q * BPB" "x < unat (sb_size sb)"
    and h: "\<forall>k<unat (sb_size sb). BBLOCK k sb \<notin> hblk H s" and u: "\<forall>k<unat (sb_size sb). x \<le> k \<longrightarrow> k < x + BPB \<longrightarrow> bused sb (lblk s) k"
  shows "\<exists>t'. balloc_block 1 sb x t = Ret None t' \<and> searching H s t'"
proof -
  note T = searchingD[OF t]
  have n: "BBLOCK x sb < disksize s" "BBLOCK x sb \<notin> hblk H s" using B x h by (force simp: bitmap_ok_def)+
  have "\<not> bit_clear (lblk s (BBLOCK x sb)) j" if "j < min BPB (unat (sb_size sb) - x)" for j
  proof -
    have "BBLOCK (x + j) sb = BBLOCK x sb" "(x + j) mod BPB = j" using that x(1) by (simp_all add: BBLOCK_def)
    moreover have "x + j < unat (sb_size sb)" using that by linarith
    ultimately show ?thesis using u[rule_format, of "x + j"] that by (simp add: bused_def)
  qed
  then have "find (bit_clear (lblk s (BBLOCK x sb))) [0..<min BPB (unat (sb_size sb) - x)] = None" by (simp add: find_None_iff)
  moreover obtain t' where "read_block 1 (BBLOCK x sb) t = Ret (lblk s (BBLOCK x sb)) t'" "searching H s t'"
    using searching_read[OF t n r] by blast
  ultimately show ?thesis using balloc_block_cases[OF T(1) _ _ _ x(1), of sb k] n r T(2-5) by (auto simp: kdefs)
qed

lemma balloc_block_hit:
  assumes t: "searching H s t" and B: "bitmap_ok sb (disksize s) (lblk s)" and r: "txroom H 2 s" and x: "x = q * BPB" "x \<le> n" "n < x + BPB"
    and n: "n < unat (sb_size sb)" "\<not> bused sb (lblk s) n" "\<forall>k<n. bused sb (lblk s) k" "n \<notin> hblk H s" and h: "BBLOCK n sb \<notin> hblk H s"
  shows "\<exists>u. balloc_block 1 sb x t = Ret (Some n) u \<and> txok H u \<and> lframe s u \<and> (\<forall>j\<in>H. b_blockno (bufs u j) = b_blockno (bufs s j))
    \<and> lblk u = (lblk s)(BBLOCK n sb := mark_bit n (lblk s (BBLOCK n sb)), n := replicate BSIZE 0) \<and> lh u = absorb n (absorb (BBLOCK n sb) (lh s))"
proof -
  note T = searchingD[OF t]
  let ?b = "BBLOCK n sb"
  have q: "n div BPB = q" using x by (intro div_nat_eqI) simp_all
  have e: "BBLOCK x sb = ?b" "n mod BPB = n - x" using q x(1) by (simp_all add: BBLOCK_def modulo_nat_def)
  have b: "?b < disksize s" "length (lblk s ?b) = BSIZE" "n < disksize s" "n \<noteq> ?b" using B n by (auto simp: bitmap_ok_def)
  have bits: "bit_clear (lblk s ?b) j \<longleftrightarrow> \<not> bused sb (lblk s) (x + j)" if "j < BPB" for j
    using that x(1) e(1) by (simp add: bused_def BBLOCK_def)
  have "find (bit_clear (lblk s ?b)) [0..<min BPB (unat (sb_size sb) - x)] = Some (n - x)"
    using bits[of "n - x"] bits n x by (intro find_upt) auto
  then have c: "balloc_block 1 sb x t = kthen (modify_block 1 ?b (mark_bit n)) (kthen (bzero 1 n) (kret (Some n))) t"
    using balloc_block_cases[OF T(1) _ _ _ x(1), of sb 2] e b h r T(2-5) x(2) by simp
  have "txroom H 1 t" using txroom_mono[OF r, of 1] T(5) by simp
  then obtain v where v: "modify_block 1 ?b (mark_bit n) t = Ret () v" "txok H v" "lblk v = (lblk s)(?b := mark_bit n (lblk s ?b))" "lframe t v"
    "lh v = absorb ?b (lh t)" "\<forall>j\<in>H. b_blockno (bufs v j) = b_blockno (bufs t j)"
    using modify_block_net[OF T(1), of ?b "mark_bit n"] b h T(2-5) by (auto simp: mark_bit_def)
  have hv: "hblk H v = hblk H s" "disksize v = disksize s" using hblk_cong[OF v(6)] lframeD(2)[OF v(4)] T by simp_all
  have "txroom H 1 v" using txroom_absorb[OF v(5,4), of H 1] r T(5) by (simp add: numeral_2_eq_2)
  then obtain u where u: "modify_block 1 n (\<lambda>_. replicate BSIZE 0) v = Ret () u" "txok H u" "lblk u = (lblk v)(n := replicate BSIZE 0)" "lframe v u"
    "lh u = absorb n (lh v)" "\<forall>j\<in>H. b_blockno (bufs u j) = b_blockno (bufs v j)"
    using modify_block_net[OF v(2), of n "\<lambda>_. replicate BSIZE 0"] b(3) hv n(4) by auto
  have "lframe s u" by (rule lframe_trans[OF lframe_trans[OF T(6) v(4)] u(4)])
  moreover have "lh t = lh s" using t lh_upd(4) by (auto simp: searching_def)
  ultimately show ?thesis using c v u T(7) by (intro exI[of _ u]) (simp add: kdefs bzero_modify)
qed

text \<open>The buffers a caller of the allocator may hold: of blocks in use outside the bitmap.\<close>

definition held_ok :: "superblock \<Rightarrow> nat set \<Rightarrow> 'z kfs_scheme \<Rightarrow> bool" where
  "held_ok sb H s \<longleftrightarrow> (\<forall>m\<in>hblk H s. bused sb (lblk s) m \<and> (\<forall>k<unat (sb_size sb). m \<noteq> BBLOCK k sb))"

lemma balloc_search:
  assumes ok: "txok H s" and B: "bitmap_ok sb (disksize s) (lblk s)" and r: "txroom H k s" and h: "held_ok sb H s"
    and q: "\<forall>j<q. j * BPB < unat (sb_size sb)" "\<forall>j<unat (sb_size sb). j < q * BPB \<longrightarrow> bused sb (lblk s) j"
  shows "\<exists>t. kfor_ret (map (\<lambda>k. k * BPB) [0..<q]) (balloc_block 1 sb) s = Ret None t \<and> searching H s t"
proof (rule kfor_ret_skip[where I = "searching H s"])
  fix x t assume "x \<in> set (map (\<lambda>k. k * BPB) [0..<q])" and t: "searching H s t"
  then obtain j where j: "x = j * BPB" "j < q" by auto
  have "j * BPB + BPB \<le> q * BPB" using mult_le_mono1[of "Suc j" q BPB] j(2) by simp
  then show "\<exists>t'. balloc_block 1 sb x t = Ret None t' \<and> searching H s t'"
    using q h j by (intro balloc_block_full[OF t B r j(1)]) (auto simp: held_ok_def)
qed (rule searching_refl[OF ok])

lemma balloc_net:
  assumes ok: "txok H s" and B: "bitmap_ok (ksb s) (disksize s) (lblk s)" and r: "txroom H 2 s" and h: "held_ok (ksb s) H s"
    and n: "n < unat (sb_size (ksb s))" "\<not> bused (ksb s) (lblk s) n" "\<forall>k<n. bused (ksb s) (lblk s) k"
  shows "\<exists>u. balloc 1 s = Ret (of_nat n) u \<and> txok H u \<and> lframe s u \<and> (\<forall>j\<in>H. b_blockno (bufs u j) = b_blockno (bufs s j))
    \<and> lblk u = (lblk s)(BBLOCK n (ksb s) := mark_bit n (lblk s (BBLOCK n (ksb s))), n := replicate BSIZE 0)
    \<and> lh u = absorb n (absorb (BBLOCK n (ksb s)) (lh s))"
proof -
  let ?sb = "ksb s" and ?q = "n div BPB"
  let ?m = "(unat (sb_size ?sb) + BPB - 1) div BPB"
  have q: "?q * BPB \<le> n" "n < ?q * BPB + BPB" using div_mult_mod_eq[of n BPB] mod_less_divisor[of BPB n] by linarith+
  have "?q < ?m" using n(1) by (simp add: less_eq_Suc_le div_le_mono Suc_div_le_mono flip: div_add_self2)
  then have sp: "[0..<?m] = [0..<?q] @ ?q # [Suc ?q..<?m]" by (metis upt_conv_Cons less_imp_le_nat upt_add_eq_append le_add_diff_inverse zero_le)
  have "j * BPB < unat (sb_size ?sb)" if "j < ?q" for j using mult_le_mono1[of j ?q BPB] that q(1) n(1) by linarith
  then have a: "\<forall>j<?q. j * BPB < unat (sb_size ?sb)" by blast
  have b: "\<forall>j<unat (sb_size ?sb). j < ?q * BPB \<longrightarrow> bused ?sb (lblk s) j" using n(3) q(1) by auto
  obtain t where t: "kfor_ret (map (\<lambda>k. k * BPB) [0..<?q]) (balloc_block 1 ?sb) s = Ret None t" "searching H s t"
    using balloc_search[OF ok B r h a b] by blast
  have nh: "n \<notin> hblk H s" "BBLOCK n ?sb \<notin> hblk H s" using h n by (auto simp: held_ok_def)
  obtain u where u: "balloc_block 1 ?sb (?q * BPB) t = Ret (Some n) u" "txok H u" "lframe s u" "\<forall>j\<in>H. b_blockno (bufs u j) = b_blockno (bufs s j)"
    "lblk u = (lblk s)(BBLOCK n ?sb := mark_bit n (lblk s (BBLOCK n ?sb)), n := replicate BSIZE 0)" "lh u = absorb n (absorb (BBLOCK n ?sb) (lh s))"
    using balloc_block_hit[OF t(2) B r refl q n nh] by blast
  have "kfor_ret (map (\<lambda>k. k * BPB) [0..<?m]) (balloc_block 1 ?sb) s = Ret (Some n) u"
    unfolding sp map_append kfor_ret_append[OF t(1)] using u(1) by (simp add: kbind_apply)
  then have "balloc 1 s = Ret (of_nat n) u" by (simp add: balloc_def kbind_apply)
  then show ?thesis using u by blast
qed

lemma balloc_full:
  assumes "txok H s" "bitmap_ok (ksb s) (disksize s) (lblk s)" "txroom H 1 s" "held_ok (ksb s) H s" "\<forall>k<unat (sb_size (ksb s)). bused (ksb s) (lblk s) k"
  shows "balloc 1 s = Panic ''balloc: out of blocks''"
proof -
  let ?N = "unat (sb_size (ksb s))"
  have "\<forall>j<(?N + BPB - 1) div BPB. j * BPB < ?N" by (auto simp: Suc_le_eq[symmetric] less_eq_div_iff_mult_less_eq)
  then obtain t where "kfor_ret (map (\<lambda>k. k * BPB) [0..<(?N + BPB - 1) div BPB]) (balloc_block 1 (ksb s)) s = Ret None t"
    using balloc_search[OF assms(1-4)] assms(5) by blast
  then show ?thesis by (simp add: balloc_def kbind_apply)
qed

lemma readsb_block: "readsb dev s = kbind (read_block dev 1) (\<lambda>d. kret (sb_of d)) s"
  by (simp add: readsb_def read_block_def bdata_def kdefs split: outcome.split)

lemma bfree_net:
  assumes ok: "txok H s" and B: "bitmap_ok (ksb s) (disksize s) (lblk s)" and r: "txroom H 1 s"
    and sb: "sb_of (lblk s 1) = ksb s" "1 < disksize s" "1 \<notin> hblk H s"
    and b: "unat b < unat (sb_size (ksb s))" "BBLOCK (unat b) (ksb s) \<notin> hblk H s"
  shows "if bused (ksb s) (lblk s) (unat b)
    then \<exists>t. bfree 1 b s = Ret () t \<and> txok H t \<and> lframe s t \<and> (\<forall>j\<in>H. b_blockno (bufs t j) = b_blockno (bufs s j))
      \<and> lblk t = (lblk s)(BBLOCK (unat b) (ksb s) := clear_bit (unat b) (lblk s (BBLOCK (unat b) (ksb s))))
      \<and> lh t = absorb (BBLOCK (unat b) (ksb s)) (lh s)
    else bfree 1 b s = Panic ''freeing free block''"
proof -
  let ?n = "BBLOCK (unat b) (ksb s)"
  obtain u where u: "read_block 1 1 s = Ret (lblk s 1) u" "searching H s u"
    using searching_read[OF searching_refl[OF ok] sb(2,3) r] by blast
  note U = searchingD[OF u(2)]
  have e: "readsb 1 s = Ret (ksb s) u" "u\<lparr>ksb := ksb s\<rparr> = u"
    using u(1) sb(1) lframe_fs(2)[OF U(6)] by (simp_all add: readsb_block kbind_apply)
  have n: "?n < disksize u" "?n \<notin> hblk H u" "txroom H 1 u" "length (lblk s ?n) = BSIZE" using B b r U by (auto simp: bitmap_ok_def)
  obtain i t where t: "bread 1 ?n u = Ret i t" "b_data (bufs t i) = lblk s ?n" using bread_data[OF U(1) n(1-3)] U(2) by auto
  show ?thesis
  proof (cases "bused (ksb s) (lblk s) (unat b)")
    case True
    then have "bfree 1 b s = modify_block 1 ?n (clear_bit (unat b)) u"
      using e t by (simp add: bfree_def kdefs bdata_def Let_def modify_block_def clear_bit_def bused_def)
    moreover obtain v where "modify_block 1 ?n (clear_bit (unat b)) u = Ret () v" "txok H v"
      "lblk v = (lblk s)(?n := clear_bit (unat b) (lblk s ?n))" "lframe u v" "lh v = absorb ?n (lh u)" "\<forall>j\<in>H. b_blockno (bufs v j) = b_blockno (bufs u j)"
      using modify_block_net[OF U(1) n(1-3), of "clear_bit (unat b)"] n(4) U(2) by (auto simp: clear_bit_def)
    moreover have "lh u = lh s" using u(2) lh_upd(4) by (auto simp: searching_def)
    ultimately show ?thesis using True U(7) lframe_trans[OF U(6)] by auto
  next
    case False
    then show ?thesis using e t by (simp add: bfree_def kdefs bdata_def Let_def bused_def)
  qed
qed

text \<open>The bitmap after an allocation.\<close>

definition alloc_at :: "superblock \<Rightarrow> nat \<Rightarrow> (nat \<Rightarrow> byte list) \<Rightarrow> nat \<Rightarrow> byte list" where
  "alloc_at sb n c = c(BBLOCK n sb := mark_bit n (c (BBLOCK n sb)), n := replicate BSIZE 0)"

lemma bused_alloc:
  assumes "bitmap_ok sb ds c" "n < unat (sb_size sb)" "\<not> bused sb c n" "k < unat (sb_size sb)"
  shows "bused sb (alloc_at sb n c) k \<longleftrightarrow> bused sb c k \<or> k = n"
proof -
  have b: "n \<noteq> BBLOCK k (sb)" if "k < unat (sb_size sb)" for k using assms that by (auto simp: bitmap_ok_def)
  have "bused sb (alloc_at sb n c) k \<longleftrightarrow> bused sb (c(BBLOCK n sb := mark_bit n (c (BBLOCK n sb)))) k"
    unfolding alloc_at_def by (rule bused_other[where N = "unat (sb_size sb)"]) (use b assms(4) in auto)
  also have "\<dots> \<longleftrightarrow> bused sb c k \<or> k = n" by (rule bused_set) (use assms(1) in \<open>auto simp: bitmap_ok_def\<close>)
  finally show ?thesis .
qed

lemma bitmap_ok_alloc:
  assumes "bitmap_ok sb ds c" "n < unat (sb_size sb)" "\<not> bused sb c n"
  shows "bitmap_ok sb ds (alloc_at sb n c)"
  using bused_alloc[OF assms] assms(1) unfolding bitmap_ok_def by (simp add: alloc_at_def mark_bit_def)

lemma alloc_at_other: "m \<noteq> n \<Longrightarrow> m \<noteq> BBLOCK n sb \<Longrightarrow> alloc_at sb n c m = c m" "alloc_at sb n c n = replicate BSIZE 0"
  by (simp_all add: alloc_at_def)

lemma first_free:
  assumes "j < N" "\<not> bused sb c j"
  obtains n where "n < N" "n \<le> j" "\<not> bused sb c n" "\<forall>k<n. bused sb c k"
proof
  let ?n = "LEAST k. \<not> bused sb c k"
  show "\<not> bused sb c ?n" using LeastI[of "\<lambda>k. \<not> bused sb c k"] assms(2) .
  show "?n \<le> j" using Least_le[of "\<lambda>k. \<not> bused sb c k"] assms(2) .
  then show "?n < N" using assms(1) by simp
  show "\<forall>k<?n. bused sb c k" by (auto dest: not_less_Least)
qed

section \<open>Properties\<close>

text \<open>
  C16: \<^verbatim>\<open>balloc\<close> inside a transaction.  When some block is free it returns the first one: that block was free and
  is in use afterwards, no other block changes its state, its content is zero, and no block
  outside the bitmap other than it changes.  When every block is in use it panics.
\<close>

theorem balloc_first_free:
  assumes "txok H s" "bitmap_ok (ksb s) (disksize s) (lblk s)" "txroom H 2 s" "held_ok (ksb s) H s"
  shows "if \<forall>k<unat (sb_size (ksb s)). bused (ksb s) (lblk s) k then balloc 1 s = Panic ''balloc: out of blocks''
    else \<exists>n t. balloc 1 s = Ret (of_nat n) t \<and> n < unat (sb_size (ksb s)) \<and> \<not> bused (ksb s) (lblk s) n \<and> (\<forall>k<n. bused (ksb s) (lblk s) k)
      \<and> (\<forall>k<unat (sb_size (ksb s)). bused (ksb s) (lblk t) k \<longleftrightarrow> bused (ksb s) (lblk s) k \<or> k = n)
      \<and> lblk t n = replicate BSIZE 0
      \<and> (\<forall>m. m \<noteq> n \<longrightarrow> (\<forall>k<unat (sb_size (ksb s)). m \<noteq> BBLOCK k (ksb s)) \<longrightarrow> lblk t m = lblk s m)
      \<and> txok H t \<and> lframe s t"
proof (cases "\<forall>k<unat (sb_size (ksb s)). bused (ksb s) (lblk s) k")
  case True
  then show ?thesis using balloc_full[OF assms(1,2) txroom_mono[OF assms(3)] assms(4)] by simp
next
  case False
  let ?N = "unat (sb_size (ksb s))"
  obtain j where j: "j < ?N" "\<not> bused (ksb s) (lblk s) j" using False by blast
  then obtain n where n: "n < ?N" "\<not> bused (ksb s) (lblk s) n" "\<forall>k<n. bused (ksb s) (lblk s) k" using first_free by metis
  obtain u where u: "balloc 1 s = Ret (of_nat n) u" "txok H u" "lframe s u" "lblk u = alloc_at (ksb s) n (lblk s)"
    using balloc_net[OF assms n] unfolding alloc_at_def by blast
  have "bused (ksb s) (lblk u) k \<longleftrightarrow> bused (ksb s) (lblk s) k \<or> k = n" if "k < ?N" for k
    unfolding u(4) by (rule bused_alloc[OF assms(2) n(1,2) that])
  moreover have "lblk u n = replicate BSIZE 0" "\<forall>m. m \<noteq> n \<longrightarrow> (\<forall>k<?N. m \<noteq> BBLOCK k (ksb s)) \<longrightarrow> lblk u m = lblk s m"
    unfolding u(4) using alloc_at_other n(1) by auto
  ultimately show ?thesis using n u(1-3) by (subst if_not_P[OF False], intro exI[of _ n] exI[of _ u]) auto
qed

text \<open>A file system of a hundred blocks whose first sixty-four are in use, with one operation under way.\<close>

definition sb0 :: superblock where
  "sb0 = \<lparr>sb_size = 100, sb_nblocks = 41, sb_ninodes = 200, sb_nlog = 30, sb_logstart = 2, sb_inodestart = 32, sb_bmapstart = 58\<rparr>"

definition disk0 :: memory where
  "disk0 = put_bytes (\<lambda>a. if 58 * BSIZE \<le> a \<and> a < 58 * BSIZE + 8 then 255 else 0) (1 * BSIZE) (sb_bytes sb0 @ replicate 484 0)"

definition kfs0 :: "memory \<Rightarrow> kfs" where
  "kfs0 d = klog.extend (klog0 d)
     \<lparr>ksb = sb0,
      icache = \<lambda>_. \<lparr>i_dev = 0, i_inum = 0, i_ref = 0, i_valid = False, i_type = 0, i_major = 0, i_minor = 0, i_nlink = 0, i_size = 0,
        i_addrs = replicate 13 0, i_uid = 0, i_gid = 0, i_mode = 0\<rparr>\<rparr>"

lemma kfs0_simps [simp]:
  "kidle (kfs0 d)" "memdisk (kfs0 d) = d" "disksize (kfs0 d) = 1000" "cur (kfs0 d) = Some 0" "log_start (kfs0 d) = 2" "log_size (kfs0 d) = 30"
  "log_outstanding (kfs0 d) = 1" "log_dev (kfs0 d) = 1" "lh (kfs0 d) = []" "length (procs (kfs0 d)) = 1" "kdepth (kfs0 d) = 0"
  "slocks (kfs0 d) l = \<lparr>sl_locked = False, sl_pid = 0\<rparr>"
  "bufs (kfs0 d) i = \<lparr>b_valid = False, b_dirty = False, b_dev = 0, b_blockno = 0, b_refcnt = 0, b_prev = 0, b_next = 0, b_data = replicate 512 0\<rparr>"
  "ksb (kfs0 d) = sb0"
  "icache (kfs0 d) j = \<lparr>i_dev = 0, i_inum = 0, i_ref = 0, i_valid = False, i_type = 0, i_major = 0, i_minor = 0, i_nlink = 0, i_size = 0,
        i_addrs = replicate 13 0, i_uid = 0, i_gid = 0, i_mode = 0\<rparr>"
  using idle_cpu_simps[of "Some 0"]
  by (simp_all add: kfs0_def klog.defs klog0_def kbio.defs kbio0_def kslp0_def kpr0_def kslp.defs kpr.defs kdev.defs cur_def kdepth_def)

lemma kfs0_binit: "\<exists>s. binit (kfs0 d) = Ret () s \<and> txok {} s \<and> lframe (kfs0 d) s \<and> lh s = [] \<and> lblk s = blk d"
  using binit_txok[of "kfs0 d"] by simp

lemma blk_nth: "i < BSIZE \<Longrightarrow> blk d n ! i = d (n * BSIZE + i)"
  by (simp add: blk_def get_bytes_def)

lemma sb0_simps [simp]:
  "sb_size sb0 = 100" "sb_ninodes sb0 = 200" "sb_inodestart sb0 = 32" "sb_bmapstart sb0 = 58" "length (sb_bytes sb0) = 28"
  by (simp_all add: sb0_def sb_bytes_def)

lemma disk0_super: "sb_of (blk disk0 1) = sb0"
  unfolding disk0_def by (subst blk_put_bytes) (simp_all add: sb_of_bytes)

lemma disk0_bitmap: "blk disk0 58 ! i = (if i < 8 then 255 else 0)" if "i < BSIZE"
  unfolding disk0_def by (subst blk_put_bytes) (use that in \<open>simp_all add: blk_nth\<close>)

lemma disk0_used: "k < 100 \<Longrightarrow> bused sb0 (blk disk0) k \<longleftrightarrow> k < 64"
proof -
  assume k: "k < 100"
  have "bit (255 :: byte) (k mod 8)" using bit_mask_iff[of 8 "k mod 8", where 'a = byte] by (simp add: mask_eq_exp_minus_1 possible_bit_word)
  moreover have "k div 8 < 8 \<longleftrightarrow> k < 64" by auto
  ultimately show ?thesis using k by (simp add: bused_def bit_clear_iff BBLOCK_def disk0_bitmap)
qed

lemma kfs0_ready:
  obtains s where "binit (kfs0 disk0) = Ret () s" "txok {} s" "lframe (kfs0 disk0) s" "lblk s = blk disk0" "ksb s = sb0" "disksize s = 1000"
    "bitmap_ok (ksb s) (disksize s) (lblk s)" "txroom {} 8 s" "held_ok (ksb s) {} s"
proof -
  obtain s where s: "binit (kfs0 disk0) = Ret () s" "txok {} s" "lframe (kfs0 disk0) s" "lh s = []" "lblk s = blk disk0"
    using kfs0_binit by blast
  note f = lframeD[OF s(3)] lframe_fs[OF s(3)]
  have sb: "ksb s = sb0" "disksize s = 1000" using f by simp_all
  moreover have "bitmap_ok (ksb s) (disksize s) (lblk s)" "txroom {} 8 s" "held_ok (ksb s) {} s"
    using disk0_used[of 58] s(4,5) f by (simp_all add: bitmap_ok_def BBLOCK_def txroom_def held_ok_def hblk_def)
  ultimately show ?thesis using that s by blast
qed

theorem balloc_first_free_witness:
  "\<exists>s t. binit (kfs0 disk0) = Ret () s \<and> balloc 1 s = Ret 64 t \<and> lblk t 64 = replicate BSIZE 0 \<and> bused (ksb s) (lblk t) 64"
proof -
  obtain s where s: "binit (kfs0 disk0) = Ret () s" "txok {} s" "lblk s = blk disk0" "ksb s = sb0"
    and h0: "bitmap_ok (ksb s) (disksize s) (lblk s)" "txroom {} 8 s" "held_ok (ksb s) {} s"
    using kfs0_ready by blast
  note h = h0(1) txroom_mono[OF h0(2), of 2, simplified] h0(3)
  have u: "k < 100 \<Longrightarrow> bused (ksb s) (lblk s) k \<longleftrightarrow> k < 64" for k unfolding s(3,4) by (rule disk0_used)
  have N: "unat (sb_size (ksb s)) = 100" using s(4) by simp
  have nf: "\<not> (\<forall>k<100. bused (ksb s) (lblk s) k)" using u[of 64] by (auto intro!: exI[of _ 64])
  obtain n t where t: "balloc 1 s = Ret (of_nat n) t" "n < 100" "\<not> bused (ksb s) (lblk s) n" "\<forall>k<n. bused (ksb s) (lblk s) k"
    "\<forall>k<100. bused (ksb s) (lblk t) k \<longleftrightarrow> bused (ksb s) (lblk s) k \<or> k = n" "lblk t n = replicate BSIZE 0"
    using balloc_first_free[OF s(2) h] unfolding N by (auto simp only: if_not_P[OF nf])
  have "\<not> n < 64" using t(2,3) u[of n] by simp
  moreover have "\<not> 64 < n" using t(4)[rule_format, of 64] u[of 64] by auto
  ultimately have "n = 64" by simp
  then show ?thesis using s(1) t by auto
qed

text \<open>
  C37: \<^verbatim>\<open>bfree\<close> inside a transaction.  A block that is in use becomes free, no other block changes its state and nothing
  but its bitmap block changes.  Freeing a block that is free is caught: the call panics.
\<close>

theorem bfree_once:
  assumes "txok H s" "bitmap_ok (ksb s) (disksize s) (lblk s)" "txroom H 1 s" "sb_of (lblk s 1) = ksb s" "1 < disksize s" "1 \<notin> hblk H s"
    "unat b < unat (sb_size (ksb s))" "BBLOCK (unat b) (ksb s) \<notin> hblk H s"
  shows "if \<not> bused (ksb s) (lblk s) (unat b) then bfree 1 b s = Panic ''freeing free block''
    else \<exists>t. bfree 1 b s = Ret () t \<and> (\<forall>k. bused (ksb s) (lblk t) k \<longleftrightarrow> bused (ksb s) (lblk s) k \<and> k \<noteq> unat b)
      \<and> (\<forall>m. m \<noteq> BBLOCK (unat b) (ksb s) \<longrightarrow> lblk t m = lblk s m) \<and> txok H t \<and> lframe s t"
proof -
  have "length (lblk s (BBLOCK (unat b) (ksb s))) = BSIZE" using assms(2) by (simp add: bitmap_ok_def)
  then have "bused (ksb s) ((lblk s)(BBLOCK (unat b) (ksb s) := clear_bit (unat b) (lblk s (BBLOCK (unat b) (ksb s))))) k
      \<longleftrightarrow> bused (ksb s) (lblk s) k \<and> k \<noteq> unat b" for k by (rule bused_reset)
  then show ?thesis using bfree_net[OF assms] by (auto split: if_splits)
qed

theorem bfree_once_witness:
  "\<exists>s t. binit (kfs0 disk0) = Ret () s \<and> bfree 1 60 s = Ret () t \<and> \<not> bused (ksb s) (lblk t) 60 \<and> bfree 1 70 s = Panic ''freeing free block''"
proof -
  obtain s where s: "binit (kfs0 disk0) = Ret () s" "txok {} s" "lblk s = blk disk0" "ksb s = sb0" "disksize s = 1000"
    and h: "bitmap_ok (ksb s) (disksize s) (lblk s)" "txroom {} 8 s"
    using kfs0_ready by blast
  have r: "txroom {} 1 s" using txroom_mono[OF h(2)] by simp
  have "bused (ksb s) (lblk s) 60" "\<not> bused (ksb s) (lblk s) 70" using disk0_used[of 60] disk0_used[of 70] s by simp_all
  then show ?thesis
    using s bfree_once[OF s(2) h(1) r, of 60] bfree_once[OF s(2) h(1) r, of 70] disk0_super by (auto simp: hblk_def)
qed

end
