(* ===== verification/Inode.thy ===== *)
theory Inode
  imports Balloc
begin

text \<open>
  The inode layer of the file system (\<^verbatim>\<open>fs.c\<close> from \<^verbatim>\<open>iinit\<close> to \<^verbatim>\<open>itrunc\<close>): the inode table on disk, the cache
  of in-memory inodes with reference counts, inode locks, and the map from a file's blocks to disk blocks.
  An inode pointer is an index into \<^verbatim>\<open>icache.inode\<close>, with \<open>None\<close> for the null pointer where the code
  tests for it.
\<close>

section \<open>Inodes\<close>

definition iinit :: "u32 \<Rightarrow> ('z kfs_scheme, unit) K" where
  "iinit dev =
     kthen (onhw (initlock Licache)) (
     kthen (kfor [0..<NINODE] (\<lambda>i. initsleeplock (SLinode i))) (
     kbind (readsb dev) (\<lambda>sb.
     kthen (kmod (\<lambda>s. s\<lparr>ksb := sb\<rparr>))
       (print ''sb: size %d nblocks %d ninodes %d nlog %d logstart %d inodestart %d bmap start %d^n''
          [ANum (sb_size sb), ANum (sb_nblocks sb), ANum (sb_ninodes sb), ANum (sb_nlog sb), ANum (sb_logstart sb),
           ANum (sb_inodestart sb), ANum (sb_bmapstart sb)]))))"

definition iget :: "u32 \<Rightarrow> u32 \<Rightarrow> ('z kfs_scheme, nat) K" where
  "iget dev inum =
     kthen (kacquire Licache) (
     kbind (kget (\<lambda>s. map (icache s) [0..<NINODE])) (\<lambda>tab.
     case find_idx (\<lambda>ip. i_ref ip > 0 \<and> i_dev ip = dev \<and> i_inum ip = inum) tab of
       Some i \<Rightarrow>
         kthen (kmod (upd_inode i (\<lambda>ip. ip\<lparr>i_ref := i_ref ip + 1\<rparr>))) (
         kthen (krelease Licache) (kret i))
     | None \<Rightarrow>
         (case find_idx (\<lambda>ip. i_ref ip = 0) tab of
            None \<Rightarrow> kpanic ''iget: no inodes''
          | Some i \<Rightarrow>
              kthen (kmod (upd_inode i (\<lambda>ip. ip\<lparr>i_dev := dev, i_inum := inum, i_ref := 1, i_valid := False\<rparr>))) (
              kthen (krelease Licache) (kret i)))))"

definition zero_dinode :: dinode where
  "zero_dinode = \<lparr>di_type = 0, di_major = 0, di_minor = 0, di_nlink = 0, di_size = 0, di_addrs = replicate 13 0\<rparr>"

definition ialloc_at :: "u32 \<Rightarrow> u16 \<Rightarrow> superblock \<Rightarrow> nat \<Rightarrow> ('z kfs_scheme, nat option) K" where
  "ialloc_at dev typ sb inum =
     kbind (bread dev (IBLOCK inum sb)) (\<lambda>bp.
     kbind (bdata bp) (\<lambda>d.
     if di_type (get_dinode d (inum mod IPB)) = 0 then
       kthen (set_bdata bp (put_dinode d (inum mod IPB) (zero_dinode\<lparr>di_type := typ\<rparr>))) (
       kthen (log_write bp) (
       kthen (brelse bp) (
       kbind (iget dev (of_nat inum)) (\<lambda>ip. kret (Some ip)))))
     else kthen (brelse bp) (kret None)))"

definition ialloc :: "u32 \<Rightarrow> u16 \<Rightarrow> ('z kfs_scheme, nat) K" where
  "ialloc dev typ =
     kbind (kget ksb) (\<lambda>sb.
     kbind (kfor_ret [1..<unat (sb_ninodes sb)] (ialloc_at dev typ sb)) (\<lambda>r.
     case r of
       Some ip \<Rightarrow> kret ip
     | None \<Rightarrow> kpanic ''ialloc: no inodes''))"

definition dinode_of_inode :: "inode \<Rightarrow> dinode" where
  "dinode_of_inode ip =
     \<lparr>di_type = i_type ip, di_major = i_major ip, di_minor = i_minor ip, di_nlink = i_nlink ip, di_size = i_size ip,
      di_addrs = i_addrs ip\<rparr>"

definition iupdate :: "nat \<Rightarrow> ('z kfs_scheme, unit) K" where
  "iupdate i =
     kbind (the_inode i) (\<lambda>ip.
     kbind (kget ksb) (\<lambda>sb.
     kbind (bread (i_dev ip) (IBLOCK (unat (i_inum ip)) sb)) (\<lambda>bp.
     kbind (bdata bp) (\<lambda>d.
     kthen (set_bdata bp (put_dinode d (unat (i_inum ip) mod IPB) (dinode_of_inode ip))) (
     kthen (log_write bp)
       (brelse bp))))))"

definition idup :: "nat \<Rightarrow> ('z kfs_scheme, nat) K" where
  "idup i =
     kthen (kacquire Licache) (
     kthen (kmod (upd_inode i (\<lambda>ip. ip\<lparr>i_ref := i_ref ip + 1\<rparr>))) (
     kthen (krelease Licache)
       (kret i)))"

definition ilock_locked :: "nat \<Rightarrow> ('z kfs_scheme, unit) K" where
  "ilock_locked i =
     kbind (the_inode i) (\<lambda>ip.
     kwhen (\<not> i_valid ip) (
       kbind (kget ksb) (\<lambda>sb.
       kbind (bread (i_dev ip) (IBLOCK (unat (i_inum ip)) sb)) (\<lambda>bp.
       kbind (bdata bp) (\<lambda>d.
       let dip = get_dinode d (unat (i_inum ip) mod IPB) in
       kthen (kmod (upd_inode i (\<lambda>ip. ip\<lparr>i_type := di_type dip, i_major := di_major dip, i_minor := di_minor dip,
                i_nlink := di_nlink dip, i_size := di_size dip, i_addrs := di_addrs dip\<rparr>))) (
       kthen (brelse bp) (
       kthen (kmod (upd_inode i (\<lambda>ip. ip\<lparr>i_valid := True\<rparr>)))
         (if di_type dip = 0 then kpanic ''ilock: no type'' else kret ()))))))))"

definition ilock :: "nat option \<Rightarrow> ('z kfs_scheme, unit) K" where
  "ilock p =
     (case p of
        None \<Rightarrow> kpanic ''ilock''
      | Some i \<Rightarrow>
          kbind (the_inode i) (\<lambda>ip.
          if i_ref ip < 1 then kpanic ''ilock''
          else kthen (acquiresleep (SLinode i)) (ilock_locked i)))"

definition ilock_resume :: "bool \<Rightarrow> nat \<Rightarrow> nat \<Rightarrow> ('z kfs_scheme, unit) K" where
  "ilock_resume ie p i = kthen (acquiresleep_resume ie p (SLinode i)) (ilock_locked i)"

definition iunlock :: "nat option \<Rightarrow> ('z kfs_scheme, unit) K" where
  "iunlock p =
     (case p of
        None \<Rightarrow> kpanic ''iunlock''
      | Some i \<Rightarrow>
          kbind (holdingsleep (SLinode i)) (\<lambda>h.
          if \<not> h then kpanic ''iunlock''
          else
            kbind (the_inode i) (\<lambda>ip.
            if i_ref ip < 1 then kpanic ''iunlock''
            else releasesleep (SLinode i))))"

section \<open>Inode content\<close>

definition bmap_ind :: "u32 \<Rightarrow> u32 \<Rightarrow> nat \<Rightarrow> ('z kfs_scheme, u32) K" where
  "bmap_ind dev ind k =
     kbind (bread dev (unat ind)) (\<lambda>bp.
     kbind (bdata bp) (\<lambda>a.
     if ld4 a (4 * k) = 0 then
       kbind (balloc dev) (\<lambda>addr.
       kthen (kthen (set_bdata bp (st4 a (4 * k) addr)) (kthen (log_write bp) (brelse bp)))
         (kret addr))
     else kthen (brelse bp) (kret (ld4 a (4 * k)))))"

definition bmap :: "nat \<Rightarrow> nat \<Rightarrow> ('z kfs_scheme, u32) K" where
  "bmap i bn =
     kbind (the_inode i) (\<lambda>ip.
     if bn < NDIRECT then
       (if i_addrs ip ! bn = 0 then
          kbind (balloc (i_dev ip)) (\<lambda>addr.
          kthen (kmod (upd_inode i (\<lambda>ip. ip\<lparr>i_addrs := (i_addrs ip)[bn := addr]\<rparr>)))
            (kret addr))
        else kret (i_addrs ip ! bn))
     else if bn - NDIRECT < NINDIRECT then
       (if i_addrs ip ! NDIRECT = 0 then
          kbind (balloc (i_dev ip)) (\<lambda>ind.
          kthen (kmod (upd_inode i (\<lambda>ip. ip\<lparr>i_addrs := (i_addrs ip)[NDIRECT := ind]\<rparr>)))
            (bmap_ind (i_dev ip) ind (bn - NDIRECT)))
        else bmap_ind (i_dev ip) (i_addrs ip ! NDIRECT) (bn - NDIRECT))
     else kpanic ''bmap: out of range'')"

definition itrunc :: "nat \<Rightarrow> ('z kfs_scheme, unit) K" where
  "itrunc i =
     kthen (kfor [0..<NDIRECT] (\<lambda>k.
       kbind (the_inode i) (\<lambda>ip.
       kwhen (i_addrs ip ! k \<noteq> 0) (
         kthen (bfree (i_dev ip) (i_addrs ip ! k))
           (kmod (upd_inode i (\<lambda>ip. ip\<lparr>i_addrs := (i_addrs ip)[k := 0]\<rparr>))))))) (
     kbind (the_inode i) (\<lambda>ip.
     kthen (kwhen (i_addrs ip ! NDIRECT \<noteq> 0) (
       kbind (bread (i_dev ip) (unat (i_addrs ip ! NDIRECT))) (\<lambda>bp.
       kthen (kfor [0..<NINDIRECT] (\<lambda>j.
         kbind (bdata bp) (\<lambda>a.
         kwhen (ld4 a (4 * j) \<noteq> 0) (bfree (i_dev ip) (ld4 a (4 * j)))))) (
       kthen (brelse bp) (
       kthen (bfree (i_dev ip) (i_addrs ip ! NDIRECT))
         (kmod (upd_inode i (\<lambda>ip. ip\<lparr>i_addrs := (i_addrs ip)[NDIRECT := 0]\<rparr>)))))))) (
     kthen (kmod (upd_inode i (\<lambda>ip. ip\<lparr>i_size := 0\<rparr>)))
       (iupdate i))))"

definition iput_locked :: "nat \<Rightarrow> ('z kfs_scheme, unit) K" where
  "iput_locked i =
     kbind (the_inode i) (\<lambda>ip.
     kthen (kwhen (i_valid ip \<and> i_nlink ip = 0) (
       kthen (kacquire Licache) (
       kbind (kget (\<lambda>s. i_ref (icache s i))) (\<lambda>r.
       kthen (krelease Licache)
         (kwhen (r = 1) (
            kthen (itrunc i) (
            kthen (kmod (upd_inode i (\<lambda>ip. ip\<lparr>i_type := 0\<rparr>))) (
            kthen (iupdate i)
              (kmod (upd_inode i (\<lambda>ip. ip\<lparr>i_valid := False\<rparr>))))))))))) (
     kthen (releasesleep (SLinode i)) (
     kthen (kacquire Licache) (
     kthen (kmod (upd_inode i (\<lambda>ip. ip\<lparr>i_ref := i_ref ip - 1\<rparr>)))
       (krelease Licache)))))"

definition iput :: "nat \<Rightarrow> ('z kfs_scheme, unit) K" where
  "iput i = kthen (acquiresleep (SLinode i)) (iput_locked i)"

definition iput_resume :: "bool \<Rightarrow> nat \<Rightarrow> nat \<Rightarrow> ('z kfs_scheme, unit) K" where
  "iput_resume ie p i = kthen (acquiresleep_resume ie p (SLinode i)) (iput_locked i)"

definition iunlockput :: "nat \<Rightarrow> ('z kfs_scheme, unit) K" where
  "iunlockput i = kthen (iunlock (Some i)) (iput i)"

section \<open>The reference counts\<close>

text \<open>
  The inode cache as a function from (device, number) to the number of references held.  The invariant:
  counts are not negative and a referenced inode has one entry.
\<close>

definition ic_inv :: "'z kfs_scheme \<Rightarrow> bool" where
  "ic_inv s \<longleftrightarrow> (\<forall>i<NINODE. 0 \<le> i_ref (icache s i))
     \<and> (\<forall>i<NINODE. \<forall>j<NINODE. i_ref (icache s i) > 0 \<longrightarrow> i_ref (icache s j) > 0 \<longrightarrow> i_dev (icache s i) = i_dev (icache s j) \<longrightarrow>
          i_inum (icache s i) = i_inum (icache s j) \<longrightarrow> i = j)"

definition irefs :: "'z kfs_scheme \<Rightarrow> u32 \<times> u32 \<Rightarrow> int" where
  "irefs s k = (\<Sum>i<NINODE. if i_ref (icache s i) > 0 \<and> (i_dev (icache s i), i_inum (icache s i)) = k then i_ref (icache s i) else 0)"

definition ikey :: "'z kfs_scheme \<Rightarrow> nat \<Rightarrow> u32 \<times> u32" where
  "ikey s i = (i_dev (icache s i), i_inum (icache s i))"

lemma ic_cong:
  assumes e: "icache s = icache t"
  shows "ic_inv s = ic_inv t" "irefs s = irefs t" "ikey s = ikey t"
  unfolding fun_eq_iff ic_inv_def irefs_def ikey_def e by simp_all

lemma irefs_upd:
  assumes "i < NINODE" "i_ref (icache s i) > 0 \<longrightarrow> i_dev (f (icache s i)) = i_dev (icache s i) \<and> i_inum (f (icache s i)) = i_inum (icache s i)"
    "0 \<le> i_ref (icache s i)" "0 \<le> i_ref (f (icache s i))"
  shows "irefs (upd_inode i f s) = (irefs s)(ikey (upd_inode i f s) i := irefs s (ikey (upd_inode i f s) i) + i_ref (f (icache s i)) - i_ref (icache s i))"
proof
  fix k
  let ?g = "\<lambda>s j. if i_ref (icache s j) > 0 \<and> (i_dev (icache s j), i_inum (icache s j)) = k then i_ref (icache s j) else 0"
  have sp: "(\<Sum>j<NINODE. ?g s' j) = ?g s' i + (\<Sum>j\<in>{..<NINODE} - {i}. ?g s' j)" for s' :: "'a kfs_scheme"
    using assms(1) by (intro sum.remove) auto
  have e: "(\<Sum>j\<in>{..<NINODE} - {i}. ?g (upd_inode i f s) j) = (\<Sum>j\<in>{..<NINODE} - {i}. ?g s j)"
    by (rule sum.cong) auto
  have r: "irefs s k = ?g s i + (\<Sum>j\<in>{..<NINODE} - {i}. ?g s j)" unfolding irefs_def by (rule sp)
  have u: "irefs (upd_inode i f s) k = ?g (upd_inode i f s) i + (\<Sum>j\<in>{..<NINODE} - {i}. ?g s j)"
    unfolding irefs_def e[symmetric] by (rule sp)
  show "irefs (upd_inode i f s) k = ((irefs s)(ikey (upd_inode i f s) i := irefs s (ikey (upd_inode i f s) i) + i_ref (f (icache s i)) - i_ref (icache s i))) k"
  proof (cases "k = ikey (upd_inode i f s) i")
    case True
    then have "?g (upd_inode i f s) i = i_ref (f (icache s i))" "?g s i = i_ref (icache s i)"
      using assms(2-4) by (auto simp: ikey_def)
    with True r u show ?thesis by simp
  next
    case False
    then have "?g (upd_inode i f s) i = 0" "?g s i = 0" using assms(2-4) by (auto simp: ikey_def)
    with False r u show ?thesis by simp
  qed
qed

lemma ic_inv_upd:
  assumes I: "ic_inv s" and i: "i < NINODE" and r: "0 \<le> i_ref (f (icache s i))"
    and d: "\<And>j. i_ref (f (icache s i)) > 0 \<Longrightarrow> j < NINODE \<Longrightarrow> j \<noteq> i \<Longrightarrow> i_ref (icache s j) > 0 \<Longrightarrow> ikey s j \<noteq> ikey (upd_inode i f s) i"
  shows "ic_inv (upd_inode i f s)"
  using I r d unfolding ic_inv_def ikey_def by (force split: if_splits)

text \<open>\<^verbatim>\<open>iget\<close> on every branch.\<close>

lemma iget_net:
  assumes "kidle s" "ic_inv s"
  shows "(\<exists>i<NINODE. i_ref (icache s i) > 0 \<and> ikey s i = (dev, inum) \<and> iget dev inum s = Ret i (upd_inode i (\<lambda>ip. ip\<lparr>i_ref := i_ref ip + 1\<rparr>) s))
    \<or> (\<forall>j<NINODE. i_ref (icache s j) > 0 \<longrightarrow> ikey s j \<noteq> (dev, inum)) \<and>
      ((\<exists>i<NINODE. i_ref (icache s i) = 0 \<and>
          iget dev inum s = Ret i (upd_inode i (\<lambda>ip. ip\<lparr>i_dev := dev, i_inum := inum, i_ref := 1, i_valid := False\<rparr>) s))
       \<or> (\<forall>j<NINODE. i_ref (icache s j) > 0) \<and> iget dev inum s = Panic ''iget: no inodes'')"
proof -
  let ?tab = "map (icache s) [0..<NINODE]" and ?P = "\<lambda>ip. i_ref ip > 0 \<and> i_dev ip = dev \<and> i_inum ip = inum"
  let ?Q = "\<lambda>ip :: inode. i_ref ip = 0"
  show ?thesis
  proof (cases "find_idx ?P ?tab")
    case (Some i)
    then have "i < NINODE" "?P (icache s i)" using find_idx_less[OF Some] find_idx_sat[OF Some] by simp_all
    moreover have "iget dev inum s = Ret i (upd_inode i (\<lambda>ip. ip\<lparr>i_ref := i_ref ip + 1\<rparr>) s)"
      using Some assms(1) by (simp add: iget_def kdefs del: find_idx_None_iff upt_rec_numeral)
    ultimately show ?thesis by (auto simp: ikey_def)
  next
    case n: None
    then have a: "\<forall>j<NINODE. i_ref (icache s j) > 0 \<longrightarrow> ikey s j \<noteq> (dev, inum)" by (simp add: ikey_def del: upt_rec_numeral)
    show ?thesis
    proof (cases "find_idx ?Q ?tab")
      case (Some i)
      then have "i < NINODE" "?Q (icache s i)" using find_idx_less[OF Some] find_idx_sat[OF Some] by simp_all
      moreover have "iget dev inum s = Ret i (upd_inode i (\<lambda>ip. ip\<lparr>i_dev := dev, i_inum := inum, i_ref := 1, i_valid := False\<rparr>) s)"
        using Some n assms(1) by (simp add: iget_def kdefs del: find_idx_None_iff upt_rec_numeral)
      ultimately show ?thesis using a by blast
    next
      case None
      then have "\<forall>j<NINODE. i_ref (icache s j) \<noteq> 0" by (simp del: upt_rec_numeral)
      then have "\<forall>j<NINODE. i_ref (icache s j) > 0" using assms(2) by (auto simp: ic_inv_def order_less_le)
      moreover have "iget dev inum s = Panic ''iget: no inodes''"
        using None n assms(1) by (simp add: iget_def kdefs del: find_idx_None_iff upt_rec_numeral)
      ultimately show ?thesis using a by blast
    qed
  qed
qed

lemma iget_ref:
  assumes "kidle s" "ic_inv s" "iget dev inum s = Ret i t"
  shows "i < NINODE" "ikey t i = (dev, inum)" "i_ref (icache t i) > 0" "ic_inv t" "irefs t = (irefs s)((dev, inum) := irefs s (dev, inum) + 1)"
    "kidle t" "t = s\<lparr>icache := icache t\<rparr>" "\<forall>j<NINODE. i_ref (icache s j) > 0 \<longrightarrow> ikey t j = ikey s j"
proof -
  have p: "\<forall>j<NINODE. 0 \<le> i_ref (icache s j)" using assms(2) by (simp add: ic_inv_def)
  have "i < NINODE \<and> ikey t i = (dev, inum) \<and> i_ref (icache t i) > 0 \<and> ic_inv t \<and> irefs t = (irefs s)((dev, inum) := irefs s (dev, inum) + 1)
    \<and> kidle t \<and> t = s\<lparr>icache := icache t\<rparr> \<and> (\<forall>j<NINODE. i_ref (icache s j) > 0 \<longrightarrow> ikey t j = ikey s j)"
    using iget_net[OF assms(1,2), of dev inum]
  proof (elim disjE conjE exE)
    fix j assume j: "j < NINODE" "i_ref (icache s j) > 0" "ikey s j = (dev, inum)" "iget dev inum s = Ret j (upd_inode j (\<lambda>ip. ip\<lparr>i_ref := i_ref ip + 1\<rparr>) s)"
    let ?f = "\<lambda>ip :: inode. ip\<lparr>i_ref := i_ref ip + 1\<rparr>"
    have k: "ikey (upd_inode j ?f s) j = (dev, inum)" using j(3) by (simp add: ikey_def)
    have u: "\<forall>j'<NINODE. j' \<noteq> j \<longrightarrow> i_ref (icache s j') > 0 \<longrightarrow> ikey s j' \<noteq> (dev, inum)" using assms(2) j unfolding ic_inv_def ikey_def by auto
    have "ic_inv (upd_inode j ?f s)" using u j k p by (intro ic_inv_upd assms(2)) auto
    moreover have "irefs (upd_inode j ?f s) = (irefs s)((dev, inum) := irefs s (dev, inum) + 1)"
      using irefs_upd[of j s ?f] j p k by simp
    ultimately show ?thesis using assms(1,3) j k by (auto simp: upd_inode_def ikey_def)
  next
    fix j assume j: "j < NINODE" "i_ref (icache s j) = 0" "\<forall>j<NINODE. i_ref (icache s j) > 0 \<longrightarrow> ikey s j \<noteq> (dev, inum)"
      "iget dev inum s = Ret j (upd_inode j (\<lambda>ip. ip\<lparr>i_dev := dev, i_inum := inum, i_ref := 1, i_valid := False\<rparr>) s)"
    let ?f = "\<lambda>ip :: inode. ip\<lparr>i_dev := dev, i_inum := inum, i_ref := 1, i_valid := False\<rparr>"
    have k: "ikey (upd_inode j ?f s) j = (dev, inum)" by (simp add: ikey_def)
    have "ic_inv (upd_inode j ?f s)" using j k p by (intro ic_inv_upd assms(2)) auto
    moreover have "irefs (upd_inode j ?f s) = (irefs s)((dev, inum) := irefs s (dev, inum) + 1)"
      using irefs_upd[of j s ?f] j p k by simp
    ultimately show ?thesis using assms(1,3) j k by (auto simp: upd_inode_def ikey_def)
  qed (use assms(3) in auto)
  then show "i < NINODE" "ikey t i = (dev, inum)" "i_ref (icache t i) > 0" "ic_inv t" "irefs t = (irefs s)((dev, inum) := irefs s (dev, inum) + 1)"
    "kidle t" "t = s\<lparr>icache := icache t\<rparr>" "\<forall>j<NINODE. i_ref (icache s j) > 0 \<longrightarrow> ikey t j = ikey s j" by blast+
qed

section \<open>Locking inodes\<close>

lemma slock_inode_view [simp]:
  "lblk (upd_slock (SLinode i) f s) = lblk s" "dirties (upd_slock (SLinode i) f s) = dirties s" "bok H (upd_slock (SLinode i) f s) = bok H s"
  "txok H (upd_slock (SLinode i) f s) = txok H s" "txroom H k (upd_slock (SLinode i) f s) = txroom H k s" "hblk H (upd_slock (SLinode i) f s) = hblk H s"
  "lblk (awaken ch s) = lblk s" "dirties (awaken ch s) = dirties s" "bok H (awaken ch s) = bok H s" "hblk H (awaken ch s) = hblk H s"
  "txok H (awaken ch s) = txok H s" "txroom H k (awaken ch s) = txroom H k s"
proof -
  let ?a = "upd_slock (SLinode i) f s" and ?b = "awaken ch s"
  have "nxt ?a = nxt s" "prv ?a = prv s" "nxt ?b = nxt s" "prv ?b = prv s"
    by (simp_all add: nxt_def prv_def fun_eq_iff upd_slock_def awaken_def)
  then show b: "bok H ?a = bok H s" "bok H ?b = bok H s"
    by (simp_all add: bok_def bc_inv_def bslot_def buniq_def cur_def Let_def upd_slock_def awaken_def)
  show "lblk ?a = lblk s" "lblk ?b = lblk s" by (simp_all add: lblk_def fun_eq_iff upd_slock_def awaken_def cong: option.case_cong)
  show d: "dirties ?a = dirties s" "dirties ?b = dirties s" by (simp_all add: dirties_def upd_slock_def awaken_def)
  show "hblk H ?a = hblk H s" "hblk H ?b = hblk H s" by (simp_all add: hblk_def upd_slock_def awaken_def)
  show "txok H ?a = txok H s" "txok H ?b = txok H s" using b d by (simp_all add: txok_def) (simp_all add: upd_slock_def awaken_def)
  show "txroom H k ?a = txroom H k s" "txroom H k ?b = txroom H k s" by (simp_all add: txroom_def upd_slock_def awaken_def)
qed

lemma slock_inode_fields [simp]:
  "icache (upd_slock l f s) = icache s" "ksb (upd_slock l f s) = ksb s" "disksize (upd_slock l f s) = disksize s" "lh (upd_slock l f s) = lh s"
  "icache (awaken ch s) = icache s" "ksb (awaken ch s) = ksb s" "disksize (awaken ch s) = disksize s" "lh (awaken ch s) = lh s"
  by (simp_all add: upd_slock_def awaken_def)

text \<open>The inode table on disk, as the cache shows it.\<close>

definition disk_inode :: "'z kfs_scheme \<Rightarrow> nat \<Rightarrow> dinode" where
  "disk_inode s n = get_dinode (lblk s (IBLOCK n (ksb s))) (n mod IPB)"

definition taken :: "nat \<Rightarrow> 'z kfs_scheme \<Rightarrow> 'z kfs_scheme" where
  "taken i s = upd_slock (SLinode i) (\<lambda>x. x\<lparr>sl_locked := True, sl_pid := p_pid (procs s ! the (cur s))\<rparr>) s"

lemma taken_simps [simp]:
  "icache (taken i s) = icache s" "ksb (taken i s) = ksb s" "lblk (taken i s) = lblk s" "txok H (taken i s) = txok H s" "bok H (taken i s) = bok H s"
  "dirties (taken i s) = dirties s" "hblk H (taken i s) = hblk H s" "disksize (taken i s) = disksize s" "khw (taken i s) = khw s"
  "txroom H k (taken i s) = txroom H k s" "sl_locked (slocks (taken i s) (SLinode i))" "spare H (taken i s) = spare H s" "cur (taken i s) = cur s"
  by (simp_all add: taken_def spare_def)

lemma taken_bio [simp]: "bufs (taken i s) = bufs s" "memdisk (taken i s) = memdisk s"
  by (simp_all add: taken_def upd_slock_def)

lemma bframe_icache: "bframe s t \<Longrightarrow> bframe (s\<lparr>icache := x\<rparr>) (t\<lparr>icache := x\<rparr>)"
proof -
  assume f: "bframe s t"
  then have "t = s\<lparr>procs := procs t, slocks := slocks t, bufs := bufs t\<rparr>" by (simp add: bframe_def)
  then have "t\<lparr>icache := x\<rparr> = (s\<lparr>procs := procs t, slocks := slocks t, bufs := bufs t\<rparr>)\<lparr>icache := x\<rparr>" by metis
  then have "t\<lparr>icache := x\<rparr> = s\<lparr>icache := x\<rparr>\<lparr>procs := procs (t\<lparr>icache := x\<rparr>), slocks := slocks (t\<lparr>icache := x\<rparr>), bufs := bufs (t\<lparr>icache := x\<rparr>)\<rparr>" by simp
  then show ?thesis using f unfolding bframe_def by simp
qed

lemma acquiresleep_taken: "bok H s \<Longrightarrow> \<not> sl_locked (slocks s (SLinode i)) \<Longrightarrow> acquiresleep (SLinode i) s = Ret () (taken i s)"
  by (auto simp: bok_def acquiresleep_net taken_def)

lemma ilock_valid:
  "bok H s \<Longrightarrow> \<not> sl_locked (slocks s (SLinode i)) \<Longrightarrow> 1 \<le> i_ref (icache s i) \<Longrightarrow> i_valid (icache s i) \<Longrightarrow> ilock (Some i) s = Ret () (taken i s)"
  by (simp add: ilock_def ilock_locked_def the_inode_def kdefs acquiresleep_taken)

definition load_inode :: "dinode \<Rightarrow> inode \<Rightarrow> inode" where
  "load_inode d ip = ip\<lparr>i_type := di_type d, i_major := di_major d, i_minor := di_minor d, i_nlink := di_nlink d, i_size := di_size d,
     i_addrs := di_addrs d, i_valid := True\<rparr>"

lemma ilock_load:
  assumes ok: "bok H s" "spare H s" and u: "\<not> sl_locked (slocks s (SLinode i))" and ip: "1 \<le> i_ref (icache s i)" "\<not> i_valid (icache s i)" "i_dev (icache s i) = 1"
    and n: "IBLOCK (unat (i_inum (icache s i))) (ksb s) < disksize s" "IBLOCK (unat (i_inum (icache s i))) (ksb s) \<notin> hblk H s"
    and d: "d = disk_inode s (unat (i_inum (icache s i)))"
  shows "if di_type d = 0 then ilock (Some i) s = Panic ''ilock: no type''
    else \<exists>t. ilock (Some i) s = Ret () (upd_inode i (load_inode d) t) \<and> bok H t \<and> lblk t = lblk s \<and> bframe (taken i s) t \<and> dirties t = dirties s
      \<and> (\<forall>j\<in>H. b_blockno (bufs t j) = b_blockno (bufs s j))"
proof -
  let ?n = "IBLOCK (unat (i_inum (icache s i))) (ksb s)" and ?f = "\<lambda>ip. ip\<lparr>i_type := di_type d, i_major := di_major d, i_minor := di_minor d,
                i_nlink := di_nlink d, i_size := di_size d, i_addrs := di_addrs d\<rparr>"
  have ok': "bok H (taken i s)" "spare H (taken i s)" using ok by simp_all
  obtain b t where t: "bread 1 ?n (taken i s) = Ret b t" "b \<notin> H" "bok (insert b H) t" "bframe (taken i s) t" "b_blockno (bufs t b) = ?n"
    "b_data (bufs t b) = lblk s ?n" "lblk t = lblk s" "dirties t = dirties s" "\<forall>j\<in>H. b_blockno (bufs t j) = b_blockno (bufs s j)"
    "?n \<notin> dirties s \<longrightarrow> lblk s ?n = blk (memdisk (taken i s)) ?n"
    using bread_view[OF ok'(1) _ _ ok'(2), of ?n] n by auto
  let ?t = "upd_inode i ?f t"
  have h: "bok (insert b H) ?t" "b \<in> insert b H" "b_blockno (bufs ?t b) = ?n" "?n \<in> dirties ?t \<or> lblk ?t ?n = blk (memdisk ?t) ?n"
    using t bframeD(2)[OF t(4)] by (auto simp: upd_inode_def)
  obtain u where u': "brelse b ?t = Ret () u" "bok (insert b H - {b}) u" "bframe ?t u" "lblk u = lblk ?t" "dirties u = dirties ?t"
    "\<forall>j. b_blockno (bufs u j) = b_blockno (bufs ?t j)"
    using brelse_view[OF h] by blast
  let ?v = "u\<lparr>icache := icache s\<rparr>"
  have it: "icache t = icache s" "ksb t = ksb s" using lframe_fs(1,2)[OF bframe_lframe[OF t(4)]] by simp_all
  have iu: "icache u = icache ?t" using lframe_fs(1)[OF bframe_lframe[OF u'(3)]] .
  have "bframe (?t\<lparr>icache := icache s\<rparr>) ?v" by (rule bframe_icache[OF u'(3)])
  moreover have "?t\<lparr>icache := icache s\<rparr> = t" using it by (simp add: upd_inode_def)
  ultimately have F: "bframe (taken i s) ?v" using bframe_trans[OF t(4)] by simp
  have e: "upd_inode i (\<lambda>ip. ip\<lparr>i_valid := True\<rparr>) u = upd_inode i (load_inode d) ?v"
    using it iu by (simp add: upd_inode_def load_inode_def)
  have dt: "disk_inode s (unat (i_inum (icache s i))) = d" using d by simp
  have H: "insert b H - {b} = H" using t(2) by simp
  have r: "ilock (Some i) s = (if di_type d = 0 then Panic ''ilock: no type'' else Ret () (upd_inode i (load_inode d) ?v))"
    using ip u acquiresleep_taken[OF ok(1) u] t(1,6) u'(1) it e d
    by (simp add: ilock_def ilock_locked_def the_inode_def kdefs bdata_def Let_def disk_inode_def)
  then show ?thesis using u' t F H by (auto intro!: exI[of _ ?v])
qed

definition freed :: "nat \<Rightarrow> 'z kfs_scheme \<Rightarrow> 'z kfs_scheme" where
  "freed i s = awaken (Some (ChanSleep (SLinode i))) (upd_slock (SLinode i) (\<lambda>x. x\<lparr>sl_locked := False, sl_pid := 0\<rparr>) s)"

lemma freed_simps [simp]:
  "icache (freed i s) = icache s" "ksb (freed i s) = ksb s" "lblk (freed i s) = lblk s" "txok H (freed i s) = txok H s" "bok H (freed i s) = bok H s"
  "dirties (freed i s) = dirties s" "hblk H (freed i s) = hblk H s" "disksize (freed i s) = disksize s" "khw (freed i s) = khw s"
  "txroom H k (freed i s) = txroom H k s" "\<not> sl_locked (slocks (freed i s) (SLinode i))" "spare H (freed i s) = spare H s" "cur (freed i s) = cur s"
  by (simp_all add: freed_def spare_def)

lemma iunlock_net:
  "bok H s \<Longrightarrow> sl_locked (slocks s (SLinode i)) \<Longrightarrow> 1 \<le> i_ref (icache s i) \<Longrightarrow> iunlock (Some i) s = Ret () (freed i s)"
  by (simp add: iunlock_def kdefs holdingsleep_net releasesleep_net bok_def the_inode_def freed_def)

lemma idup_net: "kidle s \<Longrightarrow> idup i s = Ret i (upd_inode i (\<lambda>ip. ip\<lparr>i_ref := i_ref ip + 1\<rparr>) s)"
  by (simp add: idup_def kdefs)

lemma iput_keep:
  assumes "bok H s" "\<not> sl_locked (slocks s (SLinode i))" "\<not> (i_valid (icache s i) \<and> i_nlink (icache s i) = 0 \<and> i_ref (icache s i) = 1)"
  shows "iput i s = Ret () (upd_inode i (\<lambda>ip. ip\<lparr>i_ref := i_ref ip - 1\<rparr>) (freed i (taken i s)))"
proof -
  have k: "kidle s" using assms(1) by (simp add: bok_def)
  have "releasesleep (SLinode i) (taken i s) = Ret () (freed i (taken i s))" using k by (simp add: releasesleep_net freed_def)
  then show ?thesis using assms acquiresleep_taken[OF assms(1,2)] k
    by (auto simp: iput_def iput_locked_def kdefs the_inode_def)
qed

section \<open>Writing an inode back\<close>

lemma iupdate_modify:
  "i_dev (icache s i) = dev \<Longrightarrow> iupdate i s = modify_block dev (IBLOCK (unat (i_inum (icache s i))) (ksb s))
     (\<lambda>d. put_dinode d (unat (i_inum (icache s i)) mod IPB) (dinode_of_inode (icache s i))) s"
  by (simp add: iupdate_def modify_block_def the_inode_def kdefs)

lemma iupdate_net:
  assumes "txok H s" "txroom H 1 s" "i_dev (icache s i) = 1" "length (i_addrs (icache s i)) = 13" "\<forall>n. length (lblk s n) = BSIZE"
    "IBLOCK (unat (i_inum (icache s i))) (ksb s) < disksize s" "IBLOCK (unat (i_inum (icache s i))) (ksb s) \<notin> hblk H s"
  shows "\<exists>t. iupdate i s = Ret () t \<and> txok H t \<and> lframe s t \<and> (\<forall>j\<in>H. b_blockno (bufs t j) = b_blockno (bufs s j))
    \<and> lblk t = (lblk s)(IBLOCK (unat (i_inum (icache s i))) (ksb s) :=
         put_dinode (lblk s (IBLOCK (unat (i_inum (icache s i))) (ksb s))) (unat (i_inum (icache s i)) mod IPB) (dinode_of_inode (icache s i)))"
proof -
  have "length (put_dinode (lblk s (IBLOCK (unat (i_inum (icache s i))) (ksb s))) (unat (i_inum (icache s i)) mod IPB) (dinode_of_inode (icache s i))) = BSIZE"
    using assms(4,5) by (intro length_put_dinode) (simp_all add: dinode_of_inode_def)
  then show ?thesis unfolding iupdate_modify[OF assms(3)] 
    using modify_block_net[OF assms(1,6,7,2), where f = "\<lambda>d. put_dinode d (unat (i_inum (icache s i)) mod IPB) (dinode_of_inode (icache s i))"]
    by blast
qed

section \<open>The block map\<close>

text \<open>The disk block of block \<open>bn\<close> of a file (0: none), when the blocks have the contents \<open>c\<close>.\<close>

definition faddr :: "(nat \<Rightarrow> byte list) \<Rightarrow> inode \<Rightarrow> nat \<Rightarrow> u32" where
  "faddr c ip bn =
     (if bn < NDIRECT then i_addrs ip ! bn
      else if i_addrs ip ! NDIRECT = 0 then 0
      else ld4 (c (unat (i_addrs ip ! NDIRECT))) (4 * (bn - NDIRECT)))"

text \<open>The indirect block, if any, is a block in use outside the bitmap.\<close>

definition ind_ok :: "superblock \<Rightarrow> (nat \<Rightarrow> byte list) \<Rightarrow> inode \<Rightarrow> bool" where
  "ind_ok sb c ip \<longleftrightarrow> length (i_addrs ip) = 13 \<and> (i_addrs ip ! NDIRECT \<noteq> 0 \<longrightarrow>
     unat (i_addrs ip ! NDIRECT) < unat (sb_size sb) \<and> bused sb c (unat (i_addrs ip ! NDIRECT)) \<and>
     (\<forall>k<unat (sb_size sb). unat (i_addrs ip ! NDIRECT) \<noteq> BBLOCK k sb))"

lemma bmap_lookup:
  assumes "bok H s" "spare H s" "i_dev (icache s i) = 1" "bn < MAXFILE" "faddr (lblk s) (icache s i) bn \<noteq> 0"
    and "NDIRECT \<le> bn \<Longrightarrow> unat (i_addrs (icache s i) ! NDIRECT) < disksize s \<and> unat (i_addrs (icache s i) ! NDIRECT) \<notin> hblk H s"
  shows "\<exists>t. bmap i bn s = Ret (faddr (lblk s) (icache s i) bn) t \<and> bok H t \<and> lblk t = lblk s \<and> bframe s t \<and> dirties t = dirties s
    \<and> (\<forall>j\<in>H. b_blockno (bufs t j) = b_blockno (bufs s j))"
proof (cases "bn < NDIRECT")
  case True
  then show ?thesis using assms by (auto simp: bmap_def the_inode_def kdefs faddr_def)
next
  case False
  let ?ind = "i_addrs (icache s i) ! NDIRECT"
  have nz: "?ind \<noteq> 0" "ld4 (lblk s (unat ?ind)) (4 * (bn - NDIRECT)) \<noteq> 0" using False assms(5) by (auto simp: faddr_def split: if_splits)
  obtain u where u: "read_block 1 (unat ?ind) s = Ret (lblk s (unat ?ind)) u" "bok H u" "lblk u = lblk s" "bframe s u" "dirties u = dirties s"
    "\<forall>j\<in>H. b_blockno (bufs u j) = b_blockno (bufs s j)"
    using read_block_view[OF assms(1) _ _ assms(2), of "unat ?ind"] assms(6) False by auto
  then obtain b t where "bread 1 (unat ?ind) s = Ret b t" "b_data (bufs t b) = lblk s (unat ?ind)" "brelse b t = Ret () u"
    by (auto simp: read_block_def kbind_Ret_iff kthen_Ret_iff bdata_def)
  then have "bmap_ind 1 ?ind (bn - NDIRECT) s = Ret (ld4 (lblk s (unat ?ind)) (4 * (bn - NDIRECT))) u"
    using nz by (simp add: bmap_ind_def kdefs bdata_def)
  then show ?thesis using u False nz assms(3,4) by (intro exI[of _ u]) (simp add: bmap_def the_inode_def kdefs faddr_def)
qed

lemma bmap_ind_alloc:
  assumes ok: "txok {} s" and B: "bitmap_ok (ksb s) (disksize s) (lblk s)" and r: "txroom {} 4 s"
    and ind: "unat ind < unat (sb_size (ksb s))" "bused (ksb s) (lblk s) (unat ind)" "\<forall>k<unat (sb_size (ksb s)). unat ind \<noteq> BBLOCK k (ksb s)"
    and z: "ld4 (lblk s (unat ind)) (4 * k) = 0" "k < NINDIRECT"
    and n: "n < unat (sb_size (ksb s))" "\<not> bused (ksb s) (lblk s) n" "\<forall>k<n. bused (ksb s) (lblk s) k"
  shows "\<exists>t. bmap_ind 1 ind k s = Ret (of_nat n) t \<and> txok {} t \<and> lframe s t
    \<and> lblk t = (lblk s)(BBLOCK n (ksb s) := mark_bit n (lblk s (BBLOCK n (ksb s))), n := replicate BSIZE 0,
         unat ind := st4 (lblk s (unat ind)) (4 * k) (of_nat n))"
proof -
  let ?i = "unat ind" and ?sb = "ksb s"
  have i: "?i < disksize s" "length (lblk s ?i) = BSIZE" "?i \<noteq> n" "?i \<noteq> BBLOCK n ?sb" using B ind n by (auto simp: bitmap_ok_def)
  have ok': "bok {} s" "spare {} s" using ok txok_spare[OF ok r] by (simp_all add: txok_def)
  obtain b t where t: "bread 1 ?i s = Ret b t" "bok (insert b {}) t" "bframe s t" "b_blockno (bufs t b) = ?i"
    "b_data (bufs t b) = lblk s ?i" "lblk t = lblk s" "dirties t = dirties s"
    using bread_view[OF ok'(1) i(1) _ ok'(2)] by (auto simp: hblk_def)
  note ft = bframe_lframe[OF t(3)]
  have lt: "lh t = lh s" "ksb t = ksb s" "disksize t = disksize s" using lh_upd(4)[OF t(3)] lframe_fs(2)[OF ft] lframeD(2)[OF ft] by simp_all
  have T: "txok {b} t" "txroom {b} 2 t" "held_ok (ksb t) {b} t" "bitmap_ok (ksb t) (disksize t) (lblk t)"
    using ok r t lt ind B lframeD(6,7)[OF ft] by (simp_all add: txok_def txroom_def held_ok_def hblk_def)
  obtain u where u: "balloc 1 t = Ret (of_nat n) u" "txok {b} u" "lframe t u" "\<forall>j\<in>{b}. b_blockno (bufs u j) = b_blockno (bufs t j)"
    "lblk u = (lblk s)(BBLOCK n ?sb := mark_bit n (lblk s (BBLOCK n ?sb)), n := replicate BSIZE 0)" "lh u = absorb n (absorb (BBLOCK n ?sb) (lh s))"
    using balloc_net[OF T(1,4,2,3), of n] n lt t(6) by auto
  have "length (lh u) \<le> length (lh s) + 2" using u(6) set_absorb(3)[of n "absorb (BBLOCK n ?sb) (lh s)"] set_absorb(3)[of "BBLOCK n ?sb" "lh s"] by simp
  then have U: "txroom ({b} - {b}) 1 u" "b_blockno (bufs u b) = ?i" "length (st4 (lblk s ?i) (4 * k) (of_nat n)) = BSIZE"
    using r u(4) t(4) lframeD(6)[OF u(3)] lframeD(6)[OF ft] i(2) z(2) by (simp_all add: txroom_def)
  obtain w where w: "kthen (set_bdata b (st4 (lblk s ?i) (4 * k) (of_nat n))) (kthen (log_write b) (brelse b)) u = Ret () w" "txok {} w"
    "lblk w = (lblk u)(?i := st4 (lblk s ?i) (4 * k) (of_nat n))" "lframe u w"
    using write_back_net[OF u(2) _ U(2,1,3)] by auto
  have "bmap_ind 1 ind k s = Ret (of_nat n) w" using t(1,5) u(1) w(1) z(1) by (simp add: bmap_ind_def kdefs bdata_def)
  moreover have "lframe s w" by (rule lframe_trans[OF lframe_trans[OF ft u(3)] w(4)])
  ultimately show ?thesis using w u(5) by (intro exI[of _ w]) simp
qed

text \<open>What \<open>bmap\<close> does to the map of a file, from state \<open>s\<close> to \<open>t\<close> with result \<open>a\<close>.\<close>

definition bmapped :: "nat \<Rightarrow> nat \<Rightarrow> 'z kfs_scheme \<Rightarrow> u32 \<Rightarrow> 'z kfs_scheme \<Rightarrow> bool" where
  "bmapped i bn s a t \<longleftrightarrow> a \<noteq> 0 \<and> faddr (lblk t) (icache t i) bn = a \<and> txok {} t
     \<and> (\<forall>m<MAXFILE. m \<noteq> bn \<longrightarrow> faddr (lblk t) (icache t i) m = faddr (lblk s) (icache s i) m)
     \<and> (if faddr (lblk s) (icache s i) bn \<noteq> 0 then a = faddr (lblk s) (icache s i) bn \<and> lblk t = lblk s
        else unat a < unat (sb_size (ksb s)) \<and> \<not> bused (ksb s) (lblk s) (unat a) \<and> lblk t (unat a) = replicate BSIZE 0)"

lemma of_nat_block:
  assumes "n < unat (w :: u32)"
  shows "unat (of_nat n :: u32) = n" "n \<noteq> 0 \<Longrightarrow> (of_nat n :: u32) \<noteq> 0"
proof -
  have "n < 2 ^ 32" using assms unsigned_less[of w, where ?'a = nat] by simp
  then show e: "unat (of_nat n :: u32) = n" by (simp add: unat_of_nat take_bit_nat_eq_self)
  then show "n \<noteq> 0 \<Longrightarrow> (of_nat n :: u32) \<noteq> 0" by auto
qed

lemma bmap_direct_alloc:
  assumes ok: "txok {} s" and B: "bitmap_ok (ksb s) (disksize s) (lblk s)" and r: "txroom {} 2 s" and ip: "i_dev (icache s i) = 1" "ind_ok (ksb s) (lblk s) (icache s i)"
    and bn: "bn < NDIRECT" "i_addrs (icache s i) ! bn = 0"
    and n: "n < unat (sb_size (ksb s))" "\<not> bused (ksb s) (lblk s) n" "\<forall>k<n. bused (ksb s) (lblk s) k" "n \<noteq> 0"
  shows "\<exists>t. bmap i bn s = Ret (of_nat n) t \<and> bmapped i bn s (of_nat n) t"
proof -
  let ?sb = "ksb s" and ?ip = "icache s i" and ?a = "of_nat n :: u32"
  obtain u where u: "balloc 1 s = Ret ?a u" "txok {} u" "lframe s u" "lblk u = alloc_at ?sb n (lblk s)"
    using balloc_net[OF ok B r _ n(1-3)] unfolding alloc_at_def held_ok_def hblk_def by auto
  let ?t = "upd_inode i (\<lambda>ip. ip\<lparr>i_addrs := (i_addrs ip)[bn := ?a]\<rparr>) u"
  have iu: "icache u = icache s" using lframe_fs(1)[OF u(3)] .
  have na: "unat ?a = n" "?a \<noteq> 0" using of_nat_block[OF n(1)] n(4) by simp_all
  have l: "length (i_addrs ?ip) = 13" using ip(2) by (simp add: ind_ok_def)
  have "lblk u (unat (i_addrs ?ip ! NDIRECT)) = lblk s (unat (i_addrs ?ip ! NDIRECT))" if "i_addrs ?ip ! NDIRECT \<noteq> 0"
    using ip(2) n(1,2) that unfolding u(4) ind_ok_def by (intro alloc_at_other) auto
  then have "faddr (lblk ?t) (icache ?t i) m = (if m = bn then ?a else faddr (lblk s) ?ip m)" if "m < MAXFILE" for m
    using that bn l iu by (auto simp: faddr_def nth_list_update)
  moreover have "faddr (lblk s) ?ip bn = 0" using bn by (simp add: faddr_def)
  moreover have "bmap i bn s = Ret ?a ?t" using bn u(1) ip(1) by (simp add: bmap_def the_inode_def kdefs)
  moreover have "lblk ?t n = replicate BSIZE 0" using u(4) alloc_at_other(2) by simp
  ultimately show ?thesis using na n u(2) bn by (intro exI[of _ ?t]) (auto simp: bmapped_def)
qed

lemma bmap_indirect_alloc:
  assumes ok: "txok {} s" and B: "bitmap_ok (ksb s) (disksize s) (lblk s)" and r: "txroom {} 4 s" and ip: "i_dev (icache s i) = 1" "ind_ok (ksb s) (lblk s) (icache s i)"
    and bn: "NDIRECT \<le> bn" "bn < MAXFILE" "faddr (lblk s) (icache s i) bn = 0" "i_addrs (icache s i) ! NDIRECT = ind" "ind \<noteq> 0"
    and n: "n < unat (sb_size (ksb s))" "\<not> bused (ksb s) (lblk s) n" "\<forall>k<n. bused (ksb s) (lblk s) k" "n \<noteq> 0"
  shows "\<exists>t. bmap_ind 1 ind (bn - NDIRECT) s = Ret (of_nat n) t \<and> lframe s t \<and> bmapped i bn s (of_nat n) t"
proof -
  let ?sb = "ksb s" and ?ip = "icache s i" and ?a = "of_nat n :: u32" and ?i = "unat ind"
  have i: "?i < unat (sb_size ?sb)" "bused ?sb (lblk s) ?i" "\<forall>k<unat (sb_size ?sb). ?i \<noteq> BBLOCK k ?sb" using ip(2) bn(4,5) by (auto simp: ind_ok_def)
  have k: "bn - NDIRECT < NINDIRECT" "ld4 (lblk s ?i) (4 * (bn - NDIRECT)) = 0" using bn by (auto simp: faddr_def)
  obtain t where t: "bmap_ind 1 ind (bn - NDIRECT) s = Ret ?a t" "txok {} t" "lframe s t"
    "lblk t = (alloc_at ?sb n (lblk s))(?i := st4 (lblk s ?i) (4 * (bn - NDIRECT)) ?a)"
    using bmap_ind_alloc[OF ok B r i k(2,1) n(1-3)] unfolding alloc_at_def by blast
  have it: "icache t = icache s" using lframe_fs(1)[OF t(3)] .
  have na: "unat ?a = n" "?a \<noteq> 0" using of_nat_block[OF n(1)] n(4) by simp_all
  have li: "length (lblk s ?i) = BSIZE" "n \<noteq> ?i" using B i(2) n(2) by (auto simp: bitmap_ok_def)
  have "ld4 (lblk t ?i) (4 * (m - NDIRECT)) = (if m = bn then ?a else ld4 (lblk s ?i) (4 * (m - NDIRECT)))" if m: "m < MAXFILE" "NDIRECT \<le> m" for m
  proof (cases "m = bn")
    case False
    then have "4 * (m - NDIRECT) + 4 \<le> 4 * (bn - NDIRECT) \<or> 4 * (bn - NDIRECT) + 4 \<le> 4 * (m - NDIRECT)" using m(2) bn(1) by linarith
    then show ?thesis using False li m bn t(4) by (simp add: ld_st_other)
  qed (use li bn t(4) in simp)
  then have "faddr (lblk t) (icache t i) m = (if m = bn then ?a else faddr (lblk s) ?ip m)" if "m < MAXFILE" for m
    using that bn it by (auto simp: faddr_def)
  moreover have "lblk t n = replicate BSIZE 0" using t(4) alloc_at_other(2) li(2) by simp
  ultimately show ?thesis using t na n bn by (intro exI[of _ t]) (auto simp: bmapped_def)
qed

lemma ld4_zero: "off + 4 \<le> n \<Longrightarrow> ld4 (replicate n 0) off = 0"
  by (simp add: ld4_def sub_bytes_def of_le4_def)

text \<open>A file that has no indirect block yet: one block becomes the indirect block, a second one the file's block.\<close>

lemma bmap_both_alloc:
  assumes ok: "txok {} s" and B: "bitmap_ok (ksb s) (disksize s) (lblk s)" and r: "txroom {} 6 s" and ip: "i_dev (icache s i) = 1" "length (i_addrs (icache s i)) = 13"
    and bn: "NDIRECT \<le> bn" "bn < MAXFILE" "i_addrs (icache s i) ! NDIRECT = 0" and z: "bused (ksb s) (lblk s) 0"
    and j: "j < unat (sb_size (ksb s))" "k < unat (sb_size (ksb s))" "j \<noteq> k" "\<not> bused (ksb s) (lblk s) j" "\<not> bused (ksb s) (lblk s) k"
  shows "\<exists>a t. bmap i bn s = Ret a t \<and> bmapped i bn s a t"
proof -
  let ?sb = "ksb s" and ?N = "unat (sb_size (ksb s))"
  obtain n where n: "n < ?N" "\<not> bused ?sb (lblk s) n" "\<forall>k<n. bused ?sb (lblk s) k" by (rule first_free[OF j(1,4)])
  have nz: "n \<noteq> 0" using z n(2) by (cases n) auto
  let ?a = "of_nat n :: u32"
  note na = of_nat_block[OF n(1)]
  have r2: "txroom {} 2 s" by (rule txroom_mono[OF r]) simp
  obtain u where u: "balloc 1 s = Ret ?a u" "txok {} u" "lframe s u" "lblk u = alloc_at ?sb n (lblk s)" "lh u = absorb n (absorb (BBLOCK n ?sb) (lh s))"
    using balloc_net[OF ok B r2 _ n] unfolding alloc_at_def held_ok_def hblk_def by auto
  let ?v = "upd_inode i (\<lambda>ip. ip\<lparr>i_addrs := (i_addrs ip)[NDIRECT := ?a]\<rparr>) u"
  note f = lframeD[OF u(3)] lframe_fs[OF u(3)]
  have "length (lh u) \<le> length (lh s) + 2" using u(5) set_absorb(3)[of n "absorb (BBLOCK n ?sb) (lh s)"] set_absorb(3)[of "BBLOCK n ?sb" "lh s"] by simp
  then have "txroom {} 4 u" using r f by (simp add: txroom_def)
  then have rv: "txroom {} 4 ?v" by simp
  have us: "k < ?N \<Longrightarrow> bused ?sb (lblk u) k \<longleftrightarrow> bused ?sb (lblk s) k \<or> k = n" for k unfolding u(4) by (rule bused_alloc[OF B n(1,2)])
  have Bv: "bitmap_ok (ksb ?v) (disksize ?v) (lblk ?v)" using bitmap_ok_alloc[OF B n(1,2)] u(4) f by simp
  have notb: "\<forall>k<?N. n \<noteq> BBLOCK k ?sb" using B n(2) by (auto simp: bitmap_ok_def)
  have iv: "icache ?v i = (icache s i)\<lparr>i_addrs := (i_addrs (icache s i))[NDIRECT := ?a]\<rparr>" using f by simp
  have io: "ind_ok (ksb ?v) (lblk ?v) (icache ?v i)" "i_dev (icache ?v i) = 1"
    using ip na(1) n(1) us[OF n(1)] notb f iv by (simp_all add: ind_ok_def)
  have zero: "lblk ?v n = replicate BSIZE 0" using u(4) alloc_at_other(2) by simp
  have fa: "faddr (lblk ?v) (icache ?v i) m = faddr (lblk s) (icache s i) m" if "m < MAXFILE" for m
    using that bn(3) ip(2) iv zero na nz ld4_zero[of "4 * (m - NDIRECT)" BSIZE] by (auto simp: faddr_def)
  obtain j' where j': "j' < ?N" "\<not> bused ?sb (lblk u) j'" using us j by metis
  obtain n' where n': "n' < ?N" "\<not> bused ?sb (lblk u) n'" "\<forall>k<n'. bused ?sb (lblk u) k" by (rule first_free[OF j'])
  have n'z: "n' \<noteq> 0" "n' \<noteq> n" "\<not> bused ?sb (lblk s) n'" using us[of n'] us[of 0] n' z by (cases n'; auto)+
  have z0: "faddr (lblk s) (icache s i) bn = 0" using bn by (simp add: faddr_def)
  obtain t where t: "bmap_ind 1 ?a (bn - NDIRECT) ?v = Ret (of_nat n') t" "bmapped i bn ?v (of_nat n') t"
    using bmap_indirect_alloc[OF _ Bv rv io(2,1) bn(1,2), of ?a n'] u(2) fa[OF bn(2)] z0 na(2)[OF nz] n' n'z f ip(2) by auto
  have "bmap i bn s = Ret (of_nat n') t" using bn u(1) ip(1) t(1) by (simp add: bmap_def the_inode_def kdefs)
  moreover have "bmapped i bn s (of_nat n') t"
    using t(2) fa fa[OF bn(2)] z0 n'z(3) of_nat_block[OF n'(1)] n'(1) f unfolding bmapped_def by auto
  ultimately show ?thesis by blast
qed

section \<open>Properties\<close>

text \<open>
  C15: \<^verbatim>\<open>bmap\<close> in a transaction, on a file whose inode is well formed and with two blocks free.  It returns the disk block of block \<open>bn\<close> of the file,
  which from then on is mapped; if it was mapped before nothing changes; otherwise the block it returns was free and is now
  zero.  The other blocks of the file keep their addresses, on the direct, the indirect and the newly
  indirect path.
\<close>

theorem bmap_maps:
  assumes "txok {} s" "bitmap_ok (ksb s) (disksize s) (lblk s)" "txroom {} 6 s" "i_dev (icache s i) = 1" "ind_ok (ksb s) (lblk s) (icache s i)" "bn < MAXFILE"
    "bused (ksb s) (lblk s) 0" "j < unat (sb_size (ksb s))" "k < unat (sb_size (ksb s))" "j \<noteq> k" "\<not> bused (ksb s) (lblk s) j" "\<not> bused (ksb s) (lblk s) k"
  shows "\<exists>a t. bmap i bn s = Ret a t \<and> a \<noteq> 0 \<and> faddr (lblk t) (icache t i) bn = a \<and> txok {} t
     \<and> (\<forall>m<MAXFILE. m \<noteq> bn \<longrightarrow> faddr (lblk t) (icache t i) m = faddr (lblk s) (icache s i) m)
     \<and> (if faddr (lblk s) (icache s i) bn \<noteq> 0 then a = faddr (lblk s) (icache s i) bn \<and> lblk t = lblk s
        else unat a < unat (sb_size (ksb s)) \<and> \<not> bused (ksb s) (lblk s) (unat a) \<and> lblk t (unat a) = replicate BSIZE 0)"
proof -
  let ?ip = "icache s i" and ?c = "lblk s"
  have l: "length (i_addrs ?ip) = 13" using assms(5) by (simp add: ind_ok_def)
  obtain n where n: "n < unat (sb_size (ksb s))" "\<not> bused (ksb s) ?c n" "\<forall>k<n. bused (ksb s) ?c k" by (rule first_free[OF assms(8,11)])
  then have nz: "n \<noteq> 0" using assms(7) by (cases n) auto
  have r: "txroom {} 2 s" "txroom {} 4 s" using txroom_mono[OF assms(3)] by simp_all
  have "\<exists>a t. bmap i bn s = Ret a t \<and> bmapped i bn s a t"
  proof (cases "faddr ?c ?ip bn = 0")
    case False
    have b: "bok {} s" "spare {} s" using assms(1) txok_spare[OF assms(1,3)] by (simp_all add: txok_def)
    have "NDIRECT \<le> bn \<Longrightarrow> unat (i_addrs ?ip ! NDIRECT) < disksize s"
      using False assms(2,5) by (auto simp: faddr_def ind_ok_def bitmap_ok_def split: if_splits)
    then obtain t where t: "bmap i bn s = Ret (faddr ?c ?ip bn) t" "bok {} t" "lblk t = ?c" "bframe s t" "dirties t = dirties s"
      using bmap_lookup[OF b assms(4,6) False] by (auto simp: hblk_def)
    have "txok {} t" "icache t = icache s"
      using t assms(1) lframeD(7)[OF bframe_lframe[OF t(4)]] lh_upd(4)[OF t(4)] lframe_fs(1)[OF bframe_lframe[OF t(4)]] by (simp_all add: txok_def)
    then show ?thesis using t False by (intro exI[of _ "faddr ?c ?ip bn"] exI[of _ t]) (simp add: bmapped_def)
  next
    case z: True
    show ?thesis
    proof (cases "bn < NDIRECT")
      case True
      then show ?thesis using bmap_direct_alloc[OF assms(1,2) r(1) assms(4,5) True _ n nz] z by (auto simp: faddr_def)
    next
      case d: False
      show ?thesis
      proof (cases "i_addrs ?ip ! NDIRECT = 0")
        case True
        then show ?thesis using d bmap_both_alloc[OF assms(1-4) l _ assms(6) True assms(7-12)] by simp
      next
        case False
        then obtain t where "bmap_ind 1 (i_addrs ?ip ! NDIRECT) (bn - NDIRECT) s = Ret (of_nat n) t" "bmapped i bn s (of_nat n) t"
          using d bmap_indirect_alloc[OF assms(1,2) r(2) assms(4,5) _ assms(6) z refl False n nz] by auto
        then show ?thesis using d False assms(4,6) by (intro exI[of _ "of_nat n"] exI[of _ t]) (simp add: bmap_def the_inode_def kdefs)
      qed
    qed
  qed
  then show ?thesis unfolding bmapped_def .
qed

lemma kfs0_ic_inv: "icache s = icache (kfs0 d) \<Longrightarrow> ic_inv s"
  by (simp add: ic_inv_def)

theorem bmap_maps_witness:
  "\<exists>s a t. binit (kfs0 disk0) = Ret () s \<and> bmap 0 20 (upd_inode 0 (\<lambda>ip. ip\<lparr>i_dev := 1\<rparr>) s) = Ret a t \<and> a \<noteq> 0"
proof -
  obtain s where s: "binit (kfs0 disk0) = Ret () s" "txok {} s" "lframe (kfs0 disk0) s" "lblk s = blk disk0" "ksb s = sb0" "disksize s = 1000"
    and h: "bitmap_ok (ksb s) (disksize s) (lblk s)" "txroom {} 8 s"
    using kfs0_ready by blast
  let ?s = "upd_inode 0 (\<lambda>ip. ip\<lparr>i_dev := 1\<rparr>) s"
  have c: "icache s = icache (kfs0 disk0)" using lframe_fs(1)[OF s(3)] .
  have u: "k < 100 \<Longrightarrow> bused sb0 (blk disk0) k \<longleftrightarrow> k < 64" for k by (rule disk0_used)
  have r: "txroom {} 6 ?s" using txroom_mono[OF h(2), of 6] by simp
  have i: "txok {} ?s" "bitmap_ok (ksb ?s) (disksize ?s) (lblk ?s)" "i_dev (icache ?s 0) = 1" "ind_ok (ksb ?s) (lblk ?s) (icache ?s 0)"
    using s h(1) c by (simp_all add: ind_ok_def)
  have b: "bused (ksb ?s) (lblk ?s) 0" "70 < unat (sb_size (ksb ?s))" "80 < unat (sb_size (ksb ?s))" "\<not> bused (ksb ?s) (lblk ?s) 70" "\<not> bused (ksb ?s) (lblk ?s) 80"
    using s u[of 0] u[of 70] u[of 80] by simp_all
  obtain a t where "bmap 0 20 ?s = Ret a t" "a \<noteq> 0"
    using bmap_maps[OF i(1,2) r i(3,4) _ b(1-3) _ b(4,5), of 20] by auto
  then show ?thesis using s(1) by blast
qed

text \<open>
  C22: The inode cache counts references.  When no inode is locked, \<^verbatim>\<open>iget\<close> either finds no room, because every entry holds a
  referenced inode other than the wanted one, and panics; or it returns an entry for the wanted inode and
  that inode has one reference more, every other inode as many as before, with still one entry per referenced inode.
  \<^verbatim>\<open>iput\<close> of that entry takes the reference back.
\<close>

theorem iget_iput_count:
  assumes "bok H s" "ic_inv s" "\<forall>j. \<not> sl_locked (slocks s (SLinode j))"
  shows "(iget dev inum s = Panic ''iget: no inodes'' \<and> (\<forall>j<NINODE. i_ref (icache s j) > 0 \<and> ikey s j \<noteq> (dev, inum)))
    \<or> (\<exists>i t u. iget dev inum s = Ret i t \<and> i < NINODE \<and> ikey t i = (dev, inum) \<and> ic_inv t
         \<and> irefs t = (irefs s)((dev, inum) := irefs s (dev, inum) + 1)
         \<and> iput i t = Ret () u \<and> ic_inv u \<and> irefs u = irefs s)"
proof -
  have k: "kidle s" using assms(1) by (simp add: bok_def)
  have undo: "\<exists>u. iput i t = Ret () u \<and> ic_inv u \<and> irefs u = irefs s"
    if g: "iget dev inum s = Ret i t" and n: "\<not> (i_valid (icache t i) \<and> i_ref (icache t i) = 1)" for i t
  proof -
    note I = iget_ref[OF k assms(2) g]
    let ?f = "\<lambda>ip :: inode. ip\<lparr>i_ref := i_ref ip - 1\<rparr>" and ?w = "freed i (taken i t)"
    have b: "bok H t" "\<not> sl_locked (slocks t (SLinode i))" by (subst I(7), simp add: assms)+
    have p: "iput i t = Ret () (upd_inode i ?f ?w)" using iput_keep[OF b] n by auto
    have w: "ic_inv ?w" "irefs ?w = irefs t" "ikey ?w = ikey t" 
      using ic_cong[of ?w t] I(4) by simp_all
    have key: "ikey (upd_inode i ?f ?w) i = (dev, inum)" using I(2) by (simp add: ikey_def)
    have "irefs (upd_inode i ?f ?w) = (irefs ?w)((dev, inum) := irefs ?w (dev, inum) - 1)"
      using irefs_upd[of i ?w ?f] I(1,3) key by simp
    then have "irefs (upd_inode i ?f ?w) = irefs s" using w(2) I(5) by simp
    moreover have "ic_inv (upd_inode i ?f ?w)"
    proof (rule ic_inv_upd[OF w(1) I(1)])
      show "0 \<le> i_ref (?f (icache ?w i))" using I(3) by simp
      show "ikey ?w j \<noteq> ikey (upd_inode i ?f ?w) i" if "j < NINODE" "j \<noteq> i" "i_ref (icache ?w j) > 0" for j
        using I(1-4) that key w(3) unfolding ic_inv_def ikey_def by auto
    qed
    ultimately show ?thesis using p by blast
  qed
  consider "iget dev inum s = Panic ''iget: no inodes''" "\<forall>j<NINODE. i_ref (icache s j) > 0 \<and> ikey s j \<noteq> (dev, inum)"
    | i t where "iget dev inum s = Ret i t" "\<not> (i_valid (icache t i) \<and> i_ref (icache t i) = 1)"
    using iget_net[OF k assms(2), of dev inum] by (elim disjE exE conjE) (simp, simp, blast)
  then show ?thesis
  proof cases
    case 2
    then show ?thesis using undo[OF 2] iget_ref[OF k assms(2) 2(1)] by blast
  qed blast
qed

theorem iget_iput_count_witness:
  "\<exists>s i t u. binit (kfs0 disk0) = Ret () s \<and> iget 1 7 s = Ret i t \<and> irefs t (1, 7) = irefs s (1, 7) + 1 \<and> iput i t = Ret () u \<and> irefs u = irefs s"
proof -
  obtain s where s: "binit (kfs0 disk0) = Ret () s" "txok {} s" "lframe (kfs0 disk0) s" using kfs0_ready by blast
  have c: "icache s = icache (kfs0 disk0)" using lframe_fs(1)[OF s(3)] .
  have l: "\<forall>j. \<not> sl_locked (slocks s (SLinode j))" using s(3) by (simp add: lframe_def)
  have "\<not> (\<forall>j<NINODE. i_ref (icache s j) > 0 \<and> ikey s j \<noteq> (1, 7))" using c by (auto intro!: exI[of _ 0])
  then show ?thesis using s(1,2) iget_iput_count[OF _ kfs0_ic_inv[OF c] l, of "{}" 1 7] by (auto simp: txok_def)
qed

text \<open>
  C38: The inode cache is write-through.  After \<^verbatim>\<open>iupdate\<close> of an in-memory inode the disk inode of its number is that inode and the
  disk inode of every other number is as before; and \<^verbatim>\<open>ilock\<close> of an entry for that number that has not
  been read yet, in any later state with the same blocks, loads exactly what was written.
\<close>

theorem iupdate_ilock_roundtrip:
  fixes s :: "'z kfs_scheme"
  assumes "txok H s" "txroom H 1 s" "i_dev (icache s i) = 1" "length (i_addrs (icache s i)) = 13" "\<forall>n. length (lblk s n) = BSIZE"
    "IBLOCK (unat (i_inum (icache s i))) (ksb s) < disksize s" "IBLOCK (unat (i_inum (icache s i))) (ksb s) \<notin> hblk H s" "i_type (icache s i) \<noteq> 0"
  shows "\<exists>t. iupdate i s = Ret () t \<and> disk_inode t (unat (i_inum (icache s i))) = dinode_of_inode (icache s i)
    \<and> (\<forall>m. m \<noteq> unat (i_inum (icache s i)) \<longrightarrow> disk_inode t m = disk_inode s m)
    \<and> (\<forall>r :: 'z kfs_scheme. \<forall>j. lblk r = lblk t \<longrightarrow> ksb r = ksb s \<longrightarrow> disksize r = disksize s \<longrightarrow> bok {} r \<longrightarrow> spare {} r \<longrightarrow>
         \<not> sl_locked (slocks r (SLinode j)) \<longrightarrow> 1 \<le> i_ref (icache r j) \<longrightarrow> \<not> i_valid (icache r j) \<longrightarrow>
         i_dev (icache r j) = 1 \<longrightarrow> i_inum (icache r j) = i_inum (icache s i) \<longrightarrow>
         (\<exists>q. ilock (Some j) r = Ret () q \<and> i_valid (icache q j) \<and> dinode_of_inode (icache q j) = dinode_of_inode (icache s i)))"
proof -
  let ?n = "unat (i_inum (icache s i))" and ?d = "dinode_of_inode (icache s i)"
  let ?b = "IBLOCK ?n (ksb s)"
  obtain t where t: "iupdate i s = Ret () t" "lframe s t" "lblk t = (lblk s)(?b := put_dinode (lblk s ?b) (?n mod IPB) ?d)"
    using iupdate_net[OF assms(1-7)] by blast
  have sb: "ksb t = ksb s" using lframe_fs(2)[OF t(2)] .
  have d13: "length (di_addrs ?d) = 13" "length (lblk s ?b) = BSIZE" using assms(4,5) by (simp_all add: dinode_of_inode_def)
  have gp: "get_dinode (put_dinode (lblk s ?b) (?n mod IPB) ?d) (m mod IPB) = (if m mod IPB = ?n mod IPB then ?d else get_dinode (lblk s ?b) (m mod IPB))" for m
    by (rule get_put_dinode[OF d13(2) _ _ d13(1)]) simp_all
  have same: "disk_inode t ?n = ?d" using gp[of ?n] t(3) sb by (simp add: disk_inode_def)
  have other: "disk_inode t m = disk_inode s m" if "m \<noteq> ?n" for m
  proof (cases "IBLOCK m (ksb s) = ?b")
    case True
    then have "m mod IPB \<noteq> ?n mod IPB" using that by (simp add: IBLOCK_def) (metis div_mult_mod_eq)
    then show ?thesis using gp[of m] True t(3) sb by (simp add: disk_inode_def)
  qed (simp add: disk_inode_def t(3) sb)
  have load: "\<exists>q. ilock (Some j) r = Ret () q \<and> i_valid (icache q j) \<and> dinode_of_inode (icache q j) = ?d"
    if r: "lblk r = lblk t" "ksb r = ksb s" "disksize r = disksize s" "bok {} r" "spare {} r" "\<not> sl_locked (slocks r (SLinode j))"
      "1 \<le> i_ref (icache r j)" "\<not> i_valid (icache r j)" "i_dev (icache r j) = 1" "i_inum (icache r j) = i_inum (icache s i)"
    for r :: "'z kfs_scheme" and j
  proof -
    have d: "?d = disk_inode r (unat (i_inum (icache r j)))" using same r(1,2,10) sb by (simp add: disk_inode_def)
    have "di_type ?d \<noteq> 0" using assms(8) by (simp add: dinode_of_inode_def)
    then obtain q where q: "ilock (Some j) r = Ret () (upd_inode j (load_inode ?d) q)"
      using ilock_load[OF r(4-9) _ _ d] assms(6) r(2,3,10) by (auto simp: hblk_def)
    have "dinode_of_inode (load_inode ?d ip) = ?d" for ip by (simp add: load_inode_def dinode_of_inode_def)
    then show ?thesis using q by (auto simp: load_inode_def)
  qed
  show ?thesis by (rule exI[of _ t]) (use t(1) same other load in blast)
qed

theorem iupdate_ilock_roundtrip_witness:
  "\<exists>s t. binit (kfs0 disk0) = Ret () s \<and> iupdate 0 (upd_inode 0 (\<lambda>ip. ip\<lparr>i_dev := 1, i_inum := 9, i_type := T_FILE, i_size := 33\<rparr>) s) = Ret () t
     \<and> di_size (disk_inode t 9) = 33"
proof -
  obtain s where s: "binit (kfs0 disk0) = Ret () s" "txok {} s" "lframe (kfs0 disk0) s" "lblk s = blk disk0" "ksb s = sb0" "disksize s = 1000" "txroom {} 8 s"
    using kfs0_ready by blast
  have c: "icache s = icache (kfs0 disk0)" using lframe_fs(1)[OF s(3)] .
  let ?s = "upd_inode 0 (\<lambda>ip. ip\<lparr>i_dev := 1, i_inum := 9, i_type := T_FILE, i_size := 33\<rparr>) s"
  have r: "txroom {} 1 ?s" using txroom_mono[OF s(7)] by simp
  have h: "txok {} ?s" "i_dev (icache ?s 0) = 1" "length (i_addrs (icache ?s 0)) = 13" "\<forall>n. length (lblk ?s n) = BSIZE"
    "IBLOCK (unat (i_inum (icache ?s 0))) (ksb ?s) < disksize ?s" "IBLOCK (unat (i_inum (icache ?s 0))) (ksb ?s) \<notin> hblk {} ?s" "i_type (icache ?s 0) \<noteq> 0"
    using s c by (simp_all add: IBLOCK_def hblk_def)
  obtain t where "iupdate 0 ?s = Ret () t" "disk_inode t 9 = dinode_of_inode (icache ?s 0)"
    using iupdate_ilock_roundtrip[OF h(1) r h(2-7)] by auto
  then show ?thesis using s(1) by (intro exI[of _ s] exI[of _ t]) (simp add: dinode_of_inode_def)
qed

end
