(* ===== verification/Ring.thy ===== *)
theory Ring
  imports Prelude
begin

text \<open>
  Ring buffers with free-running 32-bit indices, as the console input buffer and the pipes use them: an index
  only ever grows, wrapping at \<open>2 ^ 32\<close>, and is reduced modulo the size of the buffer at each access.  The
  locale states what the size of the buffer has to satisfy for this to work; its lemmas describe the
  bytes between two indices.
\<close>

definition window :: "nat \<Rightarrow> byte list \<Rightarrow> u32 \<Rightarrow> nat \<Rightarrow> byte list" where
  "window N buf a n = map (\<lambda>k. buf ! ((unat a + k) mod N)) [0..<n]"

lemma window_length [simp]: "length (window N buf a n) = n"
  by (simp add: window_def)

lemma window_zero [simp]: "window N buf a 0 = []"
  by (simp add: window_def)

lemma window_Suc: "window N buf a (Suc n) = window N buf a n @ [buf ! ((unat a + n) mod N)]"
  by (simp add: window_def)

lemma unat_succ: "Suc (unat (x :: u32)) < 2 ^ 32 \<Longrightarrow> unat (x + 1) = Suc (unat x)"
  unfolding unat_word_ariths(1) by simp

lemma unat_pred: "(x :: u32) \<noteq> 0 \<Longrightarrow> unat (x - 1) = unat x - 1"
  by (simp add: unat_minus_one)

locale ring_buffer =
  fixes N :: nat
  assumes size_dvd: "N dvd 2 ^ 32" and size_less: "N < 2 ^ 32"
begin

lemma index_add: "unat (a + of_nat k :: u32) mod N = (unat a + k) mod N"
proof -
  have "unat (a + of_nat k) = (unat a + k) mod 2 ^ 32"
    by (simp add: unat_word_ariths unat_of_nat mod_add_right_eq)
  also have "\<dots> mod N = (unat a + k) mod N" by (rule mod_mod_cancel[OF size_dvd])
  finally show ?thesis .
qed

lemma index_end: "unat (b :: u32) mod N = (unat a + unat (b - a)) mod N"
  using index_add[of a "unat (b - a)"] by simp

lemma shift: "window N buf (a + of_nat k) n = map (\<lambda>j. buf ! ((unat a + k + j) mod N)) [0..<n]"
proof -
  have "(unat (a + of_nat k) + j) mod N = (unat a + k + j) mod N" for j
    using index_add[of a k] by (metis mod_add_left_eq)
  then show ?thesis by (simp add: window_def)
qed

lemma split: "window N buf a (m + n) = window N buf a m @ window N buf (a + of_nat m) n"
  unfolding shift by (rule nth_equalityI) (auto simp: nth_append window_def)

lemma first: "window N buf a (Suc n) = buf ! (unat a mod N) # window N buf (a + 1) n"
  using split[of buf a 1 n] by (simp add: window_def)

lemma put_outside:
  assumes "n < N"
  shows "window N (buf[(unat a + n) mod N := c]) a n = window N buf a n"
proof -
  have "(unat a + n) mod N \<noteq> (unat a + k) mod N" if "k < n" for k
  proof
    assume "(unat a + n) mod N = (unat a + k) mod N"
    then have "N dvd (unat a + n) - (unat a + k)" using that by (intro mod_eq_dvd_iff_nat[THEN iffD1]) simp_all
    then show False using nat_dvd_not_less[of "n - k" N] that assms by simp
  qed
  then show ?thesis by (auto simp: window_def nth_list_update_neq)
qed

text \<open>Storing at the write index and advancing it appends to the bytes since the read index.\<close>

lemma put:
  assumes "unat (w - r) < N" "length buf = N"
  shows "unat (w + 1 - r) = Suc (unat (w - r))"
    "window N (buf[unat w mod N := c]) r (unat (w + 1 - r)) = window N buf r (unat (w - r)) @ [c]"
proof -
  have "w + 1 - r = (w - r) + 1" by simp
  moreover have "unat ((w - r) + 1) = Suc (unat (w - r))" by (rule unat_succ) (use assms(1) size_less in simp)
  ultimately show e: "unat (w + 1 - r) = Suc (unat (w - r))" by (simp only:)
  have "(unat r + unat (w - r)) mod N < length buf" using assms by simp
  then show "window N (buf[unat w mod N := c]) r (unat (w + 1 - r)) = window N buf r (unat (w - r)) @ [c]"
    unfolding e window_Suc index_end[of w r] put_outside[OF assms(1)] by simp
qed

text \<open>Advancing the read index drops the first byte.\<close>

lemma get:
  assumes "r \<noteq> w"
  shows "Suc (unat (w - (r + 1))) = unat (w - r)"
    "window N buf r (unat (w - r)) = buf ! (unat r mod N) # window N buf (r + 1) (unat (w - (r + 1)))"
proof -
  have nz: "w - r \<noteq> 0" using assms by simp
  have "w - (r + 1) = (w - r) - 1" by simp
  moreover have "Suc (unat ((w - r) - 1)) = unat (w - r)" unfolding unat_pred[OF nz] using nz by (simp add: unat_gt_0)
  ultimately show e: "Suc (unat (w - (r + 1))) = unat (w - r)" by (simp only:)
  show "window N buf r (unat (w - r)) = buf ! (unat r mod N) # window N buf (r + 1) (unat (w - (r + 1)))"
    unfolding e[symmetric] by (rule first)
qed

end

end
