(* ===== verification/Console.thy ===== *)
theory Console
  imports Inode Ring
begin

unbundle bit_operations_syntax

text \<open>
  The console (\<^verbatim>\<open>console.c\<close> from \<^verbatim>\<open>cgaputc\<close> on) and the interrupt handlers of \<^verbatim>\<open>uart.c\<close> and \<^verbatim>\<open>kbd.c\<close> that feed it.
  \<^verbatim>\<open>consputc\<close> sends a character to the serial line, polling its status port, and to the screen, whose memory is part of
  the physical memory and whose cursor is read from its port.  (\<^verbatim>\<open>cprintf\<close>, which the devices
  themselves use, records in \<open>cout\<close> the characters it prints.)  The input buffer keeps its three free-running 32-bit
  indices.  The device switch holds names of functions.  A reader that finds no input sleeps: that run
  ends in \<open>Blocked\<close> and \<open>consoleread_resume\<close> is what follows when it is scheduled again.
\<close>

abbreviation "INPUT_BUF \<equiv> (128 :: nat)"
abbreviation "CONSOLE \<equiv> (1 :: nat)"
abbreviation "NDEV \<equiv> (10 :: nat)"

record input =
  in_buf :: "byte list"
  in_r :: u32
  in_w :: u32
  in_e :: u32

datatype devread = Consoleread

datatype devwrite = Consolewrite

record devsw_entry =
  dev_read :: "devread option"
  dev_write :: "devwrite option"

record kcons = kfs +
  input :: input
  devsw :: "nat \<Rightarrow> devsw_entry"
  panicked :: bool

section \<open>The screen\<close>

abbreviation "CRTPORT \<equiv> (0x3D4 :: nat)"
abbreviation "CRT \<equiv> (0x800B8000 :: nat)"
abbreviation "BACKSPACE \<equiv> (0x100 :: int)"

definition crt_put :: "nat \<Rightarrow> u16 \<Rightarrow> ('z kdev_scheme, unit) K" where
  "crt_put pos w = kmod (\<lambda>s. s\<lparr>pmem := put_bytes (pmem s) (CRT + 2 * pos) [ucast w, ucast (drop_bit 8 w)]\<rparr>)"

definition crt_cursor :: "('z kdev_scheme, int) K" where
  "crt_cursor =
     kthen (outb CRTPORT 14) (
     kbind (inb (CRTPORT + 1)) (\<lambda>hi.
     kthen (outb CRTPORT 15) (
     kbind (inb (CRTPORT + 1)) (\<lambda>lo.
     kret (uint hi * 256 + uint lo)))))"

definition cgaputc :: "int \<Rightarrow> ('z kdev_scheme, unit) K" where
  "cgaputc c =
     kbind crt_cursor (\<lambda>pos.
     kbind (if c = 10 then kret (pos + (80 - pos mod 80))
            else if c = BACKSPACE then kret (if pos > 0 then pos - 1 else pos)
            else kthen (crt_put (nat pos) ((of_int c AND 0xFF) OR 0x0700)) (kret (pos + 1))) (\<lambda>pos.
     if pos < 0 \<or> pos > 25 * 80 then kpanic ''pos under/overflow''
     else
       kbind (if pos div 80 \<ge> 24 then
                kthen (kmod (\<lambda>s. s\<lparr>pmem := memmove (pmem s) CRT (CRT + 2 * 80) (2 * 23 * 80)\<rparr>)) (
                kthen (kmod (\<lambda>s. s\<lparr>pmem := memset (pmem s) (CRT + 2 * nat (pos - 80)) 0 (2 * nat (24 * 80 - (pos - 80)))\<rparr>))
                  (kret (pos - 80)))
              else kret pos) (\<lambda>pos.
       kthen (outb CRTPORT 14) (
       kthen (outb (CRTPORT + 1) (of_int (pos div 256))) (
       kthen (outb CRTPORT 15) (
       kthen (outb (CRTPORT + 1) (of_int pos))
         (crt_put (nat pos) (0x20 OR 0x0700))))))))"

section \<open>Output and input\<close>

definition consputc :: "int \<Rightarrow> ('z kcons_scheme, unit) K" where
  "consputc c =
     kbind (kget panicked) (\<lambda>frozen.
     if frozen then kthen (onhw cli) (\<lambda>_. Spin)
     else
       kthen (if c = BACKSPACE then kthen (uartputc 8) (kthen (uartputc 0x20) (uartputc 8))
              else uartputc (of_int c))
         (cgaputc c))"

definition set_input :: "(input \<Rightarrow> input) \<Rightarrow> ('z kcons_scheme, unit) K" where
  "set_input f = kmod (\<lambda>s. s\<lparr>input := f (input s)\<rparr>)"

definition erase_one :: "('z kcons_scheme, unit) K" where
  "erase_one = kthen (set_input (\<lambda>i. i\<lparr>in_e := in_e i - 1\<rparr>)) (consputc BACKSPACE)"

text \<open>The loop of control-U; it runs at most \<^verbatim>\<open>input.e - input.w\<close> times.\<close>

primrec kill_line :: "nat \<Rightarrow> ('z kcons_scheme, unit) K" where
  "kill_line 0 = kret ()"
| "kill_line (Suc n) =
     kbind (kget input) (\<lambda>i.
     if in_e i \<noteq> in_w i \<and> in_buf i ! (unat (in_e i - 1) mod INPUT_BUF) \<noteq> 10
     then kthen erase_one (kill_line n)
     else kret ())"

text \<open>One character of \<^verbatim>\<open>consoleintr\<close>; the result says whether it asks for a process listing.\<close>

definition console_char :: "int \<Rightarrow> ('z kcons_scheme, bool) K" where
  "console_char c =
     kbind (kget input) (\<lambda>i.
     if c = 0x10 then kret True
     else if c = 0x15 then kthen (kill_line (unat (in_e i - in_w i))) (kret False)
     else if c = 0x08 \<or> c = 0x7F then kthen (kwhen (in_e i \<noteq> in_w i) erase_one) (kret False)
     else if c \<noteq> 0 \<and> in_e i - in_r i < of_nat INPUT_BUF then
       (let c = (if c = 13 then 10 else c) in
        kthen (set_input (\<lambda>i. i\<lparr>in_buf := (in_buf i)[unat (in_e i) mod INPUT_BUF := of_int c], in_e := in_e i + 1\<rparr>)) (
        kthen (consputc c) (
        kthen (kwhen (c = 10 \<or> c = 4 \<or> in_e i + 1 = in_r i + of_nat INPUT_BUF)
                 (kthen (set_input (\<lambda>i. i\<lparr>in_w := in_e i\<rparr>)) (wakeup (Some ChanInput))))
          (kret False))))
     else kret False)"

primrec consoleintr_loop :: "nat \<Rightarrow> ('z kcons_scheme, int) K \<Rightarrow> bool \<Rightarrow> ('z kcons_scheme, bool) K" where
  "consoleintr_loop 0 getc dump = (\<lambda>s. Spin)"
| "consoleintr_loop (Suc n) getc dump =
     kbind getc (\<lambda>c.
     if c \<ge> 0 then kbind (console_char c) (\<lambda>d. consoleintr_loop n getc (dump \<or> d))
     else kret dump)"

definition consoleintr :: "nat \<Rightarrow> ('z kcons_scheme, int) K \<Rightarrow> ('z kcons_scheme, unit) K" where
  "consoleintr fuel getc =
     kthen (kacquire Lcons) (
     kbind (consoleintr_loop fuel getc False) (\<lambda>doprocdump.
     kthen (krelease Lcons)
       (kwhen doprocdump procdump)))"

definition uartintr :: "nat \<Rightarrow> ('z kcons_scheme, unit) K" where
  "uartintr fuel = consoleintr fuel uartgetc"

definition kbdintr :: "nat \<Rightarrow> ('z kcons_scheme, unit) K" where
  "kbdintr fuel = consoleintr fuel kbdgetc"

section \<open>The device\<close>

text \<open>
  The copying loop of \<^verbatim>\<open>consoleread\<close>: \<open>n\<close> bytes are still wanted, \<open>acc\<close> has been stored; the result is the count
  still wanted, \<open>None\<close> when the process was killed, and the bytes stored.
\<close>

primrec consoleread_loop :: "nat \<Rightarrow> nat \<Rightarrow> byte list \<Rightarrow> ('z kcons_scheme, nat option \<times> byte list) K" where
  "consoleread_loop 0 target acc = kret (Some 0, acc)"
| "consoleread_loop (Suc n) target acc =
     kbind (kget input) (\<lambda>i.
     if in_r i = in_w i then
       kbind myproc (\<lambda>p. kderef p (\<lambda>me.
       kbind (the_proc me) (\<lambda>pr.
       if p_killed pr then kret (None, acc)
       else kthen (sleep (Some ChanInput) (Some Lcons)) (kret (None, acc)))))
     else
       let c = in_buf i ! (unat (in_r i) mod INPUT_BUF) in
       kthen (set_input (\<lambda>i. i\<lparr>in_r := in_r i + 1\<rparr>))
         (if c = 4 then
            kthen (kwhen (Suc n < target) (set_input (\<lambda>i. i\<lparr>in_r := in_r i - 1\<rparr>)))
              (kret (Some (Suc n), acc))
          else if c = 10 then kret (Some n, acc @ [c])
          else consoleread_loop n target (acc @ [c])))"

definition consoleread_finish :: "nat \<Rightarrow> nat \<Rightarrow> nat option \<times> byte list \<Rightarrow> ('z kcons_scheme, int \<times> byte list) K" where
  "consoleread_finish ip target r =
     kthen (krelease Lcons) (
     kthen (ilock (Some ip))
       (case r of
          (None, bs) \<Rightarrow> kret (-1, bs)
        | (Some n, bs) \<Rightarrow> kret (int target - int n, bs)))"

definition consoleread :: "nat \<Rightarrow> int \<Rightarrow> ('z kcons_scheme, int \<times> byte list) K" where
  "consoleread ip n =
     kthen (iunlock (Some ip)) (
     kthen (kacquire Lcons) (
     kbind (consoleread_loop (nat n) (nat n) []) (consoleread_finish ip (nat n))))"

definition consoleread_resume :: "bool \<Rightarrow> nat \<Rightarrow> nat \<Rightarrow> nat \<Rightarrow> nat \<Rightarrow> byte list \<Rightarrow> ('z kcons_scheme, int \<times> byte list) K" where
  "consoleread_resume ie p ip n target acc =
     kthen (sleep_resume ie p Lcons) (
     kbind (consoleread_loop n target acc) (consoleread_finish ip target))"

definition consolewrite :: "nat \<Rightarrow> byte list \<Rightarrow> int \<Rightarrow> ('z kcons_scheme, int) K" where
  "consolewrite ip buf n =
     kthen (iunlock (Some ip)) (
     kthen (kacquire Lcons) (
     kthen (kfor [0..<nat n] (\<lambda>i. consputc (uint (buf ! i)))) (
     kthen (krelease Lcons) (
     kthen (ilock (Some ip))
       (kret n)))))"

definition consoleinit :: "('z kcons_scheme, unit) K" where
  "consoleinit =
     kthen (onhw (initlock Lcons)) (
     kthen (kmod (\<lambda>s. s\<lparr>devsw := (devsw s)(CONSOLE := (devsw s CONSOLE)\<lparr>dev_write := Some Consolewrite\<rparr>)\<rparr>)) (
     kthen (kmod (\<lambda>s. s\<lparr>devsw := (devsw s)(CONSOLE := (devsw s CONSOLE)\<lparr>dev_read := Some Consoleread\<rparr>)\<rparr>)) (
     kthen (kmod (\<lambda>s. s\<lparr>cons_locking := True\<rparr>))
       (ioapicenable 1 0))))"

section \<open>The line editor\<close>

text \<open>The input buffer as what it stands for: the bytes given to readers, and the line being edited.\<close>

definition ring :: "input \<Rightarrow> u32 \<Rightarrow> nat \<Rightarrow> byte list" where
  "ring i a n = window INPUT_BUF (in_buf i) a n"

definition in_abs :: "input \<Rightarrow> byte list \<times> byte list" where
  "in_abs i = (ring i (in_r i) (unat (in_w i - in_r i)), ring i (in_w i) (unat (in_e i - in_w i)))"

definition in_inv :: "input \<Rightarrow> bool" where
  "in_inv i \<longleftrightarrow> length (in_buf i) = INPUT_BUF \<and> unat (in_w i - in_r i) + unat (in_e i - in_w i) \<le> INPUT_BUF
     \<and> 10 \<notin> set (snd (in_abs i))"

text \<open>The editor: what a typed character does to the bytes for readers and to the current line.\<close>

definition ed_char :: "int \<Rightarrow> byte list \<times> byte list \<Rightarrow> byte list \<times> byte list" where
  "ed_char c = (\<lambda>(q, l).
     if c = 0x10 then (q, l)
     else if c = 0x15 then (q, [])
     else if c = 0x08 \<or> c = 0x7F then (q, butlast l)
     else if c \<noteq> 0 \<and> length q + length l < INPUT_BUF then
       (let c = (if c = 13 then 10 else c) in
        if c = 10 \<or> c = 4 \<or> length q + length l + 1 = INPUT_BUF then (q @ l @ [of_int c], []) else (q, l @ [of_int c]))
     else (q, l))"

interpretation inring: ring_buffer INPUT_BUF
  by unfold_locales simp_all

lemma ring_length [simp]: "length (ring i a n) = n"
  by (simp add: ring_def)

lemma ring_append: "ring i a (m + n) = ring i a m @ ring i (a + of_nat m) n"
  unfolding ring_def by (rule inring.split)

lemma ring_Suc: "ring i a (Suc n) = ring i a n @ [in_buf i ! ((unat a + n) mod INPUT_BUF)]"
  unfolding ring_def by (rule window_Suc)

lemma ring_put:
  assumes "n < INPUT_BUF"
  shows "ring (i\<lparr>in_buf := (in_buf i)[(unat a + n) mod INPUT_BUF := c]\<rparr>) a n = ring i a n"
  unfolding ring_def using inring.put_outside[OF assms] by simp

lemma in_total:
  assumes "in_inv i"
  shows "unat (in_e i - in_r i) = unat (in_w i - in_r i) + unat (in_e i - in_w i)" "unat (in_e i - in_r i) \<le> INPUT_BUF"
proof -
  let ?A = "unat (in_w i - in_r i)" and ?B = "unat (in_e i - in_w i)"
  have l: "?A + ?B \<le> INPUT_BUF" using assms by (simp add: in_inv_def)
  have "in_e i - in_r i = (in_w i - in_r i) + (in_e i - in_w i)" by simp
  also have "unat \<dots> = (?A + ?B) mod 2 ^ 32" unfolding unat_word_ariths(1) by simp
  also have "\<dots> = ?A + ?B" using l by simp
  finally show "unat (in_e i - in_r i) = ?A + ?B" .
  then show "unat (in_e i - in_r i) \<le> INPUT_BUF" using l by simp
qed

lemma in_lengths: "in_abs i = (q, l) \<Longrightarrow> length q = unat (in_w i - in_r i)" "in_abs i = (q, l) \<Longrightarrow> length l = unat (in_e i - in_w i)"
  by (auto simp: in_abs_def)

lemma in_erase:
  assumes "in_inv i" "in_e i \<noteq> in_w i" "in_abs i = (q, l)"
  shows "in_inv (i\<lparr>in_e := in_e i - 1\<rparr>)" "in_abs (i\<lparr>in_e := in_e i - 1\<rparr>) = (q, butlast l)" "in_buf i ! (unat (in_e i - 1) mod INPUT_BUF) = last l"
proof -
  let ?B = "unat (in_e i - in_w i)"
  have nz: "in_e i - in_w i \<noteq> 0" using assms(2) by simp
  then have B: "?B = Suc (?B - 1)" by (simp add: unat_gt_0)
  have e: "unat (in_e i - 1 - in_w i) = ?B - 1" using unat_pred[OF nz] by (simp add: diff_right_commute)
  have l: "l = ring i (in_w i) ?B" "q = ring i (in_r i) (unat (in_w i - in_r i))" using assms(3) by (simp_all add: in_abs_def)
  have s: "l = ring i (in_w i) (?B - 1) @ [in_buf i ! ((unat (in_w i) + (?B - 1)) mod INPUT_BUF)]" unfolding l(1) by (subst B) (rule ring_Suc)
  have r: "ring (i\<lparr>in_e := x\<rparr>) = ring i" for x by (simp add: ring_def fun_eq_iff)
  show a: "in_abs (i\<lparr>in_e := in_e i - 1\<rparr>) = (q, butlast l)" using e l(2) s by (simp add: in_abs_def r)
  have "in_e i - 1 = in_w i + of_nat (?B - 1)" using arg_cong[OF e, of "of_nat :: nat \<Rightarrow> u32"] by (simp add: algebra_simps)
  then have "unat (in_e i - 1) mod INPUT_BUF = (unat (in_w i) + (?B - 1)) mod INPUT_BUF" using inring.index_add[of "in_w i" "?B - 1"] by simp
  then show "in_buf i ! (unat (in_e i - 1) mod INPUT_BUF) = last l" using s by simp
  have "set (butlast l) \<subseteq> set l" by (auto dest: in_set_butlastD)
  then show "in_inv (i\<lparr>in_e := in_e i - 1\<rparr>)" using assms(1,3) a e B by (auto simp: in_inv_def)
qed

lemma in_put:
  fixes i :: input and c :: byte
  defines "j \<equiv> i\<lparr>in_buf := (in_buf i)[unat (in_e i) mod INPUT_BUF := c], in_e := in_e i + 1\<rparr>"
  assumes "in_inv i" "in_abs i = (q, l)" "length q + length l < INPUT_BUF"
  shows "in_abs j = (q, l @ [c])" "length (in_buf j) = INPUT_BUF" "in_abs (j\<lparr>in_w := in_e j\<rparr>) = (q @ l @ [c], [])"
    "unat (in_w j - in_r j) + unat (in_e j - in_w j) = length q + length l + 1"
proof -
  let ?A = "unat (in_w i - in_r i)" and ?B = "unat (in_e i - in_w i)"
  have ql: "q = ring i (in_r i) ?A" "l = ring i (in_w i) ?B" "length q = ?A" "length l = ?B" using assms(3) by (auto simp: in_abs_def)
  have lb: "length (in_buf i) = INPUT_BUF" using assms(2) by (simp add: in_inv_def)
  have w: "in_w i = in_r i + of_nat ?A" "in_e i = in_r i + of_nat (?A + ?B)" by simp_all
  have x: "unat (in_e i) mod INPUT_BUF = (unat (in_r i) + (?A + ?B)) mod INPUT_BUF" using inring.index_add[of "in_r i" "?A + ?B"] by (simp only: w(2)[symmetric])
  have rj: "ring j = ring (i\<lparr>in_buf := (in_buf i)[(unat (in_r i) + (?A + ?B)) mod INPUT_BUF := c]\<rparr>)"
    by (simp add: j_def ring_def fun_eq_iff x)
  have "ring j (in_r i) (?A + ?B) = ring i (in_r i) (?A + ?B)" unfolding rj by (rule ring_put[OF assms(4)[unfolded ql(3,4)]])
  then have all: "ring j (in_r i) (?A + ?B) = q @ l" unfolding ring_append[of i] ql(1,2) by simp
  have lst: "ring j (in_r i) (Suc (?A + ?B)) = q @ l @ [c]" unfolding ring_Suc all using lb by (simp add: j_def x)
  have qj: "ring j (in_r i) ?A = q" using all ql(3) unfolding ring_append by simp
  have lj: "ring j (in_w i) (Suc ?B) = l @ [c]"
    using lst ring_append[of j "in_r i" ?A "Suc ?B"] qj by simp
  have e1: "in_e i + 1 - in_w i = (in_e i - in_w i) + 1" "in_e i + 1 - in_r i = (in_e i - in_r i) + 1" by simp_all
  have B: "unat (in_e i + 1 - in_w i) = Suc ?B" unfolding e1 by (rule unat_succ) (use assms(4) ql(4) in simp)
  show "in_abs j = (q, l @ [c])" using qj lj B by (simp add: in_abs_def j_def)
  show "length (in_buf j) = INPUT_BUF" using lb by (simp add: j_def)
  show "unat (in_w j - in_r j) + unat (in_e j - in_w j) = length q + length l + 1" using B ql(3,4) by (simp add: j_def)
  have "unat (in_e i + 1 - in_r i) = Suc (?A + ?B)"
    unfolding e1 in_total(1)[OF assms(2), symmetric] by (rule unat_succ) (use assms(4) ql(3,4) in_total(1)[OF assms(2)] in simp)
  moreover have "ring (j\<lparr>in_w := y\<rparr>) = ring j" for y by (simp add: ring_def fun_eq_iff)
  ultimately show "in_abs (j\<lparr>in_w := in_e j\<rparr>) = (q @ l @ [c], [])" using lst by (simp add: in_abs_def) (simp add: j_def ring_def)
qed

section \<open>What the console sends\<close>

text \<open>What typing a character sends to the console: the calls of \<^verbatim>\<open>consputc\<close>, and the bytes each puts on the serial line.\<close>

definition echo :: "int \<Rightarrow> byte list \<times> byte list \<Rightarrow> int list" where
  "echo c = (\<lambda>(q, l).
     if c = 0x10 then []
     else if c = 0x15 then replicate (length l) BACKSPACE
     else if c = 0x08 \<or> c = 0x7F then (if l = [] then [] else [BACKSPACE])
     else if c \<noteq> 0 \<and> length q + length l < INPUT_BUF then [if c = 13 then 10 else c]
     else [])"

fun echoes :: "byte list \<Rightarrow> byte list \<times> byte list \<Rightarrow> int list" where
  "echoes [] e = []"
| "echoes (c # cs) e = echo (uint c) e @ echoes cs (ed_char (uint c) e)"

definition serial :: "int \<Rightarrow> byte list" where
  "serial c = (if c = BACKSPACE then [8, 0x20, 8] else [of_int c])"

abbreviation serials :: "int list \<Rightarrow> byte list" where
  "serials cs \<equiv> concat (map serial cs)"

definition sent :: "'z kdev_scheme \<Rightarrow> byte list" where
  "sent s = map snd (filter (\<lambda>x. fst x = 0x3F8) (outs s))"

text \<open>
  The status port while \<open>k\<close> bytes are sent: \<^verbatim>\<open>uartputc\<close> waits for the transmitter, at most 128 times; the result is what
  the port delivers afterwards, \<open>None\<close> when the values run out.
\<close>

fun polled :: "nat \<Rightarrow> byte list \<Rightarrow> byte list option" where
  "polled 0 st = Some st"
| "polled (Suc n) [] = None"
| "polled (Suc n) (x # st) = (if x AND 0x20 \<noteq> 0 then Some st else polled n st)"

fun send_all :: "nat \<Rightarrow> byte list \<Rightarrow> byte list option" where
  "send_all 0 st = Some st"
| "send_all (Suc k) st = (case polled 128 st of None \<Rightarrow> None | Some r \<Rightarrow> send_all k r)"

text \<open>The status port while the characters \<open>cs\<close> arrive and are echoed, until it reports that no more have come.\<close>

fun feed :: "byte list \<Rightarrow> byte list \<times> byte list \<Rightarrow> byte list \<Rightarrow> bool" where
  "feed cs e [] \<longleftrightarrow> False"
| "feed [] e (x # st) \<longleftrightarrow> x AND 1 = 0"
| "feed (c # cs) e (x # st) \<longleftrightarrow> x AND 1 \<noteq> 0 \<and>
     (case send_all (length (serials (echo (uint c) e))) st of None \<Rightarrow> False | Some r \<Rightarrow> feed cs (ed_char (uint c) e) r)"

text \<open>The cursor port over \<open>n\<close> calls of \<^verbatim>\<open>cgaputc\<close>: each reads a position on the 24 rows in use.\<close>

fun on_screen :: "nat \<Rightarrow> byte list \<Rightarrow> bool" where
  "on_screen 0 xs \<longleftrightarrow> True"
| "on_screen (Suc n) (hi # lo # xs) \<longleftrightarrow> uint hi * 256 + uint lo < 24 * 80 \<and> on_screen n xs"
| "on_screen (Suc n) xs \<longleftrightarrow> False"

definition off_screen :: "nat \<Rightarrow> bool" where
  "off_screen a \<longleftrightarrow> a < 0x800B8000 \<or> 0x800B8000 + 2 * (24 * 80) \<le> a"

lemma send_all_add: "send_all (m + n) st = (case send_all m st of None \<Rightarrow> None | Some r \<Rightarrow> send_all n r)"
  by (induction m arbitrary: st) (auto split: option.splits)

lemma on_screen_add: "on_screen (m + n) xs \<longleftrightarrow> on_screen m xs \<and> on_screen n (drop (2 * m) xs)"
proof (induction m arbitrary: xs)
  case (Suc m)
  then show ?case by (cases xs; cases "tl xs") (auto simp: numeral_2_eq_2)
qed simp

lemma uart_wait_net: "polled n (inports s 0x3FD) = Some r \<Longrightarrow> uart_wait n s = Ret () (s\<lparr>inports := (inports s)(0x3FD := r)\<rparr>)"
proof (induction n arbitrary: s)
  case 0
  then have "(inports s)(0x3FD := r) = inports s" by auto
  then show ?case by simp
next
  case (Suc n)
  then obtain x st where x: "inports s 0x3FD = x # st" by (cases "inports s 0x3FD") auto
  let ?s = "s\<lparr>inports := (inports s)(0x3FD := st)\<rparr>"
  have "uart_wait (Suc n) s = (if x AND 0x20 \<noteq> 0 then Ret () ?s else uart_wait n ?s)" using x by (simp add: kbind_apply inb_def)
  moreover have "(if x AND 0x20 \<noteq> 0 then Some st else polled n st) = Some r" using Suc.prems x by simp
  moreover have "inports ?s 0x3FD = st" by simp
  moreover have "?s\<lparr>inports := (inports ?s)(0x3FD := r)\<rparr> = s\<lparr>inports := (inports s)(0x3FD := r)\<rparr>" by simp
  ultimately show ?case using Suc.IH[of ?s] by (metis option.inject)
qed

lemma uartputc_net:
  "uart s \<Longrightarrow> polled 128 (inports s 0x3FD) = Some r \<Longrightarrow>
   uartputc c s = Ret () (s\<lparr>inports := (inports s)(0x3FD := r), outs := outs s @ [(0x3F8, c)]\<rparr>)"
  by (simp add: uartputc_def kdefs uart_wait_net outb_def)

lemma cgaputc_net:
  assumes "inports s 0x3D5 = hi # lo # rest" "uint hi * 256 + uint lo < 24 * 80"
  shows "\<exists>p m. cgaputc c s = Ret () (s\<lparr>inports := (inports s)(0x3D5 := rest),
      outs := outs s @ [(0x3D4, 14), (0x3D4, 15), (0x3D4, 14), (0x3D5, of_int (p div 256)), (0x3D4, 15), (0x3D5, of_int p)], pmem := m\<rparr>)
    \<and> 0 \<le> p \<and> p < 24 * 80 \<and> (\<forall>a. off_screen a \<longrightarrow> m a = pmem s a)"
proof -
  define p0 where "p0 = uint hi * 256 + uint lo"
  define s0 where "s0 = s\<lparr>outs := outs s @ [(0x3D4, 14), (0x3D4, 15)], inports := (inports s)(0x3D5 := rest)\<rparr>"
  define q where "q = (if c = 10 then p0 + (80 - p0 mod 80) else if c = BACKSPACE then if p0 > 0 then p0 - 1 else p0 else p0 + 1)"
  define m where "m = (if c = 10 \<or> c = BACKSPACE then pmem s else put_bytes (pmem s) (CRT + 2 * nat p0)
     [ucast (((of_int c :: u16) AND 0xFF) OR 0x0700), ucast (drop_bit 8 (((of_int c :: u16) AND 0xFF) OR 0x0700))])"
  define p where "p = (if q div 80 \<ge> 24 then q - 80 else q)"
  define m' where "m' = (if q div 80 \<ge> 24 then memset (memmove m CRT (CRT + 160) 3680) (CRT + 2 * nat (q - 80)) 0 (2 * nat (24 * 80 - (q - 80))) else m)"
  have p0: "0 \<le> p0" "p0 < 1920" using assms(2) by (simp_all add: p0_def)
  have "p0 - p0 mod 80 = 80 * (p0 div 80)" "p0 div 80 < 24" using p0 by (simp_all add: minus_mod_eq_mult_div)
  then have q: "0 \<le> q" "q \<le> 1920" using p0 by (auto simp: q_def)
  have cur: "crt_cursor s = Ret p0 s0" using assms(1) by (simp add: crt_cursor_def kdefs outb_def inb_def p0_def s0_def)
  have ch: "(if c = 10 then kret (p0 + (80 - p0 mod 80)) else if c = BACKSPACE then kret (if p0 > 0 then p0 - 1 else p0)
            else kthen (crt_put (nat p0) ((of_int c AND 0xFF) OR 0x0700)) (kret (p0 + 1))) s0 = Ret q (s0\<lparr>pmem := m\<rparr>)"
    by (simp add: kdefs crt_put_def q_def m_def s0_def)
  let ?t = "s0\<lparr>outs := outs s0 @ [(0x3D4, 14), (0x3D5, of_int (p div 256)), (0x3D4, 15), (0x3D5, of_int p)], pmem := put_bytes m' (CRT + 2 * nat p) [0x720, 7]\<rparr>"
  have "cgaputc c s = Ret () ?t"
    using q by (simp add: cgaputc_def kbind_apply cur ch) (simp add: kdefs p_def m'_def outb_def crt_put_def)
  moreover have p: "0 \<le> p" "p < 1920" using q unfolding p_def by auto
  moreover have "put_bytes m' (CRT + 2 * nat p) [0x720, 7] a = pmem s a" if off: "off_screen a" for a
  proof -
    have a: "a < CRT \<or> CRT + 3840 \<le> a" using off by (simp add: off_screen_def)
    have "m a = pmem s a" using a p0 by (auto simp: m_def put_bytes_def)
    moreover have "m' a = m a" using a q by (auto simp: m'_def memset_apply memmove_apply)
    ultimately show ?thesis using a p by (auto simp: put_bytes_def)
  qed
  ultimately show ?thesis by (intro exI[of _ p] exI[of _ "put_bytes m' (CRT + 2 * nat p) [0x720, 7]"]) (simp add: s0_def)
qed

section \<open>The handlers refine the editor\<close>

lemma kcons_simps [simp]:
  "input (klock lk s) = input s" "input (ksettle s) = input s" "input (awaken ch s) = input s" "inports (awaken ch s) = inports s" "uart (awaken ch s) = uart s"
  "(klock lk s)\<lparr>input := x\<rparr> = klock lk (s\<lparr>input := x\<rparr>)" "(ksettle s)\<lparr>input := x\<rparr> = ksettle (s\<lparr>input := x\<rparr>)"
  "kgood (s\<lparr>input := x\<rparr>) = kgood s" "kfree_lk lk (s\<lparr>input := x\<rparr>) = kfree_lk lk s" "cur (s\<lparr>input := x\<rparr>) = cur s"
  "inports (klock lk s) = inports s" "uart (klock lk s) = uart s" "outs (klock lk s) = outs s" "panicked (klock lk s) = panicked s"
  "panicked (awaken ch s) = panicked s" "outs (awaken ch s) = outs s" "pmem (awaken ch s) = pmem s"
  "(klock lk s)\<lparr>inports := y\<rparr> = klock lk (s\<lparr>inports := y\<rparr>)" "(klock lk s)\<lparr>outs := z\<rparr> = klock lk (s\<lparr>outs := z\<rparr>)"
  by (simp_all add: klock_def ksettle_def kgood_def kfree_lk_def cur_def awaken_def)

text \<open>The devices can take the characters \<open>cs\<close>, and have taken them.\<close>

definition can_echo :: "int list \<Rightarrow> 'z kcons_scheme \<Rightarrow> bool" where
  "can_echo cs s \<longleftrightarrow> uart s \<and> \<not> panicked s \<and> send_all (length (serials cs)) (inports s 0x3FD) \<noteq> None \<and> on_screen (length cs) (inports s 0x3D5)"

definition echoed :: "int list \<Rightarrow> 'z kcons_scheme \<Rightarrow> 'z kcons_scheme \<Rightarrow> bool" where
  "echoed cs s t \<longleftrightarrow> khw t = khw s \<and> uart t = uart s \<and> panicked t = panicked s
     \<and> send_all (length (serials cs)) (inports s 0x3FD) = Some (inports t 0x3FD)
     \<and> inports t 0x3D5 = drop (2 * length cs) (inports s 0x3D5) \<and> inports t 0x3F8 = inports s 0x3F8
     \<and> sent t = sent s @ serials cs \<and> (\<forall>a. off_screen a \<longrightarrow> pmem t a = pmem s a)"

lemma echoed_refl: "echoed [] s s"
  by (simp add: echoed_def)

lemma echoed_trans: "echoed as s t \<Longrightarrow> echoed bs t u \<Longrightarrow> echoed (as @ bs) s u"
  by (simp add: echoed_def send_all_add algebra_simps)

lemma can_echo_hd: "can_echo (as @ bs) s \<Longrightarrow> can_echo as s"
  by (auto simp: can_echo_def send_all_add on_screen_add split: option.splits)

lemma can_echo_tl: "can_echo (as @ bs) s \<Longrightarrow> echoed as s t \<Longrightarrow> can_echo bs t"
  by (auto simp: can_echo_def echoed_def send_all_add on_screen_add split: option.splits)

lemma can_echo_input [simp]: "can_echo cs (s\<lparr>input := x\<rparr>) = can_echo cs s"
  by (simp add: can_echo_def)

lemma sent_upd [simp]:
  "sent (s\<lparr>outs := outs s @ xs\<rparr>) = sent s @ map snd (filter (\<lambda>x. fst x = 0x3F8) xs)" "sent (s\<lparr>inports := i\<rparr>) = sent s"
  "sent (s\<lparr>pmem := m\<rparr>) = sent s" "sent (awaken ch s) = sent s"
  by (simp_all add: sent_def awaken_def)

lemma echoed_input [simp]: "echoed cs (s\<lparr>input := x\<rparr>) t = echoed cs s t" "echoed cs s (t\<lparr>input := x\<rparr>) = echoed cs s t"
  "echoed cs s (awaken ch t) = echoed cs s t"
  by (simp_all add: echoed_def sent_def)

lemma serial_net:
  assumes "uart s" "send_all (length (serial c)) (inports s 0x3FD) = Some r"
  shows "(if c = BACKSPACE then kthen (uartputc 8) (kthen (uartputc 0x20) (uartputc 8)) else uartputc (of_int c)) s =
    Ret () (s\<lparr>inports := (inports s)(0x3FD := r), outs := outs s @ map (Pair 0x3F8) (serial c)\<rparr>)"
  using assms by (auto simp: serial_def kdefs uartputc_net numeral_eq_Suc split: option.splits)

lemma consputc_net:
  assumes "can_echo [c] s"
  shows "\<exists>t. consputc c (klock lk s) = Ret () (klock lk t) \<and> echoed [c] s t \<and> input t = input s \<and> procs t = procs s"
proof -
  obtain r where r: "send_all (length (serial c)) (inports s 0x3FD) = Some r" using assms by (auto simp: can_echo_def)
  have u: "uart s" "\<not> panicked s" "on_screen (Suc 0) (inports s 0x3D5)" using assms by (simp_all add: can_echo_def)
  then obtain hi lo rest where h: "inports s 0x3D5 = hi # lo # rest" "uint hi * 256 + uint lo < 24 * 80"
    by (cases "(Suc 0, inports s 0x3D5)" rule: on_screen.cases) auto
  let ?s = "s\<lparr>inports := (inports s)(0x3FD := r), outs := outs s @ map (Pair 0x3F8) (serial c)\<rparr>"
  obtain p m where g: "cgaputc c (klock lk ?s) = Ret () ((klock lk ?s)\<lparr>inports := (inports ?s)(0x3D5 := rest),
      outs := outs ?s @ [(0x3D4, 14), (0x3D4, 15), (0x3D4, 14), (0x3D5, of_int (p div 256)), (0x3D4, 15), (0x3D5, of_int p)], pmem := m\<rparr>)"
    and m: "\<forall>a. off_screen a \<longrightarrow> m a = pmem s a"
    using cgaputc_net[of "klock lk ?s" hi lo rest c] h by auto
  let ?t = "?s\<lparr>inports := (inports ?s)(0x3D5 := rest),
      outs := outs ?s @ [(0x3D4, 14), (0x3D4, 15), (0x3D4, 14), (0x3D5, of_int (p div 256)), (0x3D4, 15), (0x3D5, of_int p)], pmem := m\<rparr>"
  have "consputc c (klock lk s) = Ret () (klock lk ?t)"
    using serial_net[of "klock lk s" c r] r u g by (simp add: consputc_def kbind_apply kthen_apply)
  moreover have "echoed [c] s ?t" using r h m by (simp add: echoed_def sent_def filter_map comp_def)
  ultimately show ?thesis by (intro exI[of _ ?t]) simp
qed

text \<open>Readers are woken exactly when a line is handed over.\<close>

definition handed :: "'z kcons_scheme \<Rightarrow> 'z kcons_scheme \<Rightarrow> bool" where
  "handed s t \<longleftrightarrow> (\<exists>x. fst (in_abs (input t)) = fst (in_abs (input s)) @ x
     \<and> procs t = (if x = [] then procs s else procs (awaken (Some ChanInput) s)))"

lemma awaken_procs_cong: "procs s = procs t \<Longrightarrow> procs (awaken ch s) = procs (awaken ch t)"
  by (simp add: awaken_def)

lemma awaken_procs_idem: "procs t = procs (awaken ch s) \<Longrightarrow> procs (awaken ch t) = procs (awaken ch s)"
  by (simp add: awaken_def)

lemma handed_refl: "fst (in_abs (input t)) = fst (in_abs (input s)) \<Longrightarrow> procs t = procs s \<Longrightarrow> handed s t"
  by (simp add: handed_def)

lemma handed_trans:
  assumes "handed s t" "handed t u"
  shows "handed s u"
proof -
  let ?a = "\<lambda>s. procs (awaken (Some ChanInput) s)"
  obtain x y where x: "fst (in_abs (input t)) = fst (in_abs (input s)) @ x" "procs t = (if x = [] then procs s else ?a s)"
    and y: "fst (in_abs (input u)) = fst (in_abs (input t)) @ y" "procs u = (if y = [] then procs t else ?a t)"
    using assms unfolding handed_def by blast
  have "?a t = ?a s" using x(2) awaken_procs_cong[of t s] awaken_procs_idem[of t _ s] by (cases "x = []") simp_all
  then show ?thesis unfolding handed_def using x y by (intro exI[of _ "x @ y"]) simp
qed

lemma kill_line_net:
  "in_inv (input s) \<Longrightarrow> in_abs (input s) = (q, l) \<Longrightarrow> length l = n \<Longrightarrow> can_echo (replicate n BACKSPACE) s \<Longrightarrow>
   \<exists>t. kill_line n (klock Lcons s) = Ret () (klock Lcons t) \<and> echoed (replicate n BACKSPACE) s t \<and> handed s t
     \<and> in_inv (input t) \<and> in_abs (input t) = (q, [])"
proof (induction n arbitrary: s l)
  case 0
  then show ?case by (auto simp: echoed_refl handed_refl)
next
  case (Suc n)
  let ?i = "input s"
  have ne: "in_e ?i \<noteq> in_w ?i" using Suc.prems in_lengths(2)[OF Suc.prems(2)] by auto
  note E = in_erase[OF Suc.prems(1) ne Suc.prems(2)]
  have "last l \<in> set l" "10 \<notin> set l" using Suc.prems last_in_set[of l] by (cases "l = []", auto simp: in_inv_def)
  then have b: "in_buf ?i ! (unat (in_e ?i - 1) mod INPUT_BUF) \<noteq> 10" using E(3) by auto
  let ?s = "s\<lparr>input := ?i\<lparr>in_e := in_e ?i - 1\<rparr>\<rparr>"
  have ce: "can_echo ([BACKSPACE] @ replicate n BACKSPACE) s" using Suc.prems(4) by simp
  have "can_echo [BACKSPACE] ?s" using ce can_echo_hd[OF ce] by simp
  then obtain u where u: "consputc BACKSPACE (klock Lcons ?s) = Ret () (klock Lcons u)" "echoed [BACKSPACE] s u" "input u = input ?s" "procs u = procs s"
    using consputc_net[of BACKSPACE ?s Lcons] by auto
  have "handed s u" using u(3,4) E(2) Suc.prems(2) by (intro handed_refl) simp_all
  moreover obtain t where "kill_line n (klock Lcons u) = Ret () (klock Lcons t)" "echoed (replicate n BACKSPACE) u t" "handed u t"
    "in_inv (input t)" "in_abs (input t) = (q, [])"
    using Suc.IH[of u "butlast l"] E(1,2) Suc.prems(3) u(3) can_echo_tl[OF ce u(2)] by auto
  ultimately show ?case using ne b u(1) echoed_trans[OF u(2), of "replicate n BACKSPACE" t] handed_trans[of s u t]
    by (intro exI[of _ t]) (simp add: kdefs erase_one_def set_input_def)
qed

lemma byte_of_int: "0 \<le> c \<Longrightarrow> c < 256 \<Longrightarrow> (10 :: byte) = of_int c \<longleftrightarrow> c = 10"
proof -
  assume "0 \<le> c" "c < 256"
  then have u: "uint (of_int c :: byte) = c" by (simp add: uint_word_of_int)
  show ?thesis
  proof
    assume "(10 :: byte) = of_int c"
    from arg_cong[OF this, of uint] u show "c = 10" by simp
  qed simp
qed

lemma console_char_net:
  assumes k: "kidle s" and I: "in_inv (input s)" and a: "in_abs (input s) = (q, l)" and c: "0 \<le> c" "c < 256" and e: "can_echo (echo c (q, l)) s"
  shows "\<exists>t. console_char c (klock Lcons s) = Ret (c = 0x10) (klock Lcons t) \<and> echoed (echo c (q, l)) s t \<and> handed s t
    \<and> in_inv (input t) \<and> in_abs (input t) = ed_char c (q, l)"
proof -
  let ?i = "input s"
  note L = in_lengths[OF a] and T = in_total[OF I]
  consider "c = 0x10" | "c = 0x15" | "c = 0x08 \<or> c = 0x7F" | "c \<notin> {0x10, 0x15, 0x08, 0x7F}" by auto
  then show ?thesis
  proof cases
    case 1
    then show ?thesis using I a by (intro exI[of _ s]) (simp add: console_char_def kdefs ed_char_def echo_def echoed_refl handed_refl)
  next
    case 2
    then show ?thesis using kill_line_net[OF I a L(2)] e L(2) by (auto simp: console_char_def kdefs ed_char_def echo_def)
  next
    case 3
    show ?thesis
    proof (cases "in_e ?i = in_w ?i")
      case True
      then have "l = []" using L(2) by simp
      then show ?thesis using 3 True I a
        by (intro exI[of _ s]) (auto simp: console_char_def kdefs ed_char_def echo_def echoed_refl handed_refl)
    next
      case False
      let ?s = "s\<lparr>input := ?i\<lparr>in_e := in_e ?i - 1\<rparr>\<rparr>"
      have "in_e ?i - in_w ?i \<noteq> 0" using False by simp
      then have "l \<noteq> []" using L(2) by (auto simp: unat_eq_zero)
      then have ec: "echo c (q, l) = [BACKSPACE]" using 3 by (auto simp: echo_def)
      obtain u where u: "consputc BACKSPACE (klock Lcons ?s) = Ret () (klock Lcons u)" "echoed [BACKSPACE] s u" "input u = input ?s" "procs u = procs s"
        using consputc_net[of BACKSPACE ?s Lcons] e ec by auto
      note E = in_erase(1,2)[OF I False a]
      have "handed s u" using u(3,4) E(2) a by (intro handed_refl) simp_all
      then show ?thesis using 3 False u E ec
        by (intro exI[of _ u]) (auto simp: console_char_def kdefs ed_char_def erase_one_def set_input_def)
    qed
  next
    case 4
    have room: "in_e ?i - in_r ?i < of_nat INPUT_BUF \<longleftrightarrow> length q + length l < INPUT_BUF" using T(1) L by (simp add: word_less_nat_alt)
    have full: "in_e ?i + 1 = in_r ?i + of_nat INPUT_BUF \<longleftrightarrow> length q + length l + 1 = INPUT_BUF"
    proof -
      have "in_e ?i + 1 = in_r ?i + of_nat INPUT_BUF \<longleftrightarrow> in_e ?i - in_r ?i = 127" by (auto simp: algebra_simps)
      also have "\<dots> \<longleftrightarrow> unat (in_e ?i - in_r ?i) = 127" by (simp add: word_unat_eq_iff)
      finally show ?thesis using T(1) L by simp
    qed
    show ?thesis
    proof (cases "c \<noteq> 0 \<and> length q + length l < INPUT_BUF")
      case False
      then show ?thesis using 4 I a room
        by (intro exI[of _ s]) (auto simp: console_char_def kdefs ed_char_def echo_def echoed_refl handed_refl)
    next
      case True
      define d where "d = (if c = 13 then 10 else c)"
      let ?j = "?i\<lparr>in_buf := (in_buf ?i)[unat (in_e ?i) mod INPUT_BUF := of_int d], in_e := in_e ?i + 1\<rparr>"
      note P = in_put[OF I a conjunct2[OF True], of "of_int d"]
      have ec: "echo c (q, l) = [d]" using 4 True by (simp add: echo_def d_def)
      obtain u where u: "consputc d (klock Lcons (s\<lparr>input := ?j\<rparr>)) = Ret () (klock Lcons u)" "echoed [d] s u" "input u = ?j" "procs u = procs s"
        using consputc_net[of d "s\<lparr>input := ?j\<rparr>" Lcons] e ec by auto
      have ku: "kidle u" using k u(2) by (simp add: echoed_def)
      show ?thesis
      proof (cases "d = 10 \<or> d = 4 \<or> length q + length l + 1 = INPUT_BUF")
        case fin: True
        let ?t = "awaken (Some ChanInput) (u\<lparr>input := ?j\<lparr>in_w := in_e ?j\<rparr>\<rparr>)"
        have "console_char c (klock Lcons s) = Ret (c = 0x10) (klock Lcons ?t)"
          using 4 ku True fin room full u(1,3) d_def[symmetric]
          by (simp add: console_char_def kdefs Let_def set_input_def wakeup_awaken)
        moreover have ab: "in_abs (input ?t) = (q @ l @ [of_int d], [])" using P(3) by simp
        moreover have "ed_char c (q, l) = (q @ l @ [of_int d], [])" using 4 True fin d_def[symmetric] by (simp add: ed_char_def Let_def)
        moreover have "in_inv (input ?t)" using P(2,3) True in_lengths(1)[OF P(3)] by (auto simp: in_inv_def)
        moreover have "handed s ?t"
          unfolding handed_def using ab a u(4) awaken_procs_cong[of ?t s] by (intro exI[of _ "l @ [of_int d]"]) (simp add: awaken_def)
        ultimately show ?thesis using u(2) ec by (intro exI[of _ ?t]) simp
      next
        case more: False
        have "console_char c (klock Lcons s) = Ret (c = 0x10) (klock Lcons u)"
          using 4 True more room full u(1,3) d_def[symmetric]
          by (simp add: console_char_def kdefs Let_def set_input_def)
        moreover have ab: "in_abs (input u) = (q, l @ [of_int d])" using P(1) u(3) by simp
        moreover have "ed_char c (q, l) = (q, l @ [of_int d])" using 4 True more d_def[symmetric] by (simp add: ed_char_def Let_def)
        moreover have "0 \<le> d" "d < 256" using c by (simp_all add: d_def)
        then have "in_inv (input u)" using P(1,2,4) True more I a u(3) by (auto simp: in_inv_def byte_of_int)
        moreover have "handed s u" using u(4) ab a by (intro handed_refl) simp_all
        ultimately show ?thesis using u(2) ec by (intro exI[of _ u]) simp
      qed
    qed
  qed
qed

text \<open>Characters arriving on the serial line.\<close>

lemma uart_loop_net:
  assumes "kidle s" "in_inv (input s)" "uart s" "\<not> panicked s" "in_abs (input s) = e" "feed cs e (inports s 0x3FD)" "inports s 0x3F8 = cs @ rest"
    "on_screen (length (echoes cs e)) (inports s 0x3D5)" "length cs < n"
  shows "\<exists>t. consoleintr_loop n uartgetc d (klock Lcons s) = Ret (d \<or> 0x10 \<in> set cs) (klock Lcons t) \<and> khw t = khw s \<and> in_inv (input t)
    \<and> in_abs (input t) = fold (\<lambda>c. ed_char (uint c)) cs e \<and> handed s t \<and> sent t = sent s @ serials (echoes cs e)
    \<and> (\<forall>a. off_screen a \<longrightarrow> pmem t a = pmem s a)"
  using assms
proof (induction cs arbitrary: s e n d)
  case Nil
  then obtain m x st where n: "n = Suc m" "inports s 0x3FD = x # st" "x AND 1 = 0" by (cases n; cases "inports s 0x3FD") auto
  let ?t = "s\<lparr>inports := (inports s)(0x3FD := st)\<rparr>"
  have "consoleintr_loop n uartgetc d (klock Lcons s) = Ret d (klock Lcons ?t)" using n Nil by (simp add: kdefs uartgetc_def inb_def)
  moreover have "handed s ?t" by (intro handed_refl) simp_all
  ultimately show ?case using Nil.prems by (intro exI[of _ ?t]) simp
next
  case (Cons c cs)
  then obtain m where m: "n = Suc m" "length cs < m" by (cases n) auto
  obtain x st where x: "inports s 0x3FD = x # st" "x AND 1 \<noteq> 0" using Cons.prems(6) by (cases "inports s 0x3FD") auto
  obtain r where r: "send_all (length (serials (echo (uint c) e))) st = Some r" "feed cs (ed_char (uint c) e) r"
    using Cons.prems(6) x by (auto split: option.splits)
  let ?s = "s\<lparr>inports := (inports s)(0x3FD := st, 0x3F8 := cs @ rest)\<rparr>"
  have g: "uartgetc (klock Lcons s) = Ret (uint c) (klock Lcons ?s)" using Cons.prems x by (simp add: kdefs uartgetc_def inb_def fun_upd_twist)
  obtain q l where ql: "e = (q, l)" by (cases e)
  have k: "kidle ?s" "in_inv (input ?s)" "in_abs (input ?s) = (q, l)" using Cons.prems ql by simp_all
  have c: "0 \<le> uint c" "uint c < 256" using uint_lt2p[of c] by simp_all
  have scr: "on_screen (length (echo (uint c) e)) (inports s 0x3D5)"
    "on_screen (length (echoes cs (ed_char (uint c) e))) (drop (2 * length (echo (uint c) e)) (inports s 0x3D5))"
    using Cons.prems(8) by (simp_all add: on_screen_add)
  then have "can_echo (echo (uint c) (q, l)) ?s" using Cons.prems(3,4) r(1) ql by (simp add: can_echo_def)
  then obtain u where u: "console_char (uint c) (klock Lcons ?s) = Ret (uint c = 0x10) (klock Lcons u)" "echoed (echo (uint c) e) ?s u" "handed ?s u"
    "in_inv (input u)" "in_abs (input u) = ed_char (uint c) e"
    using console_char_net[OF k c] ql by blast
  have f: "khw u = khw s" "uart u" "\<not> panicked u" "inports u 0x3FD = r" "inports u 0x3D5 = drop (2 * length (echo (uint c) e)) (inports s 0x3D5)"
    "inports u 0x3F8 = cs @ rest" "sent u = sent s @ serials (echo (uint c) e)" "\<forall>a. off_screen a \<longrightarrow> pmem u a = pmem s a"
    using u(2) Cons.prems(3,4) r(1) by (simp_all add: echoed_def)
  have h: "handed s u" by (rule handed_trans[OF handed_refl u(3)]) simp_all
  have e: "uint c = 0x10 \<longleftrightarrow> 0x10 = c" by (auto simp: word_uint_eq_iff)
  obtain t where t: "consoleintr_loop m uartgetc (d \<or> 0x10 = c) (klock Lcons u) = Ret ((d \<or> 0x10 = c) \<or> 0x10 \<in> set cs) (klock Lcons t)" "khw t = khw u"
    "in_inv (input t)" "in_abs (input t) = fold (\<lambda>c. ed_char (uint c)) cs (ed_char (uint c) e)" "handed u t"
    "sent t = sent u @ serials (echoes cs (ed_char (uint c) e))" "\<forall>a. off_screen a \<longrightarrow> pmem t a = pmem u a"
    using Cons.IH[OF _ u(4) f(2,3) u(5) _ f(6), of m "d \<or> 0x10 = c"] Cons.prems(1) f(1,4,5) r(2) scr(2) m(2) by auto
  have "consoleintr_loop n uartgetc d (klock Lcons s) = Ret (d \<or> 0x10 \<in> set (c # cs)) (klock Lcons t)"
    using m(1) g u(1) t(1) e by (simp add: kdefs disj_assoc)
  then show ?case using t(2-4,6,7) f(1,7,8) handed_trans[OF h t(5)] by (intro exI[of _ t]) simp
qed

section \<open>Properties\<close>

text \<open>
  C13: The console input buffer implements a line editor.  When the characters \<open>cs\<close> arrive on the serial line, the interrupt handler
  stores and echoes them and releases its lock, and then lists the processes if control-P was among them.  The bytes available to
  readers and the line being edited, as the ring buffer with its free-running
  32-bit indices shows them, are those the editor has after typing \<open>cs\<close>: control-U empties the line,
  backspace drops its last byte, return and end-of-file hand the line over, and nothing is stored once 128
  bytes are held.  What goes out on the serial line is the echo of those characters, in order; on the screen only display memory is
  written.  Sleeping readers are woken when a line has been handed over, and only then.  The hypotheses are on the devices: the status port
  delivers enough values, however often the transmitter is busy, and the cursor is on the screen.
\<close>

theorem uartintr_edits:
  fixes s :: "'z kcons_scheme"
  defines "e \<equiv> in_abs (input s)"
  assumes "kidle s" "in_inv (input s)" "uart s" "\<not> panicked s" "feed cs e (inports s 0x3FD)" "inports s 0x3F8 = cs @ rest"
    "on_screen (length (echoes cs e)) (inports s 0x3D5)" "length cs < fuel"
  shows "\<exists>t. uartintr fuel s = kwhen (0x10 \<in> set cs) procdump t \<and> kidle t \<and> in_inv (input t)
    \<and> in_abs (input t) = fold (\<lambda>c. ed_char (uint c)) cs e \<and> sent t = sent s @ serials (echoes cs e)
    \<and> procs t = (if fst (in_abs (input t)) = fst e then procs s else procs (awaken (Some ChanInput) s))
    \<and> (\<forall>a. off_screen a \<longrightarrow> pmem t a = pmem s a)"
proof -
  obtain t where t: "consoleintr_loop fuel uartgetc False (klock Lcons s) = Ret (0x10 \<in> set cs) (klock Lcons t)" "khw t = khw s" "in_inv (input t)"
    "in_abs (input t) = fold (\<lambda>c. ed_char (uint c)) cs e" "handed s t" "sent t = sent s @ serials (echoes cs e)" "\<forall>a. off_screen a \<longrightarrow> pmem t a = pmem s a"
    using uart_loop_net[OF assms(2-5) meta_eq_to_obj_eq[OF e_def, symmetric] assms(6-9), of False] by auto
  have "uartintr fuel s = kwhen (0x10 \<in> set cs) procdump t" using t(1,2) assms(2) by (simp add: uartintr_def consoleintr_def kdefs)
  moreover have "procs t = (if fst (in_abs (input t)) = fst e then procs s else procs (awaken (Some ChanInput) s))"
    using t(5) by (auto simp: handed_def e_def)
  ultimately show ?thesis using t(2-4,6,7) assms(2) by (intro exI[of _ t]) simp
qed

definition kcons0 :: "(nat \<Rightarrow> byte list) \<Rightarrow> kcons" where
  "kcons0 ins = kfs.extend ((kfs0 disk0)\<lparr>inports := ins, uart := True\<rparr>)
     \<lparr>input = \<lparr>in_buf = replicate 128 0, in_r = 0, in_w = 0, in_e = 0\<rparr>, devsw = \<lambda>_. \<lparr>dev_read = None, dev_write = None\<rparr>, panicked = False\<rparr>"

lemma kcons0_simps [simp]:
  "kidle (kcons0 ins)" "input (kcons0 ins) = \<lparr>in_buf = replicate 128 0, in_r = 0, in_w = 0, in_e = 0\<rparr>" "inports (kcons0 ins) = ins" "uart (kcons0 ins)"
  "outs (kcons0 ins) = []" "\<not> panicked (kcons0 ins)"
proof -
  have "kidle (kfs0 disk0)" by simp
  then show "kidle (kcons0 ins)" by (simp add: kcons0_def kfs.defs)
qed (simp_all add: kcons0_def kfs.defs kfs0_def klog.defs klog0_def kbio.defs kbio0_def kslp0_def kpr0_def kslp.defs kpr.defs kdev.defs)

text \<open>
  Typing ``hi'', a backspace, ``o'' and return, with a transmitter that is busy at the first poll of every character.
\<close>

definition typing :: "nat \<Rightarrow> byte list" where
  "typing p =
     (if p = 0x3FD then [1, 0, 0x20, 1, 0, 0x20, 1, 0x20, 0x20, 0x20, 1, 0x20, 1, 0x20, 0]
      else if p = 0x3F8 then [104, 105, 8, 111, 13]
      else [1, 2, 1, 2, 1, 2, 1, 2, 1, 2])"

lemma port_numeral:
  "polled (numeral k) (x # st) = (if x AND 0x20 \<noteq> 0 then Some st else polled (pred_numeral k) st)"
  "send_all (numeral k) st = (case polled 128 st of None \<Rightarrow> None | Some r \<Rightarrow> send_all (pred_numeral k) r)"
  "on_screen (numeral k) (hi # lo # xs) \<longleftrightarrow> uint hi * 256 + uint lo < 24 * 80 \<and> on_screen (pred_numeral k) xs"
  by (simp_all add: numeral_eq_Suc)

theorem uartintr_edits_witness:
  "\<exists>t. uartintr 9 (kcons0 typing) = Ret () t \<and> in_abs (input t) = ([104, 111, 10], []) \<and> sent t = [104, 105, 8, 32, 8, 111, 10]"
proof -
  let ?s = "kcons0 typing"
  have i: "in_inv (input ?s)" "in_abs (input ?s) = ([], [])" by (simp_all add: in_inv_def in_abs_def ring_def)
  have e: "echoes [104, 105, 8, 111, 13] ([], []) = [104, 105, BACKSPACE, 111, 10]" by (simp add: echo_def ed_char_def Let_def)
  have f: "feed [104, 105, 8, 111, 13] ([], []) (typing 0x3FD)"
    by (simp add: typing_def echo_def ed_char_def Let_def serial_def port_numeral)
  have c: "on_screen (length [104, 105, BACKSPACE, 111, 10]) (typing 0x3D5)" by (simp add: typing_def)
  have r: "typing 0x3F8 = [104, 105, 8, 111, 13] @ []" by (simp add: typing_def)
  obtain t where "uartintr 9 ?s = Ret () t" "in_abs (input t) = fold (\<lambda>c. ed_char (uint c)) [104 :: byte, 105, 8, 111, 13] ([], [])"
    "sent t = sent ?s @ serials [104, 105, BACKSPACE, 111, 10]"
    using uartintr_edits[of ?s "[104, 105, 8, 111, 13]" "[]" 9, unfolded i(2) e kcons0_simps(3), OF kcons0_simps(1) i(1) kcons0_simps(4,6) f r c]
    by (auto simp: kdefs)
  then show ?thesis by (simp add: ed_char_def Let_def serial_def sent_def)
qed

text \<open>
  C39: \<^verbatim>\<open>cgaputc\<close> stays on the screen.  With the cursor on one of the 24 rows in use, printing any character or a backspace returns
  without a panic, leaves the cursor on those rows, and stores nothing outside their part of the
  display memory, also when the screen scrolls.
\<close>

theorem cgaputc_on_screen:
  assumes "inports s 0x3D5 = hi # lo # rest" "uint hi * 256 + uint lo < 24 * 80"
  shows "\<exists>t p. cgaputc c s = Ret () t \<and> 0 \<le> p \<and> p < 24 * 80
    \<and> outs t = outs s @ [(0x3D4, 14), (0x3D4, 15), (0x3D4, 14), (0x3D5, of_int (p div 256)), (0x3D4, 15), (0x3D5, of_int p)]
    \<and> (\<forall>a. a < 0x800B8000 \<or> 0x800B8000 + 2 * (24 * 80) \<le> a \<longrightarrow> pmem t a = pmem s a)"
proof -
  obtain p m t where "cgaputc c s = Ret () t" and t: "t = s\<lparr>inports := (inports s)(0x3D5 := rest),
      outs := outs s @ [(0x3D4, 14), (0x3D4, 15), (0x3D4, 14), (0x3D5, of_int (p div 256)), (0x3D4, 15), (0x3D5, of_int p)], pmem := m\<rparr>"
    and "0 \<le> p" "p < 24 * 80" "\<forall>a. off_screen a \<longrightarrow> m a = pmem s a"
    using cgaputc_net[OF assms, of c] by blast
  then show ?thesis by (intro exI[of _ t] exI[of _ p]) (simp add: off_screen_def)
qed

theorem cgaputc_on_screen_witness:
  "\<exists>t. cgaputc 10 (kcons0 (\<lambda>_. [7, 127])) = Ret () t \<and> length (outs t) = 6"
  using cgaputc_on_screen[of "kcons0 (\<lambda>_. [7, 127])" 7 127 "[]" 10] by auto

end
