(* ===== verification/Dir.thy ===== *)
theory Dir
  imports Console
begin

text \<open>
  Files, directories and path names (\<^verbatim>\<open>fs.c\<close> from \<^verbatim>\<open>stati\<close> on).  \<^verbatim>\<open>readi\<close> returns its result together with the bytes it
  stored at \<^verbatim>\<open>dst\<close>, \<^verbatim>\<open>writei\<close> takes the bytes at \<^verbatim>\<open>src\<close>; the caller moves them from and to memory.  A
  path is the list of its bytes without the NUL.  The name buffer of \<^verbatim>\<open>skipelem\<close> is the list of its
  bytes before the first NUL, at most \<open>DIRSIZ\<close>; no code looks beyond.
\<close>

definition stati :: "nat \<Rightarrow> stat \<Rightarrow> ('z kfs_scheme, stat) K" where
  "stati i st =
     kbind (the_inode i) (\<lambda>ip.
     kret (st\<lparr>st_dev := i_dev ip, st_ino := i_inum ip, st_type := i_type ip, st_nlink := i_nlink ip, st_size := i_size ip\<rparr>))"

section \<open>Reading and writing\<close>

definition call_read :: "devread \<Rightarrow> nat \<Rightarrow> u32 \<Rightarrow> ('z kcons_scheme, int \<times> byte list) K" where
  "call_read f i n = (case f of Consoleread \<Rightarrow> consoleread i (sint n))"

definition call_write :: "devwrite \<Rightarrow> nat \<Rightarrow> byte list \<Rightarrow> u32 \<Rightarrow> ('z kcons_scheme, int) K" where
  "call_write f i src n = (case f of Consolewrite \<Rightarrow> consolewrite i src (sint n))"

function readi_loop :: "nat \<Rightarrow> nat \<Rightarrow> nat \<Rightarrow> nat \<Rightarrow> byte list \<Rightarrow> ('z kfs_scheme, byte list) K" where
  "readi_loop i tot off n acc =
     (if tot < n then
        let m = min (n - tot) (BSIZE - off mod BSIZE) in
        kbind (the_inode i) (\<lambda>ip.
        kbind (bmap i (off div BSIZE)) (\<lambda>a.
        kbind (bread (i_dev ip) (unat a)) (\<lambda>bp.
        kbind (bdata bp) (\<lambda>d.
        kthen (brelse bp)
          (readi_loop i (tot + m) (off + m) n (acc @ sub_bytes d (off mod BSIZE) m))))))
      else kret acc)"
  by pat_completeness auto
termination by (relation "measure (\<lambda>(i, tot, off, n, acc). n - tot)") auto

declare readi_loop.simps [simp del]

definition readi :: "nat \<Rightarrow> u32 \<Rightarrow> u32 \<Rightarrow> ('z kcons_scheme, int \<times> byte list) K" where
  "readi i off n =
     kbind (the_inode i) (\<lambda>ip.
     if i_type ip = T_DEV then
       (if sint (i_major ip) < 0 \<or> sint (i_major ip) \<ge> int NDEV then kret (-1, [])
        else
          kbind (kget (\<lambda>s. dev_read (devsw s (nat (sint (i_major ip)))))) (\<lambda>f.
          case f of None \<Rightarrow> kret (-1, []) | Some g \<Rightarrow> call_read g i n))
     else if off > i_size ip \<or> off + n < off then kret (-1, [])
     else
       (let n = (if off + n > i_size ip then i_size ip - off else n) in
        kbind (readi_loop i 0 (unat off) (unat n) []) (\<lambda>bs.
        kret (sint n, bs))))"

function writei_loop :: "nat \<Rightarrow> byte list \<Rightarrow> nat \<Rightarrow> nat \<Rightarrow> nat \<Rightarrow> ('z kfs_scheme, unit) K" where
  "writei_loop i src tot off n =
     (if tot < n then
        let m = min (n - tot) (BSIZE - off mod BSIZE) in
        kbind (the_inode i) (\<lambda>ip.
        kbind (bmap i (off div BSIZE)) (\<lambda>a.
        kbind (bread (i_dev ip) (unat a)) (\<lambda>bp.
        kbind (bdata bp) (\<lambda>d.
        kthen (set_bdata bp (upd_bytes d (off mod BSIZE) (sub_bytes src tot m))) (
        kthen (log_write bp) (
        kthen (brelse bp)
          (writei_loop i src (tot + m) (off + m) n)))))))
      else kret ())"
  by pat_completeness auto
termination by (relation "measure (\<lambda>(i, src, tot, off, n). n - tot)") auto

declare writei_loop.simps [simp del]

definition writei :: "nat \<Rightarrow> byte list \<Rightarrow> u32 \<Rightarrow> u32 \<Rightarrow> ('z kcons_scheme, int) K" where
  "writei i src off n =
     kbind (the_inode i) (\<lambda>ip.
     if i_type ip = T_DEV then
       (if sint (i_major ip) < 0 \<or> sint (i_major ip) \<ge> int NDEV then kret (-1)
        else
          kbind (kget (\<lambda>s. dev_write (devsw s (nat (sint (i_major ip)))))) (\<lambda>f.
          case f of None \<Rightarrow> kret (-1) | Some g \<Rightarrow> call_write g i src n))
     else if off > i_size ip \<or> off + n < off then kret (-1)
     else if off + n > of_nat (MAXFILE * BSIZE) then kret (-1)
     else
       kthen (writei_loop i src 0 (unat off) (unat n)) (
       kthen (kwhen (n > 0 \<and> off + n > i_size ip) (
         kthen (kmod (upd_inode i (\<lambda>ip. ip\<lparr>i_size := off + n\<rparr>)))
           (iupdate i)))
         (kret (sint n))))"

section \<open>Directories\<close>

definition lview :: "byte list \<Rightarrow> view" where
  "lview xs k = (if k < length xs then xs ! k else 0)"

definition namecmp :: "byte list \<Rightarrow> byte list \<Rightarrow> int" where
  "namecmp s t = strncmp (lview s) (lview t) DIRSIZ"

text \<open>The offsets a directory loop visits.\<close>

definition dir_offs :: "u32 \<Rightarrow> nat list" where
  "dir_offs sz = map (\<lambda>k. DIRENT_SIZE * k) [0..<(unat sz + 15) div DIRENT_SIZE]"

definition dirlookup_at :: "nat \<Rightarrow> byte list \<Rightarrow> nat \<Rightarrow> ('z kcons_scheme, (nat \<times> nat) option) K" where
  "dirlookup_at dp name off =
     kbind (readi dp (of_nat off) (of_nat DIRENT_SIZE)) (\<lambda>(r, bs).
     if r \<noteq> int DIRENT_SIZE then kpanic ''dirlookup read''
     else
       let de = dirent_of bs in
       if de_inum de = 0 then kret None
       else if namecmp name (de_name de) = 0 then
         kbind (the_inode dp) (\<lambda>ip.
         kbind (iget (i_dev ip) (ucast (de_inum de))) (\<lambda>i. kret (Some (i, off))))
       else kret None)"

definition dirlookup :: "nat \<Rightarrow> byte list \<Rightarrow> ('z kcons_scheme, (nat \<times> nat) option) K" where
  "dirlookup dp name =
     kbind (the_inode dp) (\<lambda>ip.
     if i_type ip \<noteq> T_DIR then kpanic ''dirlookup not DIR''
     else kfor_ret (dir_offs (i_size ip)) (dirlookup_at dp name))"

text \<open>The name field after \<^verbatim>\<open>strncpy(de.name, name, DIRSIZ)\<close>.\<close>

definition de_strncpy :: "byte list \<Rightarrow> byte list" where
  "de_strncpy name = get_bytes (strncpy (\<lambda>a. if a < DIRSIZ then 0 else lview name (a - DIRSIZ)) 0 DIRSIZ 14) 0 DIRSIZ"

definition dirlink_at :: "nat \<Rightarrow> nat \<Rightarrow> ('z kcons_scheme, nat option) K" where
  "dirlink_at dp off =
     kbind (readi dp (of_nat off) (of_nat DIRENT_SIZE)) (\<lambda>(r, bs).
     if r \<noteq> int DIRENT_SIZE then kpanic ''dirlink read''
     else if de_inum (dirent_of bs) = 0 then kret (Some off)
     else kret None)"

definition dirlink :: "nat \<Rightarrow> byte list \<Rightarrow> u32 \<Rightarrow> ('z kcons_scheme, int) K" where
  "dirlink dp name inum =
     kbind (dirlookup dp name) (\<lambda>r.
     case r of
       Some (ip, _) \<Rightarrow> kthen (iput ip) (kret (-1))
     | None \<Rightarrow>
         kbind (the_inode dp) (\<lambda>d.
         kbind (kfor_ret (dir_offs (i_size d)) (dirlink_at dp)) (\<lambda>slot.
         let off = (case slot of Some x \<Rightarrow> x | None \<Rightarrow> DIRENT_SIZE * length (dir_offs (i_size d)));
             de = \<lparr>de_inum = ucast inum, de_name = de_strncpy name\<rparr> in
         kbind (writei dp (dirent_bytes de) (of_nat off) (of_nat DIRENT_SIZE)) (\<lambda>w.
         if w \<noteq> int DIRENT_SIZE then kpanic ''dirlink'' else kret 0))))"

section \<open>Paths\<close>

abbreviation "SLASH \<equiv> (47 :: byte)"

definition skipelem :: "byte list \<Rightarrow> (byte list \<times> byte list) option" where
  "skipelem path =
     (let p = dropWhile (\<lambda>c. c = SLASH) path in
      if p = [] then None
      else
        let s = takeWhile (\<lambda>c. c \<noteq> SLASH) p; rest = dropWhile (\<lambda>c. c \<noteq> SLASH) p in
        Some (dropWhile (\<lambda>c. c = SLASH) rest, if length s \<ge> DIRSIZ then take DIRSIZ s else s))"

lemma skipelem_shorter: "skipelem path = Some (rest, name) \<Longrightarrow> length rest < length path"
proof -
  assume "skipelem path = Some (rest, name)"
  then have r: "rest = dropWhile (\<lambda>c. c = SLASH) (dropWhile (\<lambda>c. c \<noteq> SLASH) (dropWhile (\<lambda>c. c = SLASH) path))"
    and p: "dropWhile (\<lambda>c. c = SLASH) path \<noteq> []" by (auto simp: skipelem_def Let_def split: if_splits)
  let ?p = "dropWhile (\<lambda>c. c = SLASH) path"
  have "length rest \<le> length (dropWhile (\<lambda>c. c \<noteq> SLASH) ?p)" unfolding r by (rule length_dropWhile_le)
  also have "\<dots> < length ?p" using p hd_dropWhile[OF p] by (cases ?p) (auto simp: less_Suc_eq_le length_dropWhile_le)
  also have "\<dots> \<le> length path" by (rule length_dropWhile_le)
  finally show ?thesis .
qed

text \<open>The loop of \<^verbatim>\<open>namex\<close>; the result carries the last name element.\<close>

function namex_loop :: "nat \<Rightarrow> byte list \<Rightarrow> bool \<Rightarrow> byte list \<Rightarrow> ('z kcons_scheme, (nat \<times> byte list) option) K" where
  "namex_loop ip path nameiparent name =
     (case skipelem path of
        None \<Rightarrow> if nameiparent then kthen (iput ip) (kret None) else kret (Some (ip, name))
      | Some (path', name') \<Rightarrow>
          kthen (ilock (Some ip)) (
          kbind (the_inode ip) (\<lambda>d.
          if i_type d \<noteq> T_DIR then kthen (iunlockput ip) (kret None)
          else if nameiparent \<and> path' = [] then kthen (iunlock (Some ip)) (kret (Some (ip, name')))
          else
            kbind (dirlookup ip name') (\<lambda>next.
            case next of
              None \<Rightarrow> kthen (iunlockput ip) (kret None)
            | Some (nx, _) \<Rightarrow> kthen (iunlockput ip) (namex_loop nx path' nameiparent name')))))"
  by pat_completeness auto
termination by (relation "measure (\<lambda>(ip, path, np, name). length path)") (auto dest: skipelem_shorter)

declare namex_loop.simps [simp del]

definition namex :: "byte list \<Rightarrow> bool \<Rightarrow> ('z kcons_scheme, (nat \<times> byte list) option) K" where
  "namex path nameiparent =
     kbind (if path \<noteq> [] \<and> hd path = SLASH then iget ROOTDEV ROOTINO
            else kbind myproc (\<lambda>p. kderef p (\<lambda>me. kbind (the_proc me) (\<lambda>pr. kderef (p_cwd pr) idup)))) (\<lambda>ip.
     namex_loop ip path nameiparent [])"

definition namei :: "byte list \<Rightarrow> ('z kcons_scheme, nat option) K" where
  "namei path = kbind (namex path False) (\<lambda>r. kret (map_option fst r))"

definition nameiparent :: "byte list \<Rightarrow> ('z kcons_scheme, (nat \<times> byte list) option) K" where
  "nameiparent path = namex path True"

section \<open>File protection\<close>

definition chmod :: "byte list \<Rightarrow> int \<Rightarrow> ('z kcons_scheme, int) K" where
  "chmod pathname mode = kret (-1)"

definition chown :: "byte list \<Rightarrow> int \<Rightarrow> ('z kcons_scheme, int) K" where
  "chown pathname owner = kret (-1)"

definition chgrp :: "byte list \<Rightarrow> int \<Rightarrow> ('z kcons_scheme, int) K" where
  "chgrp pathname grp = kret (-1)"

section \<open>The content of a file\<close>

definition fbyte :: "(nat \<Rightarrow> byte list) \<Rightarrow> inode \<Rightarrow> nat \<Rightarrow> byte" where
  "fbyte c ip k = c (unat (faddr c ip (k div BSIZE))) ! (k mod BSIZE)"

definition fbytes :: "(nat \<Rightarrow> byte list) \<Rightarrow> inode \<Rightarrow> nat \<Rightarrow> nat \<Rightarrow> byte list" where
  "fbytes c ip off n = map (\<lambda>k. fbyte c ip (off + k)) [0..<n]"

text \<open>Every block of the file up to its size is mapped to a block of the disk.\<close>

definition file_ok :: "(nat \<Rightarrow> byte list) \<Rightarrow> nat \<Rightarrow> inode \<Rightarrow> bool" where
  "file_ok c ds ip \<longleftrightarrow> i_dev ip = 1 \<and> unat (i_size ip) \<le> MAXFILE * BSIZE \<and> (\<forall>n. length (c n) = BSIZE)
     \<and> (\<forall>bn. bn * BSIZE < unat (i_size ip) \<longrightarrow> faddr c ip bn \<noteq> 0 \<and> unat (faddr c ip bn) < ds)
     \<and> (NDIRECT * BSIZE < unat (i_size ip) \<longrightarrow> unat (i_addrs ip ! NDIRECT) < ds)"

lemma read_block_bind:
  "kbind (bread dev n) (\<lambda>b. kbind (bdata b) (\<lambda>d. kthen (brelse b) (F d))) s = kbind (read_block dev n) F s"
  by (simp add: read_block_def kdefs split: outcome.split)

lemma fbytes_append: "fbytes c ip off (m + n) = fbytes c ip off m @ fbytes c ip (off + m) n"
  by (rule nth_equalityI) (auto simp: fbytes_def nth_append)

lemma length_fbytes [simp]: "length (fbytes c ip off n) = n"
  by (simp add: fbytes_def)

lemma block_offset:
  assumes "off mod BSIZE + k < BSIZE"
  shows "(off + k) div BSIZE = off div BSIZE" "(off + k) mod BSIZE = off mod BSIZE + k"
proof -
  define q r where "q = off div BSIZE" and "r = off mod BSIZE + k"
  have e: "off + k = r + q * BSIZE" using div_mult_mod_eq[of off BSIZE] unfolding q_def r_def by linarith
  have "r < BSIZE" using assms by (simp add: r_def)
  then have "(off + k) div BSIZE = q" "(off + k) mod BSIZE = r" unfolding e by simp_all
  then show "(off + k) div BSIZE = off div BSIZE" "(off + k) mod BSIZE = off mod BSIZE + k" by (simp_all add: q_def r_def)
qed

lemma fbytes_block:
  assumes "length (c (unat (faddr c ip (off div BSIZE)))) = BSIZE" "off mod BSIZE + m \<le> BSIZE"
  shows "sub_bytes (c (unat (faddr c ip (off div BSIZE)))) (off mod BSIZE) m = fbytes c ip off m"
proof -
  have "(off + k) div BSIZE = off div BSIZE" "(off + k) mod BSIZE = off mod BSIZE + k" if "k < m" for k
    using block_offset[of off k] that assms(2) by simp_all
  then show ?thesis using assms by (intro nth_equalityI) (auto simp: sub_bytes_def fbytes_def fbyte_def)
qed

text \<open>Looking up one block of a file and reading it.\<close>

lemma file_bmap:
  assumes ok: "bok {} s" "spare {} s" and f: "file_ok (lblk s) (disksize s) (icache s i)" and off: "off < unat (i_size (icache s i))"
  shows "unat (faddr (lblk s) (icache s i) (off div BSIZE)) < disksize s"
    "\<exists>t. bmap i (off div BSIZE) s = Ret (faddr (lblk s) (icache s i) (off div BSIZE)) t \<and> bok {} t \<and> lblk t = lblk s \<and> bframe s t \<and> dirties t = dirties s"
proof -
  let ?ip = "icache s i" and ?bn = "off div BSIZE"
  have b: "?bn * BSIZE < unat (i_size ?ip)" using off div_mult_mod_eq[of off BSIZE] by linarith
  have bn: "?bn < MAXFILE" using off f by (auto simp: file_ok_def less_mult_imp_div_less)
  have a: "faddr (lblk s) ?ip ?bn \<noteq> 0" using f b by (auto simp: file_ok_def)
  show "unat (faddr (lblk s) ?ip ?bn) < disksize s" using f b by (auto simp: file_ok_def)
  have ind: "unat (i_addrs ?ip ! NDIRECT) < disksize s" if "NDIRECT \<le> ?bn"
  proof -
    have "NDIRECT * BSIZE < unat (i_size ?ip)" using mult_le_mono1[OF that, of BSIZE] b by linarith
    then show ?thesis using f by (simp add: file_ok_def)
  qed
  show "\<exists>t. bmap i ?bn s = Ret (faddr (lblk s) ?ip ?bn) t \<and> bok {} t \<and> lblk t = lblk s \<and> bframe s t \<and> dirties t = dirties s"
    using bmap_lookup[OF ok _ bn a] f ind by (auto simp: file_ok_def hblk_def)
qed

lemma file_block_read:
  assumes ok: "bok {} s" "spare {} s" and f: "file_ok (lblk s) (disksize s) (icache s i)" and off: "off < unat (i_size (icache s i))"
  shows "\<exists>t u. bmap i (off div BSIZE) s = Ret (faddr (lblk s) (icache s i) (off div BSIZE)) t
    \<and> read_block 1 (unat (faddr (lblk s) (icache s i) (off div BSIZE))) t = Ret (lblk s (unat (faddr (lblk s) (icache s i) (off div BSIZE)))) u
    \<and> bok {} u \<and> lblk u = lblk s \<and> bframe s u \<and> dirties u = dirties s"
proof -
  let ?a = "faddr (lblk s) (icache s i) (off div BSIZE)"
  obtain t where t: "bmap i (off div BSIZE) s = Ret ?a t" "bok {} t" "lblk t = lblk s" "bframe s t" "dirties t = dirties s"
    using file_bmap(2)[OF ok f off] by blast
  have t': "unat ?a < disksize t" "spare {} t" using file_bmap(1)[OF ok f off] ok(2) t(5) bframeD(3)[OF t(4)] by (simp_all add: spare_def)
  obtain u where u: "read_block 1 (unat ?a) t = Ret (lblk t (unat ?a)) u" "bok {} u" "lblk u = lblk t" "bframe t u" "dirties u = dirties t"
    using read_block_view[OF t(2) t'(1) _ t'(2)] by (auto simp: hblk_def)
  show ?thesis using t u bframe_trans[OF t(4) u(4)] by (intro exI[of _ t] exI[of _ u]) simp
qed

lemma file_block_lookup:
  assumes ok: "txok {} s" "txroom {} k s" and f: "file_ok (lblk s) (disksize s) (icache s i)" and off: "off < unat (i_size (icache s i))"
  shows "\<exists>t. bmap i (off div BSIZE) s = Ret (faddr (lblk s) (icache s i) (off div BSIZE)) t \<and> txok {} t \<and> lblk t = lblk s \<and> bframe s t \<and> icache t = icache s"
proof -
  have b: "bok {} s" "spare {} s" using ok(1) txok_spare[OF ok] by (simp_all add: txok_def)
  obtain t where t: "bmap i (off div BSIZE) s = Ret (faddr (lblk s) (icache s i) (off div BSIZE)) t" "bok {} t" "lblk t = lblk s" "bframe s t" "dirties t = dirties s"
    using file_bmap[OF b f off] by blast
  have "txok {} t" using ok(1) t lframeD(7)[OF bframe_lframe[OF t(4)]] lh_upd(4)[OF t(4)] by (simp add: txok_def)
  then show ?thesis using t lframe_fs(1)[OF bframe_lframe[OF t(4)]] by blast
qed

lemma readi_loop_net:
  "bok {} s \<Longrightarrow> spare {} s \<Longrightarrow> file_ok (lblk s) (disksize s) (icache s i) \<Longrightarrow> tot \<le> n \<Longrightarrow> off + (n - tot) \<le> unat (i_size (icache s i)) \<Longrightarrow>
   \<exists>t. readi_loop i tot off n acc s = Ret (acc @ fbytes (lblk s) (icache s i) off (n - tot)) t \<and> bok {} t \<and> lblk t = lblk s \<and> bframe s t
     \<and> dirties t = dirties s"
proof (induction "n - tot" arbitrary: tot off acc s rule: less_induct)
  case less
  show ?case
  proof (cases "tot < n")
    case False
    then show ?thesis using less.prems by (subst readi_loop.simps) (auto simp: fbytes_def)
  next
    case True
    let ?ip = "icache s i"
    define m where "m = min (n - tot) (BSIZE - off mod BSIZE)"
    let ?a = "unat (faddr (lblk s) ?ip (off div BSIZE))"
    have off: "off < unat (i_size ?ip)" using less.prems(5) True by linarith
    obtain t u where t: "bmap i (off div BSIZE) s = Ret (faddr (lblk s) ?ip (off div BSIZE)) t" "read_block 1 ?a t = Ret (lblk s ?a) u"
      "bok {} u" "lblk u = lblk s" "bframe s u" "dirties u = dirties s"
      using file_block_read[OF less.prems(1-3) off] by blast
    have m: "0 < m" "off mod BSIZE + m \<le> BSIZE" "tot + m \<le> n" using True mod_less_divisor[of BSIZE off] unfolding m_def by (auto simp: min_def simp del: mod_less_divisor)
    have iu: "icache u = icache s" "disksize u = disksize s" "spare {} u"
      using lframe_fs(1)[OF bframe_lframe[OF t(5)]] bframeD(3)[OF t(5)] t(6) less.prems(2) by (simp_all add: spare_def)
    have sb: "sub_bytes (lblk s ?a) (off mod BSIZE) m = fbytes (lblk s) ?ip off m"
      using less.prems(3) m(2) by (intro fbytes_block) (auto simp: file_ok_def)
    have step: "readi_loop i tot off n acc s = readi_loop i (tot + m) (off + m) n (acc @ fbytes (lblk s) ?ip off m) u"
      using True t(1,2) less.prems(3) sb
      by (subst readi_loop.simps) (simp add: Let_def m_def[symmetric] the_inode_def kbind_apply[of "kget _"] kbind_apply[of "bmap _ _"] read_block_bind kbind_apply[of "read_block _ _"] file_ok_def)
    have len: "n - (tot + m) < n - tot" "off + m + (n - (tot + m)) \<le> unat (i_size ?ip)" using m less.prems(5) True by linarith+
    obtain v where v: "readi_loop i (tot + m) (off + m) n (acc @ fbytes (lblk s) ?ip off m) u =
        Ret ((acc @ fbytes (lblk s) ?ip off m) @ fbytes (lblk s) ?ip (off + m) (n - (tot + m))) v" "bok {} v" "lblk v = lblk s" "bframe u v" "dirties v = dirties s"
      using less.hyps[OF len(1) t(3) iu(3), where off = "off + m" and acc = "acc @ fbytes (lblk s) ?ip off m"] less.prems(3) iu t(4,6) m(3) len(2) by auto
    have "fbytes (lblk s) ?ip off (n - tot) = fbytes (lblk s) ?ip off m @ fbytes (lblk s) ?ip (off + m) (n - (tot + m))"
      using fbytes_append[of "lblk s" ?ip off m "n - (tot + m)"] m(3) True by simp
    then show ?thesis using step v bframe_trans[OF t(5) v(4)] by (intro exI[of _ v]) simp
  qed
qed

lemma readi_net:
  assumes "bok {} s" "spare {} s" "file_ok (lblk s) (disksize s) (icache s i)" "i_type (icache s i) \<noteq> T_DEV"
    and "off \<le> i_size (icache s i)" "\<not> off + n < off" and k: "k = min (unat n) (unat (i_size (icache s i)) - unat off)"
  shows "\<exists>t. readi i off n s = Ret (int k, fbytes (lblk s) (icache s i) (unat off) k) t \<and> bok {} t \<and> lblk t = lblk s \<and> bframe s t \<and> dirties t = dirties s"
proof -
  let ?ip = "icache s i"
  define n' where "n' = (if off + n > i_size ?ip then i_size ?ip - off else n)"
  have o: "unat off \<le> unat (i_size ?ip)" using assms(5) by (simp add: word_le_nat_alt)
  have w: "unat (off + n) = unat off + unat n" using assms(6) unat_plus_simple[of off n] by (simp add: not_less)
  have n': "unat n' = k" using w o unfolding n'_def k by (auto simp: word_less_nat_alt unat_sub assms(5))
  have ob: "unat off + k \<le> unat (i_size ?ip)" using o unfolding k by linarith
  have kb: "k \<le> MAXFILE * BSIZE" using assms(3) k by (auto simp: file_ok_def)
  have sn: "sint n' = int k" using n' kb by (subst sint_unat) simp_all
  obtain t where "readi_loop i 0 (unat off) k [] s = Ret (fbytes (lblk s) ?ip (unat off) k) t" "bok {} t" "lblk t = lblk s" "bframe s t" "dirties t = dirties s"
    using readi_loop_net[OF assms(1-3), of 0 k "unat off" "[]"] ob by auto
  moreover have "readi i off n s = kbind (readi_loop i 0 (unat off) (unat n') []) (\<lambda>bs. kret (sint n', bs)) s"
    unfolding n'_def using assms(4,6) leD[OF assms(5)] by (simp add: readi_def the_inode_def kbind_apply[of "kget _"] if_apply Let_def)
  ultimately show ?thesis using n' sn by (intro exI[of _ t]) (simp add: kbind_apply)
qed

text \<open>The data blocks of the file are distinct and none of them is the indirect block.\<close>

definition file_sep :: "(nat \<Rightarrow> byte list) \<Rightarrow> inode \<Rightarrow> bool" where
  "file_sep c ip \<longleftrightarrow>
     (\<forall>b b'. b * BSIZE < unat (i_size ip) \<longrightarrow> b' * BSIZE < unat (i_size ip) \<longrightarrow> b \<noteq> b' \<longrightarrow> faddr c ip b \<noteq> faddr c ip b')
     \<and> (\<forall>b. b * BSIZE < unat (i_size ip) \<longrightarrow> NDIRECT * BSIZE < unat (i_size ip) \<longrightarrow> faddr c ip b \<noteq> i_addrs ip ! NDIRECT)"

text \<open>Contents \<open>c'\<close> that differ from \<open>c\<close> in the bytes \<open>xs\<close> of the file from offset \<open>off\<close> on.\<close>

definition fwritten :: "(nat \<Rightarrow> byte list) \<Rightarrow> inode \<Rightarrow> nat \<Rightarrow> byte list \<Rightarrow> (nat \<Rightarrow> byte list) \<Rightarrow> bool" where
  "fwritten c ip off xs c' \<longleftrightarrow>
     (\<forall>b. b * BSIZE < unat (i_size ip) \<longrightarrow> faddr c' ip b = faddr c ip b) \<and> (\<forall>n. length (c' n) = BSIZE)
     \<and> (\<forall>k<unat (i_size ip). fbyte c' ip k = (if off \<le> k \<and> k < off + length xs then xs ! (k - off) else fbyte c ip k))
     \<and> (\<forall>n. (\<forall>b. b * BSIZE < unat (i_size ip) \<longrightarrow> n \<noteq> unat (faddr c ip b)) \<longrightarrow> c' n = c n)"

lemma div_block: "k div BSIZE * BSIZE \<le> k"
  by (rule div_times_less_eq_dividend)

lemma fwritten_file_ok:
  assumes "fwritten c ip off xs c'" "file_ok c ds ip" "file_sep c ip"
  shows "file_ok c' ds ip" "file_sep c' ip"
  using assms unfolding fwritten_def file_ok_def file_sep_def by auto

lemma fwritten_block:
  assumes f: "file_ok c ds ip" "file_sep c ip" and off: "off < unat (i_size ip)" "off mod BSIZE + length xs \<le> BSIZE"
    and a: "a = unat (faddr c ip (off div BSIZE))"
  shows "fwritten c ip off xs (c(a := upd_bytes (c a) (off mod BSIZE) xs))"
proof -
  let ?c = "c(a := upd_bytes (c a) (off mod BSIZE) xs)"
  have b0: "off div BSIZE * BSIZE < unat (i_size ip)" using off(1) div_block[of off] by linarith
  have ind: "a \<noteq> unat (i_addrs ip ! NDIRECT)" if "NDIRECT \<le> b" "b * BSIZE < unat (i_size ip)" for b
  proof -
    have "NDIRECT * BSIZE < unat (i_size ip)" using mult_le_mono1[OF that(1), of BSIZE] that(2) by linarith
    then have "faddr c ip (off div BSIZE) \<noteq> i_addrs ip ! NDIRECT" using f(2) b0 by (simp add: file_sep_def)
    then show ?thesis using a by (simp add: word_unat_eq_iff)
  qed
  have fa: "faddr ?c ip b = faddr c ip b" if "b * BSIZE < unat (i_size ip)" for b
    using ind[OF _ that] by (auto simp: faddr_def)
  have la: "length (c n) = BSIZE" for n using f(1) by (simp add: file_ok_def)
  have len: "length (?c n) = BSIZE" for n using la off(2) by (simp add: upd_bytes_def)
  have fb: "fbyte ?c ip k = (if off \<le> k \<and> k < off + length xs then xs ! (k - off) else fbyte c ip k)" if k: "k < unat (i_size ip)" for k
  proof -
    have kb: "k div BSIZE * BSIZE < unat (i_size ip)" using k div_block[of k] by linarith
    show ?thesis
    proof (cases "k div BSIZE = off div BSIZE")
      case True
      then have "k = off div BSIZE * BSIZE + k mod BSIZE" "off = off div BSIZE * BSIZE + off mod BSIZE" by (metis div_mult_mod_eq, simp)
      then have i: "off \<le> k \<longleftrightarrow> off mod BSIZE \<le> k mod BSIZE" "k < off + length xs \<longleftrightarrow> k mod BSIZE < off mod BSIZE + length xs"
        "off \<le> k \<Longrightarrow> k - off = k mod BSIZE - off mod BSIZE" by linarith+
      have "k mod BSIZE < BSIZE" "off mod BSIZE < BSIZE" by simp_all
      then have "upd_bytes (c a) (off mod BSIZE) xs ! (k mod BSIZE) =
          (if off mod BSIZE \<le> k mod BSIZE \<and> k mod BSIZE < off mod BSIZE + length xs then xs ! (k mod BSIZE - off mod BSIZE) else c a ! (k mod BSIZE))"
        using la[of a] off(2) by (auto simp: upd_bytes_def nth_append min_def)
      then show ?thesis using True fa[OF kb] i a by (simp add: fbyte_def)
    next
      case False
      then have "faddr c ip (k div BSIZE) \<noteq> faddr c ip (off div BSIZE)" using f(2) kb b0 by (simp add: file_sep_def)
      then have "unat (faddr c ip (k div BSIZE)) \<noteq> a" using a by (simp add: word_unat_eq_iff)
      moreover have "\<not> (off \<le> k \<and> k < off + length xs)"
      proof
        assume "off \<le> k \<and> k < off + length xs"
        then have "off mod BSIZE + (k - off) < BSIZE" "off + (k - off) = k" using off(2) by linarith+
        then show False using block_offset(1)[of off "k - off"] False by simp
      qed
      ultimately show ?thesis using fa[OF kb] by (auto simp: fbyte_def)
    qed
  qed
  show ?thesis using fa len fb b0 a by (auto simp: fwritten_def)
qed

lemma fwritten_trans:
  assumes "fwritten c ip off xs c'" "fwritten c' ip (off + length xs) ys c''"
  shows "fwritten c ip off (xs @ ys) c''"
proof -
  have "fbyte c'' ip k = (if off \<le> k \<and> k < off + length (xs @ ys) then (xs @ ys) ! (k - off) else fbyte c ip k)" if "k < unat (i_size ip)" for k
    using assms that by (auto simp: fwritten_def nth_append)
  then show ?thesis using assms unfolding fwritten_def by auto
qed

lemma fwritten_nil: "file_ok c ds ip \<Longrightarrow> fwritten c ip off [] c"
  by (auto simp: fwritten_def file_ok_def)

lemma modify_block_bind:
  "kbind (bread dev n) (\<lambda>b. kbind (bdata b) (\<lambda>d. kthen (set_bdata b (f d)) (kthen (log_write b) (kthen (brelse b) F)))) s = kthen (modify_block dev n f) F s"
  by (simp add: modify_block_def kdefs split: outcome.split)

text \<open>The data blocks of the file.\<close>

definition fblocks :: "(nat \<Rightarrow> byte list) \<Rightarrow> inode \<Rightarrow> nat set" where
  "fblocks c ip = (\<lambda>b. unat (faddr c ip b)) ` {b. b * BSIZE < unat (i_size ip)}"

lemma fblocks_fwritten: "fwritten c ip off xs c' \<Longrightarrow> fblocks c' ip = fblocks c ip"
  unfolding fblocks_def by (rule image_cong) (auto simp: fwritten_def)

text \<open>The number of blocks a write of \<open>r\<close> bytes at \<open>off\<close> touches.\<close>

definition nblk :: "nat \<Rightarrow> nat \<Rightarrow> nat" where
  "nblk off r = (if r = 0 then 0 else (off mod BSIZE + r + 511) div BSIZE)"

lemma nblk_step:
  assumes "0 < r" "m = min r (BSIZE - off mod BSIZE)"
  shows "nblk off r = Suc (nblk (off + m) (r - m))"
proof (cases "r \<le> BSIZE - off mod BSIZE")
  case True
  then have "off mod BSIZE + r \<le> BSIZE" using mod_less_divisor[of BSIZE off] by linarith
  then have "(off mod BSIZE + r + 511) div BSIZE = 1" using assms(1) by (intro div_nat_eqI) simp_all
  then show ?thesis using True assms by (simp add: nblk_def)
next
  case False
  have lt: "off mod BSIZE < BSIZE" by simp
  have m: "m = BSIZE - off mod BSIZE" using False assms(2) by simp
  have "off + m = off div BSIZE * BSIZE + BSIZE" using m lt div_mult_mod_eq[of off BSIZE] by linarith
  then have z: "(off + m) mod BSIZE = 0" by simp
  have s: "off mod BSIZE + r + 511 = (r - m + 511) + BSIZE" using m lt False by linarith
  have e: "(off mod BSIZE + r + 511) div BSIZE = Suc ((r - m + 511) div BSIZE)" unfolding s by simp
  have "r \<noteq> 0" "r - m \<noteq> 0" using m False assms(1) by linarith+
  then show ?thesis by (simp only: nblk_def z e if_False add_0)
qed

lemma writei_loop_net:
  "txok {} s \<Longrightarrow> txroom {} (nblk off (n - tot) + j) s \<Longrightarrow> file_ok (lblk s) (disksize s) (icache s i) \<Longrightarrow> file_sep (lblk s) (icache s i) \<Longrightarrow>
   tot \<le> n \<Longrightarrow> n \<le> length src \<Longrightarrow> off + (n - tot) \<le> unat (i_size (icache s i)) \<Longrightarrow>
   \<exists>t. writei_loop i src tot off n s = Ret () t \<and> txok {} t \<and> lframe s t \<and> txroom {} j t \<and> fwritten (lblk s) (icache s i) off (sub_bytes src tot (n - tot)) (lblk t)
     \<and> set (lh t) \<subseteq> set (lh s) \<union> fblocks (lblk s) (icache s i)"
proof (induction "n - tot" arbitrary: tot off s rule: less_induct)
  case less
  show ?case
  proof (cases "tot < n")
    case False
    then show ?thesis using less.prems fwritten_nil[OF less.prems(3)] by (subst writei_loop.simps) (simp add: sub_bytes_def nblk_def)
  next
    case True
    let ?ip = "icache s i" and ?bn = "off div BSIZE"
    let ?a = "unat (faddr (lblk s) ?ip ?bn)"
    define m where "m = min (n - tot) (BSIZE - off mod BSIZE)"
    have m: "0 < m" "off mod BSIZE + m \<le> BSIZE" "tot + m \<le> n" using True mod_less_divisor[of BSIZE off] unfolding m_def by (auto simp: min_def simp del: mod_less_divisor)
    have nb: "nblk off (n - tot) = Suc (nblk (off + m) (n - (tot + m)))" using nblk_step[OF _ m_def] True by simp
    have off: "off < unat (i_size ?ip)" using less.prems(7) True by linarith
    have ok: "bok {} s" "spare {} s" using less.prems(1) txok_spare[OF less.prems(1,2)] by (simp_all add: txok_def)
    obtain t where t: "bmap i ?bn s = Ret (faddr (lblk s) ?ip ?bn) t" "txok {} t" "lblk t = lblk s" "bframe s t" "icache t = icache s"
      using file_block_lookup[OF less.prems(1,2,3) off] by blast
    let ?f = "\<lambda>d. upd_bytes d (off mod BSIZE) (sub_bytes src tot m)"
    have lx: "length (sub_bytes src tot m) = m" using m(3) less.prems(6) by (simp add: sub_bytes_def)
    have a: "?a < disksize t" "length (lblk s ?a) = BSIZE"
      using less.prems(3) off div_block[of off] bframeD(3)[OF t(4)] unfolding file_ok_def by (auto dest!: spec[of _ ?bn])
    have r: "txroom {} 1 t" "txroom {} (Suc (nblk (off + m) (n - (tot + m)) + j)) t" using less.prems(2) nb txroom_frame[OF t(4)] txroom_mono[of "{}" _ t 1] by auto
    obtain u where u: "modify_block 1 ?a ?f t = Ret () u" "txok {} u" "lblk u = (lblk s)(?a := ?f (lblk s ?a))" "lframe t u" "lh u = absorb ?a (lh t)"
      using modify_block_net[OF t(2) a(1) _ r(1), of ?f] t(3) a(2) m(2) lx by (auto simp: hblk_def upd_bytes_def)
    have F: "lframe s u" by (rule lframe_trans[OF bframe_lframe[OF t(4)] u(4)])
    have iu: "icache u = icache s" "disksize u = disksize s" using lframe_fs(1)[OF F] lframeD(2)[OF F] by simp_all
    have w: "fwritten (lblk s) ?ip off (sub_bytes src tot m) (lblk u)" unfolding u(3)
      by (rule fwritten_block[OF less.prems(3,4) off _ refl]) (use lx m(2) in simp)
    note fo = fwritten_file_ok[OF w less.prems(3,4)]
    have ru: "txroom {} (nblk (off + m) (n - (tot + m)) + j) u" by (rule txroom_absorb[OF u(5,4) r(2)])
    have len: "n - (tot + m) < n - tot" "off + m + (n - (tot + m)) \<le> unat (i_size ?ip)" using m less.prems(7) True by linarith+
    have step: "writei_loop i src tot off n s = writei_loop i src (tot + m) (off + m) n u"
      using True t(1) u(1) less.prems(3)
      by (subst writei_loop.simps) (simp add: Let_def m_def[symmetric] the_inode_def kbind_apply[of "kget _"] kbind_apply[of "bmap _ _"] modify_block_bind kthen_apply[of "modify_block _ _ _"] file_ok_def)
    obtain v where v: "writei_loop i src (tot + m) (off + m) n u = Ret () v" "txok {} v" "lframe u v" "txroom {} j v"
      "fwritten (lblk u) ?ip (off + m) (sub_bytes src (tot + m) (n - (tot + m))) (lblk v)" "set (lh v) \<subseteq> set (lh u) \<union> fblocks (lblk u) ?ip"
      using less.hyps[OF len(1) u(2), where off = "off + m"] ru fo iu m(3) less.prems(6) len(2) by auto
    have "sub_bytes src tot (n - tot) = sub_bytes src tot m @ sub_bytes src (tot + m) (n - (tot + m))"
      using m(3) by (simp add: sub_bytes_def take_add[symmetric] add.commute flip: drop_drop)
    then have "fwritten (lblk s) ?ip off (sub_bytes src tot (n - tot)) (lblk v)" using fwritten_trans[OF w] v(5) lx by simp
    moreover have "set (lh v) \<subseteq> set (lh s) \<union> fblocks (lblk s) ?ip"
    proof -
      have "?a \<in> fblocks (lblk s) ?ip" using off div_block[of off] unfolding fblocks_def by (intro imageI) simp
      then show ?thesis using v(6) u(5) lh_upd(4)[OF t(4)] fblocks_fwritten[OF w] by (auto simp: set_absorb)
    qed
    ultimately show ?thesis using step v lframe_trans[OF F v(3)] by (intro exI[of _ v]) simp
  qed
qed

lemma writei_net:
  assumes "txok {} s" "txroom {} (nblk (unat off) (unat n) + j) s" "file_ok (lblk s) (disksize s) (icache s i)" "file_sep (lblk s) (icache s i)"
    "i_type (icache s i) \<noteq> T_DEV" "length src = unat n" "unat off + unat n \<le> unat (i_size (icache s i))"
  shows "\<exists>t. writei i src off n s = Ret (int (unat n)) t \<and> txok {} t \<and> lframe s t \<and> txroom {} j t \<and> fwritten (lblk s) (icache s i) (unat off) src (lblk t)
    \<and> set (lh t) \<subseteq> set (lh s) \<union> fblocks (lblk s) (icache s i)"
proof -
  let ?ip = "icache s i"
  have sz: "unat (i_size ?ip) \<le> 71680" using assms(3) by (simp add: file_ok_def)
  have w: "unat (off + n) = unat off + unat n" using assms(7) sz by (simp add: unat_word_ariths)
  have c: "\<not> off > i_size ?ip" "\<not> off + n < off" "\<not> off + n > of_nat (MAXFILE * BSIZE)" "\<not> off + n > i_size ?ip"
    using w assms(7) sz by (simp_all add: word_less_nat_alt)
  have sn: "sint n = int (unat n)" using assms(7) sz by (intro sint_unat) simp
  obtain t where t: "writei_loop i src 0 (unat off) (unat n) s = Ret () t" "txok {} t" "lframe s t" "txroom {} j t"
    "fwritten (lblk s) ?ip (unat off) (sub_bytes src 0 (unat n)) (lblk t)" "set (lh t) \<subseteq> set (lh s) \<union> fblocks (lblk s) ?ip"
    using writei_loop_net[OF assms(1) _ assms(3,4), of "unat off" "unat n" 0 j src] assms(2,6,7) by auto
  have "sub_bytes src 0 (unat n) = src" using assms(6) by (simp add: sub_bytes_def)
  moreover have "writei i src off n s = Ret (int (unat n)) t"
    unfolding writei_def the_inode_def kbind_apply[of "kget _"] kget_apply outcome.case if_apply
    using c assms(5) t(1) sn by (simp add: kdefs)
  ultimately show ?thesis using t by auto
qed

section \<open>Directory entries\<close>

definition dirents :: "(nat \<Rightarrow> byte list) \<Rightarrow> inode \<Rightarrow> dirent list" where
  "dirents c ip = map (\<lambda>k. dirent_of (fbytes c ip (DIRENT_SIZE * k) DIRENT_SIZE)) [0..<unat (i_size ip) div DIRENT_SIZE]"

definition de_matches :: "byte list \<Rightarrow> dirent \<Rightarrow> bool" where
  "de_matches name de \<longleftrightarrow> de_inum de \<noteq> 0 \<and> cstr (lview name) DIRSIZ = cstr (lview (de_name de)) DIRSIZ"

lemma namecmp_eq: "namecmp s t = 0 \<longleftrightarrow> cstr (lview s) DIRSIZ = cstr (lview t) DIRSIZ"
  by (simp add: namecmp_def strncmp_eq_0_iff)

lemma dirlookup_at_net:
  assumes "bok {} s" "spare {} s" "file_ok (lblk s) (disksize s) (icache s dp)" "i_type (icache s dp) = T_DIR"
    and k: "k < unat (i_size (icache s dp)) div DIRENT_SIZE" and de: "de = dirent_of (fbytes (lblk s) (icache s dp) (DIRENT_SIZE * k) DIRENT_SIZE)"
  shows "\<exists>t. bok {} t \<and> lblk t = lblk s \<and> bframe s t \<and> dirties t = dirties s \<and>
     dirlookup_at dp name (DIRENT_SIZE * k) s =
       (if de_matches name de then kbind (iget 1 (ucast (de_inum de))) (\<lambda>i. kret (Some (i, DIRENT_SIZE * k))) t else Ret None t)"
proof -
  let ?ip = "icache s dp"
  define x where "x = DIRENT_SIZE * k"
  have sz: "unat (i_size ?ip) \<le> 71680" "i_dev ?ip = 1" using assms(3) by (simp_all add: file_ok_def)
  have "Suc k \<le> unat (i_size ?ip) div DIRENT_SIZE" using k by (rule Suc_leI)
  then have "Suc k * DIRENT_SIZE \<le> unat (i_size ?ip)" by (simp only: less_eq_div_iff_mult_less_eq zero_less_numeral)
  then have o: "x + 16 \<le> unat (i_size ?ip)" by (simp add: x_def)
  have uo: "unat (of_nat x :: u32) = x" by (rule of_nat_block(1)[of _ "i_size ?ip"]) (use o in linarith)
  have w: "unat (of_nat x + of_nat DIRENT_SIZE :: u32) = x + 16" using o sz uo by (simp add: unat_word_ariths)
  have h: "(of_nat x :: u32) \<le> i_size ?ip" "\<not> (of_nat x + of_nat DIRENT_SIZE :: u32) < of_nat x"
    using uo w o by (simp_all add: word_le_nat_alt word_less_nat_alt)
  obtain t where t: "readi dp (of_nat x) (of_nat DIRENT_SIZE) s = Ret (int DIRENT_SIZE, fbytes (lblk s) ?ip x DIRENT_SIZE) t" "bok {} t" "lblk t = lblk s"
    "bframe s t" "dirties t = dirties s"
    using readi_net[OF assms(1-3) _ h refl] assms(4) uo o by auto
  have it: "icache t = icache s" using lframe_fs(1)[OF bframe_lframe[OF t(4)]] .
  have "dirlookup_at dp name x s = (if de_matches name de then kbind (iget 1 (ucast (de_inum de))) (\<lambda>i. kret (Some (i, x))) t else Ret None t)"
    unfolding dirlookup_at_def kbind_apply[of "readi _ _ _"] t(1) using it sz(2)
    by (simp add: Let_def de[folded x_def, symmetric] de_matches_def namecmp_eq the_inode_def kbind_apply[of "kget _"])
  then show ?thesis using t unfolding x_def by blast
qed

lemma dirlookup_net:
  assumes ok: "bok {} s" "spare {} s" and f: "file_ok (lblk s) (disksize s) (icache s dp)" and d: "i_type (icache s dp) = T_DIR" "16 dvd unat (i_size (icache s dp))"
  shows "\<exists>t. bok {} t \<and> lblk t = lblk s \<and> bframe s t \<and> dirlookup dp name s =
     (case find_idx (de_matches name) (dirents (lblk s) (icache s dp)) of
        None \<Rightarrow> Ret None t
      | Some k \<Rightarrow> kbind (iget 1 (ucast (de_inum (dirents (lblk s) (icache s dp) ! k)))) (\<lambda>i. kret (Some (i, DIRENT_SIZE * k))) t)"
proof -
  let ?ip = "icache s dp" and ?ds = "dirents (lblk s) (icache s dp)" and ?N = "unat (i_size (icache s dp)) div DIRENT_SIZE"
  let ?I = "\<lambda>t. bok {} t \<and> lblk t = lblk s \<and> bframe s t \<and> dirties t = dirties s"
  have ds: "k < ?N \<Longrightarrow> ?ds ! k = dirent_of (fbytes (lblk s) ?ip (DIRENT_SIZE * k) DIRENT_SIZE)" "length ?ds = ?N" for k by (simp_all add: dirents_def)
  have offs: "dir_offs (i_size ?ip) = map (\<lambda>k. DIRENT_SIZE * k) [0..<?N]" using d(2) by (auto simp: dir_offs_def elim!: dvdE)
  have at: "\<exists>u. ?I u \<and> dirlookup_at dp name (DIRENT_SIZE * k) t =
      (if de_matches name (?ds ! k) then kbind (iget 1 (ucast (de_inum (?ds ! k)))) (\<lambda>i. kret (Some (i, DIRENT_SIZE * k))) u else Ret None u)"
    if t: "?I t" and k: "k < ?N" for t k
  proof -
    have i: "icache t = icache s" "disksize t = disksize s" "spare {} t"
      using t ok(2) lframe_fs(1)[OF bframe_lframe] bframeD(3) by (auto simp: spare_def)
    have "\<exists>u. bok {} u \<and> lblk u = lblk t \<and> bframe t u \<and> dirties u = dirties t \<and> dirlookup_at dp name (DIRENT_SIZE * k) t =
      (if de_matches name (?ds ! k) then kbind (iget 1 (ucast (de_inum (?ds ! k)))) (\<lambda>i. kret (Some (i, DIRENT_SIZE * k))) u else Ret None u)"
      by (rule dirlookup_at_net) (use t f d(1) k i ds(1)[OF k] in auto)
    then obtain u where "bok {} u" "lblk u = lblk t" "bframe t u" "dirties u = dirties t" "dirlookup_at dp name (DIRENT_SIZE * k) t =
      (if de_matches name (?ds ! k) then kbind (iget 1 (ucast (de_inum (?ds ! k)))) (\<lambda>i. kret (Some (i, DIRENT_SIZE * k))) u else Ret None u)" by blast
    then show ?thesis using t bframe_trans[of s t u] by (intro exI[of _ u]) simp
  qed
  have skip: "\<exists>t. kfor_ret (map (\<lambda>k. DIRENT_SIZE * k) [0..<m]) (dirlookup_at dp name) s = Ret None t \<and> ?I t"
    if m: "m \<le> ?N" "\<forall>k<m. \<not> de_matches name (?ds ! k)" for m
  proof (rule kfor_ret_skip[where I = ?I])
    fix x t assume "x \<in> set (map (\<lambda>k. DIRENT_SIZE * k) [0..<m])" and t: "?I t"
    then obtain k where k: "x = DIRENT_SIZE * k" "k < m" by auto
    then show "\<exists>t'. dirlookup_at dp name x t = Ret None t' \<and> ?I t'" using at[OF t, of k] m by auto
  qed (use ok in simp)
  have start: "dirlookup dp name s = kfor_ret (dir_offs (i_size ?ip)) (dirlookup_at dp name) s"
    using d(1) by (simp add: dirlookup_def the_inode_def kbind_apply)
  show ?thesis
  proof (cases "find_idx (de_matches name) ?ds")
    case None
    then have "\<forall>k<?N. \<not> de_matches name (?ds ! k)" using ds(2) by (auto simp: all_set_conv_all_nth)
    then obtain t where "kfor_ret (dir_offs (i_size ?ip)) (dirlookup_at dp name) s = Ret None t" "?I t" using skip[of ?N] offs by auto
    then show ?thesis using None start by (intro exI[of _ t]) (simp del: find_idx_None_iff)
  next
    case (Some k)
    have k: "k < ?N" "de_matches name (?ds ! k)" "\<forall>j<k. \<not> de_matches name (?ds ! j)" using find_idx_SomeD[OF Some] ds(2) by auto
    obtain t where t: "kfor_ret (map (\<lambda>k. DIRENT_SIZE * k) [0..<k]) (dirlookup_at dp name) s = Ret None t" "?I t" using skip[of k] k by auto
    obtain u where u: "?I u" "dirlookup_at dp name (DIRENT_SIZE * k) t = kbind (iget 1 (ucast (de_inum (?ds ! k)))) (\<lambda>i. kret (Some (i, DIRENT_SIZE * k))) u"
      using at[OF t(2) k(1)] k(2) by auto
    have "[0..<?N] = [0..<k] @ k # [Suc k..<?N]" using k(1) by (metis upt_conv_Cons less_imp_le_nat upt_add_eq_append le_add_diff_inverse zero_le)
    then have "kfor_ret (dir_offs (i_size ?ip)) (dirlookup_at dp name) s = kfor_ret (DIRENT_SIZE * k # map (\<lambda>k. DIRENT_SIZE * k) [Suc k..<?N]) (dirlookup_at dp name) t"
      unfolding offs by (simp only: map_append list.map kfor_ret_append[OF t(1)])
    also have "\<dots> = kbind (iget 1 (ucast (de_inum (?ds ! k)))) (\<lambda>i. kret (Some (i, DIRENT_SIZE * k))) u"
      using u(2) by (simp add: kbind_apply split: outcome.split)
    finally show ?thesis using u(1) Some start by (intro exI[of _ u]) simp
  qed
qed

section \<open>Path names\<close>

text \<open>The elements of a path by splitting at every slash.\<close>

fun split_slash :: "byte list \<Rightarrow> byte list list" where
  "split_slash [] = [[]]"
| "split_slash (c # cs) = (if c = SLASH then [] # split_slash cs else (c # hd (split_slash cs)) # tl (split_slash cs))"

definition path_elems :: "byte list \<Rightarrow> byte list list" where
  "path_elems p = map (take DIRSIZ) (filter (\<lambda>x. x \<noteq> []) (split_slash p))"

text \<open>The names the loop of \<^verbatim>\<open>namex\<close> goes through.\<close>

function skip_names :: "byte list \<Rightarrow> byte list list" where
  "skip_names p = (case skipelem p of None \<Rightarrow> [] | Some (rest, name) \<Rightarrow> name # skip_names rest)"
  by pat_completeness auto
termination by (relation "measure length") (auto dest: skipelem_shorter)

declare skip_names.simps [simp del]

lemma split_slash_nonempty: "split_slash p \<noteq> []"
  by (cases p) auto

lemma split_slash_dropWhile: "filter (\<lambda>x. x \<noteq> []) (split_slash (dropWhile (\<lambda>c. c = SLASH) p)) = filter (\<lambda>x. x \<noteq> []) (split_slash p)"
  by (induction p) auto

lemma split_slash_take:
  "split_slash p = takeWhile (\<lambda>c. c \<noteq> SLASH) p # (case dropWhile (\<lambda>c. c \<noteq> SLASH) p of [] \<Rightarrow> [] | _ # r \<Rightarrow> split_slash r)"
  by (induction p) auto

section \<open>Properties\<close>


lemma kcons0_fs [simp]:
  "cur (kcons0 ins) = Some 0" "lh (kcons0 ins) = []" "log_outstanding (kcons0 ins) = 1" "log_size (kcons0 ins) = 30" "memdisk (kcons0 ins) = disk0"
  "disksize (kcons0 ins) = 1000" "bufs (kcons0 ins) j = \<lparr>b_valid = False, b_dirty = False, b_dev = 0, b_blockno = 0, b_refcnt = 0, b_prev = 0, b_next = 0, b_data = replicate 512 0\<rparr>"
  "icache (kcons0 ins) = icache (kfs0 disk0)"
proof -
  have "cur (kfs0 disk0) = Some 0" by simp
  then show "cur (kcons0 ins) = Some 0" by (simp add: kcons0_def kfs.defs cur_def)
  show "bufs (kcons0 ins) j = \<lparr>b_valid = False, b_dirty = False, b_dev = 0, b_blockno = 0, b_refcnt = 0, b_prev = 0, b_next = 0, b_data = replicate 512 0\<rparr>"
    using kfs0_simps(13)[of disk0 j] by (simp add: kcons0_def kfs.defs)
qed (simp_all add: kcons0_def kfs.defs kfs0_def klog.defs klog0_def kbio.defs kbio0_def kslp0_def kpr0_def kslp.defs kpr.defs kdev.defs)

text \<open>A cached inode of a file of 600 bytes in blocks 70 and 71.\<close>

definition file0 :: "u16 \<Rightarrow> inode \<Rightarrow> inode" where
  "file0 typ ip = ip\<lparr>i_dev := 1, i_type := typ, i_size := 600, i_addrs := [70, 71] @ replicate 11 0\<rparr>"

lemma two_blocks: "b * BSIZE < 600 \<longleftrightarrow> b = 0 \<or> b = 1" for b :: nat
  by auto

lemma kcons0_file:
  obtains s where "binit (kcons0 ins) = Ret () s" "txok {} (upd_inode 0 (file0 typ) s)" "txroom {} 8 (upd_inode 0 (file0 typ) s)"
    "file_ok (lblk (upd_inode 0 (file0 typ) s)) (disksize (upd_inode 0 (file0 typ) s)) (icache (upd_inode 0 (file0 typ) s) 0)"
    "file_sep (lblk (upd_inode 0 (file0 typ) s)) (icache (upd_inode 0 (file0 typ) s) 0)" "lblk s = blk disk0" "disksize s = 1000"
proof -
  obtain s where s: "binit (kcons0 ins) = Ret () s" "txok {} s" "lframe (kcons0 ins) s" "lh s = []" "lblk s = blk disk0"
    using binit_txok[of "kcons0 ins"] by auto
  have "txroom {} 8 s" using s(4) lframeD(6)[OF s(3)] by (simp add: txroom_def)
  moreover have d: "disksize s = 1000" using lframeD(2)[OF s(3)] by simp
  moreover have "faddr c (file0 typ ip) 0 = 70" "faddr c (file0 typ ip) (Suc 0) = 71" for c ip by (simp_all add: faddr_def file0_def)
  ultimately show ?thesis
    using s by (intro that[of s]) (simp_all add: file_ok_def file_sep_def two_blocks, simp_all add: file0_def two_blocks)
qed


text \<open>
  C21: \<^verbatim>\<open>dirlookup\<close> searches the directory.  On a well-formed directory whose size is a multiple of the entry size, it finds the
  first entry in use whose name agrees with the wanted one as C strings of at most \<open>DIRSIZ\<close> bytes, and returns
  the cached inode of that entry's number with the offset of the entry; without such an entry it returns
  the null pointer.  The search itself changes no block and no cached inode.
\<close>

theorem dirlookup_finds_first:
  assumes "bok {} s" "spare {} s" "file_ok (lblk s) (disksize s) (icache s dp)" "i_type (icache s dp) = T_DIR" "16 dvd unat (i_size (icache s dp))"
  shows "\<exists>t. lblk t = lblk s \<and> icache t = icache s \<and> dirlookup dp name s =
     (case find_idx (de_matches name) (dirents (lblk s) (icache s dp)) of
        None \<Rightarrow> Ret None t
      | Some k \<Rightarrow> kbind (iget 1 (ucast (de_inum (dirents (lblk s) (icache s dp) ! k)))) (\<lambda>i. kret (Some (i, DIRENT_SIZE * k))) t)"
proof -
  obtain t where "lblk t = lblk s" "bframe s t" "dirlookup dp name s =
     (case find_idx (de_matches name) (dirents (lblk s) (icache s dp)) of
        None \<Rightarrow> Ret None t
      | Some k \<Rightarrow> kbind (iget 1 (ucast (de_inum (dirents (lblk s) (icache s dp) ! k)))) (\<lambda>i. kret (Some (i, DIRENT_SIZE * k))) t)"
    using dirlookup_net[OF assms] by blast
  then show ?thesis using lframe_fs(1)[OF bframe_lframe] by blast
qed

theorem dirlookup_finds_first_witness:
  "\<exists>s t. binit (kcons0 (\<lambda>_. [])) = Ret () s \<and> dirlookup 0 [97] (upd_inode 0 (\<lambda>ip. (file0 T_DIR ip)\<lparr>i_size := 32\<rparr>) s) = Ret None t"
proof -
  obtain s where s: "binit (kcons0 (\<lambda>_. [])) = Ret () s" and h: "txok {} (upd_inode 0 (file0 T_DIR) s)" "txroom {} 8 (upd_inode 0 (file0 T_DIR) s)"
    "file_ok (lblk (upd_inode 0 (file0 T_DIR) s)) (disksize (upd_inode 0 (file0 T_DIR) s)) (icache (upd_inode 0 (file0 T_DIR) s) 0)" and l: "lblk s = blk disk0" "disksize s = 1000"
    by (rule kcons0_file)
  let ?s = "upd_inode 0 (\<lambda>ip. (file0 T_DIR ip)\<lparr>i_size := 32\<rparr>) s"
  have f70: "faddr c (file0 T_DIR ip\<lparr>i_size := 32\<rparr>) 0 = 70" for c ip by (simp add: faddr_def file0_def)
  have b: "b * BSIZE < 32 \<longleftrightarrow> b = 0" for b :: nat by auto
  have "txok {} s" "txroom {} 8 s" using h(1,2) by simp_all
  then have ok: "bok {} ?s" "spare {} ?s" using txok_spare[of "{}" s 8] by (simp_all add: txok_def) (simp add: spare_def)
  have f: "file_ok (lblk ?s) (disksize ?s) (icache ?s 0)" using h(3) f70 b l(2) by (simp add: file_ok_def)
  have z: "blk disk0 70 = replicate BSIZE 0" unfolding disk0_def by (subst blk_put_bytes) (auto simp: list_eq_iff_nth_eq blk_nth)
  have "de_inum (dirent_of (fbytes (blk disk0) (icache ?s 0) x 16)) = 0" if "x < 32" for x
    using f70 z that by (simp add: dirent_of_def ld2_def of_le2_def sub_bytes_def fbytes_def fbyte_def nth_append)
  then have n: "find_idx (de_matches [97]) (dirents (lblk ?s) (icache ?s 0)) = None"
    using l(1) by (auto simp: dirents_def de_matches_def)
  have d: "i_type (icache ?s 0) = T_DIR" "16 dvd unat (i_size (icache ?s 0))" by (simp_all add: file0_def)
  show ?thesis using dirlookup_finds_first[OF ok f d, of "[97]"] s unfolding n option.case by blast
qed

lemma path_elems_first:
  assumes "q \<noteq> []" "hd q \<noteq> SLASH"
  shows "path_elems q = take DIRSIZ (takeWhile (\<lambda>c. c \<noteq> SLASH) q) # path_elems (dropWhile (\<lambda>c. c = SLASH) (dropWhile (\<lambda>c. c \<noteq> SLASH) q))"
proof -
  define x r where "x = takeWhile (\<lambda>c. c \<noteq> SLASH) q" and "r = dropWhile (\<lambda>c. c \<noteq> SLASH) q"
  have s: "split_slash q = x # (case r of [] \<Rightarrow> [] | _ # r' \<Rightarrow> split_slash r')" unfolding x_def r_def by (rule split_slash_take)
  have x: "x \<noteq> []" unfolding x_def takeWhile_eq_Nil_iff using assms by blast
  have e: "path_elems (dropWhile (\<lambda>c. c = SLASH) r) = path_elems r" unfolding path_elems_def split_slash_dropWhile ..
  have h: "r = [] \<or> hd r = SLASH" using hd_dropWhile[of "\<lambda>c. c \<noteq> SLASH" q] unfolding r_def by blast
  have "path_elems q = take DIRSIZ x # path_elems r"
    unfolding path_elems_def s using x h by (cases r) simp_all
  then show ?thesis unfolding x_def[symmetric] r_def[symmetric] e .
qed

text \<open>
  C40: The names that repeated \<^verbatim>\<open>skipelem\<close> takes from a path are the non-empty pieces between slashes, in order,
  each cut to \<open>DIRSIZ\<close> bytes; so leading, trailing and repeated slashes make no difference.
\<close>

theorem skipelem_splits: "skip_names p = path_elems p"
proof (induction p rule: skip_names.induct)
  case (1 p)
  let ?p = "dropWhile (\<lambda>c. c = SLASH) p"
  have e: "path_elems p = path_elems ?p" by (simp add: path_elems_def split_slash_dropWhile)
  show ?case
  proof (cases "?p = []")
    case True
    have "skipelem p = None" using True by (simp add: skipelem_def Let_def)
    moreover have "path_elems p = []" unfolding e True by (simp add: path_elems_def)
    ultimately show ?thesis by (subst skip_names.simps) simp
  next
    case False
    let ?r = "dropWhile (\<lambda>c. c \<noteq> SLASH) ?p"
    have k: "skipelem p = Some (dropWhile (\<lambda>c. c = SLASH) ?r, take DIRSIZ (takeWhile (\<lambda>c. c \<noteq> SLASH) ?p))"
      using False by (simp add: skipelem_def Let_def)
    have "path_elems ?p = take DIRSIZ (takeWhile (\<lambda>c. c \<noteq> SLASH) ?p) # path_elems (dropWhile (\<lambda>c. c = SLASH) ?r)"
      using path_elems_first[OF False] hd_dropWhile[OF False] by blast
    then have "path_elems p = take DIRSIZ (takeWhile (\<lambda>c. c \<noteq> SLASH) ?p) # skip_names (dropWhile (\<lambda>c. c = SLASH) ?r)"
      unfolding e 1[OF k refl] .
    then show ?thesis using k by (subst skip_names.simps) (simp only: option.case prod.case)
  qed
qed

end
