(* ===== verification/Transact.thy ===== *)
theory Transact
  imports Dir
begin

text \<open>
  Whole transactions: what \<^verbatim>\<open>begin_op\<close> and \<^verbatim>\<open>end_op\<close> (\<^verbatim>\<open>log.c\<close>) do around a system call when no other process is inside
  one, and the lemmas that carry file contents from the buffer cache to the disk.
\<close>

section \<open>Frames\<close>

definition opframe :: "'z klog_scheme \<Rightarrow> 'z klog_scheme \<Rightarrow> bool" where
  "opframe s t \<longleftrightarrow> t = s\<lparr>procs := procs t, slocks := slocks t, bufs := bufs t, memdisk := memdisk t, dwrites := dwrites t, lh := lh t,
       log_outstanding := log_outstanding t, log_committing := log_committing t\<rparr>
     \<and> woken (procs s) (procs t) \<and> (\<forall>k. slocks t (SLinode k) = slocks s (SLinode k))"

lemma opframe_refl [simp]: "opframe s s"
  by (simp add: opframe_def)

lemma opframe_trans: "opframe s t \<Longrightarrow> opframe t u \<Longrightarrow> opframe s u"
  unfolding opframe_def
proof (elim conjE, intro conjI)
  let ?U = "\<lambda>x y. x\<lparr>procs := procs y, slocks := slocks y, bufs := bufs y, memdisk := memdisk y, dwrites := dwrites y, lh := lh y,
       log_outstanding := log_outstanding y, log_committing := log_committing y\<rparr>"
  assume a: "t = ?U s t" "u = ?U t u"
  have "u = ?U (?U s t) u" using a by metis
  then show "u = ?U s u" by simp
qed (auto intro: woken_trans)

lemma wframe_opframe: "wframe s t \<Longrightarrow> opframe s t"
proof -
  assume f: "wframe s t"
  then have "t = s\<lparr>procs := procs t, slocks := slocks t, bufs := bufs t, memdisk := memdisk t, dwrites := dwrites t\<rparr>" by (simp add: wframe_def)
  moreover have "s\<lparr>procs := procs t, slocks := slocks t, bufs := bufs t, memdisk := memdisk t, dwrites := dwrites t\<rparr> =
      s\<lparr>procs := procs t, slocks := slocks t, bufs := bufs t, memdisk := memdisk t, dwrites := dwrites t, lh := lh t,
       log_outstanding := log_outstanding t, log_committing := log_committing t\<rparr>"
    using wframe_log[OF f] by simp
  ultimately show ?thesis using f by (simp add: wframe_def opframe_def)
qed

lemma opframeD:
  "opframe s t \<Longrightarrow> khw t = khw s" "opframe s t \<Longrightarrow> disksize t = disksize s" "opframe s t \<Longrightarrow> pmem t = pmem s" "opframe s t \<Longrightarrow> log_size t = log_size s"
  "opframe s t \<Longrightarrow> log_dev t = log_dev s" "opframe s t \<Longrightarrow> log_start t = log_start s" "opframe s t \<Longrightarrow> slocks t (SLinode k) = slocks s (SLinode k)"
  unfolding opframe_def by (elim conjE, erule ssubst, simp)+

lemma opframe_fs: "opframe s t \<Longrightarrow> icache t = icache s" "opframe s t \<Longrightarrow> ksb t = ksb s" "opframe s t \<Longrightarrow> devsw t = devsw s" "opframe s t \<Longrightarrow> input t = input s"
  unfolding opframe_def by (elim conjE, erule ssubst, simp)+

lemma log_flag_upd [simp]:
  "lblk (s\<lparr>log_outstanding := x\<rparr>) = lblk s" "dirties (s\<lparr>log_outstanding := x\<rparr>) = dirties s" "bok H (s\<lparr>log_outstanding := x\<rparr>) = bok H s"
  "lblk (s\<lparr>log_committing := c\<rparr>) = lblk s" "dirties (s\<lparr>log_committing := c\<rparr>) = dirties s" "bok H (s\<lparr>log_committing := c\<rparr>) = bok H s"
proof -
  have "nxt (s\<lparr>log_outstanding := x\<rparr>) = nxt s" "prv (s\<lparr>log_outstanding := x\<rparr>) = prv s" "nxt (s\<lparr>log_committing := c\<rparr>) = nxt s" "prv (s\<lparr>log_committing := c\<rparr>) = prv s"
    by (simp_all add: nxt_def prv_def fun_eq_iff)
  then show "bok H (s\<lparr>log_outstanding := x\<rparr>) = bok H s" "bok H (s\<lparr>log_committing := c\<rparr>) = bok H s"
    by (simp_all add: bok_def bc_inv_def bslot_def buniq_def cur_def Let_def)
  show "lblk (s\<lparr>log_outstanding := x\<rparr>) = lblk s" "lblk (s\<lparr>log_committing := c\<rparr>) = lblk s" by (simp_all add: lblk_def fun_eq_iff cong: option.case_cong)
  show "dirties (s\<lparr>log_outstanding := x\<rparr>) = dirties s" "dirties (s\<lparr>log_committing := c\<rparr>) = dirties s" by (simp_all add: dirties_def)
qed

lemma opframe_flags: "opframe s (s\<lparr>log_outstanding := x\<rparr>)" "opframe s (s\<lparr>log_committing := c\<rparr>)" "opframe s (s\<lparr>lh := bs\<rparr>)"
  by (simp_all add: opframe_def)

lemma opframe_awaken: "opframe s (awaken ch s)"
  using woken_awaken[of s ch] by (simp add: opframe_def awaken_def)

section \<open>Transactions of one process\<close>

text \<open>No process is inside a transaction and everything is on the disk.\<close>

definition calm :: "'z klog_scheme \<Rightarrow> bool" where
  "calm s \<longleftrightarrow> bok {} s \<and> lh s = [] \<and> dirties s = {} \<and> log_outstanding s = 0 \<and> \<not> log_committing s \<and> log_dev s = 1
     \<and> log_start s + LOGSIZE < disksize s \<and> LOGSIZE \<le> log_size s"

lemma calm_disk: "calm s \<Longrightarrow> blk (memdisk s) = lblk s"
  by (auto simp: calm_def lblk_clean fun_eq_iff)

lemma begin_op_calm:
  assumes "calm s"
  shows "begin_op s = Ret () (s\<lparr>log_outstanding := 1\<rparr>)" "txok {} (s\<lparr>log_outstanding := 1\<rparr>)" "k < LOGSIZE \<Longrightarrow> txroom {} k (s\<lparr>log_outstanding := 1\<rparr>)"
proof -
  have "kidle s" using assms by (simp add: calm_def bok_def)
  then show "begin_op s = Ret () (s\<lparr>log_outstanding := 1\<rparr>)" using assms by (simp add: calm_def begin_op_def begin_op_loop_def kdefs)
qed (use assms in \<open>simp_all add: calm_def txok_def txroom_def\<close>)

definition in_log_area :: "'z klog_scheme \<Rightarrow> nat \<Rightarrow> bool" where
  "in_log_area s b \<longleftrightarrow> log_start s \<le> b \<and> b \<le> log_start s + LOGSIZE"

lemma commit_any:
  assumes ok: "bok {} s" "dirties s = set (lh s)" and T: "trans_ok s" and r: "length (lh s) + 1 < NBUF"
  shows "\<exists>t. commit s = Ret () t \<and> opframe s t \<and> bok {} t \<and> dirties t = {} \<and> lh t = [] \<and> log_outstanding t = log_outstanding s \<and> log_committing t = log_committing s
    \<and> (\<forall>b. \<not> in_log_area s b \<longrightarrow> lblk t b = lblk s b)"
proof (cases "lh s = []")
  case True
  then show ?thesis using ok by (intro exI[of _ s]) (simp add: commit_def kdefs)
next
  case False
  have d: "card (dirties s) + 1 < NBUF" "bok {} s" using ok r T by (simp_all add: trans_ok_def distinct_card)
  obtain t where t: "commit s = Ret () (t\<lparr>lh := []\<rparr>)" "wrotes (commit_writes (log_start s) (lh s) (lblk s)) s t" using commit_net[OF d(2) T d(1) False] by blast
  note w = wrotesD[OF t(2)]
  let ?L = "fst ` set (commit_writes (log_start s) (lh s) (lblk s))"
  have "dirties t = dirties s - ?L" using t(2) by (simp add: wrotes_def)
  moreover have "set (lh s) \<subseteq> ?L" by (force simp: commit_writes_def)
  ultimately have e: "dirties t = {}" using ok(2) by auto
  have l: "length (lh s) \<le> LOGSIZE" using T by (simp add: trans_ok_def)
  have "put_all (commit_writes (log_start s) (lh s) (lblk s)) (lblk s) b = lblk s b" if b: "\<not> in_log_area s b" for b
  proof -
    have "b \<noteq> log_start s + i + 1" if "i < length (lh s)" for i using b l that unfolding in_log_area_def by linarith
    then have n: "b \<notin> fst ` set (log_writes (log_start s) (lh s) (lblk s) (length (lh s)))" unfolding fst_log_writes by blast
    have m: "b \<noteq> log_start s" using b unfolding in_log_area_def by linarith
    have "put_all (map (\<lambda>b. (b, lblk s b)) (lh s)) d b = lblk s b" if "d b = lblk s b" for d
    proof (cases "b \<in> set (lh s)")
      case True
      then show ?thesis using T by (intro put_all_at) (auto simp: trans_ok_def distinct_map inj_on_def comp_def)
    next
      case False
      then show ?thesis using that by (subst put_all_other) (auto simp: image_iff)
    qed
    then show ?thesis using n m by (simp add: commit_writes_def put_all_other)
  qed
  then have "\<forall>b. \<not> in_log_area s b \<longrightarrow> lblk (t\<lparr>lh := []\<rparr>) b = lblk s b" using w(4) by simp
  moreover have "opframe s (t\<lparr>lh := []\<rparr>)" by (rule opframe_trans[OF wframe_opframe[OF w(2)] opframe_flags(3)])
  ultimately show ?thesis using t(1) w(1) e wframe_log(5,6)[OF w(2)] by (intro exI[of _ "t\<lparr>lh := []\<rparr>"]) simp
qed

lemma end_op_net:
  assumes ok: "txok {} s" and T: "trans_ok s" and r: "length (lh s) + 1 < NBUF" and o: "log_outstanding s = 1" "\<not> log_committing s"
  shows "\<exists>t. end_op s = Ret () t \<and> opframe s t \<and> bok {} t \<and> dirties t = {} \<and> lh t = [] \<and> log_outstanding t = 0 \<and> \<not> log_committing t
    \<and> (\<forall>b. \<not> in_log_area s b \<longrightarrow> lblk t b = lblk s b)"
proof -
  let ?s = "s\<lparr>log_outstanding := 0, log_committing := True\<rparr>"
  have k: "kidle s" using ok by (simp add: txok_def bok_def)
  have T': "trans_ok ?s" using T by (simp add: trans_ok_def)
  have ok': "bok {} ?s" "dirties ?s = set (lh ?s)" using ok by (simp_all add: txok_def)
  obtain t where t: "commit ?s = Ret () t" "opframe ?s t" "bok {} t" "dirties t = {}" "lh t = []" "log_outstanding t = 0"
    "\<forall>b. \<not> in_log_area ?s b \<longrightarrow> lblk t b = lblk ?s b"
    using commit_any[OF ok' T'] r by auto
  let ?t = "awaken (Some ChanLog) (t\<lparr>log_committing := False\<rparr>)"
  have kt: "kidle t" using t(3) by (simp add: bok_def)
  have "end_op s = Ret () ?t" using k kt o t(1) by (simp add: end_op_def kdefs wakeup_awaken)
  moreover have "opframe s ?t"
    by (intro opframe_trans[OF opframe_trans[OF opframe_flags(1)[of s 0] opframe_flags(2)[of "s\<lparr>log_outstanding := 0\<rparr>" True]]]
        opframe_trans[OF t(2)] opframe_trans[OF opframe_flags(2)[of t False]] opframe_awaken)
  moreover have "lh ?t = [] \<and> log_outstanding ?t = 0 \<and> \<not> log_committing ?t" using t(5,6) by (simp add: awaken_def)
  moreover have "\<forall>b. \<not> in_log_area s b \<longrightarrow> lblk ?t b = lblk s b" using t(7) by (simp add: in_log_area_def)
  ultimately show ?thesis using t(3,4) by (intro exI[of _ ?t]) simp
qed

end
