(* ===== verification/Pipe.thy ===== *)
theory Pipe
  imports Console
begin

text \<open>
  Pipes (\<^verbatim>\<open>pipe.c\<close>): a ring buffer of \<open>PIPESIZE\<close> bytes between a writing and a reading file, in a page of its own.
  A pipe is named by the address of its page.  \<^verbatim>\<open>pipewrite\<close> takes the bytes at \<^verbatim>\<open>addr\<close> and \<^verbatim>\<open>piperead\<close>
  returns the bytes it stores there; the callers move them from and to user memory.  A writer that finds
  the pipe full, and a reader that finds it empty, goes to sleep, which ends the run in \<open>Blocked\<close>; the
  \<open>_resume\<close> definitions are what the code does when the process is scheduled again.  \<^verbatim>\<open>pipealloc\<close> is with
  the file table.
\<close>

abbreviation "PIPESIZE \<equiv> (512 :: nat)"

record pipe =
  pi_data :: "byte list"
  pi_nread :: u32
  pi_nwrite :: u32
  pi_readopen :: bool
  pi_writeopen :: bool

record kpipe = kcons +
  pipes :: "nat \<Rightarrow> pipe"

definition upd_pipe :: "nat \<Rightarrow> (pipe \<Rightarrow> pipe) \<Rightarrow> 'z kpipe_scheme \<Rightarrow> 'z kpipe_scheme" where
  "upd_pipe p f s = s\<lparr>pipes := (pipes s)(p := f (pipes s p))\<rparr>"

text \<open>
  What \<^verbatim>\<open>kfree\<close> leaves of a pipe: every byte of the page is 1, but for the link of the free list at its start, where the lock is.
\<close>

definition pipe_junk :: pipe where
  "pipe_junk = \<lparr>pi_data = replicate PIPESIZE 1, pi_nread = 0x01010101, pi_nwrite = 0x01010101, pi_readopen = True, pi_writeopen = True\<rparr>"

definition pipeclose :: "nat \<Rightarrow> bool \<Rightarrow> ('z kpipe_scheme, unit) K" where
  "pipeclose p writable =
     kthen (kacquire (Lpipe p)) (
     kthen (if writable then
              kthen (kmod (upd_pipe p (\<lambda>x. x\<lparr>pi_writeopen := False\<rparr>))) (wakeup (Some (ChanPipeR p)))
            else
              kthen (kmod (upd_pipe p (\<lambda>x. x\<lparr>pi_readopen := False\<rparr>))) (wakeup (Some (ChanPipeW p)))) (
     kbind (kget (\<lambda>s. pipes s p)) (\<lambda>x.
     if \<not> pi_readopen x \<and> \<not> pi_writeopen x then kthen (krelease (Lpipe p)) (kthen (kfree p) (kmod (upd_pipe p (\<lambda>_. pipe_junk))))
     else krelease (Lpipe p))))"

section \<open>Writing\<close>

text \<open>The killed flag of the running process.\<close>

definition my_killed :: "('z kpr_scheme, bool) K" where
  "my_killed = kbind myproc (\<lambda>p. kderef p (\<lambda>me. kbind (the_proc me) (\<lambda>pr. kret (p_killed pr))))"

text \<open>
  The loop over the bytes left to write; the result says whether all of them have been written (\<open>False\<close> is the
  return of -1).  The value after \<open>sleep\<close> is never used: \<open>sleep\<close> does not return.
\<close>

primrec pipewrite_loop :: "nat \<Rightarrow> byte list \<Rightarrow> ('z kpipe_scheme, bool) K" where
  "pipewrite_loop p [] = kret True"
| "pipewrite_loop p (c # cs) =
     kbind (kget (\<lambda>s. pipes s p)) (\<lambda>x.
     if pi_nwrite x = pi_nread x + of_nat PIPESIZE then
       kbind (if \<not> pi_readopen x then kret True else my_killed) (\<lambda>stop.
       if stop then kret False
       else
         kthen (wakeup (Some (ChanPipeR p))) (
         kthen (sleep (Some (ChanPipeW p)) (Some (Lpipe p))) (kret False)))
     else
       kthen (kmod (upd_pipe p (\<lambda>x. x\<lparr>pi_data := (pi_data x)[unat (pi_nwrite x) mod PIPESIZE := c], pi_nwrite := pi_nwrite x + 1\<rparr>)))
         (pipewrite_loop p cs))"

definition pipewrite_finish :: "nat \<Rightarrow> int \<Rightarrow> bool \<Rightarrow> ('z kpipe_scheme, int) K" where
  "pipewrite_finish p n r =
     (if r then kthen (wakeup (Some (ChanPipeR p))) (kthen (krelease (Lpipe p)) (kret n))
      else kthen (krelease (Lpipe p)) (kret (-1)))"

definition pipewrite :: "nat \<Rightarrow> byte list \<Rightarrow> int \<Rightarrow> ('z kpipe_scheme, int) K" where
  "pipewrite p src n =
     kthen (kacquire (Lpipe p)) (
     kbind (pipewrite_loop p (take (nat n) src)) (pipewrite_finish p n))"

definition pipewrite_resume :: "bool \<Rightarrow> nat \<Rightarrow> nat \<Rightarrow> byte list \<Rightarrow> int \<Rightarrow> ('z kpipe_scheme, int) K" where
  "pipewrite_resume ie i p left n =
     kthen (sleep_resume ie i (Lpipe p)) (
     kbind (pipewrite_loop p left) (pipewrite_finish p n))"

section \<open>Reading\<close>

primrec piperead_copy :: "nat \<Rightarrow> nat \<Rightarrow> byte list \<Rightarrow> ('z kpipe_scheme, byte list) K" where
  "piperead_copy p 0 acc = kret acc"
| "piperead_copy p (Suc n) acc =
     kbind (kget (\<lambda>s. pipes s p)) (\<lambda>x.
     if pi_nread x = pi_nwrite x then kret acc
     else
       kthen (kmod (upd_pipe p (\<lambda>x. x\<lparr>pi_nread := pi_nread x + 1\<rparr>)))
         (piperead_copy p n (acc @ [pi_data x ! (unat (pi_nread x) mod PIPESIZE)])))"

text \<open>From the test of the waiting loop to the end; again the value after \<open>sleep\<close> is never used.\<close>

definition piperead_locked :: "nat \<Rightarrow> int \<Rightarrow> ('z kpipe_scheme, int \<times> byte list) K" where
  "piperead_locked p n =
     kbind (kget (\<lambda>s. pipes s p)) (\<lambda>x.
     if pi_nread x = pi_nwrite x \<and> pi_writeopen x then
       kbind my_killed (\<lambda>k.
       if k then kthen (krelease (Lpipe p)) (kret (-1, []))
       else kthen (sleep (Some (ChanPipeR p)) (Some (Lpipe p))) (kret (-1, [])))
     else
       kbind (piperead_copy p (nat n) []) (\<lambda>bs.
       kthen (wakeup (Some (ChanPipeW p))) (
       kthen (krelease (Lpipe p))
         (kret (int (length bs), bs)))))"

definition piperead :: "nat \<Rightarrow> int \<Rightarrow> ('z kpipe_scheme, int \<times> byte list) K" where
  "piperead p n = kthen (kacquire (Lpipe p)) (piperead_locked p n)"

definition piperead_resume :: "bool \<Rightarrow> nat \<Rightarrow> nat \<Rightarrow> int \<Rightarrow> ('z kpipe_scheme, int \<times> byte list) K" where
  "piperead_resume ie i p n = kthen (sleep_resume ie i (Lpipe p)) (piperead_locked p n)"

section \<open>The queue a pipe stands for\<close>

interpretation piring: ring_buffer PIPESIZE
  by unfold_locales simp_all

definition pabs :: "pipe \<Rightarrow> byte list" where
  "pabs x = window PIPESIZE (pi_data x) (pi_nread x) (unat (pi_nwrite x - pi_nread x))"

definition pinv :: "pipe \<Rightarrow> bool" where
  "pinv x \<longleftrightarrow> length (pi_data x) = PIPESIZE \<and> unat (pi_nwrite x - pi_nread x) \<le> PIPESIZE"

text \<open>What is fixed while one side of the pipe is at work.\<close>

definition wext :: "pipe \<Rightarrow> byte list \<Rightarrow> pipe \<Rightarrow> bool" where
  "wext x bs y \<longleftrightarrow> pinv y \<and> pabs y = pabs x @ bs \<and> pi_nwrite y = pi_nwrite x + of_nat (length bs)
     \<and> pi_nread y = pi_nread x \<and> pi_readopen y = pi_readopen x \<and> pi_writeopen y = pi_writeopen x"

lemma pabs_length: "length (pabs x) = unat (pi_nwrite x - pi_nread x)"
  by (simp add: pabs_def)

lemma pipe_full: "pinv x \<Longrightarrow> pi_nwrite x = pi_nread x + of_nat PIPESIZE \<longleftrightarrow> length (pabs x) = PIPESIZE"
proof -
  assume "pinv x"
  have "pi_nwrite x = pi_nread x + of_nat PIPESIZE \<longleftrightarrow> pi_nwrite x - pi_nread x = of_nat PIPESIZE" by (auto simp: algebra_simps)
  also have "\<dots> \<longleftrightarrow> unat (pi_nwrite x - pi_nread x) = PIPESIZE" by (simp add: word_unat_eq_iff)
  finally show ?thesis by (simp add: pabs_length)
qed

lemma pipe_empty: "pi_nread x = pi_nwrite x \<longleftrightarrow> pabs x = []"
proof -
  have "pabs x = [] \<longleftrightarrow> unat (pi_nwrite x - pi_nread x) = 0" unfolding pabs_length[symmetric] by simp
  then show ?thesis by (simp add: unat_eq_zero) auto
qed

lemma pipe_put:
  assumes "pinv x" "length (pabs x) < PIPESIZE"
  shows "wext x [c] (x\<lparr>pi_data := (pi_data x)[unat (pi_nwrite x) mod PIPESIZE := c], pi_nwrite := pi_nwrite x + 1\<rparr>)"
proof -
  have l: "unat (pi_nwrite x - pi_nread x) < PIPESIZE" "length (pi_data x) = PIPESIZE" using assms by (simp_all add: pabs_length pinv_def)
  show ?thesis using piring.put(1)[OF l] piring.put(2)[OF l, of c] l by (simp add: wext_def pinv_def pabs_def)
qed

lemma pipe_get:
  assumes "pinv x" "pabs x \<noteq> []"
  shows "pinv (x\<lparr>pi_nread := pi_nread x + 1\<rparr>)" "pabs x = pi_data x ! (unat (pi_nread x) mod PIPESIZE) # pabs (x\<lparr>pi_nread := pi_nread x + 1\<rparr>)"
proof -
  have n: "pi_nread x \<noteq> pi_nwrite x" using assms(2) by (simp add: pipe_empty)
  show "pinv (x\<lparr>pi_nread := pi_nread x + 1\<rparr>)" using assms(1) piring.get(1)[OF n] by (simp add: pinv_def)
  show "pabs x = pi_data x ! (unat (pi_nread x) mod PIPESIZE) # pabs (x\<lparr>pi_nread := pi_nread x + 1\<rparr>)"
    using piring.get(2)[OF n] by (simp add: pabs_def)
qed

lemma wext_trans: "wext x as y \<Longrightarrow> wext y bs z \<Longrightarrow> wext x (as @ bs) z"
  by (simp add: wext_def)

section \<open>Net effect of the operations\<close>

lemma kpipe_simps [simp]:
  "pipes (klock lk s) = pipes s" "pipes (ksettle s) = pipes s" "pipes (awaken ch s) = pipes s" "pipes (upd_proc i f s) = pipes s"
  "khw (s\<lparr>pipes := x\<rparr>) = khw s" "procs (s\<lparr>pipes := x\<rparr>) = procs s" "cur (s\<lparr>pipes := x\<rparr>) = cur s" "kdepth (s\<lparr>pipes := x\<rparr>) = kdepth s"
  "(klock lk s)\<lparr>pipes := x\<rparr> = klock lk (s\<lparr>pipes := x\<rparr>)" "(ksettle s)\<lparr>pipes := x\<rparr> = ksettle (s\<lparr>pipes := x\<rparr>)"
  "upd_pipe p h (klock lk s) = klock lk (upd_pipe p h s)" "upd_pipe p h (s\<lparr>pipes := g\<rparr>) = s\<lparr>pipes := g(p := h (g p))\<rparr>"
  by (simp_all add: klock_def ksettle_def awaken_def upd_proc_def cur_def kdepth_def upd_pipe_def)

lemma my_killed_net: "kgood s \<Longrightarrow> cur s = Some i \<Longrightarrow> my_killed s = Ret (p_killed (procs s ! i)) (ksettle s)"
  by (simp add: my_killed_def kdefs the_proc_def)

lemma running_pipes [simp]: "running i (s\<lparr>pipes := x\<rparr>) = running i s"
  by (simp add: running_def)

abbreviation set_pi :: "nat \<Rightarrow> pipe \<Rightarrow> 'z kpipe_scheme \<Rightarrow> 'z kpipe_scheme" where
  "set_pi p x s \<equiv> s\<lparr>pipes := (pipes s)(p := x)\<rparr>"

text \<open>
  The writing loop: with room for everything it writes everything; without, it fills the pipe and then
  either gives up or goes to sleep.
\<close>

lemma pipewrite_loop_room:
  assumes "pinv (pipes s p)" "length (pabs (pipes s p)) + length src \<le> PIPESIZE"
  shows "\<exists>y. wext (pipes s p) src y \<and> pipewrite_loop p (src @ rest) (klock lk s) = pipewrite_loop p rest (klock lk (set_pi p y s))"
  using assms
proof (induction src arbitrary: s)
  case Nil
  then show ?case by (intro exI[of _ "pipes s p"]) (simp add: wext_def)
next
  case (Cons c cs)
  let ?x = "pipes s p"
  define y1 where "y1 = ?x\<lparr>pi_data := (pi_data ?x)[unat (pi_nwrite ?x) mod PIPESIZE := c], pi_nwrite := pi_nwrite ?x + 1\<rparr>"
  have n: "pi_nwrite ?x \<noteq> pi_nread ?x + of_nat PIPESIZE" using pipe_full[OF Cons.prems(1)] Cons.prems(2) by simp
  have w: "wext ?x [c] y1" unfolding y1_def using Cons.prems by (intro pipe_put) simp_all
  then have "pinv y1" "length (pabs y1) + length cs \<le> PIPESIZE" using Cons.prems(2) by (simp_all add: wext_def)
  then obtain y where y: "wext y1 cs y" "pipewrite_loop p (cs @ rest) (klock lk (set_pi p y1 s)) = pipewrite_loop p rest (klock lk (set_pi p y s))"
    using Cons.IH[of "set_pi p y1 s"] by (auto simp del: fun_upd_apply simp: fun_upd_same)
  have "wext ?x (c # cs) y" using wext_trans[OF w y(1)] by simp
  then show ?case using n y(2) by (intro exI[of _ y]) (simp add: kdefs upd_pipe_def y1_def[symmetric] del: fun_upd_apply)
qed

lemma pipewrite_loop_full:
  assumes "pinv (pipes s p)" "length (pabs (pipes s p)) = PIPESIZE" "running i s"
  shows "pipewrite_loop p (c # cs) (klock (Lpipe p) s) =
     (if pi_readopen (pipes s p) \<and> \<not> p_killed (procs s ! i) then Blocked (asleep i (ChanPipeW p) (awaken (Some (ChanPipeR p)) s))
      else Ret False (klock (Lpipe p) s))"
proof -
  have f: "pi_nwrite (pipes s p) = pi_nread (pipes s p) + of_nat PIPESIZE" using pipe_full[OF assms(1)] assms(2) by simp
  note r = runningD[OF assms(3)]
  have k: "my_killed (klock (Lpipe p) s) = Ret (p_killed (procs s ! i)) (klock (Lpipe p) s)" using r by (simp add: my_killed_net)
  have w: "wakeup (Some (ChanPipeR p)) (klock (Lpipe p) s) = Ret () (klock (Lpipe p) (awaken (Some (ChanPipeR p)) s))" using r by (simp add: wakeup_awaken)
  have "sleep (Some (ChanPipeW p)) (Some (Lpipe p)) (klock (Lpipe p) (awaken (Some (ChanPipeR p)) s)) = Blocked (asleep i (ChanPipeW p) (awaken (Some (ChanPipeR p)) s))"
    using assms(3) by (intro sleep_asleep) simp
  then show ?thesis using f k w by (simp add: kdefs)
qed

lemma pipewrite_tail_net:
  fixes src :: "byte list"
  assumes "pinv (pipes s p)" "running i s"
  defines "k \<equiv> min (length src) (PIPESIZE - length (pabs (pipes s p)))"
  shows "\<exists>y. wext (pipes s p) (take k src) y \<and> kbind (pipewrite_loop p src) (pipewrite_finish p n) (klock (Lpipe p) s) =
     (if k = length src then Ret n (awaken (Some (ChanPipeR p)) (set_pi p y s))
      else if pi_readopen (pipes s p) \<and> \<not> p_killed (procs s ! i)
        then Blocked (asleep i (ChanPipeW p) (awaken (Some (ChanPipeR p)) (set_pi p y s)))
        else Ret (-1) (set_pi p y s))"
proof -
  note r = runningD[OF assms(2)]
  have b: "length (pabs (pipes s p)) \<le> PIPESIZE" using assms(1) by (simp add: pinv_def pabs_length)
  have "length (pabs (pipes s p)) + length (take k src) \<le> PIPESIZE" using b by (simp add: k_def)
  then obtain y where y: "wext (pipes s p) (take k src) y"
    "pipewrite_loop p src (klock (Lpipe p) s) = pipewrite_loop p (drop k src) (klock (Lpipe p) (set_pi p y s))"
    using pipewrite_loop_room[OF assms(1), of "take k src" "drop k src"] unfolding append_take_drop_id by blast
  show ?thesis
  proof (cases "drop k src")
    case Nil
    then have "k = length src" by (simp add: k_def)
    then show ?thesis using y r by (intro exI[of _ y]) (simp add: kdefs pipewrite_finish_def wakeup_awaken)
  next
    case (Cons c cs)
    then have "k < length src" by (metis drop_all list.discI not_less)
    then have k: "k \<noteq> length src" "k = PIPESIZE - length (pabs (pipes s p))" by (auto simp: k_def)
    have s: "running i (set_pi p y s)" "pinv (pipes (set_pi p y s) p)" "length (pabs (pipes (set_pi p y s) p)) = PIPESIZE"
      using assms(2) y(1) b \<open>k < length src\<close> k(2) by (auto simp: wext_def)
    have e: "pi_readopen y = pi_readopen (pipes s p)" using y(1) by (simp add: wext_def)
    note L = trans[OF y(2)[unfolded Cons] pipewrite_loop_full[OF s(2,3,1)]]
    show ?thesis using y(1) L k(1) e r by (intro exI[of _ y]) (simp add: kdefs pipewrite_finish_def)
  qed
qed

text \<open>The reading side.\<close>

definition rext :: "pipe \<Rightarrow> nat \<Rightarrow> pipe \<Rightarrow> bool" where
  "rext x n y \<longleftrightarrow> pinv y \<and> pabs y = drop n (pabs x) \<and> pi_nwrite y = pi_nwrite x \<and> pi_readopen y = pi_readopen x \<and> pi_writeopen y = pi_writeopen x"

lemma piperead_copy_net:
  assumes "pinv (pipes s p)"
  shows "\<exists>y. rext (pipes s p) n y \<and> piperead_copy p n acc (klock lk s) = Ret (acc @ take n (pabs (pipes s p))) (klock lk (set_pi p y s))"
  using assms
proof (induction n arbitrary: s acc)
  case 0
  then show ?case by (intro exI[of _ "pipes s p"]) (simp add: rext_def)
next
  case (Suc n)
  let ?x = "pipes s p"
  show ?case
  proof (cases "pabs ?x = []")
    case True
    then show ?thesis using Suc.prems pipe_empty[of ?x] by (intro exI[of _ ?x]) (simp add: rext_def kdefs)
  next
    case False
    define y1 where "y1 = ?x\<lparr>pi_nread := pi_nread ?x + 1\<rparr>"
    note g = pipe_get[OF Suc.prems False, folded y1_def]
    have e: "pi_nwrite y1 = pi_nwrite ?x" "pi_readopen y1 = pi_readopen ?x" "pi_writeopen y1 = pi_writeopen ?x" by (simp_all add: y1_def)
    obtain y where y: "rext y1 n y" "piperead_copy p n (acc @ [pi_data ?x ! (unat (pi_nread ?x) mod PIPESIZE)]) (klock lk (set_pi p y1 s)) =
        Ret (acc @ pi_data ?x ! (unat (pi_nread ?x) mod PIPESIZE) # take n (pabs y1)) (klock lk (set_pi p y s))"
      using Suc.IH[of "set_pi p y1 s" "acc @ [pi_data ?x ! (unat (pi_nread ?x) mod PIPESIZE)]"] g(1)
      by (auto simp del: fun_upd_apply simp: fun_upd_same)
    have "rext ?x (Suc n) y" using y(1) e by (simp add: rext_def g(2))
    moreover have "pi_nread ?x \<noteq> pi_nwrite ?x" using False by (simp add: pipe_empty)
    ultimately show ?thesis using y(2) by (intro exI[of _ y]) (simp add: kdefs upd_pipe_def y1_def[symmetric] g(2) del: fun_upd_apply)
  qed
qed

lemma piperead_locked_net:
  assumes "pinv (pipes s p)" "running i s"
  shows "\<exists>y. rext (pipes s p) (nat n) y \<and> piperead_locked p n (klock (Lpipe p) s) =
     (if pabs (pipes s p) = [] \<and> pi_writeopen (pipes s p)
      then if p_killed (procs s ! i) then Ret (-1, []) s else Blocked (asleep i (ChanPipeR p) s)
      else Ret (int (min (nat n) (length (pabs (pipes s p)))), take (nat n) (pabs (pipes s p))) (awaken (Some (ChanPipeW p)) (set_pi p y s)))"
proof -
  note r = runningD[OF assms(2)]
  obtain y where y: "rext (pipes s p) (nat n) y" "piperead_copy p (nat n) [] (klock (Lpipe p) s) = Ret (take (nat n) (pabs (pipes s p))) (klock (Lpipe p) (set_pi p y s))"
    using piperead_copy_net[OF assms(1), of "nat n" "[]" "Lpipe p"] by auto
  have k: "my_killed (klock (Lpipe p) s) = Ret (p_killed (procs s ! i)) (klock (Lpipe p) s)" using r by (simp add: my_killed_net)
  show ?thesis using y k r sleep_asleep[OF assms(2)]
    by (intro exI[of _ y]) (auto simp: piperead_locked_def kdefs pipe_empty wakeup_awaken min.commute)
qed

section \<open>Streams\<close>

text \<open>
  Everything that can happen to the pipe \<open>p\<close>, with the bytes taken from writers so far and the bytes handed to readers
  so far.  A call of \<^verbatim>\<open>pipewrite\<close> that goes to sleep, or fails, has taken as many bytes as \<^verbatim>\<open>nwrite\<close> has grown; it
  goes on with the rest when it is resumed.  Between the steps any code may run that does not touch this pipe.  The close of the
  second end frees the pipe, and the run is over.
\<close>

definition ends :: "('s, 'a) outcome \<Rightarrow> 's \<Rightarrow> bool" where
  "ends r t \<longleftrightarrow> (case r of Ret a u \<Rightarrow> u = t | Blocked u \<Rightarrow> u = t | _ \<Rightarrow> False)"

lemma ends_simps [simp]: "ends (Ret a u) t \<longleftrightarrow> u = t" "ends (Blocked u) t \<longleftrightarrow> u = t"
  by (simp_all add: ends_def)

definition taken_by :: "pipe \<Rightarrow> pipe \<Rightarrow> byte list \<Rightarrow> byte list" where
  "taken_by x y src = take (unat (pi_nwrite y - pi_nwrite x)) src"

inductive pipe_run :: "nat \<Rightarrow> 'z kpipe_scheme \<times> byte list \<times> byte list \<Rightarrow> bool" for p where
  start: "pinv (pipes s p) \<Longrightarrow> pabs (pipes s p) = [] \<Longrightarrow> pipe_run p (s, [], [])"
| other: "pipe_run p (s, W, R) \<Longrightarrow> pipes t p = pipes s p \<Longrightarrow> pipe_run p (t, W, R)"
| put: "pipe_run p (s, W, R) \<Longrightarrow> running i s \<Longrightarrow> ends (pipewrite p src (int (length src)) s) t \<Longrightarrow>
     pipe_run p (t, W @ taken_by (pipes s p) (pipes t p) src, R)"
| put_on: "pipe_run p (s, W, R) \<Longrightarrow> running i s \<Longrightarrow> ends (pipewrite_resume (readeflags_if (khw s)) i p src n (klock Lptable s)) t \<Longrightarrow>
     pipe_run p (t, W @ taken_by (pipes s p) (pipes t p) src, R)"
| get: "pipe_run p (s, W, R) \<Longrightarrow> running i s \<Longrightarrow> piperead p n s = Ret (r, bs) t \<Longrightarrow> pipe_run p (t, W, R @ bs)"
| get_on: "pipe_run p (s, W, R) \<Longrightarrow> running i s \<Longrightarrow> piperead_resume (readeflags_if (khw s)) i p n (klock Lptable s) = Ret (r, bs) t \<Longrightarrow>
     pipe_run p (t, W, R @ bs)"
| get_sleep: "pipe_run p (s, W, R) \<Longrightarrow> running i s \<Longrightarrow>
     piperead p n s = Blocked t \<or> piperead_resume (readeflags_if (khw s)) i p n (klock Lptable s) = Blocked t \<Longrightarrow> pipe_run p (t, W, R)"
| shut: "pipe_run p (s, W, R) \<Longrightarrow> running i s \<Longrightarrow> pipeclose p writable s = Ret () t \<Longrightarrow>
     (if writable then pi_readopen (pipes s p) else pi_writeopen (pipes s p)) \<Longrightarrow> pipe_run p (t, W, R)"

lemma pipewrite_net: "running i s \<Longrightarrow> pipewrite p src (int (length src)) s = kbind (pipewrite_loop p src) (pipewrite_finish p (int (length src))) (klock (Lpipe p) s)"
  by (simp add: pipewrite_def kdefs runningD)

lemma pipewrite_resume_net:
  "running i s \<Longrightarrow> pipewrite_resume (readeflags_if (khw s)) i p src n (klock Lptable s) =
     kbind (pipewrite_loop p src) (pipewrite_finish p n) (klock (Lpipe p) (upd_proc i (\<lambda>p. p\<lparr>p_chan := None\<rparr>) s))"
  by (simp add: pipewrite_resume_def kthen_apply sleep_resume_net)

lemma piperead_net: "running i s \<Longrightarrow> piperead p n s = piperead_locked p n (klock (Lpipe p) s)"
  by (simp add: piperead_def kdefs runningD)

lemma piperead_resume_net:
  "running i s \<Longrightarrow> piperead_resume (readeflags_if (khw s)) i p n (klock Lptable s) = piperead_locked p n (klock (Lpipe p) (upd_proc i (\<lambda>p. p\<lparr>p_chan := None\<rparr>) s))"
  by (simp add: piperead_resume_def kthen_apply sleep_resume_net)

lemma unat_diff_of_nat: "k \<le> PIPESIZE \<Longrightarrow> unat (x + of_nat k - x :: u32) = k"
  by (simp add: unat_of_nat)

lemma pipewrite_tail_stream:
  assumes "pinv (pipes s p)" "running i s" "ends (kbind (pipewrite_loop p src) (pipewrite_finish p n) (klock (Lpipe p) s)) t"
  shows "pinv (pipes t p)" "pabs (pipes t p) = pabs (pipes s p) @ taken_by (pipes s p) (pipes t p) src"
proof -
  define k where "k = min (length src) (PIPESIZE - length (pabs (pipes s p)))"
  obtain y where y: "wext (pipes s p) (take k src) y" "pipes t p = y"
    using pipewrite_tail_net[OF assms(1,2), of src n] assms(3) unfolding k_def[symmetric] by (auto split: if_splits)
  have "length (take k src) = k" "k \<le> PIPESIZE" by (simp_all add: k_def)
  then have "taken_by (pipes s p) y src = take k src" using y(1) unat_diff_of_nat[of k "pi_nwrite (pipes s p)"] unfolding taken_by_def wext_def by simp
  then show "pinv (pipes t p)" "pabs (pipes t p) = pabs (pipes s p) @ taken_by (pipes s p) (pipes t p) src"
    using y by (simp_all add: wext_def)
qed

lemma piperead_locked_stream:
  assumes "pinv (pipes s p)" "running i s"
  shows "piperead_locked p n (klock (Lpipe p) s) = Ret (r, bs) t \<Longrightarrow> pinv (pipes t p) \<and> pabs (pipes s p) = bs @ pabs (pipes t p)"
    "piperead_locked p n (klock (Lpipe p) s) = Blocked t \<Longrightarrow> pipes t p = pipes s p"
proof -
  let ?x = "pipes s p"
  obtain y where y: "rext ?x (nat n) y" and e: "piperead_locked p n (klock (Lpipe p) s) =
     (if pabs ?x = [] \<and> pi_writeopen ?x then if p_killed (procs s ! i) then Ret (-1, []) s else Blocked (asleep i (ChanPipeR p) s)
      else Ret (int (min (nat n) (length (pabs ?x))), take (nat n) (pabs ?x)) (awaken (Some (ChanPipeW p)) (set_pi p y s)))"
    using piperead_locked_net[OF assms, of n] by blast
  show "piperead_locked p n (klock (Lpipe p) s) = Blocked t \<Longrightarrow> pipes t p = ?x" unfolding e by (auto split: if_splits)
  have a: "pinv y" "pabs ?x = take (nat n) (pabs ?x) @ pabs y" using y by (simp_all add: rext_def)
  show "piperead_locked p n (klock (Lpipe p) s) = Ret (r, bs) t \<Longrightarrow> pinv (pipes t p) \<and> pabs ?x = bs @ pabs (pipes t p)"
    unfolding e using a assms(1) by (cases "pabs ?x = [] \<and> pi_writeopen ?x") (auto split: if_splits)
qed

lemma pipeclose_net:
  fixes s :: "'z kpipe_scheme" and p :: nat and w :: bool
  assumes "running i s"
  defines "y \<equiv> (if w then (pipes s p)\<lparr>pi_writeopen := False\<rparr> else (pipes s p)\<lparr>pi_readopen := False\<rparr>)"
  defines "u \<equiv> awaken (Some (if w then ChanPipeR p else ChanPipeW p)) (set_pi p y s)"
  shows "pipeclose p w s = (if \<not> pi_readopen y \<and> \<not> pi_writeopen y then kthen (kfree p) (kmod (upd_pipe p (\<lambda>_. pipe_junk))) u else Ret () u)"
  using runningD(1)[OF assms(1)] unfolding y_def u_def by (simp add: pipeclose_def kdefs upd_pipe_def wakeup_awaken del: fun_upd_apply) (simp add: fun_upd_same)

lemma pipeclose_stream:
  assumes "pinv (pipes s p)" "running i s" "pipeclose p w s = Ret () t" "if w then pi_readopen (pipes s p) else pi_writeopen (pipes s p)"
  shows "pinv (pipes t p)" "pabs (pipes t p) = pabs (pipes s p)"
proof -
  define y where "y = (if w then (pipes s p)\<lparr>pi_writeopen := False\<rparr> else (pipes s p)\<lparr>pi_readopen := False\<rparr>)"
  have "pi_readopen y \<or> pi_writeopen y" using assms(4) by (auto simp: y_def)
  then have "t = awaken (Some (if w then ChanPipeR p else ChanPipeW p)) (set_pi p y s)"
    using pipeclose_net[OF assms(2), of p w] assms(3) unfolding y_def[symmetric] by (auto split: if_splits)
  then show "pinv (pipes t p)" "pabs (pipes t p) = pabs (pipes s p)" using assms(1) by (auto simp: y_def pinv_def pabs_def)
qed

lemma pipewrite_tail_success:
  assumes "pinv (pipes s p)" "running i s" "kbind (pipewrite_loop p src) (pipewrite_finish p n) (klock (Lpipe p) s) = Ret r t" "r \<noteq> -1"
  shows "r = n" "taken_by (pipes s p) (pipes t p) src = src"
proof -
  define k where "k = min (length src) (PIPESIZE - length (pabs (pipes s p)))"
  obtain y where y: "wext (pipes s p) (take k src) y" "k = length src" "r = n" "pipes t p = y"
    using pipewrite_tail_net[OF assms(1,2), of src n] assms(3,4) unfolding k_def[symmetric] by (auto split: if_splits)
  have "k \<le> PIPESIZE" by (simp add: k_def)
  then have "taken_by (pipes s p) y src = src" using y(1,2) unat_diff_of_nat[of k "pi_nwrite (pipes s p)"] unfolding taken_by_def wext_def by simp
  then show "r = n" "taken_by (pipes s p) (pipes t p) src = src" using y(3,4) by simp_all
qed

text \<open>
  C3: A pipe is a reliable byte stream.  However the calls of its readers and writers, their sleeps and resumptions and the closing
  of its ends follow each other, and whatever other code runs in between, the bytes taken from the writers are
  the bytes handed to the readers followed by the bytes in the buffer: none is lost, repeated or reordered, and at most
  \<open>PIPESIZE\<close> are held.  A call of \<^verbatim>\<open>pipewrite\<close>, resumed or not, that returns anything but -1 returns the count it was given, and all its
  bytes have been taken.  This covers the wrap-around of the 32-bit counters.
\<close>

theorem pipe_stream:
  assumes "pipe_run p (s, W, R)"
  shows "W = R @ pabs (pipes s p) \<and> length (pabs (pipes s p)) \<le> PIPESIZE
    \<and> (\<forall>i src r t. running i s \<longrightarrow> pipewrite p src (int (length src)) s = Ret r t \<longrightarrow> r \<noteq> -1 \<longrightarrow>
        r = int (length src) \<and> taken_by (pipes s p) (pipes t p) src = src)
    \<and> (\<forall>i src n r t. running i s \<longrightarrow> pipewrite_resume (readeflags_if (khw s)) i p src n (klock Lptable s) = Ret r t \<longrightarrow> r \<noteq> -1 \<longrightarrow>
        r = n \<and> taken_by (pipes s p) (pipes t p) src = src)"
proof -
  have inv: "pinv (pipes (fst c) p) \<and> fst (snd c) = snd (snd c) @ pabs (pipes (fst c) p)" if "pipe_run p c" for c
    using that
  proof induction
    case (put s W R i src t)
    then show ?case using pipewrite_tail_stream[of s p i src "int (length src)" t] by (simp add: pipewrite_net)
  next
    case (put_on s W R i src n t)
    then show ?case using pipewrite_tail_stream[of "upd_proc i (\<lambda>p. p\<lparr>p_chan := None\<rparr>) s" p i src n t] by (simp add: pipewrite_resume_net)
  next
    case (get s W R i n r bs t)
    then show ?case using piperead_locked_stream(1)[of s p i n r bs t] by (simp add: piperead_net)
  next
    case (get_on s W R i n r bs t)
    then show ?case using piperead_locked_stream(1)[of "upd_proc i (\<lambda>p. p\<lparr>p_chan := None\<rparr>) s" p i n r bs t] by (simp add: piperead_resume_net)
  next
    case (get_sleep s W R i n t)
    then have "pipes t p = pipes s p"
      using piperead_locked_stream(2)[of s p i n t] piperead_locked_stream(2)[of "upd_proc i (\<lambda>p. p\<lparr>p_chan := None\<rparr>) s" p i n t]
      by (auto simp: piperead_net piperead_resume_net)
    then show ?case using get_sleep by simp
  next
    case (shut s W R i w t)
    then show ?case using pipeclose_stream[of s p i w t] by simp
  qed simp_all
  have I: "pinv (pipes s p)" "W = R @ pabs (pipes s p)" using inv[OF assms] by simp_all
  have "r = int (length src) \<and> taken_by (pipes s p) (pipes t p) src = src"
    if "running i s" "pipewrite p src (int (length src)) s = Ret r t" "r \<noteq> -1" for i src r t
    using pipewrite_tail_success[OF I(1) that(1), of src "int (length src)" r t] that by (simp add: pipewrite_net)
  moreover have "r = n \<and> taken_by (pipes s p) (pipes t p) src = src"
    if "running i s" "pipewrite_resume (readeflags_if (khw s)) i p src n (klock Lptable s) = Ret r t" "r \<noteq> -1" for i src n r t
    using pipewrite_tail_success[of "upd_proc i (\<lambda>p. p\<lparr>p_chan := None\<rparr>) s" p i src n r t] that I(1) by (simp add: pipewrite_resume_net)
  ultimately show ?thesis using I by (simp add: pinv_def pabs_length)
qed

definition kpipe0 :: "kpipe" where
  "kpipe0 = kcons.extend ((kcons0 (\<lambda>_. []))\<lparr>khw := idle_cpu (Some 0), procs := [proc0\<lparr>p_state := RUNNING\<rparr>, proc0]\<rparr>)
     \<lparr>pipes = \<lambda>_. \<lparr>pi_data = replicate PIPESIZE 0, pi_nread = 0, pi_nwrite = 0, pi_readopen = True, pi_writeopen = True\<rparr>\<rparr>"

lemma kpipe0_simps [simp]: "running 0 kpipe0" "pinv (pipes kpipe0 p)" "pabs (pipes kpipe0 p) = []" "pi_nwrite (pipes kpipe0 p) = 0" "pi_writeopen (pipes kpipe0 p)"
  "pi_readopen (pipes kpipe0 p)"
  by (simp_all add: kpipe0_def kcons.defs running_def kdepth_def cur_def pinv_def pabs_def)

theorem pipe_stream_witness:
  "\<exists>t u. pipewrite 0x80200000 [1, 2, 3] 3 kpipe0 = Ret 3 t \<and> piperead 0x80200000 2 t = Ret (2, [1, 2]) u \<and> pabs (pipes u 0x80200000) = [3]"
proof -
  let ?p = "0x80200000" and ?s = "kpipe0"
  obtain y where y: "wext (pipes ?s ?p) [1, 2, 3] y" and t: "pipewrite ?p [1, 2, 3] 3 ?s = Ret 3 (awaken (Some (ChanPipeR ?p)) (set_pi ?p y ?s))"
    using pipewrite_tail_net[of ?s ?p 0 "[1, 2, 3]" 3] pipewrite_net[of 0 ?s ?p "[1, 2, 3]"] by auto
  let ?t = "awaken (Some (ChanPipeR ?p)) (set_pi ?p y ?s)"
  have q: "pabs (pipes ?t ?p) = [1, 2, 3]" "pinv (pipes ?t ?p)" "running 0 ?t" using y by (simp_all add: wext_def)
  obtain u where u: "piperead ?p 2 ?t = Ret (2, [1, 2]) u"
    using piperead_locked_net[OF q(2,3), of 2] piperead_net[OF q(3), of ?p 2] q(1) by auto
  have "pipe_run ?p (?s, [], [])" by (rule pipe_run.start) simp_all
  then have "pipe_run ?p (?t, [] @ taken_by (pipes ?s ?p) (pipes ?t ?p) [1, 2, 3], [])" by (rule pipe_run.put[OF _ kpipe0_simps(1)]) (simp add: t)
  moreover have "taken_by (pipes ?s ?p) (pipes ?t ?p) [1, 2, 3] = [1, 2, 3]" using y by (simp add: taken_by_def wext_def)
  ultimately have "pipe_run ?p (u, [1, 2, 3], [] @ [1, 2])" using pipe_run.get[OF _ q(3) u, of "[1, 2, 3]" "[]"] by simp
  then show ?thesis using pipe_stream[of ?p u "[1, 2, 3]" "[1, 2]"] t u by auto
qed

lemma awaken_sleeper:
  "i < length (procs s) \<Longrightarrow> p_state (procs s ! i) = SLEEPING \<Longrightarrow> p_chan (procs s ! i) = ch \<Longrightarrow> p_state (procs (awaken ch s) ! i) = RUNNABLE"
  by (simp add: awaken_def)

lemma piperead_wakes:
  assumes "running j v" "pinv (pipes v p)" "pabs (pipes v p) \<noteq> []" "0 < n"
    "i < length (procs v)" "p_state (procs v ! i) = SLEEPING" "p_chan (procs v ! i) = Some (ChanPipeW p)"
  shows "\<exists>r bs w. piperead p n v = Ret (r, bs) w \<and> bs \<noteq> [] \<and> p_state (procs w ! i) = RUNNABLE"
proof -
  have "take (nat n) (pabs (pipes v p)) \<noteq> []" using assms(3,4) by simp
  moreover obtain x r where "piperead p n v = Ret (r, take (nat n) (pabs (pipes v p))) (awaken (Some (ChanPipeW p)) (set_pi p x v))"
    using piperead_locked_net[OF assms(2,1), of n] assms(3) unfolding piperead_net[OF assms(1)] by auto
  ultimately show ?thesis using assms(5-7) awaken_sleeper[of i "set_pi p x v"] by auto
qed

lemma pipewrite_wakes:
  assumes "running j v" "pinv (pipes v p)" "i < length (procs v)" "p_state (procs v ! i) = SLEEPING" "p_chan (procs v ! i) = Some (ChanPipeR p)"
  shows "length (pabs (pipes v p)) + length bs \<le> PIPESIZE \<Longrightarrow>
      \<exists>w. pipewrite p bs (int (length bs)) v = Ret (int (length bs)) w \<and> p_state (procs w ! i) = RUNNABLE"
    "PIPESIZE < length (pabs (pipes v p)) + length bs \<Longrightarrow> pi_readopen (pipes v p) \<Longrightarrow> \<not> p_killed (procs v ! j) \<Longrightarrow> j \<noteq> i \<Longrightarrow>
      \<exists>w. pipewrite p bs (int (length bs)) v = Blocked w \<and> p_state (procs w ! i) = RUNNABLE"
proof -
  define k where "k = min (length bs) (PIPESIZE - length (pabs (pipes v p)))"
  obtain x where x: "pipewrite p bs (int (length bs)) v = (if k = length bs then Ret (int (length bs)) (awaken (Some (ChanPipeR p)) (set_pi p x v))
      else if pi_readopen (pipes v p) \<and> \<not> p_killed (procs v ! j)
        then Blocked (asleep j (ChanPipeW p) (awaken (Some (ChanPipeR p)) (set_pi p x v)))
        else Ret (-1) (set_pi p x v))"
    using pipewrite_tail_net[OF assms(2,1), of bs "int (length bs)"] unfolding pipewrite_net[OF assms(1)] k_def by blast
  have a: "p_state (procs (awaken (Some (ChanPipeR p)) (set_pi p x v)) ! i) = RUNNABLE" using assms(3-5) by (intro awaken_sleeper) simp_all
  then have b: "j \<noteq> i \<Longrightarrow> p_state (procs (asleep j (ChanPipeW p) (awaken (Some (ChanPipeR p)) (set_pi p x v))) ! i) = RUNNABLE"
    by (simp add: upd_proc_def)
  show "\<exists>w. pipewrite p bs (int (length bs)) v = Ret (int (length bs)) w \<and> p_state (procs w ! i) = RUNNABLE"
    if "length (pabs (pipes v p)) + length bs \<le> PIPESIZE"
  proof -
    have "k = length bs" using that by (simp add: k_def)
    then show ?thesis using x a by simp
  qed
  show "\<exists>w. pipewrite p bs (int (length bs)) v = Blocked w \<and> p_state (procs w ! i) = RUNNABLE"
    if "PIPESIZE < length (pabs (pipes v p)) + length bs" "pi_readopen (pipes v p)" "\<not> p_killed (procs v ! j)" "j \<noteq> i"
  proof -
    have "length (pabs (pipes v p)) \<le> PIPESIZE" using assms(2) by (simp add: pinv_def pabs_length)
    then have "k \<noteq> length bs" using that(1) by (auto simp: k_def)
    then show ?thesis using x b that by simp
  qed
qed

lemma pipeclose_wakes:
  assumes "running j v" "if w then pi_readopen (pipes v p) else pi_writeopen (pipes v p)"
    "i < length (procs v)" "p_state (procs v ! i) = SLEEPING" "p_chan (procs v ! i) = Some (if w then ChanPipeR p else ChanPipeW p)"
  shows "\<exists>u. pipeclose p w v = Ret () u \<and> p_state (procs u ! i) = RUNNABLE"
  unfolding pipeclose_net[OF assms(1)] using assms(2-5) by (cases w) (simp_all add: awaken_sleeper)

text \<open>
  C26: A pipe does not leave anybody asleep who could go on.  A writer with more bytes than the pipe has room for
  fills it, makes every sleeping reader runnable and sleeps itself; once it is asleep, the next read with a positive count, by any process,
  returns bytes and makes the writer runnable, and so does closing the reading end.  A reader that finds the pipe empty and open for writing sleeps;
  the next write makes it runnable, whether the bytes fit or the writer has to sleep in turn, and so does closing the writing end.
\<close>

theorem pipe_wakes:
  fixes s :: "'z kpipe_scheme"
  assumes "pinv (pipes s p)" "running i s" "\<not> p_killed (procs s ! i)"
  shows "(pi_readopen (pipes s p) \<and> PIPESIZE < length (pabs (pipes s p)) + length src \<longrightarrow>
      (\<exists>t. pipewrite p src (int (length src)) s = Blocked t \<and> length (pabs (pipes t p)) = PIPESIZE
        \<and> (\<forall>j < length (procs s). j \<noteq> i \<longrightarrow> p_state (procs s ! j) = SLEEPING \<longrightarrow> p_chan (procs s ! j) = Some (ChanPipeR p) \<longrightarrow>
            p_state (procs t ! j) = RUNNABLE)
        \<and> (\<forall>(v :: 'z kpipe_scheme) j. running j v \<longrightarrow> pipes v p = pipes t p \<longrightarrow> i < length (procs v) \<longrightarrow> procs v ! i = procs t ! i \<longrightarrow>
            (\<forall>n > 0. \<exists>r bs w. piperead p n v = Ret (r, bs) w \<and> bs \<noteq> [] \<and> p_state (procs w ! i) = RUNNABLE)
            \<and> (pi_writeopen (pipes s p) \<longrightarrow> (\<exists>w. pipeclose p False v = Ret () w \<and> p_state (procs w ! i) = RUNNABLE)))))
    \<and> (pabs (pipes s p) = [] \<and> pi_writeopen (pipes s p) \<longrightarrow>
      (\<exists>t. piperead p k s = Blocked t
        \<and> (\<forall>(v :: 'z kpipe_scheme) j. running j v \<longrightarrow> pipes v p = pipes t p \<longrightarrow> i < length (procs v) \<longrightarrow> procs v ! i = procs t ! i \<longrightarrow>
            (\<forall>bs. length bs \<le> PIPESIZE \<longrightarrow>
              (\<exists>w. pipewrite p bs (int (length bs)) v = Ret (int (length bs)) w \<and> p_state (procs w ! i) = RUNNABLE))
            \<and> (\<forall>bs. PIPESIZE < length bs \<longrightarrow> pi_readopen (pipes s p) \<longrightarrow> j \<noteq> i \<longrightarrow> \<not> p_killed (procs v ! j) \<longrightarrow>
              (\<exists>w. pipewrite p bs (int (length bs)) v = Blocked w \<and> p_state (procs w ! i) = RUNNABLE))
            \<and> (pi_readopen (pipes s p) \<longrightarrow> (\<exists>w. pipeclose p True v = Ret () w \<and> p_state (procs w ! i) = RUNNABLE)))))"
    (is "(?full \<longrightarrow> (\<exists>t. ?blocked t \<and> ?filled t \<and> ?woken t \<and> ?later t)) \<and> (?empty \<longrightarrow> (\<exists>t. ?waits t \<and> ?next t))")
proof (intro conjI impI)
  assume a: ?full
  have b: "length (pabs (pipes s p)) \<le> PIPESIZE" using assms(1) by (simp add: pinv_def pabs_length)
  then have k: "min (length src) (PIPESIZE - length (pabs (pipes s p))) \<noteq> length src" using a by auto
  obtain y where y: "wext (pipes s p) (take (min (length src) (PIPESIZE - length (pabs (pipes s p)))) src) y"
    and e: "pipewrite p src (int (length src)) s = Blocked (asleep i (ChanPipeW p) (awaken (Some (ChanPipeR p)) (set_pi p y s)))"
    using pipewrite_tail_net[OF assms(1,2), of src "int (length src)"] k a assms(3) unfolding pipewrite_net[OF assms(2)] by auto
  define t where "t = asleep i (ChanPipeW p) (awaken (Some (ChanPipeR p)) (set_pi p y s))"
  have st: "p_state (procs t ! i) = SLEEPING" "p_chan (procs t ! i) = Some (ChanPipeW p)" using runningD(4)[OF assms(2)] by (simp_all add: t_def)
  have f: "?filled t" "pinv (pipes t p)" "pi_writeopen (pipes t p) = pi_writeopen (pipes s p)" using y b conjunct2[OF a] by (simp_all add: wext_def t_def)
  have "?woken t" by (auto simp: t_def upd_proc_def awaken_def)
  moreover have "?later t" using f st by (intro allI impI conjI) (auto intro!: piperead_wakes pipeclose_wakes)
  ultimately show "\<exists>t. ?blocked t \<and> ?filled t \<and> ?woken t \<and> ?later t" using e f(1) unfolding t_def[symmetric] by blast
next
  assume em: ?empty
  define t where "t = asleep i (ChanPipeR p) s"
  have e: "?waits t" using piperead_locked_net[OF assms(1,2), of k] em assms(3) unfolding piperead_net[OF assms(2)] t_def by auto
  have st: "p_state (procs t ! i) = SLEEPING" "p_chan (procs t ! i) = Some (ChanPipeR p)" "pipes t = pipes s"
    using runningD(4)[OF assms(2)] by (simp_all add: t_def)
  have "?next t" using st em assms(1) by (intro allI impI conjI) (auto intro!: pipewrite_wakes pipeclose_wakes)
  then show "\<exists>t. ?waits t \<and> ?next t" using e by blast
qed

theorem pipe_wakes_witness: "\<exists>t. piperead 0x80200000 1 kpipe0 = Blocked t \<and> (\<exists>u. pipewrite 0x80200000 (replicate 513 7) 513 kpipe0 = Blocked u)"
proof -
  have k: "\<not> p_killed (procs kpipe0 ! 0)" by (simp add: kpipe0_def kcons.defs proc0_def)
  show ?thesis using pipe_wakes[where p = "0x80200000" and src = "replicate 513 7" and k = 1, OF kpipe0_simps(2,1) k] by auto
qed

end
