(* ===== verification/File.thy ===== *)
theory File
  imports Transact Pipe
begin

text \<open>
  Open files (\<^verbatim>\<open>file.c\<close>): the table of file structures with their reference counts, reading and writing through
  them, and \<^verbatim>\<open>pipealloc\<close> of \<^verbatim>\<open>pipe.c\<close>, which makes two files around a pipe.  A file is named by its index in
  the table.  As in the inode layer, \<^verbatim>\<open>fileread\<close> returns the bytes it stores at \<^verbatim>\<open>addr\<close> and \<^verbatim>\<open>filewrite\<close> takes the
  bytes found there.
\<close>

abbreviation "NFILE \<equiv> (100 :: nat)"

datatype filetype = FD_NONE | FD_PIPE | FD_INODE

record file_struct =
  f_type :: filetype
  f_ref :: int
  f_readable :: bool
  f_writable :: bool
  f_pipe :: nat
  f_ip :: "nat option"
  f_off :: u32

record kfile = kpipe +
  ftable :: "file_struct list"

definition the_file :: "nat \<Rightarrow> ('z kfile_scheme, file_struct) K" where
  "the_file f = kget (\<lambda>s. ftable s ! f)"

definition upd_file :: "nat \<Rightarrow> (file_struct \<Rightarrow> file_struct) \<Rightarrow> 'z kfile_scheme \<Rightarrow> 'z kfile_scheme" where
  "upd_file f g s = s\<lparr>ftable := (ftable s)[f := g (ftable s ! f)]\<rparr>"

definition fileinit :: "('z kfile_scheme, unit) K" where
  "fileinit = onhw (initlock Lftable)"

section \<open>References\<close>

definition filealloc :: "('z kfile_scheme, nat option) K" where
  "filealloc =
     kthen (kacquire Lftable) (
     kbind (kget (\<lambda>s. find_idx (\<lambda>x. f_ref x = 0) (ftable s))) (\<lambda>f.
     case f of
       Some i \<Rightarrow> kthen (kmod (upd_file i (\<lambda>x. x\<lparr>f_ref := 1\<rparr>))) (kthen (krelease Lftable) (kret (Some i)))
     | None \<Rightarrow> kthen (krelease Lftable) (kret None)))"

definition filedup :: "nat \<Rightarrow> ('z kfile_scheme, nat) K" where
  "filedup f =
     kthen (kacquire Lftable) (
     kbind (the_file f) (\<lambda>x.
     if f_ref x < 1 then kpanic ''filedup''
     else
       kthen (kmod (upd_file f (\<lambda>x. x\<lparr>f_ref := f_ref x + 1\<rparr>))) (
       kthen (krelease Lftable) (kret f))))"

definition fileclose :: "nat \<Rightarrow> ('z kfile_scheme, unit) K" where
  "fileclose f =
     kthen (kacquire Lftable) (
     kbind (the_file f) (\<lambda>ff.
     if f_ref ff < 1 then kpanic ''fileclose''
     else
       kthen (kmod (upd_file f (\<lambda>x. x\<lparr>f_ref := f_ref x - 1\<rparr>))) (
       if f_ref ff - 1 > 0 then krelease Lftable
       else
         kthen (kmod (upd_file f (\<lambda>x. x\<lparr>f_ref := 0, f_type := FD_NONE\<rparr>))) (
         kthen (krelease Lftable)
           (case f_type ff of
              FD_PIPE \<Rightarrow> pipeclose (f_pipe ff) (f_writable ff)
            | FD_INODE \<Rightarrow> kthen begin_op (kthen (kderef (f_ip ff) iput) end_op)
            | FD_NONE \<Rightarrow> kret ())))))"

section \<open>Reading and writing\<close>

definition filestat :: "nat \<Rightarrow> stat \<Rightarrow> ('z kfile_scheme, int \<times> stat) K" where
  "filestat f st =
     kbind (the_file f) (\<lambda>x.
     if f_type x = FD_INODE then
       kthen (ilock (f_ip x)) (
       kderef (f_ip x) (\<lambda>ip.
       kbind (stati ip st) (\<lambda>st'.
       kthen (iunlock (f_ip x)) (kret (0, st')))))
     else kret (-1, st))"

definition fileread :: "nat \<Rightarrow> int \<Rightarrow> ('z kfile_scheme, int \<times> byte list) K" where
  "fileread f n =
     kbind (the_file f) (\<lambda>x.
     if \<not> f_readable x then kret (-1, [])
     else
       case f_type x of
         FD_PIPE \<Rightarrow> piperead (f_pipe x) n
       | FD_INODE \<Rightarrow>
           kthen (ilock (f_ip x)) (
           kderef (f_ip x) (\<lambda>ip.
           kbind (kbind (the_file f) (\<lambda>x. readi ip (f_off x) (of_int n))) (\<lambda>(r, bs).
           kthen (kwhen (r > 0) (kmod (upd_file f (\<lambda>x. x\<lparr>f_off := f_off x + of_int r\<rparr>)))) (
           kthen (iunlock (f_ip x)) (kret (r, bs))))))
       | FD_NONE \<Rightarrow> kpanic ''fileread'')"

text \<open>
  The loop of \<^verbatim>\<open>filewrite\<close>: one transaction of at most \<open>max_write\<close> bytes at a time.  The result is the value of \<^verbatim>\<open>i\<close>
  when the loop ends.
\<close>

definition max_write :: int where
  "max_write = ((int MAXOPBLOCKS - 1 - 1 - 2) div 2) * 512"

definition write_chunk :: "nat \<Rightarrow> nat option \<Rightarrow> byte list \<Rightarrow> int \<Rightarrow> ('z kfile_scheme, int) K" where
  "write_chunk f ip src n1 =
     kthen begin_op (
     kthen (ilock ip) (
     kderef ip (\<lambda>i.
     kbind (kbind (the_file f) (\<lambda>x. writei i src (f_off x) (of_int n1))) (\<lambda>r.
     kthen (kwhen (r > 0) (kmod (upd_file f (\<lambda>x. x\<lparr>f_off := f_off x + of_int r\<rparr>)))) (
     kthen (iunlock ip) (
     kthen end_op (kret r)))))))"

function filewrite_loop :: "nat \<Rightarrow> nat option \<Rightarrow> byte list \<Rightarrow> int \<Rightarrow> int \<Rightarrow> ('z kfile_scheme, int) K" where
  "filewrite_loop f ip src i n =
     (if i < n then
        let n1 = (if n - i > max_write then max_write else n - i) in
        kbind (write_chunk f ip (sub_bytes src (nat i) (nat n1)) n1) (\<lambda>r.
        if r < 0 then kret i
        else if r \<noteq> n1 then kpanic ''short filewrite''
        else filewrite_loop f ip src (i + n1) n)
      else kret i)"
  by pat_completeness auto
termination by (relation "measure (\<lambda>(f, ip, src, i, n). nat (n - i))") (auto simp: max_write_def)

declare filewrite_loop.simps [simp del]

definition filewrite :: "nat \<Rightarrow> byte list \<Rightarrow> int \<Rightarrow> ('z kfile_scheme, int) K" where
  "filewrite f src n =
     kbind (the_file f) (\<lambda>x.
     if \<not> f_writable x then kret (-1)
     else
       case f_type x of
         FD_PIPE \<Rightarrow> pipewrite (f_pipe x) src n
       | FD_INODE \<Rightarrow> kbind (filewrite_loop f (f_ip x) src 0 n) (\<lambda>i. kret (if i = n then n else -1))
       | FD_NONE \<Rightarrow> kpanic ''filewrite'')"

section \<open>Making a pipe\<close>

text \<open>The error exit of \<^verbatim>\<open>pipealloc\<close>.  It is reached only with \<^verbatim>\<open>p\<close> still 0.\<close>

definition pipealloc_bad :: "nat option \<Rightarrow> nat option \<Rightarrow> ('z kfile_scheme, (nat \<times> nat) option) K" where
  "pipealloc_bad f0 f1 =
     kthen (case f0 of Some f \<Rightarrow> fileclose f | None \<Rightarrow> kret ()) (
     kthen (case f1 of Some f \<Rightarrow> fileclose f | None \<Rightarrow> kret ())
       (kret None))"

definition pipealloc_with :: "nat \<Rightarrow> nat \<Rightarrow> nat \<Rightarrow> ('z kfile_scheme, (nat \<times> nat) option) K" where
  "pipealloc_with a b p =
     (if p = 0 then pipealloc_bad (Some a) (Some b)
      else
        kthen (kmod (upd_pipe p (\<lambda>x. x\<lparr>pi_readopen := True, pi_writeopen := True, pi_nwrite := 0, pi_nread := 0\<rparr>))) (
        kthen (onhw (initlock (Lpipe p))) (
        kthen (kmod (upd_file a (\<lambda>x. x\<lparr>f_type := FD_PIPE, f_readable := True, f_writable := False, f_pipe := p\<rparr>))) (
        kthen (kmod (upd_file b (\<lambda>x. x\<lparr>f_type := FD_PIPE, f_readable := False, f_writable := True, f_pipe := p\<rparr>)))
          (kret (Some (a, b)))))))"

definition pipealloc :: "('z kfile_scheme, (nat \<times> nat) option) K" where
  "pipealloc =
     kbind filealloc (\<lambda>f0.
     case f0 of
       None \<Rightarrow> pipealloc_bad None None
     | Some a \<Rightarrow>
         kbind filealloc (\<lambda>f1.
         case f1 of
           None \<Rightarrow> pipealloc_bad f0 None
         | Some b \<Rightarrow> kbind kalloc (\<lambda>p. pipealloc_with a b p)))"

section \<open>Writing to the disk\<close>

text \<open>Contents \<open>c'\<close> in which the bytes \<open>xs\<close> stand in the file from \<open>off\<close> on, and the rest of the file is as in \<open>c\<close>.\<close>

definition file_put :: "(nat \<Rightarrow> byte list) \<Rightarrow> inode \<Rightarrow> nat \<Rightarrow> byte list \<Rightarrow> (nat \<Rightarrow> byte list) \<Rightarrow> bool" where
  "file_put c ip off xs c' \<longleftrightarrow>
     (\<forall>b. b * BSIZE < unat (i_size ip) \<longrightarrow> faddr c' ip b = faddr c ip b) \<and> (\<forall>n. length (c' n) = BSIZE)
     \<and> (\<forall>k<unat (i_size ip). fbyte c' ip k = (if off \<le> k \<and> k < off + length xs then xs ! (k - off) else fbyte c ip k))"

lemma file_put_nil: "file_ok c ds ip \<Longrightarrow> file_put c ip off [] c"
  by (auto simp: file_put_def file_ok_def)

lemma file_put_trans:
  assumes "file_put c ip off xs c'" "file_put c' ip (off + length xs) ys c''"
  shows "file_put c ip off (xs @ ys) c''"
proof -
  have "fbyte c'' ip k = (if off \<le> k \<and> k < off + length (xs @ ys) then (xs @ ys) ! (k - off) else fbyte c ip k)" if "k < unat (i_size ip)" for k
    using assms that by (auto simp: file_put_def nth_append)
  then show ?thesis using assms unfolding file_put_def by auto
qed

lemma file_put_bytes: "file_put c ip off xs c' \<Longrightarrow> off + length xs \<le> unat (i_size ip) \<Longrightarrow> fbytes c' ip off (length xs) = xs"
  by (rule nth_equalityI) (auto simp: file_put_def fbytes_def)

text \<open>The blocks of the file are not in the log.\<close>

definition off_log :: "'z klog_scheme \<Rightarrow> (nat \<Rightarrow> byte list) \<Rightarrow> inode \<Rightarrow> bool" where
  "off_log s c ip \<longleftrightarrow> (\<forall>b\<in>fblocks c ip. \<not> in_log_area s b) \<and> (NDIRECT * BSIZE < unat (i_size ip) \<longrightarrow> \<not> in_log_area s (unat (i_addrs ip ! NDIRECT)))"

lemma fwritten_file_put:
  assumes w: "fwritten c ip off xs c1" and o: "off_log s c ip" and e: "\<forall>b. \<not> in_log_area s b \<longrightarrow> c2 b = c1 b" and l: "\<forall>n. length (c2 n) = BSIZE"
  shows "file_put c ip off xs c2"
proof -
  have a: "faddr c2 ip b = faddr c1 ip b" if "b * BSIZE < unat (i_size ip)" for b
  proof (cases "b < NDIRECT")
    case False
    then have "NDIRECT * BSIZE < unat (i_size ip)" using that by linarith
    then have "c2 (unat (i_addrs ip ! NDIRECT)) = c1 (unat (i_addrs ip ! NDIRECT))" using o e by (simp add: off_log_def)
    then show ?thesis by (simp add: faddr_def)
  qed (simp add: faddr_def)
  have "fbyte c2 ip k = fbyte c1 ip k" if k: "k < unat (i_size ip)" for k
  proof -
    have kb: "k div BSIZE * BSIZE < unat (i_size ip)" using k div_block[of k] by linarith
    then have "unat (faddr c ip (k div BSIZE)) \<in> fblocks c ip" unfolding fblocks_def by (intro imageI) simp
    then have "c2 (unat (faddr c ip (k div BSIZE))) = c1 (unat (faddr c ip (k div BSIZE)))" using o e by (simp add: off_log_def)
    then show ?thesis using a[OF kb] w kb by (simp add: fbyte_def fwritten_def)
  qed
  then show ?thesis using a w l by (simp add: file_put_def fwritten_def)
qed

lemma file_put_ok:
  assumes "file_put c ip off xs c'"
  shows "file_ok c ds ip \<Longrightarrow> file_ok c' ds ip" "file_sep c ip \<Longrightarrow> file_sep c' ip" "off_log s c ip \<Longrightarrow> off_log s c' ip"
proof -
  have "fblocks c' ip = fblocks c ip" unfolding fblocks_def by (rule image_cong) (use assms in \<open>auto simp: file_put_def\<close>)
  then show "off_log s c ip \<Longrightarrow> off_log s c' ip" by (simp add: off_log_def)
qed (use assms in \<open>auto simp: file_put_def file_ok_def file_sep_def\<close>)

lemma ftable_frame: "lframe s t \<Longrightarrow> ftable t = ftable s" "opframe s t \<Longrightarrow> ftable t = ftable s"
  unfolding lframe_def opframe_def by (elim conjE, erule ssubst, simp)+

lemma ftable_fs [simp]: "ftable (taken i s) = ftable s" "ftable (freed i s) = ftable s" "ftable (awaken ch s) = ftable s" "ftable (klock lk s) = ftable s" "ftable (ksettle s) = ftable s"
  by (simp_all add: taken_def freed_def upd_slock_def awaken_def klock_def ksettle_def)

lemma log_fields_fs [simp]:
  "lh (taken i s) = lh s" "log_outstanding (taken i s) = log_outstanding s" "log_committing (taken i s) = log_committing s" "log_dev (taken i s) = log_dev s"
  "log_start (taken i s) = log_start s" "log_size (taken i s) = log_size s"
  "lh (freed i s) = lh s" "log_outstanding (freed i s) = log_outstanding s" "log_committing (freed i s) = log_committing s" "log_dev (freed i s) = log_dev s"
  "log_start (freed i s) = log_start s" "log_size (freed i s) = log_size s"
  by (simp_all add: taken_def freed_def upd_slock_def awaken_def)

lemma lframe_more: "lframe s t \<Longrightarrow> log_committing t = log_committing s" "lframe s t \<Longrightarrow> slocks t (SLinode k) = slocks s (SLinode k)"
  unfolding lframe_def by (elim conjE, erule ssubst, simp)+

lemma upd_file_simps [simp]:
  "lblk (upd_file f g s) = lblk s" "dirties (upd_file f g s) = dirties s" "bok H (upd_file f g s) = bok H s" "txok H (upd_file f g s) = txok H s"
  "icache (upd_file f g s) = icache s" "slocks (upd_file f g s) = slocks s" "disksize (upd_file f g s) = disksize s" "lh (upd_file f g s) = lh s"
  "log_start (upd_file f g s) = log_start s" "log_dev (upd_file f g s) = log_dev s" "log_size (upd_file f g s) = log_size s"
  "log_outstanding (upd_file f g s) = log_outstanding s" "log_committing (upd_file f g s) = log_committing s" "khw (upd_file f g s) = khw s"
  "ftable (upd_file f g s) = (ftable s)[f := g (ftable s ! f)]"
proof -
  let ?u = "upd_file f g s"
  have "nxt ?u = nxt s" "prv ?u = prv s" by (simp_all add: nxt_def prv_def fun_eq_iff upd_file_def)
  then show b: "bok H ?u = bok H s" by (simp add: bok_def bc_inv_def bslot_def buniq_def cur_def Let_def upd_file_def)
  show "lblk ?u = lblk s" by (simp add: lblk_def fun_eq_iff upd_file_def cong: option.case_cong)
  show d: "dirties ?u = dirties s" by (simp add: dirties_def upd_file_def)
  show "txok H ?u = txok H s" using b d by (simp add: txok_def) (simp add: upd_file_def)
qed (simp_all add: upd_file_def)

text \<open>A regular file, open, with its inode in the cache and unlocked, and no transaction going on.\<close>

definition wready :: "nat \<Rightarrow> nat \<Rightarrow> 'z kfile_scheme \<Rightarrow> bool" where
  "wready f i s \<longleftrightarrow> calm s \<and> file_ok (lblk s) (disksize s) (icache s i) \<and> file_sep (lblk s) (icache s i) \<and> off_log s (lblk s) (icache s i)
     \<and> i_type (icache s i) \<noteq> T_DEV \<and> \<not> sl_locked (slocks s (SLinode i)) \<and> 1 \<le> i_ref (icache s i) \<and> i_valid (icache s i) \<and> f < length (ftable s)"

lemma nblk_chunk: "n \<le> 1536 \<Longrightarrow> nblk off n \<le> 4"
proof -
  assume n: "n \<le> 1536"
  have "off mod BSIZE < BSIZE" by simp
  then have "off mod BSIZE + n + 511 < 5 * BSIZE" using n by linarith
  then have "(off mod BSIZE + n + 511) div BSIZE < 5" by (simp only: less_mult_imp_div_less)
  then show ?thesis by (simp add: nblk_def)
qed

lemma write_chunk_net:
  assumes r: "wready f i s" and n: "0 < n" "n \<le> 1536" "length src = n" and sz: "unat (f_off (ftable s ! f)) + n \<le> unat (i_size (icache s i))"
  shows "\<exists>t. write_chunk f (Some i) src (int n) s = Ret (int n) t \<and> wready f i t \<and> icache t = icache s
    \<and> ftable t = (ftable s)[f := (ftable s ! f)\<lparr>f_off := f_off (ftable s ! f) + of_nat n\<rparr>]
    \<and> file_put (lblk s) (icache s i) (unat (f_off (ftable s ! f))) src (lblk t)"
proof -
  let ?off = "f_off (ftable s ! f)" and ?ip = "icache s i"
  have c: "calm s" using r by (simp add: wready_def)
  define s1 where "s1 = s\<lparr>log_outstanding := 1\<rparr>"
  note b = begin_op_calm[OF c, folded s1_def]
  have q1: "icache s1 = icache s" "ftable s1 = ftable s" "lblk s1 = lblk s" "slocks s1 = slocks s" "disksize s1 = disksize s" "lh s1 = []"
    "log_outstanding s1 = 1" "\<not> log_committing s1" using c by (simp_all add: s1_def calm_def)
  have ok1: "bok {} s1" using b(2) by (simp add: txok_def)
  have l: "ilock (Some i) s1 = Ret () (taken i s1)" using r q1 ok1 by (intro ilock_valid) (auto simp: wready_def)
  have un: "unat (of_nat n :: u32) = n" using n(2) by (simp add: unat_of_nat)
  have "txroom {} (nblk (unat ?off) n + 4) s1" using nblk_chunk[OF n(2), of "unat ?off"] by (intro b(3)) simp
  then obtain s3 where w: "writei i src ?off (of_nat n) (taken i s1) = Ret (int n) s3" "txok {} s3" "lframe (taken i s1) s3" "txroom {} 4 s3"
    "fwritten (lblk s) ?ip (unat ?off) src (lblk s3)" "set (lh s3) \<subseteq> fblocks (lblk s) ?ip"
    using writei_net[of "taken i s1" ?off "of_nat n" 4 i src] r q1 b(2) sz n(3) un by (auto simp: wready_def)
  note L = lframeD[OF w(3)] lframe_fs(1)[OF w(3)] lframe_more[OF w(3)] ftable_frame(1)[OF w(3)]
  define s4 where "s4 = upd_file f (\<lambda>x. x\<lparr>f_off := f_off x + of_int (int n)\<rparr>) s3"
  have ul: "iunlock (Some i) s4 = Ret () (freed i s4)"
    using w(2) r q1 L unfolding s4_def by (intro iunlock_net[where H = "{}"]) (auto simp: txok_def wready_def)
  have lg: "log_start s3 = log_start s" "log_dev s3 = 1" "disksize s3 = disksize s" "log_outstanding s3 = 1" "\<not> log_committing s3"
    using L q1 c by (simp_all add: s1_def calm_def)
  have T: "trans_ok (freed i s4)"
  proof -
    have l: "length (lh s3) \<le> LOGSIZE" using w(4) by (simp add: txroom_def)
    have "b < disksize s \<and> (b < log_start s \<or> log_start s + length (lh s3) < b)" if "b \<in> set (lh s3)" for b
    proof -
      have f: "b \<in> fblocks (lblk s) ?ip" using w(6) that by blast
      then have "b < disksize s" using r by (auto simp: wready_def file_ok_def fblocks_def)
      moreover have "\<not> in_log_area s b" using f r by (simp add: wready_def off_log_def)
      ultimately show ?thesis using l unfolding in_log_area_def by linarith
    qed
    then show ?thesis using w(2,4) lg c unfolding s4_def by (auto simp: trans_ok_def txok_def txroom_def calm_def)
  qed
  obtain t where e: "end_op (freed i s4) = Ret () t" "opframe (freed i s4) t" "bok {} t" "dirties t = {}" "lh t = []" "log_outstanding t = 0" "\<not> log_committing t"
    "\<forall>b. \<not> in_log_area (freed i s4) b \<longrightarrow> lblk t b = lblk (freed i s4) b"
    using end_op_net[of "freed i s4"] T w(2,4) lg unfolding s4_def by (auto simp: txroom_def)
  note O = opframeD[OF e(2)] opframe_fs(1)[OF e(2)] ftable_frame(2)[OF e(2)]
  have P: "file_put (lblk s) ?ip (unat ?off) src (lblk t)"
  proof (rule fwritten_file_put[OF w(5), of s])
    show "off_log s (lblk s) ?ip" using r by (simp add: wready_def)
    show "\<forall>b. \<not> in_log_area s b \<longrightarrow> lblk t b = lblk s3 b" using e(8) lg unfolding s4_def by (simp add: in_log_area_def)
    obtain xs where "bc_inv xs {} t" using e(3) by (auto simp: bok_def)
    then show "\<forall>n. length (lblk t n) = BSIZE" using length_lblk by blast
  qed
  have it: "icache t = icache s" using O L q1 by (simp add: s4_def)
  have g: "disksize t = disksize s" "log_start t = log_start s" "log_dev t = 1" "log_size t = log_size s" using O(2,4,5,6) L(6) lg by (simp_all add: s4_def s1_def)
  have "calm t" using e(3-7) g c by (simp add: calm_def)
  moreover have "off_log t (lblk t) ?ip" using file_put_ok(3)[OF P, of s] r g(2) by (simp add: wready_def off_log_def in_log_area_def)
  moreover have "file_ok (lblk t) (disksize t) ?ip" "file_sep (lblk t) ?ip" using file_put_ok(1,2)[OF P] r g(1) by (simp_all add: wready_def)
  moreover have "\<not> sl_locked (slocks t (SLinode i))" using O(7)[of i] freed_simps(11)[of i s4] by simp
  moreover have "f < length (ftable t)" using O(9) L q1 r by (simp add: s4_def wready_def)
  ultimately have "wready f i t" using r unfolding wready_def it by blast
  moreover have "write_chunk f (Some i) src (int n) s = Ret (int n) t"
    using b(1) l w(1) ul e(1) n(1) q1 L by (simp add: write_chunk_def kdefs the_file_def s4_def)
  moreover have "ftable t = (ftable s)[f := (ftable s ! f)\<lparr>f_off := ?off + of_nat n\<rparr>]" using O L q1 by (simp add: s4_def)
  ultimately show ?thesis using it P by blast
qed

lemma wready_size: "wready f i s \<Longrightarrow> unat (i_size (icache s i)) \<le> 71680"
  by (simp add: wready_def file_ok_def)

lemma filewrite_loop_net:
  assumes "wready f i s" "k \<le> length src" "unat (f_off (ftable s ! f)) + (length src - k) \<le> unat (i_size (icache s i))"
  shows "\<exists>t. filewrite_loop f (Some i) src (int k) (int (length src)) s = Ret (int (length src)) t \<and> wready f i t \<and> icache t = icache s
    \<and> f_off (ftable t ! f) = f_off (ftable s ! f) + of_nat (length src - k)
    \<and> file_put (lblk s) (icache s i) (unat (f_off (ftable s ! f))) (drop k src) (lblk t)"
  using assms
proof (induction "length src - k" arbitrary: k s rule: less_induct)
  case less
  let ?off = "f_off (ftable s ! f)" and ?ip = "icache s i"
  show ?case
  proof (cases "k < length src")
    case False
    then show ?thesis using less.prems file_put_nil[of "lblk s" "disksize s" ?ip]
      by (intro exI[of _ s]) (simp add: filewrite_loop.simps wready_def)
  next
    case True
    define m where "m = min (length src - k) 1536"
    have m: "0 < m" "m \<le> 1536" "k + m \<le> length src" using True by (auto simp: m_def)
    let ?x = "sub_bytes src k m"
    have lx: "length ?x = m" using m by (simp add: sub_bytes_def)
    have n1: "(if int (length src) - int k > max_write then max_write else int (length src) - int k) = int m" using True by (auto simp: m_def max_write_def)
    have sz: "unat ?off + m \<le> unat (i_size ?ip)" using less.prems(3) m by linarith
    obtain u where u: "write_chunk f (Some i) ?x (int m) s = Ret (int m) u" "wready f i u" "icache u = icache s"
      "ftable u = (ftable s)[f := (ftable s ! f)\<lparr>f_off := ?off + of_nat m\<rparr>]" "file_put (lblk s) ?ip (unat ?off) ?x (lblk u)"
      using write_chunk_net[OF less.prems(1) m(1,2) lx sz] by blast
    have fu: "f_off (ftable u ! f) = ?off + of_nat m" using u(4) less.prems(1) by (simp add: wready_def)
    have ou: "unat (?off + of_nat m) = unat ?off + m" using sz wready_size[OF less.prems(1)] by (simp add: unat_word_ariths unat_of_nat)
    have s2: "unat (f_off (ftable u ! f)) + (length src - (k + m)) \<le> unat (i_size (icache u i))" using less.prems(3) m fu ou u(3) by simp
    have dec: "length src - (k + m) < length src - k" using m(1) True by linarith
    obtain t where t: "filewrite_loop f (Some i) src (int (k + m)) (int (length src)) u = Ret (int (length src)) t" "wready f i t" "icache t = icache u"
      "f_off (ftable t ! f) = f_off (ftable u ! f) + of_nat (length src - (k + m))"
      "file_put (lblk u) (icache u i) (unat (f_off (ftable u ! f))) (drop (k + m) src) (lblk t)"
      using less.hyps[OF dec u(2) m(3) s2] by blast
    have "drop k src = ?x @ drop (k + m) src" unfolding sub_bytes_def by (metis append_take_drop_id drop_drop add.commute)
    then have "file_put (lblk s) ?ip (unat ?off) (drop k src) (lblk t)" using file_put_trans[OF u(5), of "drop (k + m) src" "lblk t"] t(5) fu ou u(3) lx by simp
    moreover have "length src - k = m + (length src - (k + m))" using m(3) by linarith
    then have "f_off (ftable t ! f) = ?off + of_nat (length src - k)" unfolding t(4) fu by (simp only: of_nat_add add.assoc)
    moreover have "filewrite_loop f (Some i) src (int k) (int (length src)) s = Ret (int (length src)) t"
      using True u(1) t(1) by (subst filewrite_loop.simps) (simp add: Let_def n1 kbind_apply)
    ultimately show ?thesis using t(2,3) u(3) by auto
  qed
qed

text \<open>
  Writing to a file reaches the disk.  A write of any length inside the file, by a process that shares the file system with
  no open transaction, is split into transactions that fit the log and returns the full count; when it returns, the
  bytes are on the disk in the blocks of the file, every other byte of the file is unchanged there, the log
  is empty and no buffer is dirty, and the file offset has moved on by the count.
\<close>

lemma filewrite_durable:
  assumes "wready f i s" "f_type (ftable s ! f) = FD_INODE" "f_ip (ftable s ! f) = Some i" "f_writable (ftable s ! f)"
    and "unat (f_off (ftable s ! f)) + length src \<le> unat (i_size (icache s i))"
  shows "\<exists>t. filewrite f src (int (length src)) s = Ret (int (length src)) t \<and> calm t \<and> icache t = icache s
    \<and> f_off (ftable t ! f) = f_off (ftable s ! f) + of_nat (length src)
    \<and> fbytes (blk (memdisk t)) (icache s i) (unat (f_off (ftable s ! f))) (length src) = src
    \<and> (\<forall>k<unat (i_size (icache s i)). k < unat (f_off (ftable s ! f)) \<or> unat (f_off (ftable s ! f)) + length src \<le> k \<longrightarrow>
         fbyte (blk (memdisk t)) (icache s i) k = fbyte (blk (memdisk s)) (icache s i) k)"
proof -
  let ?off = "unat (f_off (ftable s ! f))"
  obtain t where t: "filewrite_loop f (Some i) src (int 0) (int (length src)) s = Ret (int (length src)) t" "wready f i t" "icache t = icache s"
    "f_off (ftable t ! f) = f_off (ftable s ! f) + of_nat (length src - 0)" "file_put (lblk s) (icache s i) ?off (drop 0 src) (lblk t)"
    using filewrite_loop_net[OF assms(1), of 0 src] assms(5) by auto
  have c: "calm t" "blk (memdisk t) = lblk t" "blk (memdisk s) = lblk s" using t(2) assms(1) by (auto simp: wready_def intro: calm_disk)
  have "fbytes (lblk t) (icache s i) ?off (length src) = src" using file_put_bytes[OF t(5)] assms(5) by simp
  moreover have "\<forall>k<unat (i_size (icache s i)). k < ?off \<or> ?off + length src \<le> k \<longrightarrow> fbyte (lblk t) (icache s i) k = fbyte (lblk s) (icache s i) k"
    using t(5) by (auto simp: file_put_def)
  moreover have "filewrite f src (int (length src)) s = Ret (int (length src)) t" using assms(2-4) t(1) by (simp add: filewrite_def the_file_def kdefs)
  ultimately show ?thesis using t(3,4) c by (intro exI[of _ t]) simp
qed

section \<open>A concrete machine\<close>

definition free_file :: file_struct where
  "free_file = \<lparr>f_type = FD_NONE, f_ref = 0, f_readable = False, f_writable = False, f_pipe = 0, f_ip = None, f_off = 0\<rparr>"

definition kfile0 :: "file_struct list \<Rightarrow> kfile" where
  "kfile0 fs = kpipe.extend (kcons.extend (kcons0 (\<lambda>_. []))
     \<lparr>pipes = \<lambda>_. \<lparr>pi_data = replicate PIPESIZE 0, pi_nread = 0, pi_nwrite = 0, pi_readopen = False, pi_writeopen = False\<rparr>\<rparr>) \<lparr>ftable = fs\<rparr>"

lemma kfile0_simps [simp]:
  "khw (kfile0 fs) = khw (kcons0 (\<lambda>_. []))" "procs (kfile0 fs) = procs (kcons0 (\<lambda>_. []))" "bufs (kfile0 fs) = bufs (kcons0 (\<lambda>_. []))"
  "memdisk (kfile0 fs) = memdisk (kcons0 (\<lambda>_. []))" "disksize (kfile0 fs) = disksize (kcons0 (\<lambda>_. []))" "slocks (kfile0 fs) = slocks (kcons0 (\<lambda>_. []))"
  "lh (kfile0 fs) = lh (kcons0 (\<lambda>_. []))" "log_outstanding (kfile0 fs) = log_outstanding (kcons0 (\<lambda>_. []))" "log_start (kfile0 fs) = log_start (kcons0 (\<lambda>_. []))"
  "log_size (kfile0 fs) = log_size (kcons0 (\<lambda>_. []))" "log_dev (kfile0 fs) = log_dev (kcons0 (\<lambda>_. []))" "log_committing (kfile0 fs) = log_committing (kcons0 (\<lambda>_. []))"
  "icache (kfile0 fs) = icache (kcons0 (\<lambda>_. []))" "ftable (kfile0 fs) = fs" "cur (kfile0 fs) = cur (kcons0 (\<lambda>_. []))"
  by (simp_all add: kfile0_def kpipe.defs kcons.defs cur_def)

lemma kcons0_more [simp]: "log_start (kcons0 ins) = 2" "log_dev (kcons0 ins) = 1" "log_committing (kcons0 ins) = False" "slocks (kcons0 ins) l = \<lparr>sl_locked = False, sl_pid = 0\<rparr>"
  by (simp_all add: kcons0_def kfs.defs kfs0_def klog.defs klog0_def kbio.defs kbio0_def kslp0_def kpr0_def kslp.defs kpr.defs kdev.defs)

text \<open>A machine with one open file of 600 bytes, in blocks 70 and 71.\<close>

lemma kfile0_ready:
  fixes fs :: "file_struct list"
  assumes "0 < length fs"
  obtains s where "binit (kfile0 fs) = Ret () s" "wready 0 0 ((upd_inode 0 (\<lambda>ip. (file0 T_FILE ip)\<lparr>i_ref := 1, i_valid := True\<rparr>) s)\<lparr>log_outstanding := 0\<rparr>)" "ftable s = fs"
proof -
  obtain s where s: "binit (kfile0 fs) = Ret () s" "txok {} s" "lframe (kfile0 fs) s" "lh s = []" "lblk s = blk disk0"
    using binit_txok[of "kfile0 fs"] by auto
  let ?g = "\<lambda>ip. (file0 T_FILE ip)\<lparr>i_ref := 1, i_valid := True\<rparr>"
  have a: "faddr c (?g ip) 0 = 70" "faddr c (?g ip) (Suc 0) = 71" for c ip by (simp_all add: faddr_def file0_def)
  note L = lframeD[OF s(3)] lframe_more[OF s(3)] ftable_frame(1)[OF s(3)]
  have "calm ((upd_inode 0 ?g s)\<lparr>log_outstanding := 0\<rparr>)" using s L by (simp add: calm_def txok_def upd_inode_def)
  moreover have z: "{b. b * BSIZE < unat (i_size (?g ip))} = {0, Suc 0}" for ip by (auto simp: file0_def two_blocks)
  have "fblocks c (?g ip) = {70, 71}" for c ip unfolding fblocks_def z using a by simp
  moreover have "log_start (upd_inode 0 g s) = log_start s" "ftable (upd_inode 0 g s) = ftable s" for g by (simp_all add: upd_inode_def)
  ultimately show ?thesis using s L a assms
    by (intro that[of s]) (simp_all add: wready_def off_log_def in_log_area_def file_ok_def file_sep_def two_blocks, simp_all add: file0_def two_blocks)
qed

lemma filewrite_durable_example:
  "\<exists>s t. binit (kfile0 [free_file\<lparr>f_type := FD_INODE, f_ref := 1, f_writable := True, f_ip := Some 0, f_off := 510\<rparr>]) = Ret () s
     \<and> filewrite 0 [1, 2, 3] 3 ((upd_inode 0 (\<lambda>ip. (file0 T_FILE ip)\<lparr>i_ref := 1, i_valid := True\<rparr>) s)\<lparr>log_outstanding := 0\<rparr>) = Ret 3 t
     \<and> blk (memdisk t) 71 ! 0 = 3"
proof -
  let ?f = "free_file\<lparr>f_type := FD_INODE, f_ref := 1, f_writable := True, f_ip := Some 0, f_off := 510\<rparr>" and ?g = "\<lambda>ip. (file0 T_FILE ip)\<lparr>i_ref := 1, i_valid := True\<rparr>"
  have ne: "0 < length [?f]" by simp
  obtain s where s: "binit (kfile0 [?f]) = Ret () s" "wready 0 0 ((upd_inode 0 ?g s)\<lparr>log_outstanding := 0\<rparr>)" "ftable s = [?f]" by (rule kfile0_ready[OF ne])
  let ?u = "(upd_inode 0 ?g s)\<lparr>log_outstanding := 0\<rparr>" and ?x = "[1, 2, 3 :: byte]"
  have h: "f_type (ftable ?u ! 0) = FD_INODE" "f_ip (ftable ?u ! 0) = Some 0" "f_writable (ftable ?u ! 0)"
    "unat (f_off (ftable ?u ! 0)) + length ?x \<le> unat (i_size (icache ?u 0))" "f_off (ftable ?u ! 0) = 510"
    using s(3) by (simp_all add: upd_inode_def file0_def)
  obtain t where t: "filewrite 0 ?x (int (length ?x)) ?u = Ret (int (length ?x)) t" "fbytes (blk (memdisk t)) (icache ?u 0) (unat (f_off (ftable ?u ! 0))) (length ?x) = ?x"
    using filewrite_durable[OF s(2) h(1-4)] by blast
  have "fbytes (blk (memdisk t)) (icache ?u 0) (unat (f_off (ftable ?u ! 0))) (length ?x) ! 2 = 3" unfolding t(2) by simp
  then have "blk (memdisk t) 71 ! 0 = 3" unfolding h(5) by (simp add: fbytes_def fbyte_def faddr_def file0_def upd_inode_def)
  then show ?thesis using s(1) t(1) by auto
qed

section \<open>Pipes and references\<close>

definition ft_ok :: "file_struct list \<Rightarrow> bool" where
  "ft_ok fs \<longleftrightarrow> (\<forall>x\<in>set fs. 0 \<le> f_ref x \<and> (f_ref x = 0 \<longrightarrow> f_type x = FD_NONE))"

lemma ft_lock_simps [simp]:
  "upd_file f g (klock lk s) = klock lk (upd_file f g s)" "upd_file f g (ksettle s) = ksettle (upd_file f g s)"
  "(klock lk s)\<lparr>ftable := x\<rparr> = klock lk (s\<lparr>ftable := x\<rparr>)" "kmem_use_lock (upd_file f g s) = kmem_use_lock s" "kfreelist (upd_file f g s) = kfreelist s"
  "pipes (upd_file f g s) = pipes s" "pmem (upd_file f g s) = pmem s" "kend (upd_file f g s) = kend s"
  by (simp_all add: upd_file_def klock_def ksettle_def)

lemma filealloc_net:
  "kidle s \<Longrightarrow> filealloc s =
     (case find_idx (\<lambda>x. f_ref x = 0) (ftable s) of None \<Rightarrow> Ret None s | Some i \<Rightarrow> Ret (Some i) (upd_file i (\<lambda>x. x\<lparr>f_ref := 1\<rparr>) s))"
  by (cases "find_idx (\<lambda>x. f_ref x = 0) (ftable s)") (simp_all add: filealloc_def kdefs del: find_idx_None_iff)

text \<open>Taking back a file structure that was handed out but not set up.\<close>

lemma fileclose_fresh:
  assumes "kidle s" "f < length (ftable s)" "f_ref (ftable s ! f) = 1" "f_type (ftable s ! f) = FD_NONE"
  shows "fileclose f s = Ret () (upd_file f (\<lambda>x. x\<lparr>f_ref := 0\<rparr>) s)"
proof -
  have e: "(ftable s ! f)\<lparr>f_ref := 0, f_type := FD_NONE\<rparr> = (ftable s ! f)\<lparr>f_ref := 0\<rparr>" using assms(4) by (cases "ftable s ! f") simp
  have "fileclose f s = Ret () (upd_file f (\<lambda>x. x\<lparr>f_ref := 0, f_type := FD_NONE\<rparr>) s)"
    using assms by (simp add: fileclose_def the_file_def kdefs) (simp add: upd_file_def)
  then show ?thesis unfolding upd_file_def e .
qed

lemma unfile: "f < length (ftable s) \<Longrightarrow> f_ref (ftable s ! f) = 0 \<Longrightarrow> upd_file f (\<lambda>x. x\<lparr>f_ref := 0\<rparr>) (upd_file f (\<lambda>x. x\<lparr>f_ref := 1\<rparr>) s) = s"
proof -
  assume a: "f < length (ftable s)" "f_ref (ftable s ! f) = 0"
  have "(ftable s ! f)\<lparr>f_ref := 0\<rparr> = ftable s ! f" using a(2) by (cases "ftable s ! f") simp
  then show ?thesis using a(1) by (simp add: upd_file_def list_update_same_conv)
qed

lemma kalloc_idle:
  assumes "kidle s" "kmem_inv xs s"
  shows "xs = [] \<Longrightarrow> kalloc s = Ret 0 s" "xs = p # ps \<Longrightarrow> \<exists>n. kalloc s = Ret p (s\<lparr>kfreelist := n\<rparr>) \<and> p \<noteq> 0 \<and> kmem_inv ps (s\<lparr>kfreelist := n\<rparr>)"
  using assms by (auto simp: kmem_inv_def kalloc_net settle_if_def kmem_ready_def page_ok_def)

lemma upd_file_comm: "a \<noteq> b \<Longrightarrow> upd_file a g (upd_file b h s) = upd_file b h (upd_file a g s)"
  by (simp add: upd_file_def list_update_swap)

lemma pipealloc_with_net:
  "kidle s \<Longrightarrow> p \<noteq> 0 \<Longrightarrow> pipealloc_with a b p s = Ret (Some (a, b))
     (upd_file b (\<lambda>x. x\<lparr>f_type := FD_PIPE, f_readable := False, f_writable := True, f_pipe := p\<rparr>)
     (upd_file a (\<lambda>x. x\<lparr>f_type := FD_PIPE, f_readable := True, f_writable := False, f_pipe := p\<rparr>)
     (upd_pipe p (\<lambda>x. x\<lparr>pi_readopen := True, pi_writeopen := True, pi_nwrite := 0, pi_nread := 0\<rparr>) s)))"
  by (simp add: pipealloc_with_def kdefs upd_pipe_def)

text \<open>Two file structures are taken: what is left of \<^verbatim>\<open>pipealloc\<close> when no page is free, and when one is.\<close>

definition took2 :: "nat \<Rightarrow> nat \<Rightarrow> 'z kfile_scheme \<Rightarrow> 'z kfile_scheme" where
  "took2 a b s = upd_file b (\<lambda>x. x\<lparr>f_ref := 1\<rparr>) (upd_file a (\<lambda>x. x\<lparr>f_ref := 1\<rparr>) s)"

definition free2 :: "nat \<Rightarrow> nat \<Rightarrow> 'z kfile_scheme \<Rightarrow> bool" where
  "free2 a b s \<longleftrightarrow> a \<noteq> b \<and> a < length (ftable s) \<and> b < length (ftable s) \<and> f_ref (ftable s ! a) = 0 \<and> f_ref (ftable s ! b) = 0"

lemma took2_ready: "kidle s \<Longrightarrow> kmem_inv xs s \<Longrightarrow> kidle (took2 a b s) \<and> kmem_inv xs (took2 a b s)"
  by (simp add: took2_def kmem_inv_def kmem_ready_def)

lemma pipealloc_no_page:
  assumes "kidle s" "ft_ok (ftable s)" "kmem_inv [] s" "free2 a b s"
  shows "kbind kalloc (\<lambda>p. pipealloc_with a b p) (took2 a b s) = Ret None s"
proof -
  have ab: "b \<noteq> a" "a < length (ftable s)" "b < length (ftable s)" "f_ref (ftable s ! a) = 0" "f_ref (ftable s ! b) = 0"
    using assms(4) by (auto simp: free2_def)
  have n: "f_type (ftable s ! a) = FD_NONE" "f_type (ftable s ! b) = FD_NONE" using ab assms(2) by (simp_all add: ft_ok_def)
  have K: "kidle (took2 a b s)" "kmem_inv [] (took2 a b s)" using took2_ready[OF assms(1,3)] by blast+
  let ?b1 = "upd_file b (\<lambda>x. x\<lparr>f_ref := 1\<rparr>) s"
  have "fileclose a (took2 a b s) = Ret () (upd_file a (\<lambda>x. x\<lparr>f_ref := 0\<rparr>) (took2 a b s))"
    using fileclose_fresh[OF K(1), of a] ab n by (simp add: took2_def)
  also have "upd_file a (\<lambda>x. x\<lparr>f_ref := 0\<rparr>) (took2 a b s) = ?b1" using ab by (simp add: took2_def upd_file_comm[of a b] unfile)
  finally have c1: "fileclose a (took2 a b s) = Ret () ?b1" .
  have "fileclose b ?b1 = Ret () s" using fileclose_fresh[of ?b1 b] assms(1) n ab by (simp add: unfile)
  then show ?thesis using c1 kalloc_idle(1)[OF K refl] by (simp add: pipealloc_with_def pipealloc_bad_def kdefs)
qed

definition pipe_made :: "nat \<Rightarrow> nat \<Rightarrow> nat \<Rightarrow> 'z kfile_scheme \<Rightarrow> 'z kfile_scheme \<Rightarrow> bool" where
  "pipe_made a b p s t \<longleftrightarrow>
     ftable t = (ftable s)[a := (ftable s ! a)\<lparr>f_ref := 1, f_type := FD_PIPE, f_readable := True, f_writable := False, f_pipe := p\<rparr>,
                           b := (ftable s ! b)\<lparr>f_ref := 1, f_type := FD_PIPE, f_readable := False, f_writable := True, f_pipe := p\<rparr>]
     \<and> pinv (pipes t p) \<and> pabs (pipes t p) = [] \<and> pi_readopen (pipes t p) \<and> pi_writeopen (pipes t p)
     \<and> (\<forall>q. q \<noteq> p \<longrightarrow> pipes t q = pipes s q)"

lemma pipealloc_page:
  assumes "kidle s" "ft_ok (ftable s)" "kmem_inv (p # ps) s" "free2 a b s" "length (pi_data (pipes s p)) = PIPESIZE"
  shows "\<exists>t. kbind kalloc (\<lambda>p. pipealloc_with a b p) (took2 a b s) = Ret (Some (a, b)) t \<and> kidle t \<and> ft_ok (ftable t)
    \<and> kmem_inv ps t \<and> pipe_made a b p s t"
proof -
  let ?s2 = "took2 a b s"
  have K: "kidle ?s2" "kmem_inv (p # ps) ?s2" using took2_ready[OF assms(1,3)] by blast+
  obtain n where n: "kalloc ?s2 = Ret p (?s2\<lparr>kfreelist := n\<rparr>)" "p \<noteq> 0" "kmem_inv ps (?s2\<lparr>kfreelist := n\<rparr>)"
    using kalloc_idle(2)[OF K refl] by blast
  let ?g = "\<lambda>x. x\<lparr>f_type := FD_PIPE, f_readable := True, f_writable := False, f_pipe := p\<rparr>"
  let ?h = "\<lambda>x. x\<lparr>f_type := FD_PIPE, f_readable := False, f_writable := True, f_pipe := p\<rparr>"
  let ?t = "upd_file b ?h (upd_file a ?g (upd_pipe p (\<lambda>x. x\<lparr>pi_readopen := True, pi_writeopen := True, pi_nwrite := 0, pi_nread := 0\<rparr>)
    (?s2\<lparr>kfreelist := n\<rparr>)))"
  have "kidle (?s2\<lparr>kfreelist := n\<rparr>)" using K(1) by simp
  then have r: "kbind kalloc (\<lambda>p. pipealloc_with a b p) ?s2 = Ret (Some (a, b)) ?t" using n(1,2) by (simp add: kbind_apply pipealloc_with_net)
  have f: "ftable ?t = (ftable s)[a := ?g ((ftable s ! a)\<lparr>f_ref := 1\<rparr>), b := ?h ((ftable s ! b)\<lparr>f_ref := 1\<rparr>)]"
    using assms(4) by (intro nth_equalityI) (auto simp: took2_def free2_def nth_list_update upd_pipe_def)
  have "ft_ok (ftable ?t)" unfolding f using assms(2) by (auto simp: ft_ok_def dest!: set_update_subset_insert[THEN subsetD])
  moreover have "kmem_inv ps ?t" using n(3) by (simp add: kmem_inv_def kmem_ready_def upd_pipe_def kgood_def kfree_lk_def)
  moreover have "pinv (pipes ?t p) \<and> pabs (pipes ?t p) = []" using assms(5) by (simp add: took2_def upd_pipe_def pinv_def pabs_def)
  moreover have "pi_readopen (pipes ?t p) \<and> pi_writeopen (pipes ?t p) \<and> (\<forall>q. q \<noteq> p \<longrightarrow> pipes ?t q = pipes s q)" by (simp add: took2_def upd_pipe_def)
  moreover have "kidle ?t" using assms(1) by (simp add: took2_def upd_pipe_def)
  ultimately show ?thesis using r f unfolding pipe_made_def by (intro exI[of _ ?t]) simp
qed

text \<open>
  C25: \<^verbatim>\<open>pipealloc\<close> makes a pipe or changes nothing.  On success it returns two different file structures that were free, each
  with one reference, one for reading and one for writing, on the same page; the page is taken from the allocator, and the
  pipe on it is empty and open at both ends.  It fails only when fewer than two file structures or no page are free, and then
  the file table, the pipes and the free pages are exactly as before.
\<close>

theorem pipealloc_all_or_nothing:
  assumes "kidle s" "ft_ok (ftable s)" "kmem_inv xs s" "\<forall>p\<in>set xs. length (pi_data (pipes s p)) = PIPESIZE"
  shows "\<exists>r t. pipealloc s = Ret r t \<and> kidle t \<and> ft_ok (ftable t) \<and>
     (case r of
        None \<Rightarrow> t = s \<and> (xs = [] \<or> (\<nexists>a b. a < b \<and> b < length (ftable s) \<and> f_ref (ftable s ! a) = 0 \<and> f_ref (ftable s ! b) = 0))
      | Some (a, b) \<Rightarrow> free2 a b s \<and> kmem_inv (tl xs) t \<and> pipe_made a b (hd xs) s t)"
proof (cases "find_idx (\<lambda>x. f_ref x = 0) (ftable s)")
  case None
  then have "\<nexists>a b. a < b \<and> b < length (ftable s) \<and> f_ref (ftable s ! a) = 0 \<and> f_ref (ftable s ! b) = 0" by (auto simp: set_conv_nth)
  then show ?thesis using None assms by (intro exI[of _ None] exI[of _ s]) (simp add: pipealloc_def kdefs filealloc_net pipealloc_bad_def del: find_idx_None_iff)
next
  case (Some a)
  note A = find_idx_SomeD[OF Some]
  let ?s1 = "upd_file a (\<lambda>x. x\<lparr>f_ref := 1\<rparr>) s"
  have fa: "filealloc s = Ret (Some a) ?s1" and k1: "kidle ?s1" using Some assms(1) by (simp_all add: filealloc_net)
  have na: "f_type (ftable s ! a) = FD_NONE" using A assms(2) by (simp add: ft_ok_def)
  show ?thesis
  proof (cases "find_idx (\<lambda>x. f_ref x = 0) (ftable ?s1)")
    case None
    have "fileclose a ?s1 = Ret () s" using fileclose_fresh[OF k1, of a] A na by (simp add: unfile)
    moreover have "filealloc ?s1 = Ret None ?s1" using None k1 by (simp add: filealloc_net del: find_idx_None_iff)
    ultimately have "pipealloc s = Ret None s" using fa by (simp add: pipealloc_def pipealloc_bad_def kdefs)
    moreover have "\<nexists>c d. c < d \<and> d < length (ftable s) \<and> f_ref (ftable s ! c) = 0 \<and> f_ref (ftable s ! d) = 0"
    proof clarify
      fix c d assume cd: "c < d" "d < length (ftable s)" "f_ref (ftable s ! c) = 0" "f_ref (ftable s ! d) = 0"
      then have "d \<noteq> a" using A by auto
      then have "f_ref (ftable ?s1 ! d) = 0" "d < length (ftable ?s1)" using cd by simp_all
      then show False using None by (auto simp: set_conv_nth)
    qed
    ultimately show ?thesis using assms by (intro exI[of _ None] exI[of _ s]) simp
  next
    case (Some b)
    note B = find_idx_SomeD[OF Some]
    have ab: "free2 a b s" using B A by (auto simp: free2_def nth_list_update split: if_splits)
    have "filealloc ?s1 = Ret (Some b) (took2 a b s)" using Some k1 by (simp add: filealloc_net took2_def)
    then have T: "pipealloc s = kbind kalloc (\<lambda>p. pipealloc_with a b p) (took2 a b s)" using fa by (simp add: pipealloc_def kbind_apply)
    show ?thesis
    proof (cases xs)
      case Nil
      then show ?thesis using T pipealloc_no_page[OF assms(1,2) _ ab] assms by (intro exI[of _ None] exI[of _ s]) simp
    next
      case (Cons p ps)
      then show ?thesis using T pipealloc_page[OF assms(1,2) _ ab, of p ps] assms(3,4) ab by fastforce
    qed
  qed
qed

lemma kfile0_kmem: "kmem_inv [0x80200000] (kfile0 fs)"
  using kmem_inv_kpr0 idle_cpu_simps(1)[of "Some 0"]
  by (simp add: hidle_def kfile0_def kpipe.defs kcons.defs kcons0_def kfs.defs kfs0_def klog.defs klog0_def kbio.defs kbio0_def kslp0_def kpr0_def kslp.defs kpr.defs kdev.defs
      kmem_inv_def kmem_ready_def kgood_def kfree_lk_def)

lemma result_some:
  "\<exists>r t. m = Ret r t \<and> P t \<and> Q t \<and> (case r of None \<Rightarrow> A t \<and> B | Some (a, b) \<Rightarrow> R a b t) \<Longrightarrow> \<not> B \<Longrightarrow> \<exists>a b t. m = Ret (Some (a, b)) t \<and> R a b t"
  by (auto split: option.splits prod.splits)

theorem pipealloc_all_or_nothing_witness:
  "\<exists>a b t. pipealloc (kfile0 (replicate 2 free_file)) = Ret (Some (a, b)) t \<and> a \<noteq> b \<and> pabs (pipes t 0x80200000) = []"
proof -
  let ?s = "kfile0 (replicate 2 free_file)"
  have h: "kidle ?s" "ft_ok (ftable ?s)" "\<forall>p\<in>set [0x80200000]. length (pi_data (pipes ?s p)) = PIPESIZE"
    by (simp_all add: ft_ok_def free_file_def) (simp add: kfile0_def kpipe.defs kcons.defs)
  have "0 < Suc 0 \<and> Suc 0 < length (ftable ?s) \<and> f_ref (ftable ?s ! 0) = 0 \<and> f_ref (ftable ?s ! Suc 0) = 0" by (simp add: free_file_def)
  then have e: "\<not> ([0x80200000 :: nat] = [] \<or> (\<nexists>a b. a < b \<and> b < length (ftable ?s) \<and> f_ref (ftable ?s ! a) = 0 \<and> f_ref (ftable ?s ! b) = 0))" by blast
  show ?thesis using result_some[OF pipealloc_all_or_nothing[OF h(1,2) kfile0_kmem h(3)] e] unfolding list.sel free2_def pipe_made_def by blast
qed

end
