(* ===== verification/Uaccess.thy ===== *)
theory Uaccess
  imports File
begin

text \<open>
  How the kernel reaches user memory (\<^verbatim>\<open>syscall.c\<close> up to \<^verbatim>\<open>argstr\<close>).  User addresses go through the page directory
  loaded in \<open>cr3\<close>, as the hardware translates them; an access the page tables do not allow is a page fault in kernel mode,
  which \<^verbatim>\<open>trap\<close> turns into the panic \<open>trap\<close>.  The output parameters of the C functions are results here: \<open>None\<close> stands for the
  return value -1.
\<close>

section \<open>Translated accesses\<close>

definition cur_pgdir :: "'z kvm_scheme \<Rightarrow> nat" where
  "cur_pgdir s = P2V (cr3 s (lapicid (khw s)))"

definition uload :: "nat \<Rightarrow> ('z kvm_scheme, byte) K" where
  "uload va =
     kbind (kget (\<lambda>s. pte_of (pmem s) (cur_pgdir s) va)) (\<lambda>e.
     if present e then kget (\<lambda>s. ubyte (pmem s) (cur_pgdir s) va) else kpanic ''trap'')"

definition ustore :: "nat \<Rightarrow> byte \<Rightarrow> ('z kvm_scheme, unit) K" where
  "ustore va b =
     kbind (kget (\<lambda>s. pte_of (pmem s) (cur_pgdir s) va)) (\<lambda>e.
     if present e \<and> e AND PTE_W \<noteq> 0 then
       kmod (\<lambda>s. s\<lparr>pmem := (pmem s)(upage (pmem s) (cur_pgdir s) va + va mod PGSIZE := b)\<rparr>)
     else kpanic ''trap'')"

primrec uloads :: "nat \<Rightarrow> nat \<Rightarrow> ('z kvm_scheme, byte list) K" where
  "uloads va 0 = kret []"
| "uloads va (Suc n) = kbind (uload va) (\<lambda>b. kbind (uloads (va + 1) n) (\<lambda>bs. kret (b # bs)))"

primrec ustores :: "nat \<Rightarrow> byte list \<Rightarrow> ('z kvm_scheme, unit) K" where
  "ustores va [] = kret ()"
| "ustores va (b # bs) = kthen (ustore va b) (ustores (va + 1) bs)"

section \<open>Arguments of system calls\<close>

definition curproc :: "('z kpr_scheme, proc) K" where
  "curproc = kbind myproc (\<lambda>p. kderef p the_proc)"

definition fetchint :: "u32 \<Rightarrow> ('z kpr_scheme, u32 option) K" where
  "fetchint addr =
     kbind curproc (\<lambda>p.
     if unat addr \<ge> p_sz p \<or> unat (addr + 4) > p_sz p then kret None
     else kbind (uloads (unat addr) 4) (\<lambda>bs. kret (Some (ld4 bs 0))))"

primrec fetchstr_loop :: "nat \<Rightarrow> nat \<Rightarrow> byte list \<Rightarrow> ('z kpr_scheme, byte list option) K" where
  "fetchstr_loop s 0 acc = kret None"
| "fetchstr_loop s (Suc n) acc =
     kbind (uload s) (\<lambda>b. if b = 0 then kret (Some acc) else fetchstr_loop (s + 1) n (acc @ [b]))"

definition fetchstr :: "u32 \<Rightarrow> ('z kpr_scheme, byte list option) K" where
  "fetchstr addr =
     kbind curproc (\<lambda>p.
     if unat addr \<ge> p_sz p then kret None
     else fetchstr_loop (unat addr) (p_sz p - unat addr) [])"

definition argint :: "nat \<Rightarrow> ('z kpr_scheme, u32 option) K" where
  "argint n = kbind curproc (\<lambda>p. fetchint (tf_esp (p_tf p) + 4 + 4 * of_nat n))"

definition argptr :: "nat \<Rightarrow> int \<Rightarrow> ('z kpr_scheme, u32 option) K" where
  "argptr n sz =
     kbind curproc (\<lambda>p.
     kbind (argint n) (\<lambda>r.
     case r of
       None \<Rightarrow> kret None
     | Some i \<Rightarrow>
         if sz < 0 \<or> unat i \<ge> p_sz p \<or> unat (i + of_int sz) > p_sz p then kret None
         else kret (Some i)))"

definition argstr :: "nat \<Rightarrow> ('z kpr_scheme, byte list option) K" where
  "argstr n = kbind (argint n) (\<lambda>r. case r of None \<Rightarrow> kret None | Some addr \<Rightarrow> fetchstr addr)"

section \<open>Accesses that succeed\<close>

lemma curproc_net: "running i s \<Longrightarrow> curproc s = Ret (procs s ! i) s"
  by (simp add: curproc_def kdefs runningD the_proc_def)

text \<open>The pages numbered in \<open>N\<close> are mapped and writable.\<close>

definition user_rw :: "nat set \<Rightarrow> 'z kvm_scheme \<Rightarrow> bool" where
  "user_rw N s \<longleftrightarrow> mapped_wf N (kend s) (pmem s) (cur_pgdir s) \<and> (\<forall>n\<in>N. pte_of (pmem s) (cur_pgdir s) (n * PGSIZE) AND PTE_W \<noteq> 0)"

lemma user_rw_pte:
  assumes "user_rw N s" "va div PGSIZE \<in> N"
  shows "present (pte_of (pmem s) (cur_pgdir s) va)" "pte_of (pmem s) (cur_pgdir s) va AND PTE_W \<noteq> 0"
  using assms pte_of_page[of "pmem s" "cur_pgdir s" va] by (auto simp: user_rw_def mapped_wf_def present_def)

lemma uload_ok: "user_rw N s \<Longrightarrow> va div PGSIZE \<in> N \<Longrightarrow> uload va s = Ret (ubyte (pmem s) (cur_pgdir s) va) s"
  by (simp add: uload_def kdefs user_rw_pte)

lemma uloads_ok:
  "user_rw N s \<Longrightarrow> (\<And>v. va \<le> v \<Longrightarrow> v < va + n \<Longrightarrow> v div PGSIZE \<in> N) \<Longrightarrow>
   uloads va n s = Ret (map (\<lambda>k. ubyte (pmem s) (cur_pgdir s) (va + k)) [0..<n]) s"
proof (induction n arbitrary: va)
  case (Suc n)
  have "uloads (va + 1) n s = Ret (map (\<lambda>k. ubyte (pmem s) (cur_pgdir s) (va + 1 + k)) [0..<n]) s" using Suc by (intro Suc.IH) auto
  moreover have "uload va s = Ret (ubyte (pmem s) (cur_pgdir s) va) s" using Suc.prems by (intro uload_ok) auto
  moreover have "map f [0..<Suc n] = f 0 # map (\<lambda>k. f (Suc k)) [0..<n]" for f :: "nat \<Rightarrow> byte"
    by (simp add: upt_rec[of 0 "Suc n"] map_Suc_upt[symmetric] del: upt_Suc)
  ultimately show ?case by (simp add: kdefs del: upt_Suc)
qed simp

lemma put_bytes_one: "put_bytes m a [b] = m(a := b)"
  by (rule ext) (simp add: put_bytes_def)

lemma ustore_ok:
  assumes "user_rw N s" "va div PGSIZE \<in> N"
  shows "\<exists>m. ustore va b s = Ret () (s\<lparr>pmem := m\<rparr>) \<and> user_rw N (s\<lparr>pmem := m\<rparr>)
    \<and> (\<forall>v. upage m (cur_pgdir s) v = upage (pmem s) (cur_pgdir s) v)
    \<and> (\<forall>v. v div PGSIZE \<in> N \<longrightarrow> ubyte m (cur_pgdir s) v = (if v = va then b else ubyte (pmem s) (cur_pgdir s) v))
    \<and> (\<forall>a. (\<forall>n\<in>N. \<not> in_page (upage (pmem s) (cur_pgdir s) (n * PGSIZE)) a) \<longrightarrow> m a = pmem s a)"
proof -
  let ?d = "cur_pgdir s" and ?n = "va div PGSIZE" and ?b = "va mod PGSIZE" and ?m = "pmem s"
  let ?p = "upage ?m ?d (?n * PGSIZE)"
  have wf: "mapped_wf N (kend s) ?m ?d" using assms(1) by (simp add: user_rw_def)
  have "?b < PGSIZE" by (rule mod_less_divisor) simp
  then have le: "?b + length [b] \<le> PGSIZE" by simp
  note P = mapped_wf_put[OF wf assms(2), of ?b "[b]"]
  define m where "m = put_bytes ?m (?p + ?b) [b]"
  have e: "m = ?m(upage ?m ?d va + ?b := b)"
    using put_bytes_one[of ?m "?p + ?b" b] pte_of_page[of ?m ?d va] by (simp only: m_def upage_def)
  have c: "cur_pgdir (s\<lparr>pmem := m\<rparr>) = ?d" by (simp add: cur_pgdir_def)
  have pte: "pte_of m ?d v = pte_of ?m ?d v" for v unfolding m_def by (rule P(4)[OF le])
  have "user_rw N (s\<lparr>pmem := m\<rparr>)" using assms(1) P(1)[OF le, folded m_def] c by (simp add: user_rw_def pte)
  moreover have "ustore va b s = Ret () (s\<lparr>pmem := m\<rparr>)" using user_rw_pte[OF assms] by (simp add: ustore_def kdefs e)
  moreover have "ubyte m ?d v = (if v = va then b else ubyte ?m ?d v)" if "v div PGSIZE \<in> N" for v
  proof -
    have "v = va \<longleftrightarrow> v div PGSIZE = ?n \<and> v mod PGSIZE = ?b" by (metis div_mult_mod_eq)
    then show ?thesis using P(3)[OF le that, folded m_def] by auto
  qed
  moreover have "upage m ?d v = upage ?m ?d v" for v unfolding m_def by (rule P(2)[OF le])
  moreover have "m a = ?m a" if "\<forall>n\<in>N. \<not> in_page (upage ?m ?d (n * PGSIZE)) a" for a
    using that assms(2) le by (auto simp: m_def put_bytes_def in_page_def)
  ultimately show ?thesis by blast
qed

text \<open>The bytes of the user pages \<open>N\<close> are the only ones that differ between \<open>s\<close> and \<open>m\<close>, and they hold \<open>bs\<close> at \<open>va\<close>.\<close>

definition ustored :: "nat set \<Rightarrow> nat \<Rightarrow> byte list \<Rightarrow> 'z kvm_scheme \<Rightarrow> memory \<Rightarrow> bool" where
  "ustored N va bs s m \<longleftrightarrow>
     (\<forall>v. upage m (cur_pgdir s) v = upage (pmem s) (cur_pgdir s) v)
     \<and> (\<forall>v. v div PGSIZE \<in> N \<longrightarrow> ubyte m (cur_pgdir s) v =
           (if va \<le> v \<and> v < va + length bs then bs ! (v - va) else ubyte (pmem s) (cur_pgdir s) v))
     \<and> (\<forall>a. (\<forall>n\<in>N. \<not> in_page (upage (pmem s) (cur_pgdir s) (n * PGSIZE)) a) \<longrightarrow> m a = pmem s a)"

lemma ustores_ok:
  "user_rw N s \<Longrightarrow> (\<And>v. va \<le> v \<Longrightarrow> v < va + length bs \<Longrightarrow> v div PGSIZE \<in> N) \<Longrightarrow>
   \<exists>m. ustores va bs s = Ret () (s\<lparr>pmem := m\<rparr>) \<and> user_rw N (s\<lparr>pmem := m\<rparr>) \<and> ustored N va bs s m"
proof (induction bs arbitrary: va s)
  case Nil
  then show ?case by (intro exI[of _ "pmem s"]) (auto simp: ustored_def)
next
  case (Cons b bs)
  have "va div PGSIZE \<in> N" using Cons.prems(2)[of va] by simp
  then obtain m where m: "ustore va b s = Ret () (s\<lparr>pmem := m\<rparr>)" "user_rw N (s\<lparr>pmem := m\<rparr>)"
      "\<And>v. upage m (cur_pgdir s) v = upage (pmem s) (cur_pgdir s) v"
      "\<And>v. v div PGSIZE \<in> N \<Longrightarrow> ubyte m (cur_pgdir s) v = (if v = va then b else ubyte (pmem s) (cur_pgdir s) v)"
      "\<And>a. (\<forall>n\<in>N. \<not> in_page (upage (pmem s) (cur_pgdir s) (n * PGSIZE)) a) \<Longrightarrow> m a = pmem s a"
    using ustore_ok[OF Cons.prems(1), of va b] by blast
  have c: "cur_pgdir (s\<lparr>pmem := m\<rparr>) = cur_pgdir s" by (simp add: cur_pgdir_def)
  obtain m' where m': "ustores (va + 1) bs (s\<lparr>pmem := m\<rparr>) = Ret () ((s\<lparr>pmem := m\<rparr>)\<lparr>pmem := m'\<rparr>)"
      "user_rw N ((s\<lparr>pmem := m\<rparr>)\<lparr>pmem := m'\<rparr>)" "ustored N (va + 1) bs (s\<lparr>pmem := m\<rparr>) m'"
    using Cons.IH[OF m(2), of "va + 1"] Cons.prems(2) by auto
  have "ubyte m' (cur_pgdir s) v = (if va \<le> v \<and> v < va + length (b # bs) then (b # bs) ! (v - va) else ubyte (pmem s) (cur_pgdir s) v)"
    if "v div PGSIZE \<in> N" for v
    using m'(3) m(4)[OF that] that unfolding ustored_def c by (auto simp: nth_Cons' diff_diff_eq[symmetric])
  then have "ustored N va (b # bs) s m'" using m'(3) m(3,5) unfolding ustored_def c by simp
  then show ?case using m(1) m'(1,2) by (auto simp: kdefs)
qed

lemma uloads_stored:
  assumes "user_rw N (s\<lparr>pmem := m\<rparr>)" "ustored N va bs s m" "\<And>v. va \<le> v \<Longrightarrow> v < va + length bs \<Longrightarrow> v div PGSIZE \<in> N"
  shows "uloads va (length bs) (s\<lparr>pmem := m\<rparr>) = Ret bs (s\<lparr>pmem := m\<rparr>)"
proof -
  have c: "cur_pgdir (s\<lparr>pmem := m\<rparr>) = cur_pgdir s" by (simp add: cur_pgdir_def)
  have "map (\<lambda>k. ubyte m (cur_pgdir s) (va + k)) [0..<length bs] = bs"
    using assms(2,3) by (intro nth_equalityI) (auto simp: ustored_def)
  then show ?thesis using uloads_ok[OF assms(1,3)] by (simp add: c)
qed

section \<open>Checked arguments\<close>

text \<open>The pages of a process of size \<open>sz\<close>.\<close>

definition upto_size :: "nat \<Rightarrow> nat set" where
  "upto_size sz = {n. n * PGSIZE < sz}"

lemma upto_size_page: "v < sz \<Longrightarrow> v div PGSIZE \<in> upto_size sz"
  unfolding upto_size_def using div_times_less_eq_dividend[of v PGSIZE] by (simp add: le_less_trans)

text \<open>The state in which system calls run: process \<open>i\<close> is current and its memory is mapped by the loaded directory.\<close>

definition in_syscall :: "nat \<Rightarrow> 'z kpr_scheme \<Rightarrow> bool" where
  "in_syscall i s \<longleftrightarrow>
     running i s \<and> p_sz (procs s ! i) \<le> KERNBASE \<and> user_rw (upto_size (p_sz (procs s ! i))) s"

lemma unat_plus_small: "unat (a :: u32) < x \<Longrightarrow> x \<le> KERNBASE \<Longrightarrow> k < 2 ^ 31 \<Longrightarrow> unat (a + of_nat k) = unat a + k"
  by (simp add: unat_word_ariths unat_of_nat)

lemma fetchint_net:
  assumes "in_syscall i s"
  shows "fetchint a s = Ret (if unat a + 4 \<le> p_sz (procs s ! i)
     then Some (ld4 (map (\<lambda>k. ubyte (pmem s) (cur_pgdir s) (unat a + k)) [0..<4]) 0) else None) s"
proof -
  have r: "running i s" and sz: "p_sz (procs s ! i) \<le> KERNBASE" and rw: "user_rw (upto_size (p_sz (procs s ! i))) s"
    using assms by (auto simp: in_syscall_def)
  show ?thesis
  proof (cases "unat a < p_sz (procs s ! i)")
    case True
    have w: "unat (a + 4) = unat a + 4" using unat_plus_small[OF True sz, of 4] by simp
    have "uloads (unat a) 4 s = Ret (map (\<lambda>k. ubyte (pmem s) (cur_pgdir s) (unat a + k)) [0..<4]) s"
      if "unat a + 4 \<le> p_sz (procs s ! i)"
      using that by (intro uloads_ok[OF rw] upto_size_page) auto
    then show ?thesis using True by (auto simp: fetchint_def curproc_net[OF r] kdefs w simp del: upt_conv_Cons)
  qed (simp add: fetchint_def curproc_net[OF r] kdefs)
qed

lemma argint_net:
  fixes s :: "'z kpr_scheme" and n :: nat
  assumes "in_syscall i s"
  defines "a \<equiv> tf_esp (p_tf (procs s ! i)) + 4 + 4 * of_nat n"
  shows "argint n s = Ret (if unat a + 4 \<le> p_sz (procs s ! i)
     then Some (ld4 (map (\<lambda>k. ubyte (pmem s) (cur_pgdir s) (unat a + k)) [0..<4]) 0) else None) s"
proof -
  have "argint n s = fetchint a s" using assms(1) by (simp add: argint_def kdefs a_def curproc_net[of i] in_syscall_def)
  then show ?thesis using fetchint_net[OF assms(1), of a] by simp
qed

lemma argptr_net:
  assumes "in_syscall i s" "argint n s = Ret r s" "sz < 2 ^ 31"
  shows "argptr n sz s = Ret (case r of None \<Rightarrow> None | Some a \<Rightarrow>
     if 0 \<le> sz \<and> unat a < p_sz (procs s ! i) \<and> unat a + nat sz \<le> p_sz (procs s ! i) then Some a else None) s"
proof (cases r)
  case None
  then show ?thesis using assms by (simp add: argptr_def kdefs curproc_net[of i] in_syscall_def)
next
  case (Some a)
  have run: "running i s" and le: "p_sz (procs s ! i) \<le> KERNBASE" using assms(1) by (auto simp: in_syscall_def)
  have w: "unat (a + of_int sz) = unat a + nat sz" if "0 \<le> sz" "unat a < p_sz (procs s ! i)"
  proof -
    have "of_int sz = (of_nat (nat sz) :: u32)" using that(1) by simp
    moreover have "nat sz < 2 ^ 31" using assms(3) by simp
    ultimately show ?thesis using unat_plus_small[OF that(2) le] by metis
  qed
  show ?thesis using w assms(2) Some by (auto simp: argptr_def kdefs curproc_net[OF run])
qed

text \<open>
  C5: \<^verbatim>\<open>argptr\<close> lets a system call through only with memory of the caller.  For a process whose size is at most \<open>KERNBASE\<close> and
  whose pages are mapped, \<^verbatim>\<open>argptr\<close> always returns and changes nothing; whenever it accepts a pointer for \<open>sz\<close> bytes, the whole
  block lies below the size of the process (the 32-bit additions of the checks do not wrap).  Then any bytes the kernel stores through the pointer
  are stored without a fault, read back, and change no byte of memory outside the pages of this process.
\<close>

theorem argptr_safe:
  assumes "in_syscall i s" "sz < 2 ^ 31"
  shows "\<exists>r. argptr n sz s = Ret r s \<and> (\<forall>a. r = Some a \<longrightarrow>
     0 \<le> sz \<and> unat a + nat sz \<le> p_sz (procs s ! i) \<and>
     (\<forall>bs. length bs \<le> nat sz \<longrightarrow>
        (\<exists>m. ustores (unat a) bs s = Ret () (s\<lparr>pmem := m\<rparr>)
           \<and> uloads (unat a) (length bs) (s\<lparr>pmem := m\<rparr>) = Ret bs (s\<lparr>pmem := m\<rparr>)
           \<and> (\<forall>x. (\<forall>k\<in>upto_size (p_sz (procs s ! i)). \<not> in_page (upage (pmem s) (cur_pgdir s) (k * PGSIZE)) x) \<longrightarrow> m x = pmem s x))))"
proof -
  let ?N = "upto_size (p_sz (procs s ! i))"
  have rw: "user_rw ?N s" using assms(1) by (simp add: in_syscall_def)
  obtain r where r: "argint n s = Ret r s" using argint_net[OF assms(1)] by blast
  have "\<exists>m. ustores (unat a) bs s = Ret () (s\<lparr>pmem := m\<rparr>)
           \<and> uloads (unat a) (length bs) (s\<lparr>pmem := m\<rparr>) = Ret bs (s\<lparr>pmem := m\<rparr>)
           \<and> (\<forall>x. (\<forall>k\<in>?N. \<not> in_page (upage (pmem s) (cur_pgdir s) (k * PGSIZE)) x) \<longrightarrow> m x = pmem s x)"
    if "unat a + nat sz \<le> p_sz (procs s ! i)" "length bs \<le> nat sz" for a :: u32 and bs
  proof -
    have N: "v div PGSIZE \<in> ?N" if "unat a \<le> v" "v < unat a + length bs" for v
      using that \<open>unat a + nat sz \<le> _\<close> \<open>length bs \<le> _\<close> by (intro upto_size_page) linarith
    obtain m where "ustores (unat a) bs s = Ret () (s\<lparr>pmem := m\<rparr>)" "user_rw ?N (s\<lparr>pmem := m\<rparr>)" "ustored ?N (unat a) bs s m"
      using ustores_ok[OF rw N] by blast
    then show ?thesis using uloads_stored[OF _ _ N] by (intro exI[of _ m]) (auto simp: ustored_def)
  qed
  then show ?thesis unfolding argptr_net[OF assms(1) r assms(2)] by (intro exI conjI refl) (auto split: option.splits if_splits)
qed

text \<open>A process of one page, with its directory loaded.\<close>

definition user_proc0 :: proc where
  "user_proc0 = proc0\<lparr>p_state := RUNNING, p_sz := 4096, p_pgdir := dir0\<rparr>"

definition syscall0 :: "'z kpr_scheme \<Rightarrow> 'z kpr_scheme" where
  "syscall0 s = s\<lparr>khw := idle_cpu (Some 0), pmem := user0, kend := kend phys0, cr3 := \<lambda>_. V2P dir0, procs := [user_proc0]\<rparr>"

lemma user0_zero: "v < PGSIZE \<Longrightarrow> ubyte user0 dir0 v = 0"
proof -
  assume v: "v < PGSIZE"
  have "upage user0 dir0 v = page0" using user0_upage v pte_of_page[of user0 dir0 v] by (simp add: upage_def)
  moreover have "user0 (page0 + v) = pool0 (page0 + v)" using v by (intro user0_facts(4)) (simp_all add: in_page_def page0_def tab0_def dir0_def)
  ultimately show ?thesis using v by (simp add: ubyte_def pool0_def store4_def page0_def)
qed

lemma syscall0_ready: "in_syscall 0 (syscall0 s)"
proof -
  have c: "cur_pgdir (syscall0 s) = dir0" by (simp add: syscall0_def cur_pgdir_def dir0_def P2V_def V2P_def)
  have N: "upto_size 4096 = {0}" by (auto simp: upto_size_def)
  have "user_rw {0} (syscall0 s)"
    using user0_wf user0_facts(3) by (simp add: user_rw_def c) (simp add: syscall0_def user_wf_def page0_def V2P_def PTE_P_def PTE_W_def PTE_U_def)
  then show ?thesis using idle_cpu_simps[of "Some 0"]
    by (simp add: in_syscall_def running_def) (simp add: syscall0_def user_proc0_def N kdepth_def cur_def)
qed

theorem argptr_safe_witness:
  "\<exists>m. argptr 0 2 (syscall0 kpipe0) = Ret (Some 0) (syscall0 kpipe0) \<and> uloads 0 2 ((syscall0 kpipe0)\<lparr>pmem := m\<rparr>) = Ret [104, 105] ((syscall0 kpipe0)\<lparr>pmem := m\<rparr>)"
proof -
  let ?s = "syscall0 kpipe0"
  have c: "cur_pgdir ?s = dir0" by (simp add: syscall0_def cur_pgdir_def dir0_def P2V_def V2P_def)
  have p: "procs ?s = [user_proc0]" "pmem ?s = user0" by (simp_all add: syscall0_def)
  have "argint 0 ?s = Ret (Some 0) ?s" using argint_net[OF syscall0_ready, of 0 kpipe0]
    by (simp add: p c user_proc0_def proc0_def user0_zero ld4_def sub_bytes_def of_le4_def)
  then have a: "argptr 0 2 ?s = Ret (Some 0) ?s" using argptr_net[OF syscall0_ready, of 0 kpipe0 "Some 0" 2] by (simp add: p user_proc0_def)
  have "\<forall>bs. length bs \<le> nat 2 \<longrightarrow> (\<exists>m. uloads (unat (0 :: u32)) (length bs) (?s\<lparr>pmem := m\<rparr>) = Ret bs (?s\<lparr>pmem := m\<rparr>))"
  proof -
    have b: "(2 :: int) < 2 ^ 31" by simp
    show ?thesis using argptr_safe[OF syscall0_ready b, of 0 kpipe0] unfolding a outcome.inject by blast
  qed
  from this[rule_format, of "[104, 105]"] show ?thesis using a by (simp add: numeral_2_eq_2)
qed

end
