(* ===== verification/Fork.thy ===== *)
theory Fork
  imports Uaccess
begin

text \<open>
  The life of a process as far as it touches files and inodes (\<^verbatim>\<open>userinit\<close>, \<^verbatim>\<open>fork\<close>, \<^verbatim>\<open>exit\<close> and \<^verbatim>\<open>forkret\<close> of \<^verbatim>\<open>proc.c\<close>).
  The image of \<^verbatim>\<open>initcode.S\<close>, which the build links into the kernel, is a parameter of \<open>userinit\<close>.
\<close>

record kfork = kfile +
  first_forkret :: bool

definition safe_name :: "byte list \<Rightarrow> byte list \<Rightarrow> byte list" where
  "safe_name old src = get_bytes (safestrcpy (\<lambda>a. if a < 16 then old ! a else lview src (a - 16)) 0 16 16) 0 16"

definition zero_tf :: trapframe where
  "zero_tf = \<lparr>tf_edi = 0, tf_esi = 0, tf_ebp = 0, tf_oesp = 0, tf_ebx = 0, tf_edx = 0, tf_ecx = 0, tf_eax = 0, tf_gs = 0, tf_fs = 0,
     tf_es = 0, tf_ds = 0, tf_trapno = 0, tf_err = 0, tf_eip = 0, tf_cs = 0, tf_eflags = 0, tf_esp = 0, tf_ss = 0\<rparr>"

abbreviation "SEG_UCODE \<equiv> (3 :: u16)"
abbreviation "SEG_UDATA \<equiv> (4 :: u16)"
abbreviation "DPL_USER \<equiv> (3 :: u16)"
abbreviation "FL_IF \<equiv> (0x200 :: u32)"

definition userinit_tf :: trapframe where
  "userinit_tf =
     (let ds = push_bit 3 SEG_UDATA OR DPL_USER in
      zero_tf\<lparr>tf_cs := push_bit 3 SEG_UCODE OR DPL_USER, tf_ds := ds, tf_es := ds, tf_ss := ds, tf_eflags := FL_IF,
        tf_esp := 4096, tf_eip := 0\<rparr>)"

definition userinit :: "byte list \<Rightarrow> ('z kfork_scheme, unit) K" where
  "userinit initcode =
     kbind allocproc (\<lambda>p.
     kthen (kmod (\<lambda>s. s\<lparr>initproc := p\<rparr>)) (
     kderef p (\<lambda>i.
     kbind setupkvm (\<lambda>d.
     kthen (kmod (upd_proc i (\<lambda>p. p\<lparr>p_pgdir := d\<rparr>)))
       (if d = 0 then kpanic ''userinit: out of memory?''
        else
          kthen (inituvm d initcode) (
          kthen (kmod (upd_proc i (\<lambda>p. p\<lparr>p_sz := PGSIZE, p_tf := userinit_tf, p_name := safe_name (p_name p) (bytes_of ''initcode'')\<rparr>))) (
          kbind (namei (bytes_of ''/'')) (\<lambda>cwd.
          kthen (kmod (upd_proc i (\<lambda>p. p\<lparr>p_cwd := cwd, p_uid := 0, p_gid := 0\<rparr>))) (
          kthen (kacquire Lptable) (
          kthen (kmod (upd_proc i (\<lambda>p. p\<lparr>p_state := RUNNABLE\<rparr>))) (krelease Lptable)))))))))))"

section \<open>fork\<close>

definition fork_file :: "nat \<Rightarrow> nat \<Rightarrow> nat \<Rightarrow> ('z kfork_scheme, unit) K" where
  "fork_file i j fd =
     kbind (the_proc i) (\<lambda>p.
     case p_ofile p ! fd of
       None \<Rightarrow> kret ()
     | Some f \<Rightarrow> kbind (filedup f) (\<lambda>g. kmod (upd_proc j (\<lambda>q. q\<lparr>p_ofile := (p_ofile q)[fd := Some g]\<rparr>))))"

definition fork :: "('z kfork_scheme, int) K" where
  "fork =
     kbind myproc (\<lambda>cur.
     kbind allocproc (\<lambda>np.
     case np of
       None \<Rightarrow> kret (-1)
     | Some j \<Rightarrow>
         kderef cur (\<lambda>i.
         kbind (the_proc i) (\<lambda>p.
         kbind (copyuvm (p_pgdir p) (p_sz p)) (\<lambda>d.
         kthen (kmod (upd_proc j (\<lambda>q. q\<lparr>p_pgdir := d\<rparr>)))
           (if d = 0 then
              kbind (the_proc j) (\<lambda>q.
              kthen (kfree (p_kstack q)) (
              kthen (kmod (upd_proc j (\<lambda>q. q\<lparr>p_kstack := 0, p_state := UNUSED\<rparr>))) (kret (-1))))
            else
              kthen (kmod (upd_proc j (\<lambda>q. q\<lparr>p_sz := p_sz p, p_parent := Some i, p_tf := (p_tf p)\<lparr>tf_eax := 0\<rparr>,
                  p_uid := p_uid p, p_gid := p_gid p\<rparr>))) (
              kthen (kfor [0..<NOFILE] (fork_file i j)) (
              kbind (kderef (p_cwd p) idup) (\<lambda>c.
              kthen (kmod (upd_proc j (\<lambda>q. q\<lparr>p_cwd := Some c, p_name := safe_name (p_name q) (p_name p)\<rparr>))) (
              kbind (the_proc j) (\<lambda>q.
              kthen (kacquire Lptable) (
              kthen (kmod (upd_proc j (\<lambda>q. q\<lparr>p_state := RUNNABLE\<rparr>))) (
              kthen (krelease Lptable) (kret (p_pid q)))))))))))))))"

section \<open>exit\<close>

definition exit_file :: "nat \<Rightarrow> nat \<Rightarrow> ('z kfile_scheme, unit) K" where
  "exit_file i fd =
     kbind (the_proc i) (\<lambda>p.
     case p_ofile p ! fd of
       None \<Rightarrow> kret ()
     | Some f \<Rightarrow> kthen (fileclose f) (kmod (upd_proc i (\<lambda>p. p\<lparr>p_ofile := (p_ofile p)[fd := None]\<rparr>))))"

text \<open>Up to taking the table lock: give back the files and the current directory.\<close>

definition exit_files :: "nat \<Rightarrow> ('z kfile_scheme, unit) K" where
  "exit_files i =
     kthen (kfor [0..<NOFILE] (exit_file i)) (
     kthen begin_op (
     kbind (the_proc i) (\<lambda>p.
     kthen (kderef (p_cwd p) iput) (
     kthen end_op
       (kmod (upd_proc i (\<lambda>p. p\<lparr>p_cwd := None\<rparr>)))))))"

definition exit :: "('z kfile_scheme, unit) K" where
  "exit =
     kbind myproc (\<lambda>cur.
     kbind (kget initproc) (\<lambda>ip.
     if cur = ip then kpanic ''init exiting''
     else kderef cur (\<lambda>i. kthen (exit_files i) (exit_sched i))))"

section \<open>The first run of a process\<close>

definition forkret :: "('z kfork_scheme, unit) K" where
  "forkret =
     kthen (krelease Lptable) (
     kbind (kget first_forkret) (\<lambda>first.
     kwhen first
       (kthen (kmod (\<lambda>s. s\<lparr>first_forkret := False\<rparr>)) (kthen (iinit ROOTDEV) (initlog ROOTDEV)))))"

section \<open>What exit does to the table\<close>

text \<open>After the first \<open>n\<close> turns of the loop that hands the children of \<open>i\<close> to \<open>ip\<close>.\<close>

definition orphan_zombie :: "nat \<Rightarrow> nat \<Rightarrow> proc list \<Rightarrow> bool" where
  "orphan_zombie i n ps \<longleftrightarrow> (\<exists>k<n. p_parent (ps ! k) = Some i \<and> p_state (ps ! k) = ZOMBIE)"

definition adopted1 :: "nat \<Rightarrow> nat option \<Rightarrow> bool \<Rightarrow> bool \<Rightarrow> proc \<Rightarrow> proc" where
  "adopted1 i ip seen wake p =
     p\<lparr>p_parent := (if seen \<and> p_parent p = Some i then ip else p_parent p),
       p_state := (if wake \<and> p_state p = SLEEPING \<and> p_chan p = map_option ChanProc ip then RUNNABLE else p_state p)\<rparr>"

definition adopted :: "nat \<Rightarrow> nat option \<Rightarrow> nat \<Rightarrow> proc list \<Rightarrow> proc list" where
  "adopted i ip n ps = map (\<lambda>j. adopted1 i ip (j < n) (orphan_zombie i n ps) (ps ! j)) [0..<length ps]"

lemma adopted_nth: "j < length ps \<Longrightarrow> adopted i ip n ps ! j = adopted1 i ip (j < n) (orphan_zombie i n ps) (ps ! j)"
  by (simp add: adopted_def)

lemma adopt_loop: "n \<le> length (procs s) \<Longrightarrow> kfor [0..<n] (adopt i) s = Ret () (s\<lparr>procs := adopted i (initproc s) n (procs s)\<rparr>)"
proof (induction n)
  case 0
  have "adopted i (initproc s) 0 (procs s) = procs s" by (rule nth_equalityI) (simp_all add: adopted_def adopted1_def orphan_zombie_def)
  then show ?case by simp
next
  case (Suc n)
  let ?ip = "initproc s" and ?ps = "procs s"
  let ?s = "s\<lparr>procs := adopted i ?ip n ?ps\<rparr>"
  have l: "length (adopted i ?ip n ?ps) = length ?ps" by (simp add: adopted_def)
  have q: "adopted i ?ip n ?ps ! n = adopted1 i ?ip False (orphan_zombie i n ?ps) (?ps ! n)" using Suc.prems by (simp add: adopted_nth)
  have z: "orphan_zombie i (Suc n) ?ps \<longleftrightarrow> orphan_zombie i n ?ps \<or> p_parent (?ps ! n) = Some i \<and> p_state (?ps ! n) = ZOMBIE"
    by (auto simp: orphan_zombie_def less_Suc_eq)
  have "adopt i n ?s = Ret () (s\<lparr>procs := adopted i ?ip (Suc n) ?ps\<rparr>)"
  proof (cases "p_parent (?ps ! n) = Some i")
    case False
    then have "adopted i ?ip (Suc n) ?ps = adopted i ?ip n ?ps"
      using z by (intro nth_equalityI) (auto simp: adopted_nth l adopted1_def less_Suc_eq adopted_def)
    then show ?thesis using False q by (simp add: adopt_def kdefs the_proc_def adopted1_def)
  next
    case True
    have "adopted i ?ip (Suc n) ?ps = (if p_state (?ps ! n) = ZOMBIE
        then map (\<lambda>p. if p_state p = SLEEPING \<and> p_chan p = map_option ChanProc ?ip then p\<lparr>p_state := RUNNABLE\<rparr> else p) else id)
        ((adopted i ?ip n ?ps)[n := (adopted i ?ip n ?ps ! n)\<lparr>p_parent := ?ip\<rparr>])"
      using z True Suc.prems by (intro nth_equalityI) (auto simp: adopted_nth l adopted1_def less_Suc_eq nth_list_update adopted_def)
    then show ?thesis using True q by (auto simp: adopt_def kdefs the_proc_def adopted1_def upd_proc_def wakeup1_def)
  qed
  then show ?case using Suc by (simp add: kfor_snoc kthen_apply)
qed

lemma exit_sched_net:
  assumes "running i s" "length (procs s) = NPROC"
  defines "a \<equiv> awaken (map_option ChanProc (p_parent (procs s ! i))) s"
  shows "exit_sched i s = Blocked (klock Lptable (upd_proc i (\<lambda>p. p\<lparr>p_state := ZOMBIE\<rparr>) (a\<lparr>procs := adopted i (initproc s) NPROC (procs a)\<rparr>)))"
proof -
  have k: "kidle s" "kdepth s = 0" "cur s = Some i" "i < NPROC" using assms(1,2) by (auto simp: running_def)
  let ?b = "a\<lparr>procs := adopted i (initproc s) NPROC (procs a)\<rparr>"
  have la: "length (procs a) = NPROC" "initproc a = initproc s" using assms(2) by (simp_all add: a_def awaken_def)
  let ?u = "upd_proc i (\<lambda>p. p\<lparr>p_state := ZOMBIE\<rparr>) ?b"
  have "wakeup1 (map_option ChanProc (p_parent (procs s ! i))) (klock Lptable s) = Ret () (klock Lptable a)"
    by (simp add: wakeup1_def a_def awaken_def kdefs)
  moreover have "kfor [0..<NPROC] (adopt i) (klock Lptable a) = Ret () (klock Lptable ?b)"
    using adopt_loop[of NPROC "klock Lptable a" i] la by simp
  moreover have "sched (klock Lptable ?u) = Blocked (klock Lptable ?u)"
    using k la by (intro sched_blocks[where i = i]) (simp_all add: a_def awaken_def adopted_def)
  ultimately show ?thesis using k by (simp add: exit_sched_def kdefs the_proc_def)
qed

text \<open>
  C7: What \<^verbatim>\<open>exit\<close> leaves behind.  Once the files and the directory of process \<open>i\<close> are given back (in state \<open>u\<close>), \<^verbatim>\<open>exit\<close> never returns to its
  caller: it gives up the CPU with process \<open>i\<close> a zombie.  Every child of \<open>i\<close> is now a child of \<open>init\<close>, no other parent changes; a parent
  that sleeps in \<^verbatim>\<open>wait\<close> is runnable, and so is \<open>init\<close> if it sleeps there and some child it was handed is a zombie already; no
  other process changes its state.
\<close>

theorem exit_hands_over:
  assumes "running i s" "initproc s = Some ip" "i \<noteq> ip" "exit_files i s = Ret () u"
    "running i u" "length (procs u) = NPROC" "initproc u = Some ip"
  shows "\<exists>t. exit s = Blocked t \<and> p_state (procs t ! i) = ZOMBIE \<and>
    (\<forall>j<NPROC. p_parent (procs t ! j) = (if p_parent (procs u ! j) = Some i then Some ip else p_parent (procs u ! j))) \<and>
    (\<forall>j<NPROC. j \<noteq> i \<longrightarrow> p_state (procs t ! j) =
       (if p_state (procs u ! j) = SLEEPING \<and>
           (p_chan (procs u ! j) = map_option ChanProc (p_parent (procs u ! i)) \<or>
            p_chan (procs u ! j) = Some (ChanProc ip) \<and> (\<exists>k<NPROC. p_parent (procs u ! k) = Some i \<and> p_state (procs u ! k) = ZOMBIE))
        then RUNNABLE else p_state (procs u ! j)))"
proof -
  define ch where "ch = map_option ChanProc (p_parent (procs u ! i))"
  let ?a = "awaken ch u"
  let ?t = "klock Lptable (upd_proc i (\<lambda>p. p\<lparr>p_state := ZOMBIE\<rparr>) (?a\<lparr>procs := adopted i (initproc u) NPROC (procs ?a)\<rparr>))"
  have "exit s = Blocked ?t" using assms(1-4) exit_sched_net[OF assms(5,6), folded ch_def] by (simp add: exit_def kdefs runningD)
  moreover have i: "i < NPROC" using assms(5,6) by (simp add: running_def)
  have len: "length (procs ?a) = NPROC" using assms(6) by simp
  have a: "p_parent (procs ?a ! j) = p_parent (procs u ! j)" "p_chan (procs ?a ! j) = p_chan (procs u ! j)"
    "p_state (procs ?a ! j) = (if p_state (procs u ! j) = SLEEPING \<and> p_chan (procs u ! j) = ch
       then RUNNABLE else p_state (procs u ! j))" if "j < NPROC" for j
    using that assms(6) by (simp_all add: awaken_def)
  have z: "orphan_zombie i NPROC (procs ?a) \<longleftrightarrow> (\<exists>k<NPROC. p_parent (procs u ! k) = Some i \<and> p_state (procs u ! k) = ZOMBIE)"
    by (auto simp: orphan_zombie_def a split: if_splits)
  have t: "procs ?t ! j = (if j = i then (adopted1 i (Some ip) True (orphan_zombie i NPROC (procs ?a)) (procs ?a ! j))\<lparr>p_state := ZOMBIE\<rparr>
      else adopted1 i (Some ip) True (orphan_zombie i NPROC (procs ?a)) (procs ?a ! j))" if "j < NPROC" for j
    using that i len assms(7) by (simp add: adopted_nth upd_proc_def nth_list_update adopted_def)
  have "p_state (procs ?t ! i) = ZOMBIE" using t[OF i] by simp
  moreover have "\<forall>j<NPROC. p_parent (procs ?t ! j) = (if p_parent (procs u ! j) = Some i then Some ip else p_parent (procs u ! j))"
    using t a(1) by (simp add: adopted1_def)
  moreover have "\<forall>j<NPROC. j \<noteq> i \<longrightarrow> p_state (procs ?t ! j) =
       (if p_state (procs u ! j) = SLEEPING \<and>
           (p_chan (procs u ! j) = ch \<or>
            p_chan (procs u ! j) = Some (ChanProc ip) \<and> (\<exists>k<NPROC. p_parent (procs u ! k) = Some i \<and> p_state (procs u ! k) = ZOMBIE))
        then RUNNABLE else p_state (procs u ! j))"
  proof (intro allI impI)
    fix j assume j: "j < NPROC" "j \<noteq> i"
    show "p_state (procs ?t ! j) = (if p_state (procs u ! j) = SLEEPING \<and> (p_chan (procs u ! j) = ch \<or>
            p_chan (procs u ! j) = Some (ChanProc ip) \<and> (\<exists>k<NPROC. p_parent (procs u ! k) = Some i \<and> p_state (procs u ! k) = ZOMBIE))
        then RUNNABLE else p_state (procs u ! j))"
      unfolding t[OF j(1)] z[symmetric] using j a[OF j(1)] by (simp add: adopted1_def)
  qed
  ultimately show ?thesis unfolding ch_def by blast
qed

text \<open>Giving back nothing but a directory that others still use.\<close>

lemma exit_no_files:
  assumes "p_ofile (procs s ! i) = replicate NOFILE None"
  shows "kfor [0..<NOFILE] (exit_file i) s = Ret () s"
proof -
  have "n \<le> NOFILE \<Longrightarrow> kfor [0..<n] (exit_file i) s = Ret () s" for n
    using assms by (induction n) (simp_all add: kfor_snoc kdefs exit_file_def the_proc_def)
  then show ?thesis by blast
qed

lemma opframe_initproc: "opframe s t \<Longrightarrow> initproc t = initproc s"
  unfolding opframe_def by (elim conjE, erule ssubst, simp)

lemma opframe_procs: "opframe s t \<Longrightarrow> length (procs t) = length (procs s)"
  unfolding opframe_def woken_def by (elim conjE) (rule sym, erule list_all2_lengthD)

lemma exit_files_net:
  assumes "calm s" "running i s" "p_ofile (procs s ! i) = replicate NOFILE None" "p_cwd (procs s ! i) = Some c"
    "\<not> sl_locked (slocks s (SLinode c))" "1 < i_ref (icache s c)"
  shows "\<exists>u. exit_files i s = Ret () u \<and> running i u \<and> length (procs u) = length (procs s) \<and> initproc u = initproc s"
proof -
  let ?b = "s\<lparr>log_outstanding := 1\<rparr>"
  note B = begin_op_calm[OF assms(1)]
  have "bok {} ?b" using B(2) by (simp add: txok_def)
  then have ip: "iput c ?b = Ret () (upd_inode c (\<lambda>ip. ip\<lparr>i_ref := i_ref ip - 1\<rparr>) (freed c (taken c ?b)))" (is "_ = Ret () ?d")
    using assms(5,6) by (intro iput_keep) auto
  have d: "txok {} ?d" "lh ?d = []" "log_outstanding ?d = 1" "\<not> log_committing ?d" "trans_ok ?d"
    using B(2) assms(1) by (simp_all add: calm_def trans_ok_def) (simp_all add: upd_inode_def freed_def taken_def upd_slock_def awaken_def)
  obtain u where u: "end_op ?d = Ret () u" "opframe ?d u" using end_op_net[OF d(1,5) _ d(3,4)] d(2) by auto
  have f: "khw u = khw s" "initproc u = initproc s" "length (procs u) = length (procs s)" "cur u = cur s"
    using opframeD(1)[OF u(2)] opframe_initproc[OF u(2)] opframe_procs[OF u(2)]
    by (simp_all add: cur_def) (simp_all add: upd_inode_def freed_def taken_def upd_slock_def awaken_def)
  have "exit_files i s = Ret () (upd_proc i (\<lambda>p. p\<lparr>p_cwd := None\<rparr>) u)"
    using exit_no_files[OF assms(3)] B(1) ip u(1) assms(4) by (simp add: exit_files_def kdefs the_proc_def)
  then show ?thesis using f assms(2) by (intro exI[of _ "upd_proc i (\<lambda>p. p\<lparr>p_cwd := None\<rparr>) u"]) (simp add: running_def kdepth_def upd_proc_def)
qed

definition exiting0 :: "'z kfile_scheme \<Rightarrow> 'z kfile_scheme" where
  "exiting0 s = (upd_inode 0 (\<lambda>ip. ip\<lparr>i_ref := 2\<rparr>) s)\<lparr>initproc := Some 1, log_outstanding := 0, procs :=
     [proc0\<lparr>p_state := RUNNING, p_parent := Some 1, p_cwd := Some 0, p_ofile := replicate NOFILE None\<rparr>,
      proc0\<lparr>p_state := SLEEPING, p_chan := Some (ChanProc 1)\<rparr>] @ replicate 62 proc0\<rparr>"

lemma exiting0_bio: "nxt (exiting0 s) = nxt s" "prv (exiting0 s) = prv s" "dirties (exiting0 s) = dirties s" "buniq (exiting0 s) = buniq s"
  "bslot H (exiting0 s) i = bslot H s i" "cur (exiting0 s) = cur s"
  by (simp_all add: exiting0_def upd_inode_def nxt_def prv_def dirties_def fun_eq_iff buniq_def bslot_def cur_def)

theorem exit_hands_over_witness:
  "\<exists>s t. binit (kfile0 []) = Ret () s \<and> exit (exiting0 s) = Blocked t \<and> p_state (procs t ! 0) = ZOMBIE"
proof -
  obtain s where s: "binit (kfile0 []) = Ret () s" "txok {} s" "lframe (kfile0 []) s" "lh s = []" using binit_txok[of "kfile0 []"] by auto
  note L = lframeD[OF s(3)] lframe_more[OF s(3)]
  let ?s = "exiting0 s"
  have "bok {} s" using s(2) by (simp add: txok_def)
  then have b: "bok {} ?s" by (simp add: bok_def bc_inv_def exiting0_bio) (simp add: exiting0_def upd_inode_def)
  have c: "calm ?s" using s(2,4) b L by (simp add: calm_def txok_def exiting0_bio) (simp add: exiting0_def upd_inode_def)
  have h: "khw (kcons0 (\<lambda>_. [])) = idle_cpu (Some 0)"
    by (simp add: kcons0_def kfs.defs kfs0_def klog.defs klog0_def kbio.defs kbio0_def kslp.defs)
  have k: "khw ?s = idle_cpu (Some 0)" "length (procs ?s) = NPROC" "initproc ?s = Some 1" using L h by (simp_all add: exiting0_def upd_inode_def)
  then have r: "running 0 ?s" using idle_cpu_simps[of "Some 0"] by (simp add: running_def kdepth_def cur_def)
  have p: "p_ofile (procs ?s ! 0) = replicate NOFILE None" "p_cwd (procs ?s ! 0) = Some 0" "\<not> sl_locked (slocks ?s (SLinode 0))" "1 < i_ref (icache ?s 0)"
    using L by (simp_all add: exiting0_def upd_inode_def)
  obtain u where u: "exit_files 0 ?s = Ret () u" "running 0 u" "length (procs u) = length (procs ?s)" "initproc u = initproc ?s"
    using exit_files_net[OF c r p] by blast
  have n: "length (procs u) = NPROC" "initproc u = Some 1" "(0 :: nat) \<noteq> 1" using u(3,4) k(2,3) by simp_all
  show ?thesis using exit_hands_over[OF r k(3) n(3) u(1,2) n(1,2)] s(1) by blast
qed

end
