(* ===== verification/Exec.thy ===== *)
theory Exec
  imports Fork
begin

text \<open>
  Running a program (\<^verbatim>\<open>exec.c\<close>, \<^verbatim>\<open>elf.h\<close> and \<^verbatim>\<open>loaduvm\<close> of \<^verbatim>\<open>vm.c\<close>).  The jumps to \<^verbatim>\<open>bad\<close> are the result \<open>None\<close> of the part
  that fails.  Argument strings are lists of bytes without the terminating zero.
\<close>

unbundle bit_operations_syntax

abbreviation "MAXARG \<equiv> (32 :: nat)"
abbreviation "ELF_MAGIC \<equiv> (0x464C457F :: u32)"
abbreviation "ELF_PROG_LOAD \<equiv> (1 :: u32)"

record elfhdr =
  e_magic :: u32
  e_entry :: u32
  e_phoff :: u32
  e_phnum :: u16

definition elfhdr_of :: "byte list \<Rightarrow> elfhdr" where
  "elfhdr_of bs = \<lparr>e_magic = ld4 bs 0, e_entry = ld4 bs 24, e_phoff = ld4 bs 28, e_phnum = ld2 bs 44\<rparr>"

record proghdr =
  ph_type :: u32
  ph_off :: u32
  ph_vaddr :: u32
  ph_filesz :: u32
  ph_memsz :: u32

definition proghdr_of :: "byte list \<Rightarrow> proghdr" where
  "proghdr_of bs = \<lparr>ph_type = ld4 bs 0, ph_off = ld4 bs 4, ph_vaddr = ld4 bs 8, ph_filesz = ld4 bs 16, ph_memsz = ld4 bs 20\<rparr>"

section \<open>Loading\<close>

text \<open>The sizes \<^verbatim>\<open>exec\<close> passes to \<^verbatim>\<open>loaduvm\<close> are below \<open>KERNBASE\<close>, so the loop counter does not wrap.\<close>

definition loaduvm :: "nat \<Rightarrow> nat \<Rightarrow> nat \<Rightarrow> u32 \<Rightarrow> u32 \<Rightarrow> ('z kcons_scheme, int) K" where
  "loaduvm pgdir addr ip offset sz =
     (if addr mod PGSIZE \<noteq> 0 then kpanic ''loaduvm: addr must be page aligned''
      else
        kbind
          (kfor_ret (upto_pages 0 (unat sz)) (\<lambda>i.
             kbind (walkpgdir pgdir (addr + i) False) (\<lambda>pte.
             if pte = 0 then kpanic ''loaduvm: address should exist''
             else
               kbind (kget (\<lambda>s. PTE_ADDR (load4 (pmem s) pte))) (\<lambda>pa.
               let n = (if sz - of_nat i < of_nat PGSIZE then sz - of_nat i else of_nat PGSIZE) in
               kbind (readi ip (offset + of_nat i) n) (\<lambda>(r, bs).
               kthen (set_pmem (\<lambda>m. put_bytes m (P2V pa) bs))
                 (kret (if r \<noteq> int (unat n) then Some (-1) else None)))))))
          (\<lambda>r. kret (case r of None \<Rightarrow> 0 | Some x \<Rightarrow> x)))"

definition exec_seg :: "nat \<Rightarrow> nat \<Rightarrow> u32 \<Rightarrow> nat \<Rightarrow> ('z kcons_scheme, nat option) K" where
  "exec_seg pgdir ip off sz =
     kbind (readi ip off 32) (\<lambda>(r, bs).
     if r \<noteq> 32 then kret None
     else
       let ph = proghdr_of bs in
       if ph_type ph \<noteq> ELF_PROG_LOAD then kret (Some sz)
       else if ph_memsz ph < ph_filesz ph then kret None
       else if ph_vaddr ph + ph_memsz ph < ph_vaddr ph then kret None
       else
         kbind (allocuvm pgdir sz (unat (ph_vaddr ph + ph_memsz ph))) (\<lambda>sz'.
         if sz' = 0 then kret None
         else if unat (ph_vaddr ph) mod PGSIZE \<noteq> 0 then kret None
         else
           kbind (loaduvm pgdir (unat (ph_vaddr ph)) ip (ph_off ph) (ph_filesz ph)) (\<lambda>r.
           kret (if r < 0 then None else Some sz'))))"

primrec exec_load :: "nat \<Rightarrow> nat \<Rightarrow> nat \<Rightarrow> u32 \<Rightarrow> nat \<Rightarrow> ('z kcons_scheme, nat option) K" where
  "exec_load pgdir ip 0 off sz = kret (Some sz)"
| "exec_load pgdir ip (Suc k) off sz =
     kbind (exec_seg pgdir ip off sz) (\<lambda>r.
     case r of None \<Rightarrow> kret None | Some sz' \<Rightarrow> exec_load pgdir ip k (off + 32) sz')"

section \<open>The stack\<close>

primrec exec_args :: "nat \<Rightarrow> byte list list \<Rightarrow> u32 \<Rightarrow> u32 list \<Rightarrow> ('z kphys_scheme, (u32 \<times> u32 list) option) K" where
  "exec_args pgdir [] sp us = kret (Some (sp, us))"
| "exec_args pgdir (a # as) sp us =
     (if length us \<ge> MAXARG then kret None
      else
        let sp' = (sp - of_nat (length a + 1)) AND NOT 3 in
        kbind (copyout pgdir (unat sp') (a @ [0])) (\<lambda>r.
        if r < 0 then kret None else exec_args pgdir as sp' (us @ [sp'])))"

definition exec_stack :: "nat \<Rightarrow> byte list list \<Rightarrow> u32 \<Rightarrow> ('z kphys_scheme, u32 option) K" where
  "exec_stack pgdir argv sp =
     kbind (exec_args pgdir argv sp []) (\<lambda>r.
     case r of
       None \<Rightarrow> kret None
     | Some (sp, us) \<Rightarrow>
         let argc = of_nat (length us);
             ustack = [0xFFFFFFFF, argc, sp - (argc + 1) * 4] @ us @ [0];
             sp' = sp - (3 + argc + 1) * 4
         in kbind (copyout pgdir (unat sp') (concat (map le4 ustack))) (\<lambda>r.
            kret (if r < 0 then None else Some sp')))"

section \<open>exec\<close>

text \<open>\<^verbatim>\<open>last\<close>: what follows the last slash of the path.\<close>

fun path_last :: "byte list \<Rightarrow> byte list \<Rightarrow> byte list" where
  "path_last l [] = l"
| "path_last l (c # cs) = path_last (if c = SLASH then cs else l) cs"

definition exec_bad :: "nat \<Rightarrow> nat option \<Rightarrow> ('z kcons_scheme, int) K" where
  "exec_bad pgdir ip =
     kthen (kwhen (pgdir \<noteq> 0) (freevm pgdir)) (
     kthen (case ip of None \<Rightarrow> kret () | Some i \<Rightarrow> kthen (iunlockput i) end_op)
       (kret (-1)))"

definition exec_commit :: "nat option \<Rightarrow> byte list \<Rightarrow> nat \<Rightarrow> nat \<Rightarrow> u32 \<Rightarrow> u32 \<Rightarrow> ('z kcons_scheme, int) K" where
  "exec_commit me path pgdir sz entry sp =
     kderef me (\<lambda>i.
     kbind (the_proc i) (\<lambda>p.
     kthen (kmod (upd_proc i (\<lambda>p. p\<lparr>p_name := safe_name (p_name p) (path_last path path), p_pgdir := pgdir, p_sz := sz,
         p_tf := (p_tf p)\<lparr>tf_eip := entry, tf_esp := sp\<rparr>, p_priority := 2\<rparr>))) (
     kthen (switchuvm me) (
     kthen (freevm (p_pgdir p)) (kret 0)))))"

definition exec_image :: "nat option \<Rightarrow> byte list \<Rightarrow> byte list list \<Rightarrow> nat \<Rightarrow> nat \<Rightarrow> u32 \<Rightarrow> ('z kcons_scheme, int) K" where
  "exec_image me path argv pgdir sz entry =
     kbind (let a = PGROUNDUP sz in allocuvm pgdir a (a + 2 * PGSIZE)) (\<lambda>sz.
     if sz = 0 then exec_bad pgdir None
     else
       kthen (clearpteu pgdir (sz - 2 * PGSIZE)) (
       kbind (exec_stack pgdir argv (of_nat sz)) (\<lambda>r.
       case r of None \<Rightarrow> exec_bad pgdir None | Some sp \<Rightarrow> exec_commit me path pgdir sz entry sp)))"

definition exec :: "byte list \<Rightarrow> byte list list \<Rightarrow> ('z kcons_scheme, int) K" where
  "exec path argv =
     kbind myproc (\<lambda>cur.
     kthen begin_op (
     kbind (namei path) (\<lambda>r.
     case r of
       None \<Rightarrow> kthen end_op (kthen (cprintf (Some (bytes_of (''exec: fail'' @ [CHR 0x0A]))) []) (kret (-1)))
     | Some ip \<Rightarrow>
         kthen (ilock (Some ip)) (
         kbind (readi ip 0 52) (\<lambda>(n, bs).
         let elf = elfhdr_of bs in
         if n \<noteq> 52 then exec_bad 0 (Some ip)
         else if e_magic elf \<noteq> ELF_MAGIC then exec_bad 0 (Some ip)
         else
           kbind setupkvm (\<lambda>pgdir.
           if pgdir = 0 then exec_bad 0 (Some ip)
           else
             kbind (exec_load pgdir ip (unat (e_phnum elf)) (e_phoff elf) 0) (\<lambda>r.
             case r of
               None \<Rightarrow> exec_bad pgdir (Some ip)
             | Some sz \<Rightarrow>
                 kthen (iunlockput ip) (
                 kthen end_op (exec_image cur path argv pgdir sz (e_entry elf))))))))))"

section \<open>The layout of the stack\<close>

text \<open>The bytes at, and the word at, a user address.\<close>

definition ubytes :: "memory \<Rightarrow> nat \<Rightarrow> nat \<Rightarrow> byte list \<Rightarrow> bool" where
  "ubytes m d va bs \<longleftrightarrow> (\<forall>k<length bs. ubyte m d (va + k) = bs ! k)"

definition uword :: "memory \<Rightarrow> nat \<Rightarrow> nat \<Rightarrow> u32" where
  "uword m d va = ld4 (map (\<lambda>k. ubyte m d (va + k)) [0..<4]) 0"

lemma uword_ubytes:
  assumes "ubytes m d va (concat (map le4 ws))" "k < length ws"
  shows "uword m d (va + 4 * k) = ws ! k"
proof -
  have l: "length (concat (map le4 ws)) = 4 * length ws" by (rule length_le4s)
  have "map (\<lambda>j. ubyte m d (va + 4 * k + j)) [0..<4] = sub_bytes (concat (map le4 ws)) (4 * k) 4"
    using assms l by (intro nth_equalityI) (auto simp: ubytes_def nth_sub_bytes add.assoc)
  then have "uword m d (va + 4 * k) = ld4 (concat (map le4 ws)) (4 * k)" by (simp add: uword_def ld4_def sub_bytes_def)
  then show ?thesis using assms(2) by (simp add: ld4_le4s ld4_def)
qed

lemma align_down: "unat ((x :: u32) AND NOT 3) \<le> unat x \<and> unat x \<le> unat (x AND NOT 3) + 3"
proof -
  have "(x AND 3) + (x AND NOT 3) = (x AND 3) OR (x AND NOT 3)" by (rule disjunctive_add_eq_or) (auto simp: bit_eq_iff bit_simps)
  also have "\<dots> = x" by (rule bit_word_eqI) (auto simp: bit_simps)
  finally have s: "(x AND 3) + (x AND NOT 3) = x" .
  have le: "x AND NOT 3 \<le> x" "x AND 3 \<le> 3" by (rule word_and_le2) (rule word_and_le1)
  have "unat x \<le> unat (x AND 3) + unat (x AND NOT 3)" using unat_word_ariths(1)[of "x AND 3" "x AND NOT 3"] unfolding s by simp
  moreover have "unat (x AND 3) \<le> 3" using le(2) by (simp add: word_le_nat_alt)
  ultimately show ?thesis using le(1) by (simp add: word_le_nat_alt)
qed

lemma push_string:
  fixes sp :: u32
  assumes "l + 4 \<le> unat sp"
  defines "sp' \<equiv> (sp - of_nat (l + 1)) AND NOT 3"
  shows "unat sp' + l + 1 \<le> unat sp" "unat sp \<le> unat sp' + l + 4"
proof -
  have "unat sp < 4294967296" by (rule unat_u32_bound)
  then have "unat (of_nat (l + 1) :: u32) = l + 1" using assms(1) by (simp add: unat_of_nat del: of_nat_add of_nat_Suc)
  then have "unat (sp - of_nat (l + 1)) = unat sp - (l + 1)" using assms(1) by (subst unat_sub) (simp_all add: word_le_nat_alt)
  then show "unat sp' + l + 1 \<le> unat sp" "unat sp \<le> unat sp' + l + 4"
    using align_down[of "sp - of_nat (l + 1)"] assms(1) unfolding sp'_def by linarith+
qed

definition args_room :: "byte list list \<Rightarrow> nat" where
  "args_room argv = sum_list (map (\<lambda>a. length a + 4) argv)"

text \<open>The strings of \<open>argv\<close> are at the addresses \<open>ps\<close>, between \<open>lo\<close> and \<open>hi\<close>.\<close>

definition strings_at :: "memory \<Rightarrow> nat \<Rightarrow> nat \<Rightarrow> nat \<Rightarrow> byte list list \<Rightarrow> u32 list \<Rightarrow> bool" where
  "strings_at m d lo hi argv ps \<longleftrightarrow> length ps = length argv \<and>
     (\<forall>k<length argv. lo \<le> unat (ps ! k) \<and> unat (ps ! k) + length (argv ! k) + 1 \<le> hi \<and> ubytes m d (unat (ps ! k)) (argv ! k @ [0]))"

lemma strings_at_Cons:
  assumes "strings_at m d lo mid argv ps" "lo \<le> unat p" "mid \<le> hi" "unat p + length a + 1 \<le> hi" "ubytes m d (unat p) (a @ [0])"
  shows "strings_at m d lo hi (a # argv) (p # ps)"
  using assms unfolding strings_at_def by (auto simp: less_Suc_eq_0_disj intro: le_trans)

lemma exec_args_ok:
  assumes "user_wf N e (pmem s) d" "args_room argv \<le> unat sp" "length us + length argv \<le> MAXARG"
    "\<And>v. unat sp - args_room argv \<le> v \<Longrightarrow> v < unat sp \<Longrightarrow> v div PGSIZE \<in> N"
  shows "\<exists>m sp' ps. exec_args d argv sp us s = Ret (Some (sp', us @ ps)) (s\<lparr>pmem := m\<rparr>) \<and> user_wf N e m d
    \<and> unat sp' \<le> unat sp \<and> unat sp \<le> unat sp' + args_room argv \<and> strings_at m d (unat sp') (unat sp) argv ps
    \<and> (\<forall>v. v div PGSIZE \<in> N \<longrightarrow> unat sp \<le> v \<longrightarrow> ubyte m d v = ubyte (pmem s) d v)"
  using assms
proof (induction argv arbitrary: sp us s)
  case Nil
  then show ?case by (intro exI[of _ "pmem s"] exI[of _ sp] exI[of _ "[]"]) (simp add: strings_at_def args_room_def)
next
  case (Cons a as)
  define sp1 where "sp1 = (sp - of_nat (length a + 1)) AND NOT 3"
  have room: "args_room (a # as) = length a + 4 + args_room as" by (simp add: args_room_def)
  have p: "unat sp1 + length a + 1 \<le> unat sp" "unat sp \<le> unat sp1 + length a + 4"
    using push_string[of "length a" sp] Cons.prems(2) room unfolding sp1_def by linarith+
  have inN: "v div PGSIZE \<in> N" if "unat sp1 - args_room as \<le> v" "v < unat sp" for v using Cons.prems(4)[of v] that p room by linarith
  have sp32: "unat sp1 + length (a @ [0]) \<le> 2 ^ 32" using p(1) unat_u32_bound[of sp] by simp
  have cN: "v div PGSIZE \<in> N" if "unat sp1 \<le> v" "v < unat sp1 + length (a @ [0])" for v
    using that p(1) by (intro inN) simp_all
  obtain m1 where m1: "copyout d (unat sp1) (a @ [0]) s = Ret 0 (s\<lparr>pmem := m1\<rparr>)" "user_wf N e m1 d"
    "\<And>v. v div PGSIZE \<in> N \<Longrightarrow> ubyte m1 d v = (if unat sp1 \<le> v \<and> v < unat sp1 + length (a @ [0]) then (a @ [0]) ! (v - unat sp1) else ubyte (pmem s) d v)"
    using copyout_ok[OF Cons.prems(1) sp32] cN by blast
  have "args_room as \<le> unat sp1" using Cons.prems(2) p room by linarith
  then obtain m sp' ps where m: "exec_args d as sp1 (us @ [sp1]) (s\<lparr>pmem := m1\<rparr>) = Ret (Some (sp', (us @ [sp1]) @ ps)) (s\<lparr>pmem := m1\<rparr>\<lparr>pmem := m\<rparr>)" "user_wf N e m d"
    "unat sp' \<le> unat sp1" "unat sp1 \<le> unat sp' + args_room as" "strings_at m d (unat sp') (unat sp1) as ps"
    "\<And>v. v div PGSIZE \<in> N \<Longrightarrow> unat sp1 \<le> v \<Longrightarrow> ubyte m d v = ubyte m1 d v"
    using Cons.IH[of "s\<lparr>pmem := m1\<rparr>" sp1 "us @ [sp1]"] m1(2) Cons.prems(3) inN p(1) by auto
  have u: "ubytes m d (unat sp1) (a @ [0])"
    unfolding ubytes_def using m(6) m1(3) inN p(1) by auto
  have "exec_args d (a # as) sp us s = Ret (Some (sp', us @ sp1 # ps)) (s\<lparr>pmem := m\<rparr>)"
    using Cons.prems(3) m1(1) m(1) unfolding exec_args.simps Let_def sp1_def[symmetric] by (simp add: kdefs)
  moreover have "strings_at m d (unat sp') (unat sp) (a # as) (sp1 # ps)"
    using strings_at_Cons[OF m(5,3) _ _ u] p(1) by simp
  moreover have "\<forall>v. v div PGSIZE \<in> N \<longrightarrow> unat sp \<le> v \<longrightarrow> ubyte m d v = ubyte (pmem s) d v" using m(6) m1(3) p(1) by auto
  ultimately show ?case using m(2-4) p room by (intro exI[of _ m] exI[of _ sp'] exI[of _ "sp1 # ps"]) simp
qed

lemma strings_at_cong:
  "strings_at m d lo hi argv ps \<Longrightarrow> (\<And>v. lo \<le> v \<Longrightarrow> v < hi \<Longrightarrow> ubyte m' d v = ubyte m d v) \<Longrightarrow> strings_at m' d lo hi argv ps"
  unfolding strings_at_def ubytes_def by auto

text \<open>
  C6: The stack \<^verbatim>\<open>exec\<close> builds is the one \<^verbatim>\<open>main(argc, argv)\<close> expects.  With the pages below \<open>sp\<close> mapped and room for the arguments (at most
  \<open>MAXARG\<close> of them), \<open>exec_stack\<close> returns the new stack pointer.  There the stack holds the fake return address, \<^verbatim>\<open>argc\<close>, the address of the
  argument vector that follows, the vector itself and its null pointer; entry \<open>k\<close> of the vector points to a copy of argument \<open>k\<close> with its
  terminating zero, which lies between the vector and the old stack pointer.  Nothing at or above the old stack pointer changes.
\<close>

theorem exec_stack_layout:
  assumes "user_wf N e (pmem s) d" "args_room argv + 4 * (4 + length argv) \<le> unat sp" "length argv \<le> MAXARG"
    "\<forall>v. unat sp - (args_room argv + 4 * (4 + length argv)) \<le> v \<and> v < unat sp \<longrightarrow> v div PGSIZE \<in> N"
  shows "\<exists>m sp' ps. exec_stack d argv sp s = Ret (Some sp') (s\<lparr>pmem := m\<rparr>) \<and> user_wf N e m d
    \<and> uword m d (unat sp') = 0xFFFFFFFF \<and> uword m d (unat sp' + 4) = of_nat (length argv) \<and> uword m d (unat sp' + 8) = sp' + 12
    \<and> (\<forall>k<length argv. uword m d (unat sp' + 12 + 4 * k) = ps ! k) \<and> uword m d (unat sp' + 12 + 4 * length argv) = 0
    \<and> strings_at m d (unat sp' + 4 * (4 + length argv)) (unat sp) argv ps
    \<and> (\<forall>v. v div PGSIZE \<in> N \<longrightarrow> unat sp \<le> v \<longrightarrow> ubyte m d v = ubyte (pmem s) d v)"
proof -
  let ?n = "length argv"
  have N: "v div PGSIZE \<in> N" if "unat sp - args_room argv \<le> v" "v < unat sp" for v using assms(4) that by simp
  obtain m1 sp1 ps where m1: "exec_args d argv sp [] s = Ret (Some (sp1, ps)) (s\<lparr>pmem := m1\<rparr>)" "user_wf N e m1 d" "unat sp1 \<le> unat sp"
    "unat sp \<le> unat sp1 + args_room argv" "strings_at m1 d (unat sp1) (unat sp) argv ps"
    "\<And>v. v div PGSIZE \<in> N \<Longrightarrow> unat sp \<le> v \<Longrightarrow> ubyte m1 d v = ubyte (pmem s) d v"
    using exec_args_ok[OF assms(1), of argv sp "[]"] N assms(2,3) by auto
  have l: "length ps = ?n" using m1(5) by (simp add: strings_at_def)
  define sp' where "sp' = sp1 - (3 + of_nat ?n + 1) * 4"
  have "unat ((3 + of_nat ?n + 1) * 4 :: u32) = 4 * (4 + ?n)"
  proof -
    have "(3 + of_nat ?n + 1) * 4 = (of_nat (4 * (4 + ?n)) :: u32)" by (simp add: algebra_simps)
    then show ?thesis using assms(3) by (simp add: unat_of_nat del: of_nat_add of_nat_mult)
  qed
  then have sp': "unat sp' + 4 * (4 + ?n) = unat sp1" using assms(2) m1(4) unfolding sp'_def by (subst unat_sub) (simp_all add: word_le_nat_alt)
  define us where "us = [0xFFFFFFFF, of_nat ?n, sp1 - (of_nat ?n + 1) * 4] @ ps @ [0]"
  have us: "length (concat (map le4 us)) = 4 * (4 + ?n)" using l by (simp add: us_def)
  have "unat sp1 < 2 ^ 32" using unat_u32_bound[of sp1] by simp
  then have s32: "unat sp' + length (concat (map le4 us)) \<le> 2 ^ 32" using sp' us by linarith
  have cN: "v div PGSIZE \<in> N" if "unat sp' \<le> v" "v < unat sp' + length (concat (map le4 us))" for v
    using that us sp' m1(3,4) by (intro assms(4)[rule_format]) linarith
  obtain m where m: "copyout d (unat sp') (concat (map le4 us)) (s\<lparr>pmem := m1\<rparr>) = Ret 0 (s\<lparr>pmem := m\<rparr>)" "user_wf N e m d"
    "\<And>v. v div PGSIZE \<in> N \<Longrightarrow> ubyte m d v = (if unat sp' \<le> v \<and> v < unat sp' + length (concat (map le4 us))
       then concat (map le4 us) ! (v - unat sp') else ubyte m1 d v)"
  proof -
    have p: "pmem (s\<lparr>pmem := m1\<rparr>) = m1" and q: "(s\<lparr>pmem := m1\<rparr>)\<lparr>pmem := x\<rparr> = s\<lparr>pmem := x\<rparr>" for x by simp_all
    show thesis using copyout_ok[of N e "s\<lparr>pmem := m1\<rparr>" d, unfolded p q, OF m1(2) s32 cN] that by blast
  qed
  have r: "exec_stack d argv sp s = Ret (Some sp') (s\<lparr>pmem := m\<rparr>)"
    using m1(1) m(1) l unfolding exec_stack_def us_def sp'_def by (simp add: kdefs Let_def)
  have "ubytes m d (unat sp') (concat (map le4 us))" unfolding ubytes_def using m(3) cN by auto
  note w = uword_ubytes[OF this]
  have w3: "uword m d (unat sp' + 12 + 4 * k) = us ! (3 + k)" if "k \<le> ?n" for k using w[of "3 + k"] that l by (simp add: us_def add.assoc)
  have "uword m d (unat sp') = 0xFFFFFFFF" "uword m d (unat sp' + 4) = of_nat ?n" using w[of 0] w[of 1] by (simp_all add: us_def)
  moreover have "uword m d (unat sp' + 8) = sp' + 12" using w[of 2] by (simp add: us_def sp'_def algebra_simps)
  moreover have "\<forall>k<?n. uword m d (unat sp' + 12 + 4 * k) = ps ! k" "uword m d (unat sp' + 12 + 4 * ?n) = 0"
    using w3 l by (simp_all add: us_def nth_append)
  moreover have "strings_at m d (unat sp' + 4 * (4 + ?n)) (unat sp) argv ps"
    unfolding sp'
  proof (rule strings_at_cong[OF m1(5)])
    show "ubyte m d v = ubyte m1 d v" if "unat sp1 \<le> v" "v < unat sp" for v
      using m(3)[of v] N[of v] that m1(4) us sp' by auto
  qed
  moreover have "\<forall>v. v div PGSIZE \<in> N \<longrightarrow> unat sp \<le> v \<longrightarrow> ubyte m d v = ubyte (pmem s) d v"
    using m1(3,6) m(3) us sp' by auto
  ultimately show ?thesis using r m(2) by blast
qed

theorem exec_stack_layout_witness:
  "\<exists>m sp' ps. exec_stack dir0 [[97, 98], [99]] 4096 (vm0\<lparr>pmem := user0\<rparr>) = Ret (Some sp') (vm0\<lparr>pmem := m\<rparr>)
    \<and> uword m dir0 (unat sp' + 4) = 2 \<and> strings_at m dir0 (unat sp' + 24) 4096 [[97, 98], [99]] ps"
proof -
  have "args_room [[97, 98], [99]] = 11" by (simp add: args_room_def)
  then have a: "args_room [[97, 98], [99]] + 4 * (4 + length [[97, 98 :: byte], [99]]) = 35" by simp
  have "\<forall>v. unat (4096 :: u32) - (args_room [[97, 98], [99]] + 4 * (4 + length [[97, 98 :: byte], [99]])) \<le> v \<and> v < unat (4096 :: u32) \<longrightarrow> v div PGSIZE \<in> {0 :: nat}"
    by simp
  then show ?thesis
    using exec_stack_layout[of "{0}" "kend phys0" "vm0\<lparr>pmem := user0\<rparr>" dir0 "[[97, 98], [99]]" 4096] user0_wf unfolding a by simp blast
qed

end
