(* ===== verification/Sysproc.thy ===== *)
theory Sysproc
  imports Exec
begin

text \<open>
  The system calls on processes (\<^verbatim>\<open>sysproc.c\<close>).  A system call returns the \<^verbatim>\<open>int\<close> the code returns; \<open>with_arg\<close> is the test
  \<^verbatim>\<open>if(argint(n, &x) < 0) return -1\<close> that opens most of them.
\<close>

definition with_arg :: "('z kpr_scheme, 'a option) K \<Rightarrow> ('a \<Rightarrow> ('z kpr_scheme, int) K) \<Rightarrow> ('z kpr_scheme, int) K" where
  "with_arg arg f = kbind arg (\<lambda>r. case r of None \<Rightarrow> kret (-1) | Some x \<Rightarrow> f x)"

definition sys_fork :: "('z kfork_scheme, int) K" where
  "sys_fork = fork"

definition sys_exit :: "('z kfork_scheme, int) K" where
  "sys_exit = kthen exit (kret 0)"

definition sys_wait :: "('z kfork_scheme, int) K" where
  "sys_wait = wait"

definition sys_kill :: "('z kfork_scheme, int) K" where
  "sys_kill = with_arg (argint 0) (\<lambda>pid. kill (sint pid))"

definition sys_getpid :: "('z kfork_scheme, int) K" where
  "sys_getpid = kbind curproc (\<lambda>p. kret (p_pid p))"

definition sys_sbrk :: "('z kfork_scheme, int) K" where
  "sys_sbrk =
     with_arg (argint 0) (\<lambda>n.
     kbind curproc (\<lambda>p.
     kbind (growproc (sint n)) (\<lambda>r.
     if r < 0 then kret (-1) else kret (int (p_sz p)))))"

text \<open>
  The test of the loop is \<^verbatim>\<open>ticks - ticks0 < n\<close> between an unsigned and a signed number, so \<^verbatim>\<open>n\<close> is taken as unsigned.  The
  value after \<open>sleep\<close> is never used: that run ends in \<open>Blocked\<close> and goes on with \<open>sys_sleep_resume\<close>.
\<close>

definition sys_sleep_loop :: "u32 \<Rightarrow> u32 \<Rightarrow> ('z kfork_scheme, int) K" where
  "sys_sleep_loop ticks0 n =
     kbind (kget ticks) (\<lambda>now.
     if now - ticks0 < n then
       kbind my_killed (\<lambda>k.
       if k then kthen (krelease Ltick) (kret (-1))
       else kthen (sleep (Some ChanTicks) (Some Ltick)) (kret 0))
     else kthen (krelease Ltick) (kret 0))"

definition sys_sleep :: "('z kfork_scheme, int) K" where
  "sys_sleep =
     with_arg (argint 0) (\<lambda>n.
     kthen (kacquire Ltick) (
     kbind (kget ticks) (\<lambda>ticks0. sys_sleep_loop ticks0 n)))"

definition sys_sleep_resume :: "bool \<Rightarrow> nat \<Rightarrow> u32 \<Rightarrow> u32 \<Rightarrow> ('z kfork_scheme, int) K" where
  "sys_sleep_resume ie i ticks0 n = kthen (sleep_resume ie i Ltick) (sys_sleep_loop ticks0 n)"

definition sys_uptime :: "('z kfork_scheme, int) K" where
  "sys_uptime =
     kthen (kacquire Ltick) (
     kbind (kget ticks) (\<lambda>xticks.
     kthen (krelease Ltick) (kret (sint xticks))))"

definition sys_cps :: "('z kfork_scheme, int) K" where
  "sys_cps = cps"

definition sys_nps :: "('z kfork_scheme, int) K" where
  "sys_nps = nps"

definition sys_chpr :: "('z kfork_scheme, int) K" where
  "sys_chpr = with_arg (argint 0) (\<lambda>pid. with_arg (argint 1) (\<lambda>pr. chpr (sint pid) (sint pr)))"

definition sys_getuid :: "('z kfork_scheme, int) K" where
  "sys_getuid = kbind getuid (\<lambda>u. kret (sint u))"

definition sys_getgid :: "('z kfork_scheme, int) K" where
  "sys_getgid = kbind getgid (\<lambda>g. kret (sint g))"

definition sys_getppid :: "('z kfork_scheme, int) K" where
  "sys_getppid = getppid"

definition sys_setuid :: "('z kfork_scheme, int) K" where
  "sys_setuid = with_arg (argint 0) setuid"

definition sys_setgid :: "('z kfork_scheme, int) K" where
  "sys_setgid = with_arg (argint 0) setgid"

definition rtcdate_bytes :: "rtcdate \<Rightarrow> byte list" where
  "rtcdate_bytes r = concat (map le4 [second r, minute r, hour r, day r, month r, year r])"

definition sys_date :: "('z kfork_scheme, int) K" where
  "sys_date =
     with_arg (argptr 0 24) (\<lambda>d.
     kbind cmostime (\<lambda>r.
     kthen (ustores (unat d) (rtcdate_bytes r)) (kret 0)))"

definition sys_suid :: "('z kfork_scheme, int) K" where
  "sys_suid = with_arg (argint 0) suid"

definition sys_sgid :: "('z kfork_scheme, int) K" where
  "sys_sgid = with_arg (argint 0) sgid"

end
