(* ===== verification/Sysfile.thy ===== *)
theory Sysfile
  imports Sysproc
begin

text \<open>
  The system calls on files (\<^verbatim>\<open>sysfile.c\<close>).  A path argument is the list of bytes \<^verbatim>\<open>argstr\<close> has found before the zero; the bytes
  \<^verbatim>\<open>fileread\<close> and \<^verbatim>\<open>filestat\<close> store through the user's pointer are stored here, and the bytes \<^verbatim>\<open>filewrite\<close> takes from it are loaded here,
  from the block \<^verbatim>\<open>argptr\<close> has checked.
\<close>

abbreviation "O_RDONLY \<equiv> (0 :: u32)"
abbreviation "O_WRONLY \<equiv> (1 :: u32)"
abbreviation "O_RDWR \<equiv> (2 :: u32)"
abbreviation "O_CREATE \<equiv> (0x200 :: u32)"

section \<open>File descriptors\<close>

text \<open>The descriptor and the file it names.\<close>

definition argfd :: "nat \<Rightarrow> ('z kpr_scheme, (nat \<times> nat) option) K" where
  "argfd n =
     kbind (argint n) (\<lambda>r.
     case r of
       None \<Rightarrow> kret None
     | Some w \<Rightarrow>
         let fd = sint w in
         if fd < 0 \<or> fd \<ge> int NOFILE then kret None
         else
           kbind curproc (\<lambda>p.
           kret (case p_ofile p ! nat fd of None \<Rightarrow> None | Some f \<Rightarrow> Some (nat fd, f))))"

definition set_ofile :: "nat \<Rightarrow> nat \<Rightarrow> nat option \<Rightarrow> 'z kpr_scheme \<Rightarrow> 'z kpr_scheme" where
  "set_ofile i fd f = upd_proc i (\<lambda>p. p\<lparr>p_ofile := (p_ofile p)[fd := f]\<rparr>)"

definition fdalloc :: "nat \<Rightarrow> ('z kpr_scheme, nat option) K" where
  "fdalloc f =
     kbind myproc (\<lambda>c. kderef c (\<lambda>i.
     kbind (the_proc i) (\<lambda>p.
     case find_idx (\<lambda>x. x = None) (p_ofile p) of
       None \<Rightarrow> kret None
     | Some fd \<Rightarrow> kthen (kmod (set_ofile i fd (Some f))) (kret (Some fd)))))"

definition sys_dup :: "('z kfork_scheme, int) K" where
  "sys_dup =
     with_arg (argfd 0) (\<lambda>(_, f).
     with_arg (fdalloc f) (\<lambda>fd.
     kbind (filedup f) (\<lambda>_. kret (int fd))))"

definition sys_read :: "('z kfork_scheme, int) K" where
  "sys_read =
     with_arg (argfd 0) (\<lambda>(_, f).
     with_arg (argint 2) (\<lambda>n.
     with_arg (argptr 1 (sint n)) (\<lambda>p.
     kbind (fileread f (sint n)) (\<lambda>(r, bs).
     kthen (ustores (unat p) bs) (kret r)))))"

definition sys_write :: "('z kfork_scheme, int) K" where
  "sys_write =
     with_arg (argfd 0) (\<lambda>(_, f).
     with_arg (argint 2) (\<lambda>n.
     with_arg (argptr 1 (sint n)) (\<lambda>p.
     kbind (uloads (unat p) (nat (sint n))) (\<lambda>src. filewrite f src (sint n)))))"

definition sys_close :: "('z kfork_scheme, int) K" where
  "sys_close =
     with_arg (argfd 0) (\<lambda>(fd, f).
     kbind myproc (\<lambda>c. kderef c (\<lambda>i.
     kthen (kmod (set_ofile i fd None)) (
     kthen (fileclose f) (kret 0)))))"

text \<open>The layout of \<^verbatim>\<open>struct stat\<close>; the padding keeps the bytes \<open>bs\<close> it had.\<close>

definition stat_of :: "byte list \<Rightarrow> stat" where
  "stat_of bs = \<lparr>st_type = ld2 bs 0, st_dev = ld4 bs 4, st_ino = ld4 bs 8, st_nlink = ld2 bs 12, st_size = ld4 bs 16,
     st_uid = ld4 bs 20, st_gid = ld4 bs 24, st_mode = ld4 bs 28\<rparr>"

definition put_stat :: "stat \<Rightarrow> byte list \<Rightarrow> byte list" where
  "put_stat st bs =
     st4 (st4 (st4 (st4 (st2 (st4 (st4 (st2 bs 0 (st_type st)) 4 (st_dev st)) 8 (st_ino st)) 12 (st_nlink st)) 16 (st_size st))
       20 (st_uid st)) 24 (st_gid st)) 28 (st_mode st)"

definition sys_fstat :: "('z kfork_scheme, int) K" where
  "sys_fstat =
     with_arg (argfd 0) (\<lambda>(_, f).
     with_arg (argptr 1 32) (\<lambda>p.
     kbind (uloads (unat p) 32) (\<lambda>bs.
     kbind (filestat f (stat_of bs)) (\<lambda>(r, st).
     kthen (kwhen (r = 0) (ustores (unat p) (put_stat st bs))) (kret r)))))"

section \<open>Links\<close>

definition upd_nlink :: "nat \<Rightarrow> u16 \<Rightarrow> ('z kfs_scheme, unit) K" where
  "upd_nlink ip d = kthen (kmod (upd_inode ip (\<lambda>i. i\<lparr>i_nlink := i_nlink i + d\<rparr>))) (iupdate ip)"

definition link_bad :: "nat \<Rightarrow> ('z kcons_scheme, int) K" where
  "link_bad ip =
     kthen (ilock (Some ip)) (
     kthen (upd_nlink ip (-1)) (
     kthen (iunlockput ip) (
     kthen end_op (kret (-1)))))"

definition sys_link :: "('z kfork_scheme, int) K" where
  "sys_link =
     with_arg (argstr 0) (\<lambda>old.
     with_arg (argstr 1) (\<lambda>new.
     kthen begin_op (
     kbind (namei old) (\<lambda>r.
     case r of
       None \<Rightarrow> kthen end_op (kret (-1))
     | Some ip \<Rightarrow>
         kthen (ilock (Some ip)) (
         kbind (the_inode ip) (\<lambda>i.
         if i_type i = T_DIR then kthen (iunlockput ip) (kthen end_op (kret (-1)))
         else
           kthen (upd_nlink ip 1) (
           kthen (iunlock (Some ip)) (
           kbind (nameiparent new) (\<lambda>q.
           case q of
             None \<Rightarrow> link_bad ip
           | Some (dp, name) \<Rightarrow>
               kthen (ilock (Some dp)) (
               kbind (the_inode dp) (\<lambda>d.
               kbind (the_inode ip) (\<lambda>i.
               kbind (if i_dev d \<noteq> i_dev i then kret (-1) else dirlink dp name (i_inum i)) (\<lambda>w.
               if w < 0 then kthen (iunlockput dp) (link_bad ip)
               else
                 kthen (iunlockput dp) (
                 kthen (iput ip) (
                 kthen end_op (kret 0))))))))))))))))"

definition isdirempty :: "nat \<Rightarrow> ('z kcons_scheme, bool) K" where
  "isdirempty dp =
     kbind (the_inode dp) (\<lambda>d.
     kbind
       (kfor_ret (drop 2 (dir_offs (i_size d))) (\<lambda>off.
          kbind (readi dp (of_nat off) (of_nat DIRENT_SIZE)) (\<lambda>(r, bs).
          if r \<noteq> int DIRENT_SIZE then kpanic ''isdirempty: readi''
          else if de_inum (dirent_of bs) \<noteq> 0 then kret (Some False)
          else kret None)))
       (\<lambda>r. kret (case r of None \<Rightarrow> True | Some b \<Rightarrow> b)))"

definition unlink_bad :: "nat \<Rightarrow> ('z kcons_scheme, int) K" where
  "unlink_bad dp = kthen (iunlockput dp) (kthen end_op (kret (-1)))"

definition unlink_entry :: "nat \<Rightarrow> nat \<Rightarrow> nat \<Rightarrow> ('z kcons_scheme, int) K" where
  "unlink_entry dp ip off =
     kbind (writei dp (replicate DIRENT_SIZE 0) (of_nat off) (of_nat DIRENT_SIZE)) (\<lambda>w.
     if w \<noteq> int DIRENT_SIZE then kpanic ''unlink: writei''
     else
       kbind (the_inode ip) (\<lambda>i.
       kthen (kwhen (i_type i = T_DIR) (upd_nlink dp (-1))) (
       kthen (iunlockput dp) (
       kthen (upd_nlink ip (-1)) (
       kthen (iunlockput ip) (
       kthen end_op (kret 0)))))))"

definition sys_unlink :: "('z kfork_scheme, int) K" where
  "sys_unlink =
     with_arg (argstr 0) (\<lambda>path.
     kthen begin_op (
     kbind (nameiparent path) (\<lambda>r.
     case r of
       None \<Rightarrow> kthen end_op (kret (-1))
     | Some (dp, name) \<Rightarrow>
         kthen (ilock (Some dp)) (
         if namecmp name (bytes_of ''.'') = 0 \<or> namecmp name (bytes_of ''..'') = 0 then unlink_bad dp
         else
           kbind (dirlookup dp name) (\<lambda>e.
           case e of
             None \<Rightarrow> unlink_bad dp
           | Some (ip, off) \<Rightarrow>
               kthen (ilock (Some ip)) (
               kbind (the_inode ip) (\<lambda>i.
               if sint (i_nlink i) < 1 then kpanic ''unlink: nlink < 1''
               else
                 kbind (if i_type i = T_DIR then isdirempty ip else kret True) (\<lambda>ok.
                 if \<not> ok then kthen (iunlockput ip) (unlink_bad dp)
                 else unlink_entry dp ip off))))))))"

section \<open>Creating\<close>

definition create_new :: "nat \<Rightarrow> byte list \<Rightarrow> u16 \<Rightarrow> u16 \<Rightarrow> u16 \<Rightarrow> ('z kcons_scheme, nat option) K" where
  "create_new dp name type mjr mnr =
     kbind (the_inode dp) (\<lambda>d.
     kbind (ialloc (i_dev d) type) (\<lambda>ip.
     kthen (ilock (Some ip)) (
     kthen (kmod (upd_inode ip (\<lambda>i. i\<lparr>i_major := mjr, i_minor := mnr, i_nlink := 1\<rparr>))) (
     kthen (iupdate ip) (
     kbind (the_inode ip) (\<lambda>i.
     kthen (kwhen (type = T_DIR)
         (kthen (upd_nlink dp 1)
           (kbind (dirlink ip (bytes_of ''.'') (i_inum i)) (\<lambda>a.
            if a < 0 then kpanic ''create dots''
            else
              kbind (dirlink ip (bytes_of ''..'') (i_inum d)) (\<lambda>b.
              if b < 0 then kpanic ''create dots'' else kret ()))))) (
     kbind (dirlink dp name (i_inum i)) (\<lambda>w.
     if w < 0 then kpanic ''create: dirlink''
     else kthen (iunlockput dp) (kret (Some ip))))))))))"

definition create :: "byte list \<Rightarrow> u16 \<Rightarrow> u16 \<Rightarrow> u16 \<Rightarrow> ('z kcons_scheme, nat option) K" where
  "create path type mjr mnr =
     kbind (nameiparent path) (\<lambda>r.
     case r of
       None \<Rightarrow> kret None
     | Some (dp, name) \<Rightarrow>
         kthen (ilock (Some dp)) (
         kbind (dirlookup dp name) (\<lambda>e.
         case e of
           Some (ip, _) \<Rightarrow>
             kthen (iunlockput dp) (
             kthen (ilock (Some ip)) (
             kbind (the_inode ip) (\<lambda>i.
             if type = T_FILE \<and> i_type i = T_FILE then kret (Some ip)
             else kthen (iunlockput ip) (kret None))))
         | None \<Rightarrow> create_new dp name type mjr mnr)))"

text \<open>The locked inode to open, unless the call fails (its transaction is then over).\<close>

definition open_inode :: "byte list \<Rightarrow> u32 \<Rightarrow> ('z kcons_scheme, nat option) K" where
  "open_inode path omode =
     (if omode AND O_CREATE \<noteq> 0 then
        kbind (create path T_FILE 0 0) (\<lambda>r.
        case r of None \<Rightarrow> kthen end_op (kret None) | Some ip \<Rightarrow> kret (Some ip))
      else
        kbind (namei path) (\<lambda>r.
        case r of
          None \<Rightarrow> kthen end_op (kret None)
        | Some ip \<Rightarrow>
            kthen (ilock (Some ip)) (
            kbind (the_inode ip) (\<lambda>i.
            if i_type i = T_DIR \<and> omode \<noteq> O_RDONLY
            then kthen (iunlockput ip) (kthen end_op (kret None))
            else kret (Some ip)))))"

definition sys_open :: "('z kfork_scheme, int) K" where
  "sys_open =
     with_arg (argstr 0) (\<lambda>path.
     with_arg (argint 1) (\<lambda>omode.
     kthen begin_op (
     kbind (open_inode path omode) (\<lambda>r.
     case r of
       None \<Rightarrow> kret (-1)
     | Some ip \<Rightarrow>
         kbind filealloc (\<lambda>f.
         kbind (case f of None \<Rightarrow> kret None | Some f' \<Rightarrow> fdalloc f') (\<lambda>fd.
         case (f, fd) of
           (Some f', Some d) \<Rightarrow>
             kthen (iunlock (Some ip)) (
             kthen end_op (
             kthen (kmod (upd_file f' (\<lambda>x. x\<lparr>f_type := FD_INODE, f_ip := Some ip, f_off := 0,
                 f_readable := (omode AND O_WRONLY = 0), f_writable := (omode AND O_WRONLY \<noteq> 0 \<or> omode AND O_RDWR \<noteq> 0)\<rparr>)))
               (kret (int d))))
         | _ \<Rightarrow>
             kthen (case f of None \<Rightarrow> kret () | Some f' \<Rightarrow> fileclose f') (
             kthen (iunlockput ip) (
             kthen end_op (kret (-1))))))))))"

definition made :: "nat option \<Rightarrow> ('z kcons_scheme, int) K" where
  "made r =
     (case r of
        None \<Rightarrow> kthen end_op (kret (-1))
      | Some ip \<Rightarrow> kthen (iunlockput ip) (kthen end_op (kret 0)))"

definition sys_mkdir :: "('z kfork_scheme, int) K" where
  "sys_mkdir =
     kthen begin_op (
     kbind (argstr 0) (\<lambda>a.
     kbind (case a of None \<Rightarrow> kret None | Some path \<Rightarrow> create path T_DIR 0 0) made))"

definition sys_mknod :: "('z kfork_scheme, int) K" where
  "sys_mknod =
     kthen begin_op (
     kbind (argstr 0) (\<lambda>a. case a of None \<Rightarrow> made None | Some path \<Rightarrow>
     kbind (argint 1) (\<lambda>b. case b of None \<Rightarrow> made None | Some mjr \<Rightarrow>
     kbind (argint 2) (\<lambda>c. case c of None \<Rightarrow> made None | Some mnr \<Rightarrow>
     kbind (create path T_DEV (ucast mjr) (ucast mnr)) made))))"

definition sys_chdir :: "('z kfork_scheme, int) K" where
  "sys_chdir =
     kbind myproc (\<lambda>c.
     kthen begin_op (
     kbind (argstr 0) (\<lambda>a.
     kbind (case a of None \<Rightarrow> kret None | Some path \<Rightarrow> namei path) (\<lambda>r.
     case r of
       None \<Rightarrow> kthen end_op (kret (-1))
     | Some ip \<Rightarrow>
         kthen (ilock (Some ip)) (
         kbind (the_inode ip) (\<lambda>i.
         if i_type i \<noteq> T_DIR then kthen (iunlockput ip) (kthen end_op (kret (-1)))
         else
           kthen (iunlock (Some ip)) (
           kderef c (\<lambda>me.
           kbind (the_proc me) (\<lambda>p.
           kthen (kderef (p_cwd p) iput) (
           kthen end_op (
           kthen (kmod (upd_proc me (\<lambda>p. p\<lparr>p_cwd := Some ip\<rparr>))) (kret 0))))))))))))"

section \<open>Programs and pipes\<close>

primrec fetch_argv :: "u32 \<Rightarrow> nat \<Rightarrow> byte list list \<Rightarrow> ('z kpr_scheme, byte list list option) K" where
  "fetch_argv uargv 0 acc = kret None"
| "fetch_argv uargv (Suc n) acc =
     kbind (fetchint (uargv + 4 * of_nat (length acc))) (\<lambda>r.
     case r of
       None \<Rightarrow> kret None
     | Some uarg \<Rightarrow>
         if uarg = 0 then kret (Some acc)
         else
           kbind (fetchstr uarg) (\<lambda>a.
           case a of None \<Rightarrow> kret None | Some bs \<Rightarrow> fetch_argv uargv n (acc @ [bs])))"

definition sys_exec :: "('z kfork_scheme, int) K" where
  "sys_exec =
     with_arg (argstr 0) (\<lambda>path.
     with_arg (argint 1) (\<lambda>uargv.
     with_arg (fetch_argv uargv MAXARG []) (\<lambda>argv. exec path argv)))"

definition sys_pipe :: "('z kfork_scheme, int) K" where
  "sys_pipe =
     with_arg (argptr 0 8) (\<lambda>p.
     with_arg pipealloc (\<lambda>(rf, wf).
     kbind (fdalloc rf) (\<lambda>fd0.
     kbind (case fd0 of None \<Rightarrow> kret None | Some _ \<Rightarrow> fdalloc wf) (\<lambda>fd1.
     case (fd0, fd1) of
       (Some a, Some b) \<Rightarrow> kthen (ustores (unat p) (le4 (of_nat a) @ le4 (of_nat b))) (kret 0)
     | _ \<Rightarrow>
         kthen (case fd0 of None \<Rightarrow> kret () | Some a \<Rightarrow> kbind myproc (\<lambda>c. kderef c (\<lambda>i. kmod (set_ofile i a None)))) (
         kthen (fileclose rf) (
         kthen (fileclose wf) (kret (-1))))))))"

section \<open>File protection\<close>

text \<open>The three calls do not look at their arguments.\<close>

definition sys_chmod :: "('z kfork_scheme, int) K" where
  "sys_chmod = chmod (bytes_of ''./example.txt'') 42"

definition sys_chown :: "('z kfork_scheme, int) K" where
  "sys_chown = chown (bytes_of ''./example.txt'') 43"

definition sys_chgrp :: "('z kfork_scheme, int) K" where
  "sys_chgrp = chgrp (bytes_of ''./example.txt'') 44"

end
