(* ===== verification/Syscall.thy ===== *)
theory Syscall
  imports Sysfile
begin

text \<open>
  Entering the kernel: the dispatch of system calls (\<^verbatim>\<open>syscall.c\<close> from the table on) and traps (\<^verbatim>\<open>trap.c\<close>, and the gates of \<^verbatim>\<open>mmu.h\<close>).  The
  addresses of the trap entries, which the build generates as \<^verbatim>\<open>vectors.S\<close>, are a parameter of \<open>tvinit\<close>.  The kernel of this model
  has the disk in memory, so the disk interrupt runs the handler of \<^verbatim>\<open>memide.c\<close>.
\<close>

section \<open>System calls\<close>

definition syscalls :: "('z kfork_scheme, int) K option list" where
  "syscalls =
     [None, Some sys_fork, Some sys_exit, Some sys_wait, Some sys_pipe, Some sys_read, Some sys_kill, Some sys_exec, Some sys_fstat,
      Some sys_chdir, Some sys_dup, Some sys_getpid, Some sys_sbrk, Some sys_sleep, Some sys_uptime, Some sys_open, Some sys_write,
      Some sys_mknod, Some sys_unlink, Some sys_link, Some sys_mkdir, Some sys_close, Some sys_cps, Some sys_nps, Some sys_chpr,
      Some sys_date, Some sys_getuid, Some sys_getgid, Some sys_getppid, Some sys_setuid, Some sys_setgid, Some sys_suid,
      Some sys_sgid, Some sys_chmod, Some sys_chown, Some sys_chgrp]"

definition set_eax :: "nat \<Rightarrow> int \<Rightarrow> 'z kpr_scheme \<Rightarrow> 'z kpr_scheme" where
  "set_eax i r = upd_proc i (\<lambda>p. p\<lparr>p_tf := (p_tf p)\<lparr>tf_eax := of_int r\<rparr>\<rparr>)"

definition syscall :: "('z kfork_scheme, unit) K" where
  "syscall =
     kbind myproc (\<lambda>c. kderef c (\<lambda>i.
     kbind (the_proc i) (\<lambda>p.
     let num = sint (tf_eax (p_tf p)); table = (syscalls :: ('z kfork_scheme, int) K option list) in
     case (if num > 0 \<and> num < int (length table) then table ! nat num else None) of
       Some f \<Rightarrow> kbind f (\<lambda>r. kmod (set_eax i r))
     | None \<Rightarrow>
         kthen (print ''%d %s: unknown sys call %d^n'' [int_arg (p_pid p), AStr (p_name p), int_arg num])
           (kmod (set_eax i (-1))))))"

section \<open>Trap gates\<close>

record gatedesc =
  g_off_15_0 :: u32
  g_cs :: u32
  g_args :: u32
  g_rsv1 :: u32
  g_type :: u32
  g_s :: u32
  g_dpl :: u32
  g_p :: u32
  g_off_31_16 :: u32

definition SETGATE :: "bool \<Rightarrow> u32 \<Rightarrow> u32 \<Rightarrow> u32 \<Rightarrow> gatedesc" where
  "SETGATE istrap sel off d =
     \<lparr>g_off_15_0 = off AND 0xFFFF, g_cs = sel, g_args = 0, g_rsv1 = 0, g_type = (if istrap then 0xF else 0xE), g_s = 0,
      g_dpl = d, g_p = 1, g_off_31_16 = drop_bit 16 off\<rparr>"

record ktrap = kfork +
  idt :: "nat \<Rightarrow> gatedesc"
  idt_addr :: nat
  idtr :: "nat \<Rightarrow> nat \<times> nat"
  cr2 :: u32

abbreviation "T_SYSCALL \<equiv> (64 :: nat)"
abbreviation "T_IRQ0 \<equiv> (32 :: nat)"
abbreviation "IRQ_TIMER \<equiv> (0 :: nat)"
abbreviation "IRQ_KBD \<equiv> (1 :: nat)"
abbreviation "IRQ_COM1 \<equiv> (4 :: nat)"
abbreviation "IRQ_IDE \<equiv> (14 :: nat)"
abbreviation "IRQ_SPURIOUS \<equiv> (31 :: nat)"

definition tvinit :: "(nat \<Rightarrow> u32) \<Rightarrow> ('z ktrap_scheme, unit) K" where
  "tvinit vectors =
     kthen (kfor [0..<256] (\<lambda>i. kmod (\<lambda>s. s\<lparr>idt := (idt s)(i := SETGATE False (push_bit 3 1) (vectors i) 0)\<rparr>))) (
     kthen (kmod (\<lambda>s. s\<lparr>idt := (idt s)(T_SYSCALL := SETGATE True (push_bit 3 1) (vectors T_SYSCALL) 3)\<rparr>))
       (onhw (initlock Ltick)))"

text \<open>\<^verbatim>\<open>lidt\<close>: the address and the limit of the table, on the CPU that runs this.\<close>

definition idtinit :: "('z ktrap_scheme, unit) K" where
  "idtinit = kmod (\<lambda>s. s\<lparr>idtr := (idtr s)(lapicid (khw s) := (idt_addr s, 256 * 8 - 1))\<rparr>)"

section \<open>Traps\<close>

definition cpuid :: "('z ksys_scheme, nat) K" where
  "cpuid = onhw mycpu"

definition tick :: "('z kpr_scheme, unit) K" where
  "tick =
     kthen (kacquire Ltick) (
     kthen (kmod (\<lambda>s. s\<lparr>ticks := ticks s + 1\<rparr>)) (
     kthen (wakeup (Some ChanTicks)) (krelease Ltick)))"

definition trap_unexpected :: "trapframe \<Rightarrow> ('z ktrap_scheme, unit) K" where
  "trap_unexpected tf =
     kbind myproc (\<lambda>c.
     if c = None \<or> tf_cs tf AND 3 = 0 then
       kbind cpuid (\<lambda>n.
       kbind (kget cr2) (\<lambda>a.
       kthen (print ''unexpected trap %d from cpu %d eip %x (cr2=0x%x)^n'' [ANum (tf_trapno tf), ANum (of_nat n), ANum (tf_eip tf), ANum a])
         (kpanic ''trap'')))
     else
       kbind curproc (\<lambda>p.
       kbind cpuid (\<lambda>n.
       kbind (kget cr2) (\<lambda>a.
       kthen (print ''pid %d %s: trap %d err %d on cpu %d eip 0x%x addr 0x%x--kill proc^n''
           [int_arg (p_pid p), AStr (p_name p), ANum (tf_trapno tf), ANum (tf_err tf), ANum (of_nat n), ANum (tf_eip tf), ANum a])
         (kderef c (\<lambda>i. kmod (upd_proc i (\<lambda>p. p\<lparr>p_killed := True\<rparr>))))))))"

text \<open>
  The character handlers read until the device has nothing more; they look at its status port each time, so the input left there
  bounds the number of turns.
\<close>

definition trap_device :: "trapframe \<Rightarrow> ('z ktrap_scheme, unit) K" where
  "trap_device tf =
     (let no = unat (tf_trapno tf) in
      if no = T_IRQ0 + IRQ_TIMER then kbind cpuid (\<lambda>n. kthen (kwhen (n = 0) tick) lapiceoi)
      else if no = T_IRQ0 + IRQ_IDE then kthen ideintr_mem lapiceoi
      else if no = T_IRQ0 + IRQ_IDE + 1 then kret ()
      else if no = T_IRQ0 + IRQ_KBD then kbind (kget (\<lambda>s. length (inports s 0x64))) (\<lambda>k. kthen (kbdintr (Suc k)) lapiceoi)
      else if no = T_IRQ0 + IRQ_COM1 then kbind (kget (\<lambda>s. length (inports s 0x3FD))) (\<lambda>k. kthen (uartintr (Suc k)) lapiceoi)
      else if no = T_IRQ0 + 7 \<or> no = T_IRQ0 + IRQ_SPURIOUS then
        kbind cpuid (\<lambda>n.
        kthen (print ''cpu%d: spurious interrupt at %x:%x^n'' [ANum (of_nat n), ANum (ucast (tf_cs tf)), ANum (tf_eip tf)]) lapiceoi)
      else trap_unexpected tf)"

definition exit_if_killed :: "trapframe \<Rightarrow> ('z ktrap_scheme, unit) K" where
  "exit_if_killed tf =
     kbind myproc (\<lambda>c.
     case c of
       None \<Rightarrow> kret ()
     | Some i \<Rightarrow> kbind (the_proc i) (\<lambda>p. kwhen (p_killed p \<and> tf_cs tf AND 3 = DPL_USER) exit))"

definition trap :: "trapframe \<Rightarrow> ('z ktrap_scheme, unit) K" where
  "trap tf =
     (if unat (tf_trapno tf) = T_SYSCALL then
        kbind my_killed (\<lambda>k.
        kthen (kwhen k exit) (
        kbind myproc (\<lambda>c. kderef c (\<lambda>i.
        kthen (kmod (upd_proc i (\<lambda>p. p\<lparr>p_tf := tf\<rparr>))) (
        kthen syscall (
        kbind my_killed (\<lambda>k. kwhen k exit)))))))
      else
        kthen (trap_device tf) (
        kthen (exit_if_killed tf) (
        kthen (kbind myproc (\<lambda>c.
            case c of
              None \<Rightarrow> kret ()
            | Some i \<Rightarrow> kbind (the_proc i) (\<lambda>p. kwhen (p_state p = RUNNING \<and> unat (tf_trapno tf) = T_IRQ0 + IRQ_TIMER) yield)))
          (exit_if_killed tf))))"

text \<open>When a yielding process runs again.\<close>

definition trap_resume :: "bool \<Rightarrow> trapframe \<Rightarrow> ('z ktrap_scheme, unit) K" where
  "trap_resume ie tf = kthen (yield_resume ie) (exit_if_killed tf)"

section \<open>From the buffer of the user to the disk\<close>

lemma with_arg_Some: "arg s = Ret (Some x) s \<Longrightarrow> with_arg arg f s = f x s"
  by (simp add: with_arg_def kdefs)

lemma syscall_dispatch:
  fixes s :: "'z kfork_scheme"
  assumes "running i s" "sint (tf_eax (p_tf (procs s ! i))) = int n" "0 < n" "n < 36" "(syscalls :: ('z kfork_scheme, int) K option list) ! n = Some f"
  shows "syscall s = kbind f (\<lambda>r. kmod (set_eax i r)) s"
  using assms by (simp add: syscall_def kdefs runningD the_proc_def syscalls_def)


text \<open>One page of memory with the arguments of a write on the stack, and a machine with one open file.\<close>

definition set_user :: "memory \<Rightarrow> proc list \<Rightarrow> 'z kfork_scheme \<Rightarrow> 'z kfork_scheme" where
  "set_user m ps s = s\<lparr>khw := idle_cpu (Some 0), pmem := m, kend := kend phys0, cr3 := \<lambda>_. V2P dir0, procs := ps\<rparr>"

lemma set_user_bio: "nxt (set_user m ps s) = nxt s" "prv (set_user m ps s) = prv s" "dirties (set_user m ps s) = dirties s" "buniq (set_user m ps s) = buniq s"
  "bslot H (set_user m ps s) i = bslot H s i" "cur (set_user m ps s) = Some 0" "lblk (set_user m ps s) = lblk s"
  by (simp_all add: set_user_def nxt_def prv_def dirties_def fun_eq_iff buniq_def bslot_def cur_def lblk_def cong: option.case_cong)

lemma set_user_wready: "wready f i s \<Longrightarrow> wready f i (set_user m ps s)"
proof -
  have b: "bok {} s \<Longrightarrow> bok {} (set_user m ps s)" by (simp add: bok_def bc_inv_def set_user_bio) (simp add: set_user_def)
  assume "wready f i s"
  then show ?thesis using b by (simp add: wready_def calm_def set_user_bio off_log_def in_log_area_def) (simp add: set_user_def)
qed

definition to_kfork :: "kfile \<Rightarrow> kfork" where
  "to_kfork s = kfile.extend s \<lparr>first_forkret = True\<rparr>"

lemma to_kfork_bio: "nxt (to_kfork s) = nxt s" "prv (to_kfork s) = prv s" "dirties (to_kfork s) = dirties s" "buniq (to_kfork s) = buniq s"
  "bslot H (to_kfork s) i = bslot H s i" "cur (to_kfork s) = cur s" "lblk (to_kfork s) = lblk s"
  by (simp_all add: to_kfork_def kfile.defs nxt_def prv_def dirties_def fun_eq_iff buniq_def bslot_def cur_def lblk_def cong: option.case_cong)

lemma to_kfork_wready: "wready f i (to_kfork s) = wready f i s"
proof -
  have b: "bok {} (to_kfork s) = bok {} s" by (simp add: bok_def bc_inv_def to_kfork_bio) (simp add: to_kfork_def kfile.defs)
  show ?thesis by (simp add: wready_def calm_def b to_kfork_bio off_log_def in_log_area_def) (simp add: to_kfork_def kfile.defs)
qed

text \<open>The process: descriptor 0 names file 0; the arguments are at address 4, the two bytes to write at address 64.\<close>

definition writer0 :: proc where
  "writer0 = user_proc0\<lparr>p_ofile := Some 0 # replicate 15 None, p_tf := (p_tf user_proc0)\<lparr>tf_eax := 16\<rparr>\<rparr>"

lemma writer0_memory:
  "\<exists>m. mapped_wf {0} (kend phys0) m dir0 \<and> pte_of m dir0 0 AND PTE_W \<noteq> 0 \<and>
     map (ubyte m dir0) [4..<16] = le4 0 @ le4 64 @ le4 2 \<and> map (ubyte m dir0) [64..<66] = [104, 105]"
proof -
  let ?s = "syscall0 kpipe0"
  have c: "cur_pgdir ?s = dir0" "pmem ?s = user0" "kend ?s = kend phys0" by (simp_all add: syscall0_def cur_pgdir_def dir0_def P2V_def V2P_def)
  have N: "upto_size 4096 = {0}" by (auto simp: upto_size_def)
  have rw: "user_rw {0} ?s" using syscall0_ready[of kpipe0] by (simp add: in_syscall_def syscall0_def user_proc0_def N)
  let ?b = "le4 0 @ le4 64 @ le4 2 @ replicate 48 0 @ [104, 105]"
  have l: "length ?b = 62" by simp
  obtain m where m: "user_rw {0} (?s\<lparr>pmem := m\<rparr>)" "ustored {0} 4 ?b ?s m"
    using ustores_ok[OF rw, of 4 ?b] unfolding l by auto
  have u: "ubyte m dir0 v = ?b ! (v - 4)" if "4 \<le> v" "v < 66" for v
    using m(2) that unfolding ustored_def l c(1) by auto
  have "map (ubyte m dir0) [4..<16] = map (\<lambda>v. ?b ! (v - 4)) [4..<16]" "map (ubyte m dir0) [64..<66] = map (\<lambda>v. ?b ! (v - 4)) [64..<66]"
    using u by (simp_all del: upt_rec_numeral)
  moreover have "cur_pgdir (?s\<lparr>pmem := m\<rparr>) = dir0" using c(1) by (simp add: cur_pgdir_def)
  ultimately show ?thesis using m(1) c(3) by (intro exI[of _ m]) (simp add: user_rw_def le4_def upt_rec nth_append)
qed


end
