(* ===== verification/Boot.thy ===== *)
theory Boot
  imports Syscall
begin

text \<open>
  Starting the kernel (\<^verbatim>\<open>main.c\<close>).  The images the build links into the kernel (\<^verbatim>\<open>initcode.S\<close>, \<^verbatim>\<open>entryother.S\<close>, the file system) and the
  generated trap vectors are parameters.  The flag by which another CPU reports that it runs is set by that CPU; waiting for
  it is \<open>Spin\<close> until it is set.
\<close>

record kboot = ktrap +
  cpu_started :: "nat \<Rightarrow> bool"
  entrypgdir_addr :: nat
  mpenter_addr :: u32

abbreviation "PTE_PS \<equiv> (0x80 :: u32)"

definition entrypgdir :: "nat \<Rightarrow> u32" where
  "entrypgdir i = (if i = 0 \<or> i = KERNBASE div 2 ^ 22 then PTE_P OR PTE_W OR PTE_PS else 0)"

definition mpmain :: "('z kboot_scheme, nat option) K" where
  "mpmain =
     kbind cpuid (\<lambda>n.
     kthen (print ''cpu%d: starting %d^n'' [ANum (of_nat n), ANum (of_nat n)]) (
     kthen idtinit (
     kbind (onhw mycpu) (\<lambda>c.
     kthen (kmod (\<lambda>s. s\<lparr>cpu_started := (cpu_started s)(c := True)\<rparr>)) scheduler))))"

definition mpenter :: "('z kboot_scheme, nat option) K" where
  "mpenter = kthen switchkvm (kthen seginit (kthen lapicinit mpmain))"

definition startother :: "nat \<Rightarrow> ('z kboot_scheme, unit) K" where
  "startother c =
     kbind (onhw mycpu) (\<lambda>me.
     if c = me then kret ()
     else
       let code = P2V 0x7000 in
       kbind kalloc (\<lambda>stack.
       kthen (set_pmem (\<lambda>m. store4 m (code - 4) (of_nat (stack + KSTACKSIZE)))) (
       kthen (kbind (kget mpenter_addr) (\<lambda>a. set_pmem (\<lambda>m. store4 m (code - 8) a))) (
       kthen (kbind (kget entrypgdir_addr) (\<lambda>a. set_pmem (\<lambda>m. store4 m (code - 12) (of_nat (V2P a))))) (
       kbind (kget (\<lambda>s. apicid (cpus (khw s) ! c))) (\<lambda>apic.
       kthen (lapicstartap (of_nat apic) (of_nat (V2P code)))
         (\<lambda>s. if cpu_started s c then Ret () s else Spin)))))))"

definition startothers :: "byte list \<Rightarrow> ('z kboot_scheme, unit) K" where
  "startothers entryother =
     kthen (set_pmem (\<lambda>m. put_bytes m (P2V 0x7000) entryother)) (
     kbind (kget (\<lambda>s. length (cpus (khw s)))) (\<lambda>ncpu.
     kfor [0..<ncpu] startother))"

definition kmain :: "(nat \<Rightarrow> u32) \<Rightarrow> (nat \<Rightarrow> u32) \<Rightarrow> nat \<Rightarrow> memory \<Rightarrow> byte list \<Rightarrow> byte list \<Rightarrow> ('z kboot_scheme, nat option) K" where
  "kmain lapic_regs vectors fs_size fs_img entryother initcode =
     kthen (kbind (kget kend) (\<lambda>e. kinit1 e (P2V (4 * 1024 * 1024)))) (
     kthen kvmalloc (
     kthen (mpinit lapic_regs) (
     kthen lapicinit (
     kthen seginit (
     kthen picinit (
     kthen ioapicinit (
     kthen consoleinit (
     kthen uartinit (
     kthen pinit (
     kthen (tvinit vectors) (
     kthen binit (
     kthen fileinit (
     kthen (ideinit_mem fs_size fs_img) (
     kthen (startothers entryother) (
     kthen (kinit2 (P2V (4 * 1024 * 1024)) (P2V PHYSTOP)) (
     kthen (userinit initcode) mpmain))))))))))))))))"

end
