(* ===== verification/Grep.thy ===== *)
theory Grep
  imports Prelude "HOL-Library.Sublist"
begin

text \<open>
  The user program \<^verbatim>\<open>grep.c\<close>: its matcher on strings (lists of bytes without the terminating zero) and the loop over its buffer.  The results
  of \<^verbatim>\<open>read\<close> are a parameter, the list of the chunks it delivers; what is written to descriptor 1 is the result.
\<close>

abbreviation "CARET \<equiv> (94 :: byte)"
abbreviation "STAR \<equiv> (42 :: byte)"
abbreviation "DOLLAR \<equiv> (36 :: byte)"
abbreviation "DOT \<equiv> (46 :: byte)"
abbreviation "NL \<equiv> (10 :: byte)"

section \<open>The matcher\<close>

text \<open>\<^verbatim>\<open>re[1]\<close> of a string of length one is the terminating zero.\<close>

function matchhere :: "byte list \<Rightarrow> byte list \<Rightarrow> bool" and matchstar :: "byte \<Rightarrow> byte list \<Rightarrow> byte list \<Rightarrow> bool" where
  "matchhere re text =
     (case re of
        [] \<Rightarrow> True
      | c # re1 \<Rightarrow>
          if re1 \<noteq> [] \<and> hd re1 = STAR then matchstar c (tl re1) text
          else if c = DOLLAR \<and> re1 = [] then text = []
          else if text \<noteq> [] \<and> (c = DOT \<or> c = hd text) then matchhere re1 (tl text)
          else False)"
| "matchstar c re text =
     (if matchhere re text then True
      else if text \<noteq> [] \<and> (hd text = c \<or> c = DOT) then matchstar c re (tl text)
      else False)"
  by pat_completeness auto
termination
proof (relation "measure (case_sum (\<lambda>(re, text). 2 * (length re + length text)) (\<lambda>(c, re, text). 2 * (length re + length text) + 1))")
qed auto

declare matchhere.simps [simp del] matchstar.simps [simp del]

fun match_from :: "byte list \<Rightarrow> byte list \<Rightarrow> bool" where
  "match_from re [] = matchhere re []"
| "match_from re (c # cs) = (if matchhere re (c # cs) then True else match_from re cs)"

definition match :: "byte list \<Rightarrow> byte list \<Rightarrow> bool" where
  "match re text =
     (if re \<noteq> [] \<and> hd re = CARET then matchhere (tl re) text else match_from re text)"

section \<open>The loop over the input\<close>

text \<open>The lines of the buffer: those before a newline are matched and written; the result also has the rest, where no newline is found.\<close>

function grep_lines :: "byte list \<Rightarrow> byte list \<Rightarrow> byte list \<times> byte list" where
  "grep_lines pattern p =
     (let s = takeWhile (\<lambda>c. c \<noteq> 0) p in
      if NL \<in> set s then
        let line = takeWhile (\<lambda>c. c \<noteq> NL) s;
            (out, rest) = grep_lines pattern (drop (length line + 1) p)
        in ((if match pattern line then line @ [NL] else []) @ out, rest)
      else ([], p))"
  by pat_completeness auto
termination by (relation "measure (\<lambda>(pattern, p). length p)") (auto intro!: diff_less dest: set_takeWhileD)

declare grep_lines.simps [simp del]

text \<open>One chunk after the other, with \<open>kept\<close> the first \<^verbatim>\<open>m\<close> bytes of the buffer; \<^verbatim>\<open>read\<close> delivers at most the
  \<^verbatim>\<open>sizeof(buf)-m-1\<close> bytes it is asked for; an empty chunk is the end of the file or an error.\<close>

fun grep :: "byte list \<Rightarrow> byte list \<Rightarrow> byte list list \<Rightarrow> byte list" where
  "grep pattern kept [] = []"
| "grep pattern kept (chunk # more) =
     (if chunk = [] then []
      else
        let buf = kept @ chunk;
            (out, rest) = grep_lines pattern buf
        in out @ grep pattern (if length rest = length buf then [] else rest) more)"

text \<open>
  \<^verbatim>\<open>main\<close>: the arguments after the program's name, the chunks that descriptor 0 delivers, and the chunks of each file that can be opened; the
  result is what is written, each piece with its descriptor.
\<close>

fun grep_files :: "(byte list \<Rightarrow> byte list list option) \<Rightarrow> byte list \<Rightarrow> byte list list \<Rightarrow> (nat \<times> byte list) list" where
  "grep_files files pattern [] = []"
| "grep_files files pattern (name # names) =
     (case files name of
        None \<Rightarrow> [(1, map of_char ''grep: cannot open '' @ name @ [NL])]
      | Some chunks \<Rightarrow> (1, grep pattern [] chunks) # grep_files files pattern names)"

definition grep_main :: "byte list list \<Rightarrow> (byte list \<Rightarrow> byte list list option) \<Rightarrow> byte list list \<Rightarrow> (nat \<times> byte list) list" where
  "grep_main stdin files args =
     (case args of
        [] \<Rightarrow> [(2, map of_char ''usage: grep pattern [file ...]'' @ [NL])]
      | [pattern] \<Rightarrow> [(1, grep pattern [] stdin)]
      | pattern # names \<Rightarrow> grep_files files pattern names)"

section \<open>What a pattern means\<close>

text \<open>A pattern is a sequence of symbols and starred symbols, anchored or not at either end.\<close>

datatype piece = One byte | Star byte

definition fits :: "byte \<Rightarrow> byte \<Rightarrow> bool" where
  "fits c x \<longleftrightarrow> c = DOT \<or> x = c"

fun words :: "piece list \<Rightarrow> byte list set" where
  "words [] = {[]}"
| "words (One c # ps) = {x # w | x w. fits c x \<and> w \<in> words ps}"
| "words (Star c # ps) = {u @ w | u w. (\<forall>x\<in>set u. fits c x) \<and> w \<in> words ps}"

fun pieces :: "byte list \<Rightarrow> piece list \<times> bool" where
  "pieces [] = ([], False)"
| "pieces [c] = (if c = DOLLAR then ([], True) else ([One c], False))"
| "pieces (c # d # re) =
     (if d = STAR then map_prod ((#) (Star c)) id (pieces re) else map_prod ((#) (One c)) id (pieces (d # re)))"

definition starts :: "piece list \<times> bool \<Rightarrow> byte list \<Rightarrow> bool" where
  "starts p tx \<longleftrightarrow> (\<exists>w v. tx = w @ v \<and> w \<in> words (fst p) \<and> (snd p \<longrightarrow> v = []))"

lemma startsI: "w \<in> words ps \<Longrightarrow> (e \<Longrightarrow> v = []) \<Longrightarrow> starts (ps, e) (w @ v)"
  by (auto simp: starts_def)

lemma startsE:
  assumes "starts (ps, e) tx"
  obtains w v where "tx = w @ v" "w \<in> words ps" "e \<longrightarrow> v = []"
  using assms by (auto simp: starts_def)

lemma starts_Nil [simp]: "starts ([], e) tx \<longleftrightarrow> e \<longrightarrow> tx = []"
  by (auto simp: starts_def)

lemma starts_one: "starts (One c # ps, e) tx \<longleftrightarrow> tx \<noteq> [] \<and> fits c (hd tx) \<and> starts (ps, e) (tl tx)"
proof
  assume "starts (One c # ps, e) tx"
  then obtain u v where u: "tx = u @ v" "u \<in> words (One c # ps)" "e \<longrightarrow> v = []" by (rule startsE)
  then obtain x w where "u = x # w" "fits c x" "w \<in> words ps" by auto
  with u show "tx \<noteq> [] \<and> fits c (hd tx) \<and> starts (ps, e) (tl tx)" by (simp add: startsI)
next
  assume a: "tx \<noteq> [] \<and> fits c (hd tx) \<and> starts (ps, e) (tl tx)"
  then obtain w v where w: "tl tx = w @ v" "w \<in> words ps" "e \<longrightarrow> v = []" by (auto simp: starts_def)
  then have "starts (One c # ps, e) ((hd tx # w) @ v)" using a by (intro startsI) auto
  then show "starts (One c # ps, e) tx" using a w(1) by (cases tx) auto
qed

lemma starts_starE:
  assumes "starts (Star c # ps, e) tx"
  obtains u w v where "tx = u @ w @ v" "\<forall>x\<in>set u. fits c x" "w \<in> words ps" "e \<longrightarrow> v = []"
proof -
  obtain uw v where "tx = uw @ v" "uw \<in> words (Star c # ps)" "e \<longrightarrow> v = []" using assms by (rule startsE)
  moreover from this(2) obtain u w where "uw = u @ w" "\<forall>x\<in>set u. fits c x" "w \<in> words ps" by auto
  ultimately show thesis by (intro that[of u w v]) simp_all
qed

lemma starts_star: "starts (Star c # ps, e) tx \<longleftrightarrow> starts (ps, e) tx \<or> tx \<noteq> [] \<and> fits c (hd tx) \<and> starts (Star c # ps, e) (tl tx)"
proof
  assume "starts (Star c # ps, e) tx"
  then obtain u w v where u: "tx = u @ w @ v" "\<forall>x\<in>set u. fits c x" "w \<in> words ps" "e \<longrightarrow> v = []" by (rule starts_starE)
  have "starts (Star c # ps, e) ((u' @ w) @ v)" if "\<forall>x\<in>set u'. fits c x" for u' using that u(3,4) by (intro startsI) auto
  then show "starts (ps, e) tx \<or> tx \<noteq> [] \<and> fits c (hd tx) \<and> starts (Star c # ps, e) (tl tx)"
    using u startsI[OF u(3), of e v] by (cases u) auto
next
  assume "starts (ps, e) tx \<or> tx \<noteq> [] \<and> fits c (hd tx) \<and> starts (Star c # ps, e) (tl tx)"
  then obtain u w v where u: "tx = u @ w @ v" "\<forall>x\<in>set u. fits c x" "w \<in> words ps" "e \<longrightarrow> v = []"
  proof
    assume "starts (ps, e) tx"
    then obtain w v where "tx = w @ v" "w \<in> words ps" "e \<longrightarrow> v = []" by (rule startsE)
    then show thesis by (intro that[of "[]" w v]) simp_all
  next
    assume a: "tx \<noteq> [] \<and> fits c (hd tx) \<and> starts (Star c # ps, e) (tl tx)"
    then have "starts (Star c # ps, e) (tl tx)" by blast
    then obtain u w v where u: "tl tx = u @ w @ v" "\<forall>x\<in>set u. fits c x" "w \<in> words ps" "e \<longrightarrow> v = []" by (rule starts_starE)
    have "tx = (hd tx # u) @ w @ v" using a u(1) by (cases tx) simp_all
    moreover have "\<forall>x\<in>set (hd tx # u). fits c x" using a u(2) by simp
    ultimately show thesis using u(3,4) by (rule that)
  qed
  then have "starts (Star c # ps, e) ((u @ w) @ v)" by (intro startsI) auto
  then show "starts (Star c # ps, e) tx" using u(1) by simp
qed

lemma matcher_starts:
  "matchhere re tx \<longleftrightarrow> starts (pieces re) tx"
  "matchstar c re tx \<longleftrightarrow> starts (map_prod ((#) (Star c)) id (pieces re)) tx"
proof (induction re tx and c re tx rule: matchhere_matchstar.induct)
  case (1 re tx)
  show ?case
  proof (cases re rule: pieces.cases)
    case 1
    then show ?thesis by (simp add: matchhere.simps starts_def)
  next
    case (2 c)
    then show ?thesis by (auto simp: matchhere.simps starts_one fits_def)
  next
    case (3 c d re')
    obtain ps e qs e' where p: "pieces re' = (ps, e)" "pieces (d # re') = (qs, e')" by fastforce
    then show ?thesis using 1 3 by (subst matchhere.simps) (auto simp: starts_one fits_def)
  qed
next
  case (2 c re tx)
  obtain ps e where p: "pieces re = (ps, e)" by fastforce
  show ?case using 2 p by (subst matchstar.simps) (auto simp: starts_star[of c ps e tx] fits_def)
qed

text \<open>The lines that pattern \<open>re\<close> selects.\<close>

definition selects :: "byte list \<Rightarrow> byte list \<Rightarrow> bool" where
  "selects re line \<longleftrightarrow>
     (let (b, r) = (if re \<noteq> [] \<and> hd re = CARET then (True, tl re) else (False, re)); (ps, e) = pieces r
      in \<exists>u w v. line = u @ w @ v \<and> w \<in> words ps \<and> (b \<longrightarrow> u = []) \<and> (e \<longrightarrow> v = []))"

lemma match_from_suffix: "match_from re tx \<longleftrightarrow> (\<exists>u v. tx = u @ v \<and> matchhere re v)"
proof (induction tx)
  case (Cons c cs)
  have "(\<exists>u v. c # cs = u @ v \<and> matchhere re v) \<longleftrightarrow> matchhere re (c # cs) \<or> (\<exists>u v. cs = u @ v \<and> matchhere re v)"
    by (auto simp: Cons_eq_append_conv)
  then show ?case using Cons by simp
qed simp

lemma match_selects: "match re tx \<longleftrightarrow> selects re tx"
  by (auto simp: match_def selects_def match_from_suffix matcher_starts starts_def split: prod.splits)

section \<open>Lines\<close>

text \<open>The complete lines of the input, and what follows the last newline.\<close>

function lines_of :: "byte list \<Rightarrow> byte list list \<times> byte list" where
  "lines_of xs =
     (if NL \<in> set xs
      then map_prod ((#) (takeWhile (\<lambda>c. c \<noteq> NL) xs)) id (lines_of (tl (dropWhile (\<lambda>c. c \<noteq> NL) xs)))
      else ([], xs))"
  by pat_completeness auto
termination
proof (relation "measure length")
  fix xs assume "NL \<in> set xs"
  then have "dropWhile (\<lambda>c. c \<noteq> NL) xs \<noteq> []" by (simp add: dropWhile_eq_Nil_conv)
  then show "(tl (dropWhile (\<lambda>c. c \<noteq> NL) xs), xs) \<in> measure length"
    using length_dropWhile_le[of "\<lambda>c. c \<noteq> NL" xs] by (cases "dropWhile (\<lambda>c. c \<noteq> NL) xs") simp_all
qed simp

declare lines_of.simps [simp del]

definition selected :: "byte list \<Rightarrow> byte list list \<Rightarrow> byte list" where
  "selected re ls = concat (map (\<lambda>l. l @ [NL]) (filter (selects re) ls))"

lemma takeWhile_no_zero: "0 \<notin> set p \<Longrightarrow> takeWhile (\<lambda>c. c \<noteq> (0 :: byte)) p = p"
  by (induction p) auto

lemma grep_lines_net: "0 \<notin> set p \<Longrightarrow> grep_lines re p = (selected re (fst (lines_of p)), snd (lines_of p))"
proof (induction p rule: lines_of.induct)
  case (1 xs)
  let ?l = "takeWhile (\<lambda>c. c \<noteq> NL) xs" and ?r = "tl (dropWhile (\<lambda>c. c \<noteq> NL) xs)"
  have s: "takeWhile (\<lambda>c. c \<noteq> 0) xs = xs" using 1(2) by (rule takeWhile_no_zero)
  show ?case
  proof (cases "NL \<in> set xs")
    case True
    have d: "drop (length ?l + 1) xs = ?r" by (simp add: dropWhile_eq_drop drop_Suc tl_drop)
    have "0 \<notin> set ?r" using 1(2) by (metis set_dropWhileD list.set_sel(2) tl_Nil empty_iff empty_set)
    then have "grep_lines re ?r = (selected re (fst (lines_of ?r)), snd (lines_of ?r))" using 1(1) True by blast
    then show ?thesis using True unfolding grep_lines.simps[of re xs] lines_of.simps[of xs] Let_def s d
      by (simp add: selected_def match_selects)
  qed (simp add: grep_lines.simps[of re xs] lines_of.simps[of xs] s selected_def)
qed

lemma lines_of_append: "lines_of (xs @ ys) = (fst (lines_of xs) @ fst (lines_of (snd (lines_of xs) @ ys)), snd (lines_of (snd (lines_of xs) @ ys)))"
proof (induction xs rule: lines_of.induct)
  case (1 xs)
  show ?case
  proof (cases "NL \<in> set xs")
    case True
    have "dropWhile (\<lambda>c. c \<noteq> NL) xs \<noteq> []" using True by (simp add: dropWhile_eq_Nil_conv)
    then have "tl (dropWhile (\<lambda>c. c \<noteq> NL) (xs @ ys)) = tl (dropWhile (\<lambda>c. c \<noteq> NL) xs) @ ys" "takeWhile (\<lambda>c. c \<noteq> NL) (xs @ ys) = takeWhile (\<lambda>c. c \<noteq> NL) xs"
      using True by (auto simp: dropWhile_append takeWhile_append)
    then show ?thesis using 1[OF True] True by (simp add: lines_of.simps[of "xs @ ys"] lines_of.simps[of xs])
  qed (simp add: lines_of.simps[of xs])
qed

lemma lines_of_rest: "set (snd (lines_of xs)) \<subseteq> set xs - {NL} \<and> (NL \<in> set xs \<longrightarrow> length (snd (lines_of xs)) < length xs)"
proof (induction xs rule: lines_of.induct)
  case (1 xs)
  show ?case
  proof (cases "NL \<in> set xs")
    case True
    let ?d = "dropWhile (\<lambda>c. c \<noteq> NL) xs"
    have d: "?d \<noteq> []" using True by (simp add: dropWhile_eq_Nil_conv)
    have s: "set (tl ?d) \<subseteq> set xs" using d by (meson list.set_sel(2) set_dropWhileD subsetI)
    have "length (tl ?d) < length xs" using d length_dropWhile_le[of "\<lambda>c. c \<noteq> NL" xs] by (cases ?d) simp_all
    moreover have "length (snd (lines_of (tl ?d))) \<le> length (tl ?d)" using 1[OF True] by (cases "NL \<in> set (tl ?d)") (simp_all add: lines_of.simps[of "tl ?d"])
    ultimately show ?thesis using 1[OF True] True s by (simp add: lines_of.simps[of xs]) blast
  qed (auto simp: lines_of.simps[of xs])
qed

text \<open>
  What the loop sees of its input: a chunk without a newline, which makes the loop empty its buffer, is lost together with the unfinished
  line before it; all else is kept, up to the first empty chunk.
\<close>

definition finished :: "byte list \<Rightarrow> byte list" where
  "finished acc = rev (dropWhile (\<lambda>c. c \<noteq> NL) (rev acc))"

fun heard :: "byte list \<Rightarrow> byte list list \<Rightarrow> byte list" where
  "heard acc [] = acc"
| "heard acc (ch # more) =
     (if ch = [] then acc else if NL \<in> set ch then heard (acc @ ch) more else heard (finished acc) more)"

lemma lines_of_plain: "NL \<notin> set xs \<Longrightarrow> lines_of xs = ([], xs)"
  by (simp add: lines_of.simps[of xs])

lemma lines_of_terminated: "snd (lines_of (xs @ [NL])) = []"
proof -
  let ?r = "snd (lines_of xs)"
  have n: "NL \<notin> set ?r" using lines_of_rest[of xs] by auto
  then have "dropWhile (\<lambda>c. c \<noteq> NL) (?r @ [NL]) = [NL]" by (induction ?r) (auto simp: dropWhile_append)
  then have "snd (lines_of (?r @ [NL])) = []" by (simp add: lines_of.simps[of "?r @ [NL]"] lines_of_plain)
  then show ?thesis by (simp add: lines_of_append[of xs "[NL]"])
qed

lemma lines_of_finished: "lines_of (finished acc) = (fst (lines_of acc), [])"
proof -
  let ?d = "dropWhile (\<lambda>c. c \<noteq> NL) (rev acc)" and ?t = "rev (takeWhile (\<lambda>c. c \<noteq> NL) (rev acc))"
  have "rev acc = takeWhile (\<lambda>c. c \<noteq> NL) (rev acc) @ ?d" by simp
  then have a: "acc = finished acc @ ?t" unfolding finished_def by (metis rev_append rev_rev_ident)
  have t: "NL \<notin> set ?t" by (auto dest: set_takeWhileD)
  have f: "snd (lines_of (finished acc)) = []"
  proof (cases ?d)
    case Nil
    then have "finished acc = []" unfolding finished_def by (simp only: rev.simps)
    then show ?thesis by (simp add: lines_of_plain)
  next
    case (Cons c d)
    then have "c = NL" using hd_dropWhile[of "\<lambda>c. c \<noteq> NL" "rev acc"] by simp
    then show ?thesis using Cons lines_of_terminated[of "rev d"] by (simp add: finished_def)
  qed
  then have "fst (lines_of (finished acc @ ?t)) = fst (lines_of (finished acc))" using lines_of_plain[OF t] by (simp add: lines_of_append[of "finished acc" ?t])
  then show ?thesis using f a by (metis prod.collapse)
qed

lemma set_finished: "set (finished acc) \<subseteq> set acc"
  by (auto simp: finished_def dest: set_dropWhileD)

lemma grep_net:
  "0 \<notin> set acc \<Longrightarrow> 0 \<notin> set (concat chunks) \<Longrightarrow>
   selected re (fst (lines_of acc)) @ grep re (snd (lines_of acc)) chunks = selected re (fst (lines_of (heard acc chunks)))"
proof (induction chunks arbitrary: acc)
  case (Cons ch more)
  let ?rest = "snd (lines_of acc)"
  let ?b = "?rest @ ch"
  have r: "set ?rest \<subseteq> set acc - {NL}" using lines_of_rest[of acc] by blast
  then have z: "0 \<notin> set ?b" using Cons.prems by auto
  note g = grep_lines_net[OF z, of re]
  consider "ch = []" | "ch \<noteq> []" "NL \<in> set ch" | "ch \<noteq> []" "NL \<notin> set ch" by blast
  then show ?case
  proof cases
    case 2
    have l: "length (snd (lines_of ?b)) < length ?b" using lines_of_rest[of ?b] 2 by simp
    have "selected re (fst (lines_of (acc @ ch))) @ grep re (snd (lines_of (acc @ ch))) more = selected re (fst (lines_of (heard (acc @ ch) more)))"
      using Cons.prems by (intro Cons.IH) simp_all
    then show ?thesis using 2 g l lines_of_append[of acc ch] by (simp add: selected_def Let_def)
  next
    case 3
    then have p: "lines_of ?b = ([], ?b)" using r by (intro lines_of_plain) auto
    have "selected re (fst (lines_of (finished acc))) @ grep re (snd (lines_of (finished acc))) more = selected re (fst (lines_of (heard (finished acc) more)))"
      using Cons.prems set_finished[of acc] by (intro Cons.IH) auto
    then show ?thesis using 3 g p by (simp add: selected_def Let_def lines_of_finished)
  qed simp
qed simp

lemma heard_all: "\<forall>ch\<in>set chunks. NL \<in> set ch \<Longrightarrow> heard acc chunks = acc @ concat chunks"
  by (induction chunks arbitrary: acc) auto



end
