(* ===== verification/Umalloc.thy ===== *)
theory Umalloc
  imports Prelude
begin

text \<open>
  The memory allocator of user programs (\<^verbatim>\<open>umalloc.c\<close>).  An address is a number of bytes and a header is eight bytes, so \<^verbatim>\<open>p + n\<close> on
  header pointers is \<open>p + 8 * n\<close> here; all blocks lie below the end of the program's memory, so these sums do not wrap.  The
  headers are a map from their addresses.  \<^verbatim>\<open>sbrk\<close> is a parameter: given the argument and the end of memory it fails or
  returns the start of the new memory and its end.  The loops follow pointers, and a run that does not end is \<open>None\<close>.
\<close>

record header =
  h_ptr :: nat
  h_size :: nat

record uheap =
  hdr :: "nat \<Rightarrow> header"
  freep :: nat
  brk :: nat

type_synonym sbrk = "int \<Rightarrow> nat \<Rightarrow> (nat \<times> nat) option"

abbreviation ptr :: "uheap \<Rightarrow> nat \<Rightarrow> nat" where "ptr st p \<equiv> h_ptr (hdr st p)"
abbreviation units :: "uheap \<Rightarrow> nat \<Rightarrow> nat" where "units st p \<equiv> h_size (hdr st p)"

section \<open>free\<close>

text \<open>The loop that looks for the free block behind which \<^verbatim>\<open>bp\<close> belongs.\<close>

partial_function (option) free_find :: "uheap \<Rightarrow> nat \<Rightarrow> nat \<Rightarrow> nat option" where
  "free_find st bp p =
     (if bp > p \<and> bp < ptr st p then Some p
      else if p \<ge> ptr st p \<and> (bp > p \<or> bp < ptr st p) then Some p
      else free_find st bp (ptr st p))"

definition free_join :: "nat \<Rightarrow> nat \<Rightarrow> (nat \<Rightarrow> header) \<Rightarrow> nat \<Rightarrow> header" where
  "free_join bp p h =
     (let q = h_ptr (h p);
          h1 = (if bp + 8 * h_size (h bp) = q
                then h(bp := \<lparr>h_ptr = h_ptr (h q), h_size = h_size (h bp) + h_size (h q)\<rparr>)
                else h(bp := (h bp)\<lparr>h_ptr := q\<rparr>))
      in if p + 8 * h_size (h1 p) = bp
         then h1(p := \<lparr>h_ptr = h_ptr (h1 bp), h_size = h_size (h1 p) + h_size (h1 bp)\<rparr>)
         else h1(p := (h1 p)\<lparr>h_ptr := bp\<rparr>))"

definition free :: "nat \<Rightarrow> uheap \<Rightarrow> uheap option" where
  "free ap st =
     (let bp = ap - 8 in
      Option.bind (free_find st bp (freep st)) (\<lambda>p.
      Some (st\<lparr>hdr := free_join bp p (hdr st), freep := p\<rparr>)))"

section \<open>malloc\<close>

text \<open>The result is \<open>Some 0\<close> when \<^verbatim>\<open>sbrk\<close> fails; the argument of \<^verbatim>\<open>sbrk\<close> is a product of unsigned numbers read as a signed one.\<close>

definition morecore :: "sbrk \<Rightarrow> nat \<Rightarrow> uheap \<Rightarrow> (nat \<times> uheap) option" where
  "morecore sbrk nu st =
     (let nu = (if nu < 4096 then 4096 else nu) in
      case sbrk (sint (of_nat (nu * 8) :: u32)) (brk st) of
        None \<Rightarrow> Some (0, st)
      | Some (p, e) \<Rightarrow>
          Option.bind (free (p + 8) (st\<lparr>hdr := (hdr st)(p := (hdr st p)\<lparr>h_size := nu\<rparr>), brk := e\<rparr>)) (\<lambda>st'.
          Some (freep st', st')))"

definition malloc_take :: "nat \<Rightarrow> nat \<Rightarrow> nat \<Rightarrow> uheap \<Rightarrow> nat \<times> uheap" where
  "malloc_take nunits prevp p st =
     (if units st p = nunits
      then (p + 8, st\<lparr>hdr := (hdr st)(prevp := (hdr st prevp)\<lparr>h_ptr := ptr st p\<rparr>), freep := prevp\<rparr>)
      else
        let h1 = (hdr st)(p := (hdr st p)\<lparr>h_size := units st p - nunits\<rparr>);
            q = p + 8 * h_size (h1 p)
        in (q + 8, st\<lparr>hdr := h1(q := (h1 q)\<lparr>h_size := nunits\<rparr>), freep := prevp\<rparr>))"

partial_function (option) malloc_loop :: "sbrk \<Rightarrow> nat \<Rightarrow> nat \<Rightarrow> nat \<Rightarrow> uheap \<Rightarrow> (nat \<times> uheap) option" where
  "malloc_loop sbrk nunits prevp p st =
     (if units st p \<ge> nunits then Some (malloc_take nunits prevp p st)
      else if p = freep st then
        Option.bind (morecore sbrk nunits st) (\<lambda>(p', st').
        if p' = 0 then Some (0, st') else malloc_loop sbrk nunits p' (ptr st' p') st')
      else malloc_loop sbrk nunits p (ptr st p) st)"

definition nunits_of :: "nat \<Rightarrow> nat" where
  "nunits_of nbytes = (nbytes + 8 - 1) mod 2 ^ 32 div 8 + 1"

definition malloc_init :: "nat \<Rightarrow> uheap \<Rightarrow> uheap" where
  "malloc_init base st =
     (if freep st = 0 then st\<lparr>hdr := (hdr st)(base := \<lparr>h_ptr = base, h_size = 0\<rparr>), freep := base\<rparr> else st)"

definition malloc :: "sbrk \<Rightarrow> nat \<Rightarrow> nat \<Rightarrow> uheap \<Rightarrow> (nat \<times> uheap) option" where
  "malloc sbrk base nbytes st =
     (let st = malloc_init base st in malloc_loop sbrk (nunits_of nbytes) (freep st) (ptr st (freep st)) st)"

section \<open>The circle of free blocks\<close>

fun seg :: "uheap \<Rightarrow> nat \<Rightarrow> nat list \<Rightarrow> nat \<Rightarrow> bool" where
  "seg st a [] z \<longleftrightarrow> a = z"
| "seg st a (x # xs) z \<longleftrightarrow> a = x \<and> seg st (ptr st x) xs z"

definition circle :: "uheap \<Rightarrow> nat list \<Rightarrow> bool" where
  "circle st bs \<longleftrightarrow> bs \<noteq> [] \<and> seg st (hd bs) bs (hd bs)"

lemma seg_append: "seg st a (xs @ ys) z \<longleftrightarrow> (\<exists>m. seg st a xs m \<and> seg st m ys z)"
  by (induction xs arbitrary: a) auto

lemma seg_cong: "(\<And>x. x \<in> set xs \<Longrightarrow> ptr st' x = ptr st x) \<Longrightarrow> seg st' a xs z = seg st a xs z"
  by (induction xs arbitrary: a) auto

lemma seg_hd: "seg st a xs z \<Longrightarrow> xs \<noteq> [] \<Longrightarrow> a = hd xs"
  by (cases xs) auto

lemma circle_rotate: "circle st (xs @ ys) \<Longrightarrow> circle st (ys @ xs)"
  unfolding circle_def
  by (cases xs; cases ys) (auto simp: seg_append dest: seg_hd)

lemma circle_at:
  assumes "circle st bs" "q \<in> set bs"
  obtains zs where "circle st (q # zs)" "set (q # zs) = set bs" "distinct bs \<Longrightarrow> distinct (q # zs)"
proof -
  obtain xs ys where "bs = xs @ q # ys" using assms(2) by (meson split_list)
  then show thesis using circle_rotate[of st xs "q # ys"] assms(1) by (intro that[of "ys @ xs"]) auto
qed

text \<open>A walk along the pointers from \<open>a\<close>, under which \<open>f\<close> does not change, comes to the first element of \<open>S\<close>.\<close>

lemma seg_first:
  assumes "seg st a zs z" "\<exists>r\<in>set zs. S r" "\<And>q. q \<in> set zs \<Longrightarrow> \<not> S q \<Longrightarrow> f q = f (ptr st q)"
  shows "\<exists>us r vs. zs = us @ r # vs \<and> S r \<and> (\<forall>u\<in>set us. \<not> S u) \<and> f a = f r"
  using assms
proof (induction zs arbitrary: a)
  case (Cons x xs)
  show ?case
  proof (cases "S x")
    case True
    then show ?thesis using Cons.prems(1) by (intro exI[of _ "[]"] exI[of _ x] exI[of _ xs]) simp
  next
    case False
    then obtain us r vs where "xs = us @ r # vs" "S r" "\<forall>u\<in>set us. \<not> S u" "f (ptr st x) = f r"
      using Cons.IH[of "ptr st x"] Cons.prems by auto
    then show ?thesis using False Cons.prems(1,3) by (intro exI[of _ "x # us"] exI[of _ r] exI[of _ vs]) auto
  qed
qed simp

lemma circle_ptr: "circle st (us @ q # vs) \<Longrightarrow> ptr st q = (if vs = [] then hd (us @ [q]) else hd vs)"
  by (cases vs; cases us) (auto simp: circle_def seg_append)

section \<open>Well-formed heaps\<close>

definition span :: "nat \<Rightarrow> nat \<Rightarrow> nat set" where
  "span a k = {a..<a + 8 * k}"

definition free_set :: "uheap \<Rightarrow> nat list \<Rightarrow> nat set" where
  "free_set st bs = (\<Union>a\<in>set bs. span a (units st a))"

definition heap_ok :: "nat \<Rightarrow> uheap \<Rightarrow> nat list \<Rightarrow> bool" where
  "heap_ok base st bs \<longleftrightarrow>
     circle st bs \<and> hd bs = base \<and> 0 < base \<and> units st base = 0 \<and> base + 8 \<le> brk st
     \<and> sorted_wrt (\<lambda>a b. a + 8 * units st a \<le> b) bs
     \<and> (\<forall>a\<in>set (tl bs). base + 8 \<le> a \<and> 1 \<le> units st a \<and> a + 8 * units st a \<le> brk st)"

lemma heap_ok_Cons: "heap_ok base st bs \<Longrightarrow> \<exists>cs. bs = base # cs"
  by (cases bs) (auto simp: heap_ok_def circle_def)

lemma heap_ok_less:
  assumes "heap_ok base st (us @ a # vs)" "b \<in> set vs"
  shows "a + 8 * units st a \<le> b" "a < b" "b \<noteq> base"
proof -
  have b: "b \<in> set (tl (us @ a # vs))" using assms(2) by (cases us) auto
  show le: "a + 8 * units st a \<le> b" using assms unfolding heap_ok_def sorted_wrt_append by auto
  have bb: "base + 8 \<le> b" using assms(1) b unfolding heap_ok_def by blast
  then show "b \<noteq> base" by simp
  show "a < b"
  proof (cases us)
    case Nil
    then have "a = base" using assms(1) by (simp add: heap_ok_def)
    then show ?thesis using bb by simp
  next
    case (Cons u us')
    then have "1 \<le> units st a" using assms(1) by (auto simp: heap_ok_def)
    then show ?thesis using le by linarith
  qed
qed

lemma heap_ok_distinct: "heap_ok base st bs \<Longrightarrow> distinct bs"
proof -
  assume ok: "heap_ok base st bs"
  have "vs = drop n bs \<Longrightarrow> distinct vs" for n vs
  proof (induction vs arbitrary: n)
    case (Cons a vs)
    have "bs = take n bs @ a # vs" using Cons.prems by (metis append_take_drop_id)
    then have "a \<notin> set vs" using heap_ok_less(2)[of base st "take n bs" a vs] ok by fastforce
    moreover have "vs = drop (Suc n) bs" using Cons.prems by (metis drop_Suc list.sel(3) tl_drop)
    ultimately show ?case using Cons.IH by simp
  qed simp
  from this[of bs 0] show ?thesis by simp
qed

lemma heap_ok_block:
  assumes "heap_ok base st bs" "a \<in> set bs"
  shows "a = base \<or> base + 8 \<le> a \<and> 1 \<le> units st a \<and> a + 8 * units st a \<le> brk st" "base \<le> a"
proof -
  obtain cs where "bs = base # cs" using heap_ok_Cons[OF assms(1)] by blast
  then show "a = base \<or> base + 8 \<le> a \<and> 1 \<le> units st a \<and> a + 8 * units st a \<le> brk st" using assms by (auto simp: heap_ok_def)
  then show "base \<le> a" by auto
qed

lemma heap_ok_before:
  assumes "heap_ok base st (xs @ p # ys)" "a \<in> set xs"
  shows "a + 8 * units st a \<le> p" "a < p"
proof -
  obtain us vs where "xs = us @ a # vs" using assms(2) by (meson split_list)
  then show "a + 8 * units st a \<le> p" "a < p" using heap_ok_less(1,2)[of base st us a "vs @ p # ys" p] assms(1) by simp_all
qed

text \<open>The pointer of a block is the next block upwards, or the lowest one.\<close>

lemma heap_ok_next:
  assumes "heap_ok base st bs" "a \<in> set bs"
  shows "ptr st a \<in> set bs" "ptr st a = base \<or> a < ptr st a" "p \<in> set bs \<Longrightarrow> a < p \<Longrightarrow> a < ptr st a \<and> ptr st a \<le> p"
proof -
  obtain us vs where s: "bs = us @ a # vs" using assms(2) by (meson split_list)
  have ok: "heap_ok base st (us @ a # vs)" using assms(1) s by simp
  have pt: "ptr st a = (if vs = [] then hd (us @ [a]) else hd vs)" using ok circle_ptr by (simp add: heap_ok_def)
  have hd: "hd (us @ [a]) = base" using ok by (cases us) (auto simp: heap_ok_def)
  have up: "a < ptr st a" if "vs \<noteq> []" using heap_ok_less(2)[OF ok] that pt by simp
  show "ptr st a \<in> set bs" using pt s by (cases us) auto
  show "ptr st a = base \<or> a < ptr st a" using up pt hd by auto
  assume p: "p \<in> set bs" "a < p"
  then have "p \<in> set vs" using heap_ok_before(2)[OF ok] s by fastforce
  then obtain v vs' where v: "vs = v # vs'" by (cases vs) auto
  have "v \<le> p" using heap_ok_less(2)[of base st "us @ [a]" v vs' p] ok \<open>p \<in> set vs\<close> v by auto
  then show "a < ptr st a \<and> ptr st a \<le> p" using pt v up by simp
qed

section \<open>Freeing\<close>

lemma free_find_place:
  assumes ok: "heap_ok base st bs" and p: "p \<in> set bs" "p < bp" "\<forall>y\<in>set bs. p < y \<longrightarrow> bp < y" and q: "q \<in> set bs"
  shows "free_find st bp q = Some p"
proof -
  have "base < bp" using heap_ok_block(2)[OF ok p(1)] p(2) by simp
  have at: "free_find st bp p = Some p"
    using p heap_ok_next(1,2)[OF ok p(1)] heap_ok_block(2)[OF ok p(1)] by (subst free_find.simps) auto
  have step: "free_find st bp a = free_find st bp (ptr st a)" if a: "a \<in> set bs" "a \<noteq> p" for a
  proof (cases "a < p")
    case True
    then show ?thesis using heap_ok_next(3)[OF ok a(1) p(1)] p(2) by (subst free_find.simps) simp
  next
    case False
    then have "bp < a" using p(3) a by simp
    then show ?thesis using heap_ok_next(2)[OF ok a(1)] \<open>base < bp\<close> by (subst free_find.simps) auto
  qed
  have "circle st bs" using ok by (simp add: heap_ok_def)
  then obtain zs where z: "circle st (q # zs)" "set (q # zs) = set bs" using circle_at[OF _ q] by blast
  have "\<exists>us r vs. q # zs = us @ r # vs \<and> r = p \<and> (\<forall>u\<in>set us. u \<noteq> p) \<and> free_find st bp q = free_find st bp r"
    using z p(1) step by (intro seg_first[where S = "\<lambda>r. r = p"]) (auto simp: circle_def)
  then show ?thesis using at by auto
qed

text \<open>Joining in two steps: the block is put behind \<open>p\<close>, then neighbours are merged.\<close>

definition put_behind :: "nat \<Rightarrow> nat \<Rightarrow> (nat \<Rightarrow> header) \<Rightarrow> nat \<Rightarrow> header" where
  "put_behind bp p h = h(bp := (h bp)\<lparr>h_ptr := h_ptr (h p)\<rparr>, p := (h p)\<lparr>h_ptr := bp\<rparr>)"

definition merge_next :: "nat \<Rightarrow> (nat \<Rightarrow> header) \<Rightarrow> nat \<Rightarrow> header" where
  "merge_next a h =
     (if a + 8 * h_size (h a) = h_ptr (h a)
      then h(a := \<lparr>h_ptr = h_ptr (h (h_ptr (h a))), h_size = h_size (h a) + h_size (h (h_ptr (h a)))\<rparr>) else h)"

lemma free_join_steps:
  assumes "p \<noteq> bp" "h_ptr (h p) \<noteq> bp" "bp + 8 * h_size (h bp) \<noteq> p"
  shows "free_join bp p h = merge_next p (merge_next bp (put_behind bp p h))"
  using assms by (auto simp: free_join_def merge_next_def put_behind_def Let_def fun_eq_iff)

lemma seg_split: "seg st a (xs @ p # ys) z \<longleftrightarrow> seg st a xs p \<and> seg st (ptr st p) ys z"
  by (induction xs arbitrary: a) auto

lemma circle_split: "circle st (xs @ p # ys) \<longleftrightarrow> seg st (hd (xs @ [p])) xs p \<and> seg st (ptr st p) ys (hd (xs @ [p]))"
  by (cases xs) (auto simp: circle_def seg_split)

lemma put_behind_ok:
  assumes ok: "heap_ok base st (xs @ p # ys)"
    and b: "p + 8 * units st p \<le> bp" "base + 8 \<le> bp" "1 \<le> units st bp" "bp + 8 * units st bp \<le> brk st" "\<forall>y\<in>set ys. bp + 8 * units st bp \<le> y"
  shows "heap_ok base (st\<lparr>hdr := put_behind bp p (hdr st)\<rparr>) (xs @ p # bp # ys)"
    "free_set (st\<lparr>hdr := put_behind bp p (hdr st)\<rparr>) (xs @ p # bp # ys) = free_set st (xs @ p # ys) \<union> span bp (units st bp)"
proof -
  define s where "s = st\<lparr>hdr := put_behind bp p (hdr st)\<rparr>"
  have sb: "brk s = brk st" by (simp add: s_def)
  have d: "distinct (xs @ p # ys)" by (rule heap_ok_distinct[OF ok])
  have n: "bp \<noteq> p" "bp \<notin> set xs" "bp \<notin> set ys"
    using b heap_ok_before[OF ok] heap_ok_block[OF ok, of p] by fastforce+
  have u: "units s a = units st a" for a by (simp add: s_def put_behind_def)
  have pt: "ptr s bp = ptr st p" "ptr s p = bp" using n by (simp_all add: s_def put_behind_def)
  have "ptr s a = ptr st a" if "a \<in> set xs \<union> set ys" for a using that d n by (auto simp: s_def put_behind_def)
  then have sg: "seg s a xs z = seg st a xs z" "seg s a ys z = seg st a ys z" for a z by (auto intro!: seg_cong)
  have "circle s (xs @ p # bp # ys)" using ok unfolding heap_ok_def circle_split by (simp add: sg pt)
  moreover have "hd (xs @ p # bp # ys) = hd (xs @ p # ys)" by (cases xs) simp_all
  moreover have "sorted_wrt (\<lambda>a b. a + 8 * units s a \<le> b) (xs @ p # bp # ys)"
  proof -
    have "a + 8 * units st a \<le> bp" if "a \<in> set xs" for a using heap_ok_before(1)[OF ok that] b(1) by linarith
    then show ?thesis using ok b unfolding u heap_ok_def sorted_wrt_append by auto
  qed
  moreover have "set (tl (xs @ p # bp # ys)) = insert bp (set (tl (xs @ p # ys)))" by (cases xs) auto
  ultimately show "heap_ok base (st\<lparr>hdr := put_behind bp p (hdr st)\<rparr>) (xs @ p # bp # ys)" using ok b unfolding heap_ok_def s_def[symmetric] u sb by simp
  show "free_set (st\<lparr>hdr := put_behind bp p (hdr st)\<rparr>) (xs @ p # bp # ys) = free_set st (xs @ p # ys) \<union> span bp (units st bp)" unfolding free_set_def s_def[symmetric] u by auto
qed

lemma merge_next_ok:
  assumes ok: "heap_ok base st (xs @ a # b # ys)" and a: "a \<noteq> base" "a + 8 * units st a = b"
  shows "heap_ok base (st\<lparr>hdr := merge_next a (hdr st)\<rparr>) (xs @ a # ys)"
    "free_set (st\<lparr>hdr := merge_next a (hdr st)\<rparr>) (xs @ a # ys) = free_set st (xs @ a # b # ys)"
proof -
  define s where "s = st\<lparr>hdr := merge_next a (hdr st)\<rparr>"
  have sb: "brk s = brk st" by (simp add: s_def)
  have d: "distinct (xs @ a # b # ys)" by (rule heap_ok_distinct[OF ok])
  have pa: "ptr st a = b" using ok by (simp add: heap_ok_def circle_split)
  have m: "merge_next a (hdr st) = (hdr st)(a := \<lparr>h_ptr = ptr st b, h_size = units st a + units st b\<rparr>)" using a pa by (simp add: merge_next_def)
  have u: "units s x = (if x = a then units st a + units st b else units st x)" for x by (simp add: s_def m)
  have pt: "ptr s a = ptr st b" by (simp add: s_def m)
  have "ptr s x = ptr st x" if "x \<in> set xs \<union> set ys" for x using that d by (auto simp: s_def m)
  then have sg: "seg s x xs z = seg st x xs z" "seg s x ys z = seg st x ys z" for x z by (auto intro!: seg_cong)
  have "circle s (xs @ a # ys)" using ok unfolding heap_ok_def circle_split by (simp add: sg pt)
  moreover have h: "hd (xs @ a # ys) = hd (xs @ a # b # ys)" by (cases xs) simp_all
  moreover have "units s base = 0" using ok a(1) by (simp add: u heap_ok_def)
  moreover have "sorted_wrt (\<lambda>x y. x + 8 * units s x \<le> y) (xs @ a # ys)"
  proof -
    let ?Q = "\<lambda>x y. x + 8 * units s x \<le> y"
    have o: "sorted_wrt (\<lambda>x y. x + 8 * units st x \<le> y) (xs @ a # b # ys)" using ok by (simp add: heap_ok_def)
    have same: "units s x = units st x" if "x \<in> set xs \<union> set ys" for x using that d by (auto simp: u)
    have "sorted_wrt ?Q xs" "sorted_wrt ?Q ys" using o same by (auto simp: sorted_wrt_append intro: sorted_wrt_mono_rel[rotated])
    moreover have "\<forall>x\<in>set xs. \<forall>y\<in>set (a # ys). ?Q x y" using o same by (auto simp: sorted_wrt_append)
    moreover have "a + 8 * units s a = b + 8 * units st b" using a(2) by (simp add: u)
    moreover from this have "\<forall>y\<in>set ys. ?Q a y" using heap_ok_less(1)[of base st "xs @ [a]" b ys] ok by simp
    ultimately show ?thesis by (simp add: sorted_wrt_append)
  qed
  moreover have "\<forall>x\<in>set (tl (xs @ a # ys)). base + 8 \<le> x \<and> 1 \<le> units s x \<and> x + 8 * units s x \<le> brk st"
  proof
    fix x assume x: "x \<in> set (tl (xs @ a # ys))"
    then have "x \<in> set (tl (xs @ a # b # ys))" by (cases xs) auto
    then have o: "base + 8 \<le> x \<and> 1 \<le> units st x \<and> x + 8 * units st x \<le> brk st" using ok unfolding heap_ok_def by blast
    have "b \<noteq> base" using heap_ok_less(3)[OF ok, of b] by simp
    then have "b + 8 * units st b \<le> brk st" using heap_ok_block(1)[OF ok, of b] by simp
    then show "base + 8 \<le> x \<and> 1 \<le> units s x \<and> x + 8 * units s x \<le> brk st" using o a by (auto simp: u)
  qed
  ultimately show "heap_ok base (st\<lparr>hdr := merge_next a (hdr st)\<rparr>) (xs @ a # ys)" using ok unfolding heap_ok_def s_def[symmetric] sb by simp
  have "span a (units st a + units st b) = span a (units st a) \<union> span b (units st b)" using a(2) by (auto simp: span_def)
  then show "free_set (st\<lparr>hdr := merge_next a (hdr st)\<rparr>) (xs @ a # ys) = free_set st (xs @ a # b # ys)"
    unfolding free_set_def s_def[symmetric] u using d by (auto split: if_splits)
qed

definition has_block :: "uheap \<Rightarrow> nat list \<Rightarrow> nat \<Rightarrow> bool" where
  "has_block st bs k \<longleftrightarrow> (\<exists>x\<in>set bs. k \<le> units st x)"

lemma merge_next_any:
  assumes ok: "heap_ok base st (xs @ a # zs)" and z: "a = base \<longrightarrow> zs \<noteq> []"
  obtains zs' where "heap_ok base (st\<lparr>hdr := merge_next a (hdr st)\<rparr>) (xs @ a # zs')"
    "free_set (st\<lparr>hdr := merge_next a (hdr st)\<rparr>) (xs @ a # zs') = free_set st (xs @ a # zs)"
    "\<And>k. has_block st (xs @ a # zs) k \<Longrightarrow> has_block (st\<lparr>hdr := merge_next a (hdr st)\<rparr>) (xs @ a # zs') k"
proof (cases "a + 8 * units st a = ptr st a")
  case True
  have n: "a \<noteq> base \<and> zs \<noteq> []"
  proof (cases zs)
    case Nil
    then have "ptr st a = base" "base \<le> a" using circle_ptr[of st xs a zs] ok heap_ok_block(2)[OF ok, of a] by (auto simp: heap_ok_def hd_append)
    moreover have "a \<noteq> base" using z Nil by simp
    ultimately show ?thesis using True by simp
  next
    case (Cons y ys)
    then have "ptr st a = y" using circle_ptr[of st xs a zs] ok by (simp add: heap_ok_def)
    moreover have "a < y" using heap_ok_less(2)[OF ok] Cons by simp
    moreover have "units st base = 0" using ok by (simp add: heap_ok_def)
    ultimately show ?thesis using True Cons by auto
  qed
  then obtain y ys where y: "zs = y # ys" by (cases zs) auto
  then have pa: "ptr st a = y" using circle_ptr[of st xs a zs] ok by (simp add: heap_ok_def)
  then have "units (st\<lparr>hdr := merge_next a (hdr st)\<rparr>) x = (if x = a then units st a + units st y else units st x)" for x
    using True by (simp add: merge_next_def)
  then have "has_block st (xs @ a # zs) k \<Longrightarrow> has_block (st\<lparr>hdr := merge_next a (hdr st)\<rparr>) (xs @ a # ys) k" for k
    unfolding has_block_def y by (fastforce intro: trans_le_add1 trans_le_add2)
  then show thesis using merge_next_ok[of base st xs a y ys] ok n True y pa that[of ys] by simp
next
  case False
  then have "merge_next a (hdr st) = hdr st" by (simp add: merge_next_def)
  then show thesis using ok by (intro that[of zs]) simp_all
qed

lemma free_place:
  assumes ok: "heap_ok base st bs" and b: "base + 8 \<le> bp" "1 \<le> units st bp" "span bp (units st bp) \<inter> free_set st bs = {}"
  obtains xs p ys where "bs = xs @ p # ys" "p + 8 * units st p \<le> bp" "p < bp" "\<forall>y\<in>set ys. bp + 8 * units st bp \<le> y"
proof -
  obtain cs where cs: "bs = base # cs" using heap_ok_Cons[OF ok] by blast
  have ne: "takeWhile (\<lambda>a. a < bp) bs \<noteq> []" using cs b(1) by simp
  define xs p ys where "xs = butlast (takeWhile (\<lambda>a. a < bp) bs)" and "p = last (takeWhile (\<lambda>a. a < bp) bs)" and "ys = dropWhile (\<lambda>a. a < bp) bs"
  have bs: "bs = xs @ p # ys" unfolding xs_def p_def ys_def
    using append_butlast_last_id[OF ne] takeWhile_dropWhile_id[of "\<lambda>a. a < bp" bs] by (metis append.assoc append_Cons append_Nil)
  have p: "p < bp" using last_in_set[OF ne] unfolding p_def by (rule set_takeWhileD[THEN conjunct2])
  have me: "bp \<in> span bp (units st bp)" using b(2) by (simp add: span_def)
  have "p + 8 * units st p \<le> bp"
  proof (rule ccontr)
    assume "\<not> p + 8 * units st p \<le> bp"
    then have "bp \<in> span p (units st p)" using p by (simp add: span_def)
    then have "bp \<in> free_set st bs" using bs by (auto simp: free_set_def)
    then show False using b(3) me by blast
  qed
  moreover have "bp + 8 * units st bp \<le> y" if y: "y \<in> set ys" for y
  proof (rule ccontr)
    assume lt: "\<not> bp + 8 * units st bp \<le> y"
    have "bp \<le> hd ys" using y unfolding ys_def by (metis hd_dropWhile linorder_not_less list.distinct(1) list.set_cases)
    moreover have "hd ys \<le> y" using y ok heap_ok_less(2)[of base st "xs @ [p]" "hd ys" "tl ys" y] bs by (cases ys) auto
    ultimately have "y \<in> span bp (units st bp)" using lt by (simp add: span_def)
    moreover have "y \<noteq> base" using \<open>bp \<le> hd ys\<close> \<open>hd ys \<le> y\<close> b(1) by linarith
    then have "y \<in> span y (units st y)" using heap_ok_block(1)[OF ok, of y] bs y by (auto simp: span_def)
    then have "y \<in> free_set st bs" using bs y by (auto simp: free_set_def)
    ultimately show False using b(3) by blast
  qed
  ultimately show thesis using bs p by (intro that) auto
qed

text \<open>A well-formed heap with free memory \<open>F\<close>; no header changes that is not within \<open>G\<close>.\<close>

definition heap_with :: "nat \<Rightarrow> uheap \<Rightarrow> nat list \<Rightarrow> nat set \<Rightarrow> bool" where
  "heap_with base st bs F \<longleftrightarrow> heap_ok base st bs \<and> freep st \<in> set bs \<and> free_set st bs = F"

definition same_outside :: "nat \<Rightarrow> nat set \<Rightarrow> uheap \<Rightarrow> uheap \<Rightarrow> bool" where
  "same_outside base G st st' \<longleftrightarrow> (\<forall>x. x \<noteq> base \<longrightarrow> \<not> span x 1 \<subseteq> G \<longrightarrow> hdr st' x = hdr st x)"

lemma same_outside_trans: "same_outside base G a b \<Longrightarrow> same_outside base G b c \<Longrightarrow> same_outside base G a c"
  by (simp add: same_outside_def)

lemma merge_next_other: "x \<noteq> a \<Longrightarrow> merge_next a h x = h x"
  by (simp add: merge_next_def)

lemma heap_ok_freep: "heap_ok base (st\<lparr>freep := f\<rparr>) bs = heap_ok base st bs" "free_set (st\<lparr>freep := f\<rparr>) bs = free_set st bs"
proof -
  have "seg (st\<lparr>freep := f\<rparr>) a xs z = seg st a xs z" for a xs z by (rule seg_cong) simp
  then show "heap_ok base (st\<lparr>freep := f\<rparr>) bs = heap_ok base st bs" by (simp add: heap_ok_def circle_def)
qed (simp add: free_set_def)

lemma in_free_set: "heap_ok base st bs \<Longrightarrow> a \<in> set bs \<Longrightarrow> a \<noteq> base \<Longrightarrow> a \<in> free_set st bs"
  using heap_ok_block(1)[of base st bs a] by (auto simp: free_set_def span_def intro!: bexI[of _ a])

lemma in_free_hdr: "heap_ok base st bs \<Longrightarrow> a \<in> set bs \<Longrightarrow> a \<noteq> base \<Longrightarrow> span a 1 \<subseteq> free_set st bs"
  using heap_ok_block(1)[of base st bs a] by (fastforce simp: free_set_def span_def)

lemma span_hdr: "1 \<le> k \<Longrightarrow> span a 1 \<subseteq> span a k" "a \<in> span a 1"
  by (auto simp: span_def)

lemma free_ok:
  assumes h: "heap_with base st bs F"
    and b: "base + 8 \<le> bp" "1 \<le> units st bp" "bp + 8 * units st bp \<le> brk st" "span bp (units st bp) \<inter> F = {}"
  shows "\<exists>st' bs'. free (bp + 8) st = Some st' \<and> heap_with base st' bs' (F \<union> span bp (units st bp)) \<and> brk st' = brk st
    \<and> same_outside base (F \<union> span bp (units st bp)) st st' \<and> has_block st' bs' (units st bp)"
proof -
  have ok: "heap_ok base st bs" and fp: "freep st \<in> set bs" and F: "free_set st bs = F" using h by (auto simp: heap_with_def)
  obtain xs p ys where s: "bs = xs @ p # ys" "p + 8 * units st p \<le> bp" "p < bp" "\<forall>y\<in>set ys. bp + 8 * units st bp \<le> y"
    using free_place[OF ok b(1,2)] b(4) F by metis
  have ok': "heap_ok base st (xs @ p # ys)" using ok s(1) by simp
  have up: "\<forall>y\<in>set bs. p < y \<longrightarrow> bp < y" using s heap_ok_before(2)[OF ok'] b(2) by fastforce
  have find: "free_find st bp (freep st) = Some p" using s(1) by (intro free_find_place[OF ok _ s(3) up fp]) simp
  have me: "bp \<in> span bp (units st bp)" using b(2) by (simp add: span_def)
  then have "bp \<notin> set bs" using in_free_set[OF ok, of bp] b(1,4) F by auto
  then have "ptr st p \<noteq> bp" using heap_ok_next(1)[OF ok, of p] s(1) by auto
  then have join: "free_join bp p (hdr st) = merge_next p (merge_next bp (put_behind bp p (hdr st)))" using s(3) by (intro free_join_steps) auto
  let ?s1 = "st\<lparr>hdr := put_behind bp p (hdr st)\<rparr>"
  let ?s2 = "?s1\<lparr>hdr := merge_next bp (hdr ?s1)\<rparr>"
  let ?s3 = "?s2\<lparr>hdr := merge_next p (hdr ?s2)\<rparr>"
  note P = put_behind_ok[OF ok' s(2) b(1-3) s(4)]
  have P1: "heap_ok base ?s1 ((xs @ [p]) @ bp # ys)" using P(1) by simp
  have nb: "bp = base \<longrightarrow> ys \<noteq> []" using b(1) by simp
  obtain zs where z: "heap_ok base ?s2 ((xs @ [p]) @ bp # zs)" "free_set ?s2 ((xs @ [p]) @ bp # zs) = free_set ?s1 ((xs @ [p]) @ bp # ys)"
      "\<And>k. has_block ?s1 ((xs @ [p]) @ bp # ys) k \<Longrightarrow> has_block ?s2 ((xs @ [p]) @ bp # zs) k"
    using merge_next_any[OF P1 nb] by blast
  have z1: "heap_ok base ?s2 (xs @ p # bp # zs)" using z(1) by simp
  obtain ws where w: "heap_ok base ?s3 (xs @ p # ws)" "free_set ?s3 (xs @ p # ws) = free_set ?s2 (xs @ p # bp # zs)"
      "\<And>k. has_block ?s2 (xs @ p # bp # zs) k \<Longrightarrow> has_block ?s3 (xs @ p # ws) k"
    using merge_next_any[OF z1] by blast
  let ?t = "?s3\<lparr>freep := p\<rparr>"
  have f: "free (bp + 8) st = Some ?t" using find by (simp add: free_def join)
  have "free_set ?t (xs @ p # ws) = F \<union> span bp (units st bp)" using w(2) z(2) P(2) F s(1) by (simp add: heap_ok_freep)
  then have "heap_with base ?t (xs @ p # ws) (F \<union> span bp (units st bp))" using w(1) by (simp add: heap_with_def heap_ok_freep del: append.simps)
  moreover have "has_block ?s1 ((xs @ [p]) @ bp # ys) (units st bp)" by (auto simp: has_block_def put_behind_def)
  then have "has_block ?s3 (xs @ p # ws) (units st bp)" using w(3)[of "units st bp"] z(3)[of "units st bp"] by simp
  then have "has_block ?t (xs @ p # ws) (units st bp)" by (simp add: has_block_def)
  moreover have "same_outside base (F \<union> span bp (units st bp)) st ?t"
    unfolding same_outside_def
  proof (intro allI impI)
    fix x assume x: "x \<noteq> base" "\<not> span x 1 \<subseteq> F \<union> span bp (units st bp)"
    then have "x \<noteq> p" "x \<noteq> bp" using in_free_hdr[OF ok, of p] span_hdr(1)[OF b(2)] F s(1) by auto
    then show "hdr ?t x = hdr st x" by (simp add: merge_next_other put_behind_def)
  qed
  ultimately show ?thesis using f by (intro exI[of _ ?t] exI[of _ "xs @ p # ws"]) simp
qed

section \<open>Allocating\<close>

text \<open>Taking \<open>n\<close> units from the block \<open>p\<close> behind \<open>q\<close>.\<close>

lemma unlink_ok:
  assumes ok: "heap_ok base st (xs @ q # p # ys)"
  defines "s \<equiv> st\<lparr>hdr := (hdr st)(q := (hdr st q)\<lparr>h_ptr := ptr st p\<rparr>)\<rparr>"
  shows "heap_ok base s (xs @ q # ys)" "free_set st (xs @ q # p # ys) = free_set s (xs @ q # ys) \<union> span p (units st p)"
    "span p (units st p) \<inter> free_set s (xs @ q # ys) = {}"
proof -
  have d: "distinct (xs @ q # p # ys)" by (rule heap_ok_distinct[OF ok])
  have u: "units s a = units st a" "brk s = brk st" for a by (simp_all add: s_def)
  have pt: "ptr s q = ptr st p" by (simp add: s_def)
  have "ptr s a = ptr st a" if "a \<in> set xs \<union> set ys" for a using that d by (auto simp: s_def)
  then have sg: "seg s a xs z = seg st a xs z" "seg s a ys z = seg st a ys z" for a z by (auto intro!: seg_cong)
  have "circle s (xs @ q # ys)" using ok unfolding heap_ok_def circle_split by (simp add: sg pt)
  moreover have "hd (xs @ q # p # ys) = hd (xs @ q # ys)" by (cases xs) simp_all
  moreover have "sorted_wrt (\<lambda>a b. a + 8 * units st a \<le> b) (xs @ q # ys)" using ok unfolding heap_ok_def sorted_wrt_append by auto
  moreover have "set (tl (xs @ q # ys)) \<subseteq> set (tl (xs @ q # p # ys))" by (cases xs) auto
  ultimately show "heap_ok base s (xs @ q # ys)" using ok unfolding heap_ok_def u by auto
  show "free_set st (xs @ q # p # ys) = free_set s (xs @ q # ys) \<union> span p (units st p)" unfolding free_set_def u by auto
  have "span p (units st p) \<inter> span a (units st a) = {}" if "a \<in> set (xs @ q # ys)" for a
    using that heap_ok_before(1)[of base st "xs @ [q]" p ys a] heap_ok_less(1)[of base st "xs @ [q]" p ys a] ok by (auto simp: span_def)
  then show "span p (units st p) \<inter> free_set s (xs @ q # ys) = {}" unfolding free_set_def u by blast
qed

lemma shrink_ok:
  assumes ok: "heap_ok base st bs" and p: "p \<in> set bs" "p \<noteq> base" "n < units st p" "1 \<le> n"
  defines "q \<equiv> p + 8 * (units st p - n)"
  defines "h \<equiv> (hdr st)(p := (hdr st p)\<lparr>h_size := units st p - n\<rparr>)"
  defines "s \<equiv> st\<lparr>hdr := h(q := (h q)\<lparr>h_size := n\<rparr>)\<rparr>"
  shows "heap_ok base s bs" "free_set st bs = free_set s bs \<union> span q n" "span q n \<inter> free_set s bs = {}" "units s q = n"
proof -
  have qp: "q \<in> span p (units st p)" "q \<noteq> p" using p(3,4) by (auto simp: q_def span_def)
  have disj: "a + 8 * units st a \<le> p \<or> p + 8 * units st p \<le> a" if "a \<in> set bs" "a \<noteq> p" for a
  proof -
    obtain xs ys where "bs = xs @ p # ys" using p(1) by (meson split_list)
    then show ?thesis using that heap_ok_before(1)[of base st xs p ys a] heap_ok_less(1)[of base st xs p ys a] ok by auto
  qed
  have qn: "q \<notin> set bs"
  proof
    assume "q \<in> set bs"
    then have "q + 8 * units st q \<le> p \<or> p + 8 * units st p \<le> q" using disj qp(2) by blast
    then show False using qp(1) p(3,4) by (auto simp: q_def span_def)
  qed
  have u: "units s a = (if a = p then units st p - n else units st a)" if "a \<in> set bs" for a using that qn qp(2) by (auto simp: s_def h_def)
  have pt: "ptr s a = ptr st a" "brk s = brk st" for a by (simp_all add: s_def h_def)
  show "units s q = n" by (simp add: s_def)
  have "seg s a bs z = seg st a bs z" for a z using pt by (intro seg_cong) simp
  then have "circle s bs" using ok unfolding heap_ok_def circle_def by auto
  moreover have "sorted_wrt (\<lambda>a b. a + 8 * units s a \<le> b) bs"
  proof (rule sorted_wrt_mono_rel)
    show "sorted_wrt (\<lambda>a b. a + 8 * units st a \<le> b) bs" using ok by (simp add: heap_ok_def)
    show "a + 8 * units s a \<le> b" if "a \<in> set bs" "a + 8 * units st a \<le> b" for a b using u[OF that(1)] that(2) by auto
  qed
  moreover have "units s base = 0" using u[of base] ok heap_ok_Cons[OF ok] p(2) by (auto simp: heap_ok_def)
  moreover have "\<forall>a\<in>set (tl bs). base + 8 \<le> a \<and> 1 \<le> units s a \<and> a + 8 * units s a \<le> brk st"
  proof
    fix a assume a: "a \<in> set (tl bs)"
    then have "base + 8 \<le> a \<and> 1 \<le> units st a \<and> a + 8 * units st a \<le> brk st" "a \<in> set bs" using ok heap_ok_Cons[OF ok] by (auto simp: heap_ok_def)
    then show "base + 8 \<le> a \<and> 1 \<le> units s a \<and> a + 8 * units s a \<le> brk st" using u[of a] p(3) by auto
  qed
  ultimately show "heap_ok base s bs" using ok unfolding heap_ok_def pt(2) by simp
  have sp: "span p (units st p) = span p (units st p - n) \<union> span q n" "span q n \<inter> span p (units st p - n) = {}" using p(3) by (auto simp: span_def q_def)
  have o: "span q n \<inter> span a (units st a) = {}" if "a \<in> set bs" "a \<noteq> p" for a using disj[OF that] sp(1) by (auto simp: span_def q_def)
  have f: "free_set s bs = span p (units st p - n) \<union> (\<Union>a\<in>set bs - {p}. span a (units st a))"
    unfolding free_set_def using u p(1) by (auto split: if_splits)
  have "free_set st bs = span p (units st p) \<union> (\<Union>a\<in>set bs - {p}. span a (units st a))" unfolding free_set_def using p(1) by auto
  then show "free_set st bs = free_set s bs \<union> span q n" using f sp(1) by blast
  show "span q n \<inter> free_set s bs = {}" unfolding f using sp(2) o by blast
qed

text \<open>The block \<open>p\<close> behind \<open>q\<close> gives \<open>n\<close> of its units away.\<close>

definition gives :: "nat \<Rightarrow> nat set \<Rightarrow> uheap \<Rightarrow> nat \<Rightarrow> nat \<Rightarrow> uheap \<Rightarrow> nat set \<Rightarrow> bool" where
  "gives base F st n a st' F' \<longleftrightarrow>
     F = F' \<union> span a n \<and> span a n \<inter> F' = {} \<and> units st' a = n \<and> brk st' = brk st \<and> same_outside base F st st'"

lemma malloc_take_ok:
  assumes h: "heap_with base st bs F" and q: "q \<in> set bs" "n \<le> units st (ptr st q)" "1 \<le> n"
  shows "\<exists>a st' bs' F'. malloc_take n q (ptr st q) st = (a + 8, st') \<and> heap_with base st' bs' F' \<and> gives base F st n a st' F'"
proof -
  define p where "p = ptr st q"
  have ok: "heap_ok base st bs" and F: "free_set st bs = F" using h by (auto simp: heap_with_def)
  have "units st base = 0" using ok by (simp add: heap_ok_def)
  then have pb: "p \<noteq> base" "p \<in> set bs" using q(2,3) heap_ok_next(1)[OF ok q(1)] by (auto simp: p_def)
  have pF: "span p 1 \<subseteq> F" using in_free_hdr[OF ok pb(2,1)] F by simp
  show ?thesis
  proof (cases "units st p = n")
    case True
    obtain xs zs where s: "bs = xs @ q # zs" using q(1) by (meson split_list)
    have "zs \<noteq> []" using circle_ptr[of st xs q zs] ok pb(1) s by (cases xs) (auto simp: heap_ok_def p_def)
    then obtain ys where z: "bs = xs @ q # p # ys" using circle_ptr[of st xs q zs] ok s by (cases zs) (auto simp: heap_ok_def p_def)
    note U = unlink_ok[of base st xs q p ys]
    define t where "t = st\<lparr>hdr := (hdr st)(q := (hdr st q)\<lparr>h_ptr := ptr st p\<rparr>)\<rparr>"
    have t: "heap_ok base t (xs @ q # ys)" "F = free_set t (xs @ q # ys) \<union> span p n" "span p n \<inter> free_set t (xs @ q # ys) = {}"
      using U ok z F True unfolding t_def by simp_all
    have "same_outside base F st (t\<lparr>freep := q\<rparr>)" using in_free_hdr[OF ok q(1)] F by (auto simp: same_outside_def t_def)
    moreover have "units t p = n" "brk t = brk st" using True by (auto simp: t_def)
    ultimately have "gives base F st n p (t\<lparr>freep := q\<rparr>) (free_set t (xs @ q # ys))" using t(2,3) by (simp add: gives_def)
    moreover have "heap_with base (t\<lparr>freep := q\<rparr>) (xs @ q # ys) (free_set t (xs @ q # ys))" using t(1) by (simp add: heap_with_def heap_ok_freep)
    moreover have "malloc_take n q p st = (p + 8, t\<lparr>freep := q\<rparr>)" using True by (simp add: malloc_take_def t_def)
    ultimately show ?thesis unfolding p_def[symmetric] by blast
  next
    case False
    then have lt: "n < units st p" using q(2) by (simp add: p_def)
    define a where "a = p + 8 * (units st p - n)"
    define g where "g = (hdr st)(p := (hdr st p)\<lparr>h_size := units st p - n\<rparr>)"
    define t where "t = st\<lparr>hdr := g(a := (g a)\<lparr>h_size := n\<rparr>)\<rparr>"
    note S = shrink_ok[OF ok pb(2,1) lt q(3), folded a_def, folded g_def, folded t_def]
    have "span a 1 \<subseteq> F" using S(2) F span_hdr(1)[OF q(3)] by blast
    then have "same_outside base F st (t\<lparr>freep := q\<rparr>)" using pF by (auto simp: same_outside_def t_def g_def)
    moreover have "brk t = brk st" by (simp add: t_def)
    ultimately have "gives base F st n a (t\<lparr>freep := q\<rparr>) (free_set t bs)" using S(2-4) F by (simp add: gives_def)
    moreover have "heap_with base (t\<lparr>freep := q\<rparr>) bs (free_set t bs)" using S(1) q(1) by (simp add: heap_with_def heap_ok_freep)
    moreover have "malloc_take n q p st = (a + 8, t\<lparr>freep := q\<rparr>)" using False by (simp add: malloc_take_def t_def g_def a_def Let_def)
    ultimately show ?thesis unfolding p_def[symmetric] by blast
  qed
qed

text \<open>The first block that is large enough is found, wherever it is on the circle.\<close>

lemma circle_pred:
  assumes "circle st bs" "x \<in> set bs"
  shows "\<exists>y\<in>set bs. ptr st y = x"
proof -
  obtain zs where z: "circle st (x # zs)" "set (x # zs) = set bs" using circle_at[OF assms] by blast
  have e: "x # zs = butlast (x # zs) @ [last (x # zs)]" by simp
  then have "ptr st (last (x # zs)) = hd (x # zs)" using circle_ptr[of st "butlast (x # zs)" "last (x # zs)" "[]"] z(1) by (metis append_Cons append_Nil2)
  then show ?thesis using z(2) last_in_set[of "x # zs"] by (metis list.discI list.sel(1))
qed

lemma malloc_walk:
  assumes h: "heap_with base st bs F"
  obtains r where "r \<in> set bs" "malloc_loop sbrk n (freep st) (ptr st (freep st)) st = malloc_loop sbrk n r (ptr st r) st"
    "n \<le> units st (ptr st r) \<or> ptr st r = freep st" "has_block st bs n \<Longrightarrow> n \<le> units st (ptr st r)"
proof -
  have ok: "heap_ok base st bs" and f: "freep st \<in> set bs" using h by (auto simp: heap_with_def)
  have c: "circle st bs" using ok by (simp add: heap_ok_def)
  obtain zs where z: "circle st (freep st # zs)" "set (freep st # zs) = set bs" "distinct (freep st # zs)"
    using circle_at[OF c f] heap_ok_distinct[OF ok] by metis
  let ?S = "\<lambda>q. n \<le> units st (ptr st q) \<or> ptr st q = freep st"
  have ex: "\<exists>r\<in>set (freep st # zs). ?S r" using circle_pred[OF c f] z(2) by blast
  have step: "malloc_loop sbrk n q (ptr st q) st = malloc_loop sbrk n (ptr st q) (ptr st (ptr st q)) st" if "\<not> ?S q" for q
    using that by (subst malloc_loop.simps) simp
  obtain us r vs where r: "freep st # zs = us @ r # vs" "?S r" "\<forall>u\<in>set us. \<not> ?S u"
      "malloc_loop sbrk n (freep st) (ptr st (freep st)) st = malloc_loop sbrk n r (ptr st r) st"
    using seg_first[where S = ?S and f = "\<lambda>q. malloc_loop sbrk n q (ptr st q) st", OF _ ex step] z(1) unfolding circle_def by (metis (no_types, lifting) list.sel(1))
  have "n \<le> units st (ptr st r)" if hb: "has_block st bs n"
  proof (rule ccontr)
    assume no: "\<not> n \<le> units st (ptr st r)"
    then have "ptr st r = freep st" using r(2) by simp
    moreover have "ptr st r = hd vs" if "vs \<noteq> []" using circle_ptr[of st us r vs] z(1) r(1) that by simp
    moreover have "freep st \<in> set (us @ [r])" using r(1) by (cases us) auto
    ultimately have "vs = []" using z(3) unfolding r(1) by (cases vs) auto
    then have "\<forall>u\<in>set bs. \<not> n \<le> units st (ptr st u)" using r(1,3) z(2) no by auto
    moreover obtain x where "x \<in> set bs" "n \<le> units st x" using hb by (auto simp: has_block_def)
    ultimately show False using circle_pred[OF c] by blast
  qed
  moreover have "r \<in> set bs" using r(1) z(2) by (metis in_set_conv_decomp)
  ultimately show thesis using r by (intro that)
qed

lemma malloc_loop_fit:
  assumes h: "heap_with base st bs F" and n: "has_block st bs n" "1 \<le> n"
  shows "\<exists>a st' bs' F'. malloc_loop sbrk n (freep st) (ptr st (freep st)) st = Some (a + 8, st') \<and> heap_with base st' bs' F' \<and> gives base F st n a st' F'"
proof -
  obtain r where r: "r \<in> set bs" "malloc_loop sbrk n (freep st) (ptr st (freep st)) st = malloc_loop sbrk n r (ptr st r) st" "n \<le> units st (ptr st r)"
    using malloc_walk[OF h, of sbrk n] n(1) by metis
  moreover from r(3) have "malloc_loop sbrk n r (ptr st r) st = Some (malloc_take n r (ptr st r) st)" by (subst malloc_loop.simps) simp
  ultimately show ?thesis using malloc_take_ok[OF h r(1,3) n(2)] by auto
qed

text \<open>
  What \<^verbatim>\<open>malloc\<close> relies on: asked for a non-negative number of bytes, \<^verbatim>\<open>sbrk\<close> fails or appends that many to the memory and returns its old end.
\<close>

definition sbrk_grows :: "sbrk \<Rightarrow> bool" where
  "sbrk_grows sbrk \<longleftrightarrow> (\<forall>k b. 0 \<le> k \<longrightarrow> sbrk k b = None \<or> sbrk k b = Some (b, b + nat k))"

definition grown :: "uheap \<Rightarrow> uheap \<Rightarrow> nat set" where
  "grown st st' = {brk st..<brk st'}"

lemma heap_ok_ext:
  assumes "heap_ok base st bs" "\<And>a. a \<in> set bs \<Longrightarrow> hdr st' a = hdr st a" "brk st \<le> brk st'"
  shows "heap_ok base st' bs" "free_set st' bs = free_set st bs"
proof -
  have "seg st' a bs z = seg st a bs z" for a z using assms(2) by (intro seg_cong) simp
  then have "circle st' bs" using assms(1) unfolding heap_ok_def circle_def by auto
  moreover have "sorted_wrt (\<lambda>a b. a + 8 * units st' a \<le> b) bs"
  proof (rule sorted_wrt_mono_rel)
    show "sorted_wrt (\<lambda>a b. a + 8 * units st a \<le> b) bs" using assms(1) by (simp add: heap_ok_def)
  qed (simp add: assms(2))
  ultimately show "heap_ok base st' bs" using assms heap_ok_Cons[OF assms(1)] by (fastforce simp: heap_ok_def)
qed (simp add: free_set_def assms(2))

lemma free_below: "heap_ok base st bs \<Longrightarrow> x \<in> free_set st bs \<Longrightarrow> base + 8 \<le> x \<and> x < brk st"
proof -
  assume ok: "heap_ok base st bs" and x: "x \<in> free_set st bs"
  then obtain a where a: "a \<in> set bs" "a \<le> x" "x < a + 8 * units st a" by (auto simp: free_set_def span_def)
  then have "a \<noteq> base" using ok by (auto simp: heap_ok_def)
  then show ?thesis using heap_ok_block(1)[OF ok a(1)] a by linarith
qed

lemma sint_bytes: "k < 2 ^ 28 \<Longrightarrow> sint (of_nat (k * 8) :: u32) = int (k * 8)"
proof -
  assume k: "k < 2 ^ 28"
  then have "unat (of_nat (k * 8) :: u32) = k * 8" by (simp add: unat_of_nat del: of_nat_mult)
  then show ?thesis using k sint_unat[of "of_nat (k * 8)"] by simp
qed

lemma morecore_ok:
  assumes h: "heap_with base st bs F" and g: "sbrk_grows sbrk" and n: "n < 2 ^ 28"
  shows "sbrk (8 * int (max 4096 n)) (brk st) = None \<and> morecore sbrk n st = Some (0, st)
    \<or> (\<exists>st' bs'. morecore sbrk n st = Some (freep st', st') \<and> heap_with base st' bs' (F \<union> grown st st') \<and> brk st \<le> brk st'
         \<and> same_outside base (F \<union> grown st st') st st' \<and> has_block st' bs' n)"
proof -
  define k where "k = max 4096 n"
  have arg: "sint (of_nat (k * 8) :: u32) = 8 * int k" using sint_bytes[of k] n by (simp add: k_def)
  have "(if n < 4096 then 4096 else n) = k" by (auto simp: k_def)
  then have mc: "morecore sbrk n st = (case sbrk (8 * int k) (brk st) of None \<Rightarrow> Some (0, st)
      | Some (p, e) \<Rightarrow> Option.bind (free (p + 8) (st\<lparr>hdr := (hdr st)(p := (hdr st p)\<lparr>h_size := k\<rparr>), brk := e\<rparr>)) (\<lambda>st'. Some (freep st', st')))"
    using arg by (simp add: morecore_def Let_def)
  have "sbrk (8 * int k) (brk st) = None \<or> sbrk (8 * int k) (brk st) = Some (brk st, brk st + 8 * k)"
    using g unfolding sbrk_grows_def by (metis nat_int of_nat_0_le_iff of_nat_mult of_nat_numeral)
  then show ?thesis
  proof
    assume "sbrk (8 * int k) (brk st) = None"
    then show ?thesis using mc by (simp add: k_def)
  next
    assume s: "sbrk (8 * int k) (brk st) = Some (brk st, brk st + 8 * k)"
    define b where "b = brk st"
    define t where "t = st\<lparr>hdr := (hdr st)(b := (hdr st b)\<lparr>h_size := k\<rparr>), brk := b + 8 * k\<rparr>"
    have ok: "heap_ok base st bs" and F: "free_set st bs = F" and f: "freep st \<in> set bs" using h by (auto simp: heap_with_def)
    have "hdr t a = hdr st a" if "a \<in> set bs" for a
      using heap_ok_block(1)[OF ok that] ok by (auto simp: t_def b_def heap_ok_def)
    then have "heap_ok base t bs" "free_set t bs = F" using heap_ok_ext[OF ok, of t] F by (auto simp: t_def b_def)
    then have ht: "heap_with base t bs F" using f by (simp add: heap_with_def t_def)
    have u: "units t b = k" "1 \<le> k" "brk t = b + 8 * k" by (simp_all add: t_def k_def)
    have "base + 8 \<le> b" using ok by (simp add: heap_ok_def b_def)
    moreover have d: "span b k \<inter> F = {}" using free_below[OF ok] F by (fastforce simp: span_def b_def)
    ultimately obtain st' bs' where r: "free (b + 8) t = Some st'" "heap_with base st' bs' (F \<union> span b k)" "brk st' = brk t"
        "same_outside base (F \<union> span b k) t st'" "has_block st' bs' k"
      using free_ok[OF ht, of b] u by auto
    have gr: "grown st st' = span b k" using r(3) u(3) by (simp add: grown_def span_def b_def)
    have "same_outside base (F \<union> span b k) st t" using span_hdr(1)[OF u(2)] by (auto simp: same_outside_def t_def)
    then have "same_outside base (F \<union> span b k) st st'" using r(4) by (rule same_outside_trans)
    moreover have "has_block st' bs' n" using r(5) by (auto simp: has_block_def k_def)
    moreover have "morecore sbrk n st = Some (freep st', st')" using mc s r(1) by (simp add: t_def b_def)
    ultimately show ?thesis using r(2,3) u(3) gr by (intro disjI2 exI[of _ st'] exI[of _ bs']) (simp add: b_def)
  qed
qed

lemma malloc_loop_ok:
  assumes h: "heap_with base st bs F" and g: "sbrk_grows sbrk" and n: "1 \<le> n" "n < 2 ^ 28"
  shows "sbrk (8 * int (max 4096 n)) (brk st) = None \<and> malloc_loop sbrk n (freep st) (ptr st (freep st)) st = Some (0, st)
    \<or> (\<exists>a st' bs' F'. malloc_loop sbrk n (freep st) (ptr st (freep st)) st = Some (a + 8, st') \<and> heap_with base st' bs' F'
         \<and> brk st \<le> brk st' \<and> F \<union> grown st st' = F' \<union> span a n \<and> span a n \<inter> F' = {} \<and> units st' a = n \<and> same_outside base (F \<union> grown st st') st st')"
proof (cases "has_block st bs n")
  case True
  obtain a st' bs' F' where r: "malloc_loop sbrk n (freep st) (ptr st (freep st)) st = Some (a + 8, st')" "heap_with base st' bs' F'" "gives base F st n a st' F'"
    using malloc_loop_fit[OF h True n(1)] by blast
  then have "grown st st' = {}" by (simp add: gives_def grown_def)
  then show ?thesis using r by (intro disjI2 exI[of _ a] exI[of _ st'] exI[of _ bs'] exI[of _ F']) (auto simp: gives_def)
next
  case False
  obtain r where r: "r \<in> set bs" "malloc_loop sbrk n (freep st) (ptr st (freep st)) st = malloc_loop sbrk n r (ptr st r) st"
      "n \<le> units st (ptr st r) \<or> ptr st r = freep st" using malloc_walk[OF h, of sbrk n] by metis
  have "ptr st r \<in> set bs" using heap_ok_next(1)[of base st bs r] h r(1) by (simp add: heap_with_def)
  then have no: "\<not> n \<le> units st (ptr st r)" using False by (auto simp: has_block_def)
  then have at: "malloc_loop sbrk n (freep st) (ptr st (freep st)) st = Option.bind (morecore sbrk n st) (\<lambda>(p', st').
        if p' = 0 then Some (0, st') else malloc_loop sbrk n p' (ptr st' p') st')"
    using r(2,3) by (simp add: malloc_loop.simps[of sbrk n r])
  from morecore_ok[OF h g n(2)] show ?thesis
  proof (elim disjE exE conjE)
    assume "sbrk (8 * int (max 4096 n)) (brk st) = None" "morecore sbrk n st = Some (0, st)"
    then show ?thesis using at by simp
  next
    fix s bs1 assume m: "morecore sbrk n st = Some (freep s, s)" "heap_with base s bs1 (F \<union> grown st s)" "brk st \<le> brk s"
      "same_outside base (F \<union> grown st s) st s" "has_block s bs1 n"
    have "freep s \<noteq> 0" using m(2) heap_ok_block(2)[of base s bs1 "freep s"] by (auto simp: heap_with_def heap_ok_def)
    then have at': "malloc_loop sbrk n (freep st) (ptr st (freep st)) st = malloc_loop sbrk n (freep s) (ptr s (freep s)) s" using at m(1) by simp
    obtain a st' bs' F' where f: "malloc_loop sbrk n (freep s) (ptr s (freep s)) s = Some (a + 8, st')" "heap_with base st' bs' F'"
        "gives base (F \<union> grown st s) s n a st' F'" using malloc_loop_fit[OF m(2,5) n(1)] by blast
    have b: "brk st' = brk s" "grown st st' = grown st s" using f(3) by (simp_all add: gives_def grown_def)
    have "same_outside base (F \<union> grown st s) st st'" using f(3) same_outside_trans[OF m(4)] by (auto simp: gives_def)
    then show ?thesis using f b m(3) at' by (intro disjI2 exI[of _ a] exI[of _ st'] exI[of _ bs'] exI[of _ F']) (auto simp: gives_def)
  qed
qed

section \<open>Programs that allocate\<close>

text \<open>
  The states of a program that calls \<^verbatim>\<open>malloc\<close> and \<^verbatim>\<open>free\<close> in any order, with the blocks it holds (address and requested size).  It frees
  what it holds; requests are below \<open>2\<^sup>3\<^sup>1 - 15\<close> bytes, above which the argument of \<^verbatim>\<open>sbrk\<close> is negative.
\<close>

definition request_max :: nat where "request_max = 2 ^ 31 - 16"

inductive uses :: "sbrk \<Rightarrow> nat \<Rightarrow> uheap \<Rightarrow> (nat \<times> nat) list \<Rightarrow> bool" for sbrk base where
  start: "freep st = 0 \<Longrightarrow> 0 < base \<Longrightarrow> base + 8 \<le> brk st \<Longrightarrow> uses sbrk base st []"
| alloc: "uses sbrk base st live \<Longrightarrow> n \<le> request_max \<Longrightarrow> malloc sbrk base n st = Some (ap, st') \<Longrightarrow> ap \<noteq> 0 \<Longrightarrow> uses sbrk base st' ((ap, n) # live)"
| fail: "uses sbrk base st live \<Longrightarrow> n \<le> request_max \<Longrightarrow> malloc sbrk base n st = Some (0, st') \<Longrightarrow> uses sbrk base st' live"
| release: "uses sbrk base st (xs @ (ap, n) # ys) \<Longrightarrow> free ap st = Some st' \<Longrightarrow> uses sbrk base st' (xs @ ys)"

abbreviation block_of :: "nat \<times> nat \<Rightarrow> nat set" where
  "block_of x \<equiv> span (fst x - 8) (nunits_of (snd x))"

definition live_ok :: "nat \<Rightarrow> uheap \<Rightarrow> nat set \<Rightarrow> (nat \<times> nat) list \<Rightarrow> bool" where
  "live_ok base st F live \<longleftrightarrow>
     sorted_wrt (\<lambda>x y. block_of x \<inter> block_of y = {}) live
     \<and> (\<forall>x\<in>set live. base + 16 \<le> fst x \<and> units st (fst x - 8) = nunits_of (snd x) \<and> snd x \<le> request_max
          \<and> block_of x \<inter> F = {} \<and> fst x - 8 + 8 * nunits_of (snd x) \<le> brk st)"

lemma nunits_of_le: "n \<le> request_max \<Longrightarrow> 1 \<le> nunits_of n \<and> nunits_of n < 2 ^ 28 \<and> n + 8 \<le> 8 * nunits_of n"
  by (auto simp: nunits_of_def request_max_def less_mult_imp_div_less)

lemma malloc_init_ok:
  "heap_with base st bs F \<Longrightarrow> malloc_init base st = st"
  "freep st = 0 \<Longrightarrow> 0 < base \<Longrightarrow> base + 8 \<le> brk st \<Longrightarrow> heap_with base (malloc_init base st) [base] {}"
  using heap_ok_block(2)[of base st bs "freep st"]
  by (auto simp: heap_with_def heap_ok_def malloc_init_def circle_def free_set_def span_def)

text \<open>No header that is written overlaps the bytes of a block that the program holds.\<close>

abbreviation data_of :: "nat \<times> nat \<Rightarrow> nat set" where
  "data_of x \<equiv> {fst x..<fst x + snd x}"

definition keeps_data :: "(nat \<times> nat) list \<Rightarrow> uheap \<Rightarrow> uheap \<Rightarrow> bool" where
  "keeps_data live st st' \<longleftrightarrow> (\<forall>x\<in>set live. \<forall>y. span y 1 \<inter> data_of x \<noteq> {} \<longrightarrow> hdr st' y = hdr st y)"

lemma data_in_block: "snd x \<le> request_max \<Longrightarrow> 8 \<le> fst x \<Longrightarrow> data_of x \<subseteq> block_of x"
  using nunits_of_le[of "snd x"] by (auto simp: span_def)

lemma keeps_dataI:
  assumes "live_ok base st F live" "set live' \<subseteq> set live" "\<And>x. x \<in> set live' \<Longrightarrow> block_of x \<inter> G = {}" "same_outside base G st st'"
  shows "keeps_data live' st st'"
  unfolding keeps_data_def
proof (intro ballI allI impI)
  fix x y assume x: "x \<in> set live'" and y: "span y 1 \<inter> data_of x \<noteq> {}"
  have l: "base + 16 \<le> fst x" "snd x \<le> request_max" using assms(1,2) x by (auto simp: live_ok_def)
  then have "\<not> span y 1 \<subseteq> G" using y data_in_block[of x] assms(3)[OF x] by fastforce
  moreover have "y \<noteq> base" using y l(1) by (auto simp: span_def)
  ultimately show "hdr st' y = hdr st y" using assms(4) by (simp add: same_outside_def)
qed

lemma live_hdr:
  assumes "live_ok base st F live" "x \<in> set live" "block_of x \<inter> G = {}" "same_outside base G st st'"
  shows "units st' (fst x - 8) = nunits_of (snd x)"
proof -
  have l: "base + 16 \<le> fst x" "units st (fst x - 8) = nunits_of (snd x)" "snd x \<le> request_max" using assms(1,2) by (auto simp: live_ok_def)
  have "span (fst x - 8) 1 \<subseteq> block_of x" using nunits_of_le[OF l(3)] span_hdr(1) by simp
  then have "\<not> span (fst x - 8) 1 \<subseteq> G" using assms(3) span_hdr(2)[of "fst x - 8"] by blast
  moreover have "fst x - 8 \<noteq> base" using l(1) by simp
  ultimately show ?thesis using assms(4) l(2) by (simp add: same_outside_def)
qed

lemma malloc_live:
  assumes h: "heap_with base st bs F" and l: "live_ok base st F live" and g: "sbrk_grows sbrk" and n: "n \<le> request_max"
  shows "sbrk (8 * int (max 4096 (nunits_of n))) (brk st) = None \<and> malloc sbrk base n st = Some (0, st)
    \<or> (\<exists>ap st' bs' F'. malloc sbrk base n st = Some (ap, st') \<and> ap \<noteq> 0 \<and> heap_with base st' bs' F' \<and> live_ok base st' F' ((ap, n) # live) \<and> keeps_data live st st')"
proof -
  have m: "malloc sbrk base n st = malloc_loop sbrk (nunits_of n) (freep st) (ptr st (freep st)) st" by (simp add: malloc_def malloc_init_ok(1)[OF h])
  have u: "1 \<le> nunits_of n" "nunits_of n < 2 ^ 28" using nunits_of_le[OF n] by auto
  from malloc_loop_ok[OF h g u] show ?thesis unfolding m[symmetric]
  proof (elim disjE exE conjE)
    fix a st' bs' F' assume r: "malloc sbrk base n st = Some (a + 8, st')" "heap_with base st' bs' F'"
      "brk st \<le> brk st'" "F \<union> grown st st' = F' \<union> span a (nunits_of n)" "span a (nunits_of n) \<inter> F' = {}" "units st' a = nunits_of n"
      "same_outside base (F \<union> grown st st') st st'"
    have ok: "heap_ok base st bs" "free_set st bs = F" using h by (auto simp: heap_with_def)
    have lo: "base + 8 \<le> x \<and> x < brk st'" if "x \<in> F \<union> grown st st'" for x
      using that free_below[OF ok(1)] ok r(3) by (auto simp: grown_def heap_ok_def intro: less_le_trans)
    have "a \<in> span a (nunits_of n)" "a + 8 * nunits_of n - 1 \<in> span a (nunits_of n)" using u by (auto simp: span_def)
    then have a: "base + 8 \<le> a" "a + 8 * nunits_of n \<le> brk st'" using lo[of a] lo[of "a + 8 * nunits_of n - 1"] r(4) by auto
    have old: "block_of x \<inter> (F \<union> grown st st') = {}" if x: "x \<in> set live" for x using l x by (fastforce simp: live_ok_def span_def grown_def)
    have hdrs: "units st' (fst x - 8) = nunits_of (snd x)" if x: "x \<in> set live" for x by (rule live_hdr[OF l x old[OF x] r(7)])
    have "keeps_data live st st'" by (rule keeps_dataI[OF l order_refl old r(7)])
    moreover have "live_ok base st' F' ((a + 8, n) # live)" using l old hdrs r(3-6) a n unfolding live_ok_def
      by (auto intro: order_trans)
    ultimately show ?thesis using r(1,2) by (intro disjI2 exI[of _ "a + 8"] exI[of _ st'] exI[of _ bs'] exI[of _ F']) simp
  qed simp
qed

lemma free_live:
  assumes h: "heap_with base st bs F" and l: "live_ok base st F (xs @ (ap, n) # ys)"
  shows "\<exists>st' bs' F'. free ap st = Some st' \<and> heap_with base st' bs' F' \<and> live_ok base st' F' (xs @ ys) \<and> keeps_data (xs @ ys) st st'"
proof -
  define bp where "bp = ap - 8"
  have b: "base + 16 \<le> ap" "units st bp = nunits_of n" "n \<le> request_max" "span bp (nunits_of n) \<inter> F = {}" "bp + 8 * nunits_of n \<le> brk st"
    using l by (auto simp: live_ok_def bp_def)
  then have u: "base + 8 \<le> bp" "1 \<le> nunits_of n" "ap = bp + 8" using nunits_of_le[OF b(3)] by (auto simp: bp_def)
  obtain st' bs' where r: "free ap st = Some st'" "heap_with base st' bs' (F \<union> span bp (nunits_of n))" "brk st' = brk st"
      "same_outside base (F \<union> span bp (nunits_of n)) st st'"
    using free_ok[OF h u(1)] u b by auto
  have other: "block_of x \<inter> (F \<union> span bp (nunits_of n)) = {}" if "x \<in> set (xs @ ys)" for x
    using l that by (fastforce simp: live_ok_def sorted_wrt_append bp_def)
  have keep: "keeps_data (xs @ ys) st st'" by (rule keeps_dataI[OF l _ other r(4)]) auto
  have "units st' (fst x - 8) = nunits_of (snd x)" if x: "x \<in> set (xs @ ys)" for x
    using live_hdr[OF l _ other[OF x] r(4)] x by auto
  then have "live_ok base st' (F \<union> span bp (nunits_of n)) (xs @ ys)" using l other r(3) unfolding live_ok_def by (auto simp: sorted_wrt_append)
  then show ?thesis using r(1,2) keep by blast
qed

text \<open>The invariant of every program: either nothing was allocated yet, or the heap is well formed and apart from the held blocks.\<close>

definition arena :: "nat \<Rightarrow> uheap \<Rightarrow> (nat \<times> nat) list \<Rightarrow> bool" where
  "arena base st live \<longleftrightarrow>
     (\<exists>bs F. heap_with base (malloc_init base st) bs F \<and> live_ok base (malloc_init base st) F live) \<and> (freep st = 0 \<longrightarrow> live = [])"

lemma arena_malloc:
  assumes a: "arena base st live" and g: "sbrk_grows sbrk" and n: "n \<le> request_max"
  shows "sbrk (8 * int (max 4096 (nunits_of n))) (brk st) = None \<and> malloc sbrk base n st = Some (0, malloc_init base st) \<and> arena base (malloc_init base st) live
    \<or> (\<exists>ap st'. malloc sbrk base n st = Some (ap, st') \<and> ap \<noteq> 0 \<and> arena base st' ((ap, n) # live) \<and> keeps_data live st st')"
proof -
  let ?s = "malloc_init base st"
  obtain bs F where h: "heap_with base ?s bs F" "live_ok base ?s F live" using a by (auto simp: arena_def)
  have i: "malloc_init base ?s = ?s" by (rule malloc_init_ok(1)[OF h(1)])
  then have m: "malloc sbrk base n st = malloc sbrk base n ?s" by (simp add: malloc_def)
  have k: "keeps_data live ?s st' = keeps_data live st st'" for st' using a by (auto simp: arena_def malloc_init_def keeps_data_def)
  have nz: "freep st' \<noteq> 0" if "heap_with base st' bs' F'" for st' bs' F'
    using that heap_ok_block(2)[of base st' bs' "freep st'"] by (auto simp: heap_with_def heap_ok_def)
  have "brk ?s = brk st" by (simp add: malloc_init_def)
  then show ?thesis using malloc_live[OF h g n] unfolding m k arena_def by (metis h i malloc_init_ok(1) nz)
qed

lemma arena_free:
  assumes "arena base st (xs @ (ap, n) # ys)"
  shows "\<exists>st'. free ap st = Some st' \<and> arena base st' (xs @ ys) \<and> keeps_data (xs @ ys) st st'"
proof -
  have i: "malloc_init base st = st" using assms by (auto simp: arena_def malloc_init_def)
  then obtain bs F where h: "heap_with base st bs F" "live_ok base st F (xs @ (ap, n) # ys)" using assms by (auto simp: arena_def)
  obtain st' bs' F' where r: "free ap st = Some st'" "heap_with base st' bs' F'" "live_ok base st' F' (xs @ ys)" "keeps_data (xs @ ys) st st'"
    using free_live[OF h] by blast
  have "freep st' \<noteq> 0" using r(2) heap_ok_block(2)[of base st' bs' "freep st'"] by (auto simp: heap_with_def heap_ok_def)
  then show ?thesis using r malloc_init_ok(1)[OF r(2)] by (auto simp: arena_def)
qed

lemma uses_arena:
  assumes "uses sbrk base st live" "sbrk_grows sbrk"
  shows "arena base st live"
  using assms
proof (induction rule: uses.induct)
  case (start st)
  then show ?case using malloc_init_ok(2)[of st base] by (auto simp: arena_def live_ok_def)
next
  case (alloc st live n ap st')
  then show ?case using arena_malloc[of base st live sbrk n] by auto
next
  case (fail st live n st')
  then show ?case using arena_malloc[of base st live sbrk n] by auto
next
  case (release st xs ap n ys st')
  then show ?case using arena_free[of base st xs ap n ys] by auto
qed

text \<open>
  C11: A program that calls \<^verbatim>\<open>malloc\<close> and \<^verbatim>\<open>free\<close> in any order holds blocks that have the requested sizes, lie within its memory and are pairwise
  disjoint.  In each of its states \<^verbatim>\<open>malloc\<close> returns for every request below the limit, and with a null pointer only when \<^verbatim>\<open>sbrk\<close> fails;
  \<^verbatim>\<open>free\<close> returns for every block that is held; and no header that they write overlaps the bytes of a block that stays held.
\<close>

theorem malloc_blocks:
  assumes "uses sbrk base st live" "sbrk_grows sbrk"
  shows "sorted_wrt (\<lambda>x y. data_of x \<inter> data_of y = {}) live
    \<and> (\<forall>x\<in>set live. base + 16 \<le> fst x \<and> fst x + snd x \<le> brk st)
    \<and> (\<forall>n\<le>request_max. \<exists>ap st'. malloc sbrk base n st = Some (ap, st') \<and> keeps_data live st st'
         \<and> (ap = 0 \<longrightarrow> sbrk (8 * int (max 4096 (nunits_of n))) (brk st) = None))
    \<and> (\<forall>xs ap n ys. live = xs @ (ap, n) # ys \<longrightarrow> (\<exists>st'. free ap st = Some st' \<and> keeps_data (xs @ ys) st st'))"
proof (intro conjI allI impI)
  have a: "arena base st live" by (rule uses_arena[OF assms])
  then obtain F where "live_ok base (malloc_init base st) F live" by (auto simp: arena_def)
  moreover have "brk (malloc_init base st) = brk st" by (simp add: malloc_init_def)
  ultimately have s: "sorted_wrt (\<lambda>x y. block_of x \<inter> block_of y = {}) live"
    and l: "\<And>x. x \<in> set live \<Longrightarrow> base + 16 \<le> fst x \<and> snd x \<le> request_max \<and> fst x - 8 + 8 * nunits_of (snd x) \<le> brk st" by (auto simp: live_ok_def)
  have sub: "data_of x \<subseteq> block_of x" if "x \<in> set live" for x using data_in_block l[OF that] by simp
  show "sorted_wrt (\<lambda>x y. data_of x \<inter> data_of y = {}) live"
    by (rule sorted_wrt_mono_rel[OF _ s]) (use sub in blast)
  show "\<forall>x\<in>set live. base + 16 \<le> fst x \<and> fst x + snd x \<le> brk st" using l nunits_of_le by fastforce
  have "keeps_data live st (malloc_init base st)" using a by (auto simp: arena_def malloc_init_def keeps_data_def)
  then show "\<exists>ap st'. malloc sbrk base n st = Some (ap, st') \<and> keeps_data live st st'
      \<and> (ap = 0 \<longrightarrow> sbrk (8 * int (max 4096 (nunits_of n))) (brk st) = None)" if "n \<le> request_max" for n
    using arena_malloc[OF a assms(2) that] by blast
  show "\<exists>st'. free ap st = Some st' \<and> keeps_data (xs @ ys) st st'" if "live = xs @ (ap, n) # ys" for xs ap n ys
    using arena_free a that by blast
qed

definition sbrk_upto :: "nat \<Rightarrow> sbrk" where
  "sbrk_upto lim k b = (if 0 \<le> k \<and> b + nat k \<le> lim then Some (b, b + nat k) else None)"

definition fresh_heap :: uheap where
  "fresh_heap = \<lparr>hdr = (\<lambda>_. \<lparr>h_ptr = 0, h_size = 0\<rparr>), freep = 0, brk = 4096\<rparr>"

definition used_heap :: uheap where
  "used_heap = \<lparr>hdr = (\<lambda>_. \<lparr>h_ptr = 0, h_size = 0\<rparr>)(1024 := \<lparr>h_ptr = 4096, h_size = 0\<rparr>, 4096 := \<lparr>h_ptr = 1024, h_size = 4082\<rparr>,
     36752 := \<lparr>h_ptr = 0, h_size = 14\<rparr>), freep = 1024, brk = 36864\<rparr>"

lemma sbrk_upto_grows: "sbrk_grows (sbrk_upto lim)"
  by (simp add: sbrk_grows_def sbrk_upto_def)

lemma fresh_malloc: "malloc (sbrk_upto 100000) 1024 100 fresh_heap = Some (36760, used_heap)"
proof -
  have n: "nunits_of 100 = 14" by (simp add: nunits_of_def)
  let ?s = "malloc_init 1024 fresh_heap"
  let ?m = "\<lparr>hdr = (\<lambda>_. \<lparr>h_ptr = 0, h_size = 0\<rparr>)(1024 := \<lparr>h_ptr = 4096, h_size = 0\<rparr>, 4096 := \<lparr>h_ptr = 1024, h_size = 4096\<rparr>), freep = 1024, brk = 36864\<rparr>"
  have mc: "morecore (sbrk_upto 100000) 14 ?s = Some (1024, ?m)"
    by (simp add: morecore_def sbrk_upto_def malloc_init_def fresh_heap_def free_def free_find.simps[of _ _ 1024] free_join_def fun_upd_twist sint_bytes[of 4096, simplified])
  have "malloc_loop (sbrk_upto 100000) 14 1024 1024 ?s = malloc_loop (sbrk_upto 100000) 14 1024 4096 ?m"
    by (subst malloc_loop.simps, subst mc) (simp add: malloc_init_def fresh_heap_def)
  also have "\<dots> = Some (36760, used_heap)" by (subst malloc_loop.simps) (simp add: malloc_take_def used_heap_def fun_upd_twist)
  finally show ?thesis by (simp add: malloc_def n malloc_init_def fresh_heap_def)
qed

theorem malloc_blocks_witness:
  "uses (sbrk_upto 100000) 1024 used_heap [(36760, 100)] \<and> sbrk_grows (sbrk_upto 100000)
    \<and> (\<exists>st'. free 36760 used_heap = Some st' \<and> keeps_data [] used_heap st')"
proof -
  have "uses (sbrk_upto 100000) 1024 fresh_heap []" by (rule uses.start) (simp_all add: fresh_heap_def)
  then have u: "uses (sbrk_upto 100000) 1024 used_heap [(36760, 100)]" by (rule uses.alloc[OF _ _ fresh_malloc]) (simp_all add: request_max_def)
  then show ?thesis using malloc_blocks[OF u sbrk_upto_grows] sbrk_upto_grows by (metis append_Nil)
qed

end
