(* ===== verification/Spec2Isabelle.thy ===== *)
theory Spec2Isabelle
  imports Ide Boot Grep Umalloc
begin

text \<open>
  A verification library for the xv6 kernel of this repository (\<^verbatim>\<open>src/Xv6\<close>), a Unix-like kernel for x86
  multiprocessors with process priorities, user and group numbers and a few more system calls added to it.

  \<^bold>\<open>How code is modelled.\<close>  A piece of kernel code is a function from the kernel state to an \<open>outcome\<close>
  (theory \<open>Prelude\<close>): it returns a value and a new state, it panics with a message, it spins for ever on a lock
  another CPU holds, it gives up the CPU (\<open>Blocked\<close>, with the state in which the scheduler takes over), or it does
  something C does not define (\<open>Fault\<close>, such as following a null pointer).  Code is sequenced with \<open>kbind\<close> and
  \<open>kthen\<close>; a C loop over a table is \<open>kfor\<close> or \<open>kfor_ret\<close>, any other loop is a recursive function with its
  termination proof.  Where a function sleeps, its continuation after the context switch is a definition of its own,
  with the suffix \<open>_resume\<close>.  The state is a record that grows along the imports, each component adding the
  variables it owns: \<open>hw\<close> (CPUs, interrupt flags, locks), \<open>ksys\<close> (console output), \<open>kphys\<close> (physical memory and
  the free list), \<open>kvm\<close> (page directories), \<open>kpr\<close> (process table), \<open>kdev\<close> (ports), \<open>kslp\<close> (sleep locks), \<open>kbio\<close>
  (buffers and disk), \<open>klog\<close> (log), \<open>kfs\<close> (super block and inode cache), \<open>kcons\<close> (input buffer and
  device switch), \<open>kpipe\<close> (pipes).  Machine integers are words of their width; addresses are natural
  numbers below \<open>2 ^ 32\<close>.

  \<^bold>\<open>Parts.\<close>
  \<^item> \<open>Spinlock\<close> (\<^verbatim>\<open>spinlock.c\<close>): \<^verbatim>\<open>acquire\<close>, \<^verbatim>\<open>release\<close>, \<^verbatim>\<open>pushcli\<close>, \<^verbatim>\<open>popcli\<close>, and a step relation in which the
    CPUs interleave at single memory accesses.  Shown: mutual exclusion, and that nested sections restore the
    interrupt flag.
  \<^item> \<open>CString\<close> (\<^verbatim>\<open>string.c\<close>, parts of \<^verbatim>\<open>ulib.c\<close>), \<open>Cprintf\<close> (\<^verbatim>\<open>printf.c\<close> and the formatting of
    \<^verbatim>\<open>console.c\<close>), \<open>Klib\<close>: the byte routines on a byte-addressed memory, and the text printed by format strings.
  \<^item> \<open>Kalloc\<close> and \<open>Vm\<close> (\<^verbatim>\<open>kalloc.c\<close>, \<^verbatim>\<open>vm.c\<close>): the free list threaded through free pages, two-level page
    tables in the same memory, and the operations on user address spaces.
  \<^item> \<open>Proc\<close> (\<^verbatim>\<open>proc.c\<close>): the process table, the priority scheduler, sleeping and waking, waiting and killing.
  \<^item> \<open>Device\<close>, \<open>Ide\<close>, \<open>Console\<close> (\<^verbatim>\<open>lapic.c\<close>, \<^verbatim>\<open>ioapic.c\<close>, \<^verbatim>\<open>picirq.c\<close>, \<^verbatim>\<open>mp.c\<close>, \<^verbatim>\<open>uart.c\<close>, \<^verbatim>\<open>kbd.c\<close>,
    \<^verbatim>\<open>ide.c\<close>, \<^verbatim>\<open>console.c\<close>): what the drivers read from and write to ports, and the console's line editor.
  \<^item> \<open>Sleeplock\<close>, \<open>Bio\<close>, \<open>Log\<close>, \<open>Transact\<close> (\<^verbatim>\<open>sleeplock.c\<close>, \<^verbatim>\<open>bio.c\<close>, \<^verbatim>\<open>memide.c\<close>, \<^verbatim>\<open>log.c\<close>): the buffer
    cache over the memory disk, the write-ahead log, and whole transactions.  \<open>lblk s\<close> is what the cache and the disk
    together hold of each block.
  \<^item> \<open>Fsformat\<close>, \<open>Balloc\<close>, \<open>Inode\<close>, \<open>Dir\<close> (\<^verbatim>\<open>fs.h\<close>, \<^verbatim>\<open>fs.c\<close>): the layout of the disk, the block bitmap, the inode cache,
    file contents, directories and path names.
  \<^item> \<open>Ring\<close>, \<open>Pipe\<close> (\<^verbatim>\<open>pipe.c\<close>): ring buffers with free-running indices, and the pipes built on them.
\<close>

end
